(* ===== verification/Prelude.thy ===== *)
theory Prelude
  imports Main "HOL-Library.Word"
begin

text \<open>
  Shared base of the development: the types of the Go values the model uses, the collections
  of rewrite rules the component theories extend, and generic facts on lists and words.

  Go's byte is an 8-bit word. Go's uint64, int64 and int (64-bit targets) are 64-bit words:
  uint64 values are read with \<open>unat\<close>, int64 and int values with \<open>sint\<close>, and a
  Go conversion between the three is the identity on the bit pattern. Strings and byte slices
  are byte lists. A float64 is its IEEE bit pattern (math.Float64bits and Float64frombits are
  the identity), since the code only moves it. Lengths and offsets into a slice are naturals.
\<close>

unbundle bit_operations_syntax

type_synonym byte = "8 word"
type_synonym u64 = "64 word"
type_synonym goint = "64 word"
type_synonym float64 = "64 word"
type_synonym bytes = "byte list"

text \<open>Go's int limit on the length of a slice or string.\<close>

definition max_len :: nat where
  "max_len = 2 ^ 63"

text \<open>A run-time panic of Go, kept apart from errors returned as values.\<close>

datatype go_panic = MakeSliceLen goint | SliceBounds | SendOnClosed

named_theorems wire_app \<open>appending to a buffer is appending the encoding of the value\<close>
named_theorems wire_rd \<open>reading back what was appended\<close>
named_theorems dec_frame \<open>which fields of a decoder an operation leaves alone\<close>

section \<open>Lists\<close>

lemma drop_eq_appendD: "drop off buf = xs @ rest \<Longrightarrow> drop (off + length xs) buf = rest"
proof -
  assume "drop off buf = xs @ rest"
  then have "drop (length xs) (drop off buf) = rest" by simp
  then show ?thesis by (simp add: add.commute)
qed

lemma drop_eq_append_length:
  "drop off buf = xs @ rest \<Longrightarrow> xs \<noteq> [] \<Longrightarrow> off + length xs + length rest = length buf"
proof -
  assume d: "drop off buf = xs @ rest" and ne: "xs \<noteq> []"
  have "length (drop off buf) = length xs + length rest" using d by simp
  moreover have "off < length buf"
  proof (rule ccontr)
    assume "\<not> off < length buf"
    then have "drop off buf = []" by simp
    with d ne show False by simp
  qed
  ultimately show ?thesis by simp
qed

lemma drop_eq_append_le:
  "drop off buf = xs @ rest \<Longrightarrow> off \<le> length buf \<Longrightarrow> off + length xs \<le> length buf"
proof -
  assume d: "drop off buf = xs @ rest" and le: "off \<le> length buf"
  have "length (drop off buf) = length xs + length rest" using d by simp
  with le show ?thesis by simp
qed

lemma drop_eq_Cons_nth: "drop off buf = x # rest \<Longrightarrow> off < length buf \<and> buf ! off = x"
  by (metis drop_eq_Nil2 leI list.distinct(1) list.inject Cons_nth_drop_Suc)

lemma drop_eq_append_nth:
  assumes "drop off buf = xs @ rest" "i < length xs"
  shows "buf ! (off + i) = xs ! i"
proof -
  have "length (drop off buf) = length xs + length rest" using assms(1) by simp
  with assms(2) have "i < length buf - off" by simp
  then have "drop off buf ! i = buf ! (off + i)" by simp
  with assms show ?thesis by (simp add: nth_append)
qed

lemma concat_map_snoc [simp]: "concat (map f (xs @ [x])) = concat (map f xs) @ f x"
  by simp

lemma drop_eq_lengthD: "drop off buf = xs \<Longrightarrow> length buf - off = length xs"
  by auto

lemma find_key_set:
  assumes "distinct (map f xs)" "set ys = set xs"
  shows "find (\<lambda>c. f c = t) ys = find (\<lambda>c. f c = t) xs"
proof (cases "find (\<lambda>c. f c = t) xs")
  case None
  then have "find (\<lambda>c. f c = t) ys = None" using assms(2) by (simp add: find_None_iff)
  with None show ?thesis by simp
next
  case (Some c)
  then have c: "c \<in> set xs" "f c = t" by (auto simp: find_Some_iff)
  with assms(2) obtain c' where c': "find (\<lambda>c. f c = t) ys = Some c'" by (cases "find (\<lambda>c. f c = t) ys") (auto simp: find_None_iff)
  then have "c' \<in> set xs" "f c' = t" using assms(2) by (auto simp: find_Some_iff)
  with c assms(1) have "c' = c" by (auto simp: distinct_map dest: inj_onD)
  with Some c' show ?thesis by simp
qed

section \<open>Words\<close>

lemma unat_le_max_len: "n < max_len \<Longrightarrow> unat (of_nat n :: u64) = n"
  by (simp add: max_len_def unat_of_nat take_bit_nat_eq_self)

lemma unat_drop_bit_less: "0 < n \<Longrightarrow> v \<noteq> 0 \<Longrightarrow> unat (drop_bit n (v :: u64)) < unat v"
proof -
  assume n: "0 < n" and "v \<noteq> 0"
  then have pos: "0 < unat v" by (simp add: unat_gt_0)
  have "unat (drop_bit n v) = unat v div 2 ^ n"
    by (simp only: unat_drop_bit_eq drop_bit_eq_div [of n "unat v"])
  moreover have "(1::nat) < 2 ^ n" using n by (rule one_less_power [OF one_less_numeral_iff [THEN iffD2], rotated]) simp
  ultimately show ?thesis using pos by simp
qed

lemma nat_sint: "0 \<le> sint (c :: u64) \<Longrightarrow> nat (sint c) = unat c"
proof -
  assume c: "0 \<le> sint c"
  have "sint c < 2 ^ 63" using sint_less [of c] by simp
  then have "take_bit 64 (sint c) = sint c" using c by (simp add: take_bit_int_eq_self_iff)
  then have "uint c = sint c" using uint_sint [of c] by simp
  then show ?thesis by (simp add: unat_eq_nat_uint)
qed

lemma sint_less_0_iff: "sint (c :: u64) < 0 \<longleftrightarrow> 2 ^ 63 \<le> unat c"
proof (cases "sint c < 0")
  case True
  have ge: "- (2 ^ 63) \<le> sint c" using sint_ge [of c] by simp
  have "uint c = sint c mod 2 ^ 64" using uint_sint [of c] by (simp add: take_bit_eq_mod)
  also have "\<dots> = (sint c + 2 ^ 64) mod 2 ^ 64" by simp
  also have "\<dots> = sint c + 2 ^ 64" using True ge by (intro mod_pos_pos_trivial) simp_all
  finally have "2 ^ 63 \<le> uint c" using ge by simp
  then have "nat (2 ^ 63) \<le> unat c" unfolding unat_eq_nat_uint by (rule nat_mono)
  then show ?thesis using True by (simp add: nat_power_eq)
next
  case False
  have "sint c < 2 ^ 63" using sint_less [of c] by simp
  with False nat_sint [of c] show ?thesis by simp
qed

lemma small_words [simp]: "\<not> (128 :: u64) \<le> 1" "(1 :: u64) < 128" "(1 :: byte) < 128"
  by (simp_all add: word_le_nat_alt word_less_nat_alt)

end
