(* ===== verification/Wire.thy ===== *)
theory Wire
  imports Prelude
begin

text \<open>
  The primitive wire formats of pkg/lux/codec/wire.go: unsigned and zigzag varints, fixed
  64-bit floats, length-prefixed bytes and strings, booleans, array headers, the nullable flag
  and 16-byte UUIDs. Every Append function takes the buffer it appends to and returns the new
  one; every Read function takes the buffer and an offset and returns the value and the number
  of bytes consumed, where 0 (or -1 for a varint that overflows) means failure.

  The locale at the end states what the rest of the codec relies on in a pair of an Append and
  a Read function, and every format is an interpretation of it.
\<close>

definition MaxArrayElements :: int where
  "MaxArrayElements = 1000000"

definition MaxColumnarRecords :: nat where
  "MaxColumnarRecords = 10000000"

section \<open>Varints\<close>

function AppendVarint :: "bytes \<Rightarrow> u64 \<Rightarrow> bytes" where
  "AppendVarint dst v =
     (if v \<ge> 0x80 then AppendVarint (dst @ [ucast v OR 0x80]) (drop_bit 7 v)
      else dst @ [ucast v])"
  by pat_completeness auto
termination
  by (relation "measure (\<lambda>(dst, v). unat v)") (auto intro!: unat_drop_bit_less)

declare AppendVarint.simps [simp del]

text \<open>The loop of ReadVarint over the bytes from the offset on; k counts the bytes read.\<close>

fun ReadVarint_loop :: "bytes \<Rightarrow> u64 \<Rightarrow> nat \<Rightarrow> nat \<Rightarrow> u64 \<times> int" where
  "ReadVarint_loop [] v shift k = (0, 0)"
| "ReadVarint_loop (b # bs) v shift k =
     (let v' = v OR push_bit shift (ucast (b AND 0x7F)) in
      if b < 0x80 then (v', int k + 1)
      else if shift + 7 \<ge> 64 then (0, -1)
      else ReadVarint_loop bs v' (shift + 7) (k + 1))"

definition ReadVarint :: "bytes \<Rightarrow> nat \<Rightarrow> u64 \<times> int" where
  "ReadVarint buf off = ReadVarint_loop (drop off buf) 0 0 0"

text \<open>The zigzag mapping, written inline in AppendSvarint and ReadSvarint.\<close>

definition zigzag :: "goint \<Rightarrow> u64" where
  "zigzag v = push_bit 1 v XOR signed_drop_bit 63 v"

definition unzigzag :: "u64 \<Rightarrow> goint" where
  "unzigzag uv = drop_bit 1 uv XOR - (uv AND 1)"

definition AppendSvarint :: "bytes \<Rightarrow> goint \<Rightarrow> bytes" where
  "AppendSvarint dst v = AppendVarint dst (zigzag v)"

definition ReadSvarint :: "bytes \<Rightarrow> nat \<Rightarrow> goint \<times> int" where
  "ReadSvarint buf off =
     (case ReadVarint buf off of (uv, n) \<Rightarrow>
        if n \<le> 0 then (0, 0) else (unzigzag uv, n))"

section \<open>Fixed-width values\<close>

text \<open>binary.LittleEndian.PutUint64 and Uint64 of the Go standard library.\<close>

definition PutUint64LE :: "u64 \<Rightarrow> bytes" where
  "PutUint64LE v = map (\<lambda>i. ucast (drop_bit (8 * i) v)) [0..<8]"

definition Uint64LE :: "bytes \<Rightarrow> u64" where
  "Uint64LE b = fold (\<lambda>i acc. acc OR push_bit (8 * i) (ucast (b ! i))) [0..<8] 0"

definition AppendFixed64 :: "bytes \<Rightarrow> float64 \<Rightarrow> bytes" where
  "AppendFixed64 dst v = dst @ PutUint64LE v"

definition ReadFixed64 :: "bytes \<Rightarrow> nat \<Rightarrow> float64 \<times> int" where
  "ReadFixed64 buf off =
     (if off + 8 > length buf then (0, 0) else (Uint64LE (drop off buf), 8))"

section \<open>Length-prefixed bytes and strings\<close>

definition AppendBytes :: "bytes \<Rightarrow> bytes \<Rightarrow> bytes" where
  "AppendBytes dst v = AppendVarint dst (of_nat (length v)) @ v"

definition AppendString :: "bytes \<Rightarrow> bytes \<Rightarrow> bytes" where
  "AppendString dst v = AppendVarint dst (of_nat (length v)) @ v"

text \<open>The comparison of the length with uint64(len(buf)) is made on naturals: no slice has
  2^64 bytes, so the conversion is exact.\<close>

definition ReadBytes :: "bytes \<Rightarrow> nat \<Rightarrow> bytes \<times> int" where
  "ReadBytes buf off =
     (case ReadVarint buf off of (len, n) \<Rightarrow>
        if n \<le> 0 then ([], 0)
        else if unat len > length buf then ([], 0)
        else let start = off + nat n; end' = start + unat len in
             if end' > length buf then ([], 0)
             else (take (unat len) (drop start buf), n + int (unat len)))"

definition ReadString :: "bytes \<Rightarrow> nat \<Rightarrow> bytes \<times> int" where
  "ReadString buf off =
     (case ReadBytes buf off of (b, n) \<Rightarrow> if n = 0 then ([], 0) else (b, n))"

section \<open>Booleans, array headers, the nullable flag, UUIDs\<close>

definition AppendBool :: "bytes \<Rightarrow> bool \<Rightarrow> bytes" where
  "AppendBool dst v = (if v then dst @ [1] else dst @ [0])"

text \<open>The test for a negative offset is empty here: offsets are naturals.\<close>

definition ReadBool :: "bytes \<Rightarrow> nat \<Rightarrow> bool \<times> int" where
  "ReadBool buf off =
     (if off \<ge> length buf then (False, 0)
      else if buf ! off = 0 then (False, 1)
      else if buf ! off = 1 then (True, 1)
      else (False, 0))"

definition AppendArrayHeader :: "bytes \<Rightarrow> goint \<Rightarrow> bytes" where
  "AppendArrayHeader dst count = AppendVarint dst count"

definition ReadArrayHeader :: "bytes \<Rightarrow> nat \<Rightarrow> goint \<times> int" where
  "ReadArrayHeader buf off =
     (case ReadVarint buf off of (v, n) \<Rightarrow> if n \<le> 0 then (0, 0) else (v, n))"

definition AppendNull :: "bytes \<Rightarrow> bytes" where
  "AppendNull dst = dst @ [0x00]"

definition AppendPresent :: "bytes \<Rightarrow> bytes" where
  "AppendPresent dst = dst @ [0x01]"

definition ReadNullable :: "bytes \<Rightarrow> nat \<Rightarrow> bool \<times> int" where
  "ReadNullable buf off =
     (if off \<ge> length buf then (False, 0)
      else if buf ! off = 0 then (False, 1)
      else if buf ! off = 1 then (True, 1)
      else (False, 0))"

definition AppendUUID :: "bytes \<Rightarrow> bytes \<Rightarrow> bytes" where
  "AppendUUID dst v = dst @ v"

definition ReadUUID :: "bytes \<Rightarrow> nat \<Rightarrow> bytes \<times> int" where
  "ReadUUID buf off =
     (if off > length buf \<or> length buf - off < 16 then (replicate 16 0, 0)
      else (take 16 (drop off buf), 16))"

text \<open>A Go slice is shorter than 2^63; a UUID is a 16-byte array.\<close>

definition len_ok :: "'a list \<Rightarrow> bool" where
  "len_ok v = (length v < max_len)"

definition uuid_ok :: "bytes \<Rightarrow> bool" where
  "uuid_ok u = (length u = 16)"

section \<open>The varint loop, bit by bit\<close>

lemma unat_u64_less: "unat (v::u64) < 2 ^ 64"
  using unsigned_less [of v] by simp

lemma AppendVarint_app: "AppendVarint dst v = dst @ AppendVarint [] v"
proof (induction "unat v" arbitrary: v dst rule: less_induct)
  case less
  show ?case
  proof (cases "v \<ge> 0x80")
    case True
    then have "v \<noteq> 0" by auto
    then have "unat (drop_bit 7 v) < unat v" by (simp add: unat_drop_bit_less)
    note IH = less.hyps [OF this]
    show ?thesis
      using True by (subst (1 2) AppendVarint.simps) (simp add: IH [of "dst @ [_]"] IH [of "[_]"])
  next
    case False
    then show ?thesis by (subst (1 2) AppendVarint.simps) simp
  qed
qed

lemma AppendVarint_unfold:
  "AppendVarint [] v =
     (if v \<ge> 0x80 then (ucast v OR 0x80) # AppendVarint [] (drop_bit 7 v) else [ucast v])"
  by (subst AppendVarint.simps) (simp add: AppendVarint_app [of "[_]"])

lemma push_bit_split7: "push_bit s (take_bit 7 v) OR push_bit (s + 7) (drop_bit 7 v) = push_bit s (v::u64)"
proof (rule bit_word_eqI)
  fix n assume "n < LENGTH(64)"
  then show "bit (push_bit s (take_bit 7 v) OR push_bit (s + 7) (drop_bit 7 v)) n = bit (push_bit s v) n"
    by (cases "n < s + 7") (auto simp: bit_simps)
qed


lemma byte_and_7F: "b AND 0x7F = take_bit 7 (b::byte)"
  by (simp add: take_bit_eq_mask mask_eq_exp_minus_1)

lemma ucast_take_bit7: "ucast (take_bit 7 (ucast (v::u64) :: byte)) = take_bit 7 v"
  by (rule bit_word_eqI) (auto simp: bit_simps)

lemma varint_low_byte: "ucast ((ucast (v::u64) OR 0x80) AND 0x7F :: byte) = take_bit 7 v"
proof -
  have "take_bit 7 (0x80 :: byte) = 0" by simp
  then show ?thesis by (simp only: byte_and_7F take_bit_or ucast_take_bit7 or.right_neutral)
qed

lemma less_0x80_take_bit: "v < 0x80 \<Longrightarrow> take_bit 7 (v::u64) = v"
  by (simp add: word_unat_eq_iff unsigned_take_bit_eq take_bit_nat_eq_self word_less_nat_alt)

lemma varint_low_byte': "v < 0x80 \<Longrightarrow> ucast (ucast (v::u64) AND 0x7F :: byte) = v"
  by (simp only: byte_and_7F ucast_take_bit7 less_0x80_take_bit)

lemma varint_cont_byte: "\<not> (ucast (v::u64) OR 0x80 :: byte) < 0x80"
  using le_word_or1 [of "0x80 :: byte" "ucast v"] by simp

lemma varint_last_byte: "v < 0x80 \<Longrightarrow> (ucast (v::u64) :: byte) < 0x80"
  by (simp add: word_less_nat_alt unsigned_ucast_eq take_bit_nat_def)

lemma unat_drop_bit7: "unat (drop_bit 7 (v::u64)) = unat v div 128"
  by (simp only: unat_drop_bit_eq drop_bit_eq_div [of 7 "unat v"]) simp

lemma varint_step:
  assumes "v \<ge> 0x80" "unat v < 2 ^ (64 - shift)" "shift < 64"
  shows "unat (drop_bit 7 v) < unat (v::u64)"
    and "shift + 7 < 64"
    and "unat (drop_bit 7 v) < 2 ^ (64 - (shift + 7))"
proof -
  have v128: "128 \<le> unat v" using assms(1) by (simp add: word_le_nat_alt)
  then have "v \<noteq> 0" by auto
  then show "unat (drop_bit 7 v) < unat v" by (simp add: unat_drop_bit_less)
  have "(2::nat) ^ 7 < 2 ^ (64 - shift)" using v128 assms(2) by simp
  then have "7 < 64 - shift" by (rule power_less_imp_less_exp [rotated]) simp
  then show s7: "shift + 7 < 64" by simp
  have "64 - shift = (64 - (shift + 7)) + 7" using s7 by simp
  then have "(2::nat) ^ (64 - shift) = 2 ^ (64 - (shift + 7)) * 128"
    by (simp only: power_add) simp
  then show "unat (drop_bit 7 v) < 2 ^ (64 - (shift + 7))"
    using assms(2) by (simp add: unat_drop_bit7 less_mult_imp_div_less)
qed

lemma ReadVarint_loop_app:
  assumes "unat v < 2 ^ (64 - shift)" "shift < 64"
  shows "ReadVarint_loop (AppendVarint [] v @ rest) acc shift k =
           (acc OR push_bit shift v, int (k + length (AppendVarint [] v)))"
  using assms
proof (induction "unat v" arbitrary: v acc shift k rule: less_induct)
  case less
  show ?case
  proof (cases "v \<ge> 0x80")
    case True
    note S = varint_step [OF True less.prems]
    have "(acc OR push_bit shift (take_bit 7 v)) OR push_bit (shift + 7) (drop_bit 7 v)
          = acc OR push_bit shift v"
      by (simp only: or.assoc push_bit_split7)
    then show ?thesis
      using True S(2) less.hyps [OF S(1) S(3) S(2), of "acc OR push_bit shift (take_bit 7 v)" "k + 1"]
      by (simp add: AppendVarint_unfold [of v] Let_def varint_low_byte varint_cont_byte)
  next
    case False
    then show ?thesis
      by (simp add: AppendVarint_unfold [of v] Let_def varint_low_byte' varint_last_byte)
  qed
qed

lemma ReadVarint_app:
  "drop off buf = AppendVarint [] v @ rest \<Longrightarrow>
   ReadVarint buf off = (v, int (length (AppendVarint [] v)))"
  using ReadVarint_loop_app [of v 0 rest 0 0] unat_u64_less [of v]
  by (simp add: ReadVarint_def)

lemma AppendVarint_nonempty [simp]: "AppendVarint [] v \<noteq> []"
  by (subst AppendVarint_unfold) simp

lemma ReadVarint_loop_bound:
  "ReadVarint_loop bs acc shift k = (v, n) \<Longrightarrow> 0 < n \<Longrightarrow>
   int k < n \<and> n \<le> int (k + length bs)"
  by (induction bs acc shift k rule: ReadVarint_loop.induct)
     (fastforce simp: Let_def split: if_splits)+

lemma ReadVarint_loop_neg: "snd (ReadVarint_loop bs acc shift k) \<ge> -1"
  by (induction bs acc shift k rule: ReadVarint_loop.induct) (auto simp: Let_def)


lemma ReadVarint_loop_trunc:
  assumes "n < length (AppendVarint [] v)" "unat v < 2 ^ (64 - shift)" "shift < 64"
  shows "ReadVarint_loop (take n (AppendVarint [] v)) acc shift k = (0, 0)"
  using assms
proof (induction "unat v" arbitrary: v acc shift k n rule: less_induct)
  case less
  show ?case
  proof (cases n)
    case 0
    then show ?thesis by simp
  next
    case (Suc m)
    then have True: "v \<ge> 0x80"
      using less.prems(1) by (subst (asm) AppendVarint_unfold) (auto split: if_splits)
    note S = varint_step [OF True less.prems(2,3)]
    have m: "m < length (AppendVarint [] (drop_bit 7 v))"
      using less.prems(1) Suc True by (simp add: AppendVarint_unfold [of v])
    show ?thesis
      using True Suc S(2) less.hyps [OF S(1) m S(3) S(2)]
      by (simp add: AppendVarint_unfold [of v] Let_def varint_cont_byte)
  qed
qed

lemma AppendVarint_length_le: "unat v < 2 ^ (7 * n) \<Longrightarrow> 0 < n \<Longrightarrow> length (AppendVarint [] v) \<le> n"
proof (induction n arbitrary: v)
  case 0
  then show ?case by simp
next
  case (Suc n)
  show ?case
  proof (cases "v \<ge> 0x80")
    case True
    have "n \<noteq> 0"
      using True Suc.prems(1) by (cases "n = 0") (auto simp: word_le_nat_alt)
    moreover have "unat (drop_bit 7 v) < 2 ^ (7 * n)"
      using Suc.prems(1) by (simp add: unat_drop_bit7 less_mult_imp_div_less power_add)
    ultimately have "length (AppendVarint [] (drop_bit 7 v)) \<le> n" by (simp add: Suc.IH)
    with True show ?thesis by (simp add: AppendVarint_unfold [of v])
  next
    case False
    then show ?thesis by (simp add: AppendVarint_unfold [of v])
  qed
qed

lemma AppendVarint_length: "length (AppendVarint [] v) \<le> 10"
proof (rule AppendVarint_length_le)
  have "(2::nat) ^ 64 < 2 ^ (7 * 10)" by simp
  with unat_u64_less [of v] show "unat v < 2 ^ (7 * 10)" by (rule less_trans)
qed simp


lemma signed_drop_bit_63: "signed_drop_bit 63 (v::u64) = (if bit v 63 then - 1 else 0)"
proof (rule bit_word_eqI)
  fix n assume "n < LENGTH(64)"
  then show "bit (signed_drop_bit 63 v) n = bit (if bit v 63 then - 1 else 0 :: u64) n"
    by (cases "n = 0") (auto simp: bit_simps)
qed

lemma zigzag_bit: "bit (zigzag v) n =
    (n < 64 \<and> ((0 < n \<and> bit v (n - 1)) \<noteq> bit v 63))"
  unfolding zigzag_def signed_drop_bit_63 bit_xor_iff bit_push_bit_iff by (auto simp: bit_simps)

lemma zigzag_sign: "- (zigzag v AND 1) = (if bit v 63 then - 1 else 0)"
proof -
  have "bit (zigzag v) 0 = bit v 63" unfolding zigzag_bit by simp
  then have "zigzag v AND 1 = (if bit v 63 then 1 else 0)"
    by (auto simp: and_one_eq mod2_eq_if bit_0)
  then show ?thesis by simp
qed

lemma unzigzag_zigzag [simp]: "unzigzag (zigzag v) = v"
proof (rule bit_word_eqI)
  fix n assume "n < LENGTH(64)"
  then show "bit (unzigzag (zigzag v)) n = bit v n"
    unfolding unzigzag_def zigzag_sign bit_xor_iff [of "drop_bit _ _"] bit_drop_bit_eq comp_def
      zigzag_bit
    by (cases "n = 63") (auto simp: bit_simps)
qed

lemma bit_fold_or:
  "bit (fold (\<lambda>i acc. acc OR f i) xs a) n = (bit (a::u64) n \<or> (\<exists>i\<in>set xs. bit (f i) n))"
  by (induction xs arbitrary: a) (auto simp: bit_or_iff)

lemma bit_byte_at:
  "bit (push_bit (8 * i) (ucast (ucast (drop_bit (8 * i) v) :: byte)) :: u64) n =
     (n < 64 \<and> 8 * i \<le> n \<and> n < 8 * i + 8 \<and> bit (v::u64) n)"
  by (auto simp: bit_push_bit_iff bit_simps)

lemma nth_PutUint64LE: "i < 8 \<Longrightarrow> (PutUint64LE v @ rest) ! i = ucast (drop_bit (8 * i) v)"
  by (simp add: PutUint64LE_def nth_append)

lemma Uint64LE_PutUint64LE: "Uint64LE (PutUint64LE v @ rest) = v"
proof (rule bit_word_eqI)
  fix n assume n: "n < LENGTH(64)"
  have "Uint64LE (PutUint64LE v @ rest) =
    fold (\<lambda>i acc. acc OR push_bit (8 * i) (ucast (ucast (drop_bit (8 * i) v) :: byte))) [0..<8] 0"
    unfolding Uint64LE_def by (rule fold_cong) (auto simp: nth_PutUint64LE)
  moreover have "n div 8 < 8" "8 * (n div 8) \<le> n" "n < 8 * (n div 8) + 8" using n by auto
  ultimately show "bit (Uint64LE (PutUint64LE v @ rest)) n = bit v n"
    using n by (auto simp: bit_fold_or bit_byte_at intro!: bexI [of _ "n div 8"])
qed
section \<open>The contract of a wire format\<close>

text \<open>
  What the encoders and decoders rely on: appending to a buffer appends the encoding of the
  value alone; reading at the offset of an encoding returns the value and its length whatever
  follows; a reader never runs past the buffer; and an encoding cut short is rejected.
\<close>

locale wire_format =
  fixes app :: "bytes \<Rightarrow> 'a \<Rightarrow> bytes"
    and rd :: "bytes \<Rightarrow> nat \<Rightarrow> 'a \<times> int"
    and ok :: "'a \<Rightarrow> bool"
  assumes app_append: "app dst v = dst @ app [] v"
    and app_nonempty: "ok v \<Longrightarrow> app [] v \<noteq> []"
    and rd_app: "ok v \<Longrightarrow> drop off buf = app [] v @ rest \<Longrightarrow>
      rd buf off = (v, int (length (app [] v)))"
    and rd_bound: "rd buf off = (v, n) \<Longrightarrow> 0 < n \<Longrightarrow> off + nat n \<le> length buf"
    and rd_truncated: "ok v \<Longrightarrow> k < length (app [] v) \<Longrightarrow> drop off buf = take k (app [] v) \<Longrightarrow>
      snd (rd buf off) \<le> 0"
begin

lemma app_fold: "fold (\<lambda>v dst. app dst v) vs dst = dst @ concat (map (app []) vs)"
proof (induction vs arbitrary: dst)
  case Nil
  then show ?case by simp
next
  case (Cons v vs)
  then show ?case by (simp add: app_append [of dst v])
qed

lemma rd_app_pos: "ok v \<Longrightarrow> drop off buf = app [] v @ rest \<Longrightarrow> 0 < snd (rd buf off)"
  by (simp add: rd_app app_nonempty)

lemma app_inject:
  assumes "ok v" "ok w" "app [] v @ r = app [] w @ s"
  shows "v = w \<and> r = s"
proof -
  have "rd (app [] v @ r) 0 = (v, int (length (app [] v)))"
    by (rule rd_app [OF assms(1)]) simp
  moreover have "rd (app [] v @ r) 0 = (w, int (length (app [] w)))"
    by (rule rd_app [OF assms(2)]) (simp add: assms(3))
  ultimately show ?thesis using assms(3) by simp
qed

end

lemma ReadVarint_bound: "ReadVarint buf off = (v, n) \<Longrightarrow> 0 < n \<Longrightarrow> off + nat n \<le> length buf"
  unfolding ReadVarint_def by (drule (1) ReadVarint_loop_bound) auto

lemma ReadVarint_truncated:
  "k < length (AppendVarint [] v) \<Longrightarrow> drop off buf = take k (AppendVarint [] v) \<Longrightarrow>
   ReadVarint buf off = (0, 0)"
  using unat_u64_less [of v] by (simp add: ReadVarint_def ReadVarint_loop_trunc)

interpretation varint: wire_format AppendVarint ReadVarint "\<lambda>_. True"
  by unfold_locales
     (auto simp: AppendVarint_app [symmetric] ReadVarint_app ReadVarint_bound ReadVarint_truncated)

lemma AppendSvarint_app: "AppendSvarint dst v = dst @ AppendSvarint [] v"
  unfolding AppendSvarint_def by (rule AppendVarint_app)

interpretation svarint: wire_format AppendSvarint ReadSvarint "\<lambda>_. True"
proof unfold_locales
  fix dst v show "AppendSvarint dst v = dst @ AppendSvarint [] v" by (rule AppendSvarint_app)
next
  fix v show "AppendSvarint [] v \<noteq> []" by (simp add: AppendSvarint_def)
next
  fix off buf v rest assume "drop off buf = AppendSvarint [] v @ rest"
  then show "ReadSvarint buf off = (v, int (length (AppendSvarint [] v)))"
    by (simp add: AppendSvarint_def ReadSvarint_def ReadVarint_app)
next
  fix buf off v n assume "ReadSvarint buf off = (v, n)" "0 < n"
  then show "off + nat n \<le> length buf"
    by (auto simp: ReadSvarint_def split: prod.splits if_splits dest: ReadVarint_bound)
next
  fix v k off buf
  assume "k < length (AppendSvarint [] v)" "drop off buf = take k (AppendSvarint [] v)"
  then show "snd (ReadSvarint buf off) \<le> 0"
    by (simp add: ReadSvarint_def AppendSvarint_def ReadVarint_truncated)
qed

lemma length_PutUint64LE [simp]: "length (PutUint64LE v) = 8"
  by (simp add: PutUint64LE_def)

interpretation fixed64: wire_format AppendFixed64 ReadFixed64 "\<lambda>_. True"
proof unfold_locales
  fix off buf v rest assume d: "drop off buf = AppendFixed64 [] v @ rest"
  from drop_eq_lengthD [OF d] have "off + 8 \<le> length buf" by (simp add: AppendFixed64_def)
  with d show "ReadFixed64 buf off = (v, int (length (AppendFixed64 [] v)))"
    by (simp add: ReadFixed64_def AppendFixed64_def Uint64LE_PutUint64LE)
next
  fix v k off buf
  assume "k < length (AppendFixed64 [] v)" and d: "drop off buf = take k (AppendFixed64 [] v)"
  with drop_eq_lengthD [OF d] show "snd (ReadFixed64 buf off) \<le> 0"
    by (simp add: ReadFixed64_def AppendFixed64_def)
next
  fix v show "AppendFixed64 [] v \<noteq> []"
    unfolding AppendFixed64_def by (simp flip: length_0_conv)
qed (auto simp: AppendFixed64_def ReadFixed64_def split: if_splits)

lemma AppendBytes_app: "AppendBytes dst v = dst @ AppendBytes [] v"
  by (simp add: AppendBytes_def AppendVarint_app [of dst])

lemma ReadBytes_bound: "ReadBytes buf off = (v, n) \<Longrightarrow> 0 < n \<Longrightarrow> off + nat n \<le> length buf"
  by (auto simp: ReadBytes_def Let_def nat_add_distrib split: prod.splits if_splits)

interpretation bytes: wire_format AppendBytes ReadBytes len_ok
proof unfold_locales
  fix dst v show "AppendBytes dst v = dst @ AppendBytes [] v" by (rule AppendBytes_app)
next
  fix v show "AppendBytes [] v \<noteq> []" by (simp add: AppendBytes_def)
next
  fix v :: bytes and off buf rest
  assume ok: "len_ok v" and d: "drop off buf = AppendBytes [] v @ rest"
  let ?V = "AppendVarint [] (of_nat (length v))"
  have u: "unat (of_nat (length v) :: u64) = length v" using ok by (simp add: len_ok_def unat_le_max_len)
  have d': "drop off buf = ?V @ v @ rest" using d by (simp add: AppendBytes_def)
  have d2: "drop (off + length ?V) buf = v @ rest" by (rule drop_eq_appendD [OF d'])
  have "off + length ?V + length v \<le> length buf"
    using drop_eq_lengthD [OF d'] by (cases "off \<le> length buf") auto
  then show "ReadBytes buf off = (v, int (length (AppendBytes [] v)))"
    using ReadVarint_app [OF d'] d2 u by (simp add: ReadBytes_def AppendBytes_def Let_def)
next
  fix buf off v n assume "ReadBytes buf off = (v, n)" "0 < n"
  then show "off + nat n \<le> length buf" by (rule ReadBytes_bound)
next
  fix v :: bytes and k off buf
  assume ok: "len_ok v" and k: "k < length (AppendBytes [] v)" and d: "drop off buf = take k (AppendBytes [] v)"
  let ?V = "AppendVarint [] (of_nat (length v))"
  have u: "unat (of_nat (length v) :: u64) = length v" using ok by (simp add: len_ok_def unat_le_max_len)
  show "snd (ReadBytes buf off) \<le> 0"
  proof (cases "k < length ?V")
    case True
    then show ?thesis
      using d by (simp add: ReadBytes_def AppendBytes_def ReadVarint_truncated)
  next
    case False
    then have d': "drop off buf = ?V @ take (k - length ?V) v" using d by (simp add: AppendBytes_def)
    have "length buf < off + length ?V + length v"
      using drop_eq_lengthD [OF d'] k False by (auto simp: AppendBytes_def)
    then show ?thesis using ReadVarint_app [OF d'] u by (simp add: ReadBytes_def Let_def)
  qed
qed

lemma AppendString_eq: "AppendString = AppendBytes"
  by (intro ext) (simp add: AppendString_def AppendBytes_def)

lemma pos_add_uint: "\<not> n \<le> 0 \<Longrightarrow> n + uint x \<noteq> 0"
proof -
  assume "\<not> n \<le> 0"
  moreover have "0 \<le> uint x" by simp
  ultimately show "n + uint x \<noteq> 0" by linarith
qed

lemma ReadBytes_nonneg: "0 \<le> snd (ReadBytes buf off)"
  by (auto simp: ReadBytes_def Let_def split: prod.splits)

lemma ReadBytes_fail: "snd (ReadBytes buf off) = 0 \<Longrightarrow> ReadBytes buf off = ([], 0)"
  by (auto simp: ReadBytes_def Let_def pos_add_uint split: prod.splits if_splits)

lemma ReadString_eq: "ReadString = ReadBytes"
proof (intro ext)
  fix buf off
  show "ReadString buf off = ReadBytes buf off"
    using ReadBytes_fail [of buf off] by (cases "ReadBytes buf off") (auto simp: ReadString_def)
qed

interpretation str: wire_format AppendString ReadString len_ok
  unfolding AppendString_eq ReadString_eq by (rule bytes.wire_format_axioms)

interpretation bool: wire_format AppendBool ReadBool "\<lambda>_. True"
proof unfold_locales
  fix off buf v rest assume d: "drop off buf = AppendBool [] v @ rest"
  then have "off < length buf \<and> buf ! off = (if v then 1 else 0)"
    by (cases v) (auto simp: AppendBool_def dest: drop_eq_Cons_nth)
  then show "ReadBool buf off = (v, int (length (AppendBool [] v)))"
    by (simp add: ReadBool_def AppendBool_def)
next
  fix v k off buf assume "k < length (AppendBool [] v)" "drop off buf = take k (AppendBool [] v)"
  then show "snd (ReadBool buf off) \<le> 0" by (auto simp: AppendBool_def ReadBool_def split: if_splits)
qed (auto simp: AppendBool_def ReadBool_def split: if_splits)

lemma ReadNullable_eq: "ReadNullable = ReadBool"
  by (intro ext) (simp add: ReadNullable_def ReadBool_def)

interpretation arrhdr: wire_format AppendArrayHeader ReadArrayHeader "\<lambda>_. True"
proof unfold_locales
  fix off buf v rest assume "drop off buf = AppendArrayHeader [] v @ rest"
  then show "ReadArrayHeader buf off = (v, int (length (AppendArrayHeader [] v)))"
    by (simp add: AppendArrayHeader_def ReadArrayHeader_def ReadVarint_app)
next
  fix v k off buf
  assume "k < length (AppendArrayHeader [] v)" "drop off buf = take k (AppendArrayHeader [] v)"
  then show "snd (ReadArrayHeader buf off) \<le> 0"
    by (simp add: AppendArrayHeader_def ReadArrayHeader_def ReadVarint_truncated)
next
  fix dst v show "AppendArrayHeader dst v = dst @ AppendArrayHeader [] v"
    unfolding AppendArrayHeader_def by (rule AppendVarint_app)
qed (auto simp: AppendArrayHeader_def ReadArrayHeader_def split: prod.splits if_splits dest: ReadVarint_bound)

interpretation uuid: wire_format AppendUUID ReadUUID uuid_ok
proof unfold_locales
  fix v off buf rest assume "uuid_ok v" and d: "drop off buf = AppendUUID [] v @ rest"
  with drop_eq_lengthD [OF d] show "ReadUUID buf off = (v, int (length (AppendUUID [] v)))"
    by (auto simp: AppendUUID_def ReadUUID_def uuid_ok_def)
next
  fix v k off buf
  assume "uuid_ok v" "k < length (AppendUUID [] v)" and d: "drop off buf = take k (AppendUUID [] v)"
  with drop_eq_lengthD [OF d] show "snd (ReadUUID buf off) \<le> 0"
    by (auto simp: AppendUUID_def ReadUUID_def uuid_ok_def)
qed (auto simp: AppendUUID_def ReadUUID_def uuid_ok_def split: if_splits)

end
