(* ===== verification/Encoder.thy ===== *)
theory Encoder
  imports Wire
begin

text \<open>
  The message encoder of pkg/lux/codec/encoder.go. The state is the buffer being built; every
  Write method takes the encoder and returns the updated one. A Go pointer argument is an
  option, nil being None. The lemmas say what each method appends, so that a message is the
  concatenation of its fields.
\<close>

record Encoder =
  ebuf :: bytes

definition Encoder_Reset :: "Encoder \<Rightarrow> Encoder" where
  "Encoder_Reset e = e\<lparr>ebuf := take 0 (ebuf e)\<rparr>"

definition Encoder_Bytes :: "Encoder \<Rightarrow> bytes" where
  "Encoder_Bytes e = ebuf e"

section \<open>Values without a field header\<close>

definition WriteFieldHeader :: "goint \<Rightarrow> Encoder \<Rightarrow> Encoder" where
  "WriteFieldHeader fieldID e = e\<lparr>ebuf := AppendVarint (ebuf e) fieldID\<rparr>"

definition WriteNull :: "Encoder \<Rightarrow> Encoder" where
  "WriteNull e = e\<lparr>ebuf := AppendNull (ebuf e)\<rparr>"

definition WritePresent :: "Encoder \<Rightarrow> Encoder" where
  "WritePresent e = e\<lparr>ebuf := AppendPresent (ebuf e)\<rparr>"

definition WriteInt :: "goint \<Rightarrow> Encoder \<Rightarrow> Encoder" where
  "WriteInt v e = e\<lparr>ebuf := AppendSvarint (ebuf e) v\<rparr>"

definition WriteVarint :: "u64 \<Rightarrow> Encoder \<Rightarrow> Encoder" where
  "WriteVarint v e = e\<lparr>ebuf := AppendVarint (ebuf e) v\<rparr>"

definition WriteFloat :: "float64 \<Rightarrow> Encoder \<Rightarrow> Encoder" where
  "WriteFloat v e = e\<lparr>ebuf := AppendFixed64 (ebuf e) v\<rparr>"

definition WriteString :: "bytes \<Rightarrow> Encoder \<Rightarrow> Encoder" where
  "WriteString v e = e\<lparr>ebuf := AppendString (ebuf e) v\<rparr>"

definition WriteBool :: "bool \<Rightarrow> Encoder \<Rightarrow> Encoder" where
  "WriteBool v e = e\<lparr>ebuf := AppendBool (ebuf e) v\<rparr>"

definition WriteBytes :: "bytes \<Rightarrow> Encoder \<Rightarrow> Encoder" where
  "WriteBytes v e = e\<lparr>ebuf := AppendBytes (ebuf e) v\<rparr>"

definition WriteUUID :: "bytes \<Rightarrow> Encoder \<Rightarrow> Encoder" where
  "WriteUUID v e = e\<lparr>ebuf := AppendUUID (ebuf e) v\<rparr>"

definition WriteArrayHeader :: "goint \<Rightarrow> Encoder \<Rightarrow> Encoder" where
  "WriteArrayHeader count e = e\<lparr>ebuf := AppendArrayHeader (ebuf e) count\<rparr>"

section \<open>Fields\<close>

definition WriteFieldInt :: "goint \<Rightarrow> goint \<Rightarrow> Encoder \<Rightarrow> Encoder" where
  "WriteFieldInt fieldID v e =
     (let e1 = e\<lparr>ebuf := AppendVarint (ebuf e) fieldID\<rparr> in
      e1\<lparr>ebuf := AppendSvarint (ebuf e1) v\<rparr>)"

definition WriteFieldFloat :: "goint \<Rightarrow> float64 \<Rightarrow> Encoder \<Rightarrow> Encoder" where
  "WriteFieldFloat fieldID v e =
     (let e1 = e\<lparr>ebuf := AppendVarint (ebuf e) fieldID\<rparr> in
      e1\<lparr>ebuf := AppendFixed64 (ebuf e1) v\<rparr>)"

definition WriteFieldString :: "goint \<Rightarrow> bytes \<Rightarrow> Encoder \<Rightarrow> Encoder" where
  "WriteFieldString fieldID v e =
     (let e1 = e\<lparr>ebuf := AppendVarint (ebuf e) fieldID\<rparr> in
      e1\<lparr>ebuf := AppendString (ebuf e1) v\<rparr>)"

definition WriteFieldBool :: "goint \<Rightarrow> bool \<Rightarrow> Encoder \<Rightarrow> Encoder" where
  "WriteFieldBool fieldID v e =
     (let e1 = e\<lparr>ebuf := AppendVarint (ebuf e) fieldID\<rparr> in
      e1\<lparr>ebuf := AppendBool (ebuf e1) v\<rparr>)"

definition WriteFieldBytes :: "goint \<Rightarrow> bytes \<Rightarrow> Encoder \<Rightarrow> Encoder" where
  "WriteFieldBytes fieldID v e =
     (let e1 = e\<lparr>ebuf := AppendVarint (ebuf e) fieldID\<rparr> in
      e1\<lparr>ebuf := AppendBytes (ebuf e1) v\<rparr>)"

definition WriteFieldIntPtr :: "goint \<Rightarrow> goint option \<Rightarrow> Encoder \<Rightarrow> Encoder" where
  "WriteFieldIntPtr fieldID v e =
     (let e1 = e\<lparr>ebuf := AppendVarint (ebuf e) fieldID\<rparr> in
      case v of None \<Rightarrow> e1\<lparr>ebuf := AppendNull (ebuf e1)\<rparr>
      | Some x \<Rightarrow> e1\<lparr>ebuf := AppendSvarint (AppendPresent (ebuf e1)) x\<rparr>)"

definition WriteFieldFloatPtr :: "goint \<Rightarrow> float64 option \<Rightarrow> Encoder \<Rightarrow> Encoder" where
  "WriteFieldFloatPtr fieldID v e =
     (let e1 = e\<lparr>ebuf := AppendVarint (ebuf e) fieldID\<rparr> in
      case v of None \<Rightarrow> e1\<lparr>ebuf := AppendNull (ebuf e1)\<rparr>
      | Some x \<Rightarrow> e1\<lparr>ebuf := AppendFixed64 (AppendPresent (ebuf e1)) x\<rparr>)"

definition WriteFieldStringPtr :: "goint \<Rightarrow> bytes option \<Rightarrow> Encoder \<Rightarrow> Encoder" where
  "WriteFieldStringPtr fieldID v e =
     (let e1 = e\<lparr>ebuf := AppendVarint (ebuf e) fieldID\<rparr> in
      case v of None \<Rightarrow> e1\<lparr>ebuf := AppendNull (ebuf e1)\<rparr>
      | Some x \<Rightarrow> e1\<lparr>ebuf := AppendString (AppendPresent (ebuf e1)) x\<rparr>)"

definition WriteFieldBoolPtr :: "goint \<Rightarrow> bool option \<Rightarrow> Encoder \<Rightarrow> Encoder" where
  "WriteFieldBoolPtr fieldID v e =
     (let e1 = e\<lparr>ebuf := AppendVarint (ebuf e) fieldID\<rparr> in
      case v of None \<Rightarrow> e1\<lparr>ebuf := AppendNull (ebuf e1)\<rparr>
      | Some x \<Rightarrow> e1\<lparr>ebuf := AppendBool (AppendPresent (ebuf e1)) x\<rparr>)"

definition WriteFieldUUID :: "goint \<Rightarrow> bytes \<Rightarrow> Encoder \<Rightarrow> Encoder" where
  "WriteFieldUUID fieldID v e =
     (let e1 = e\<lparr>ebuf := AppendVarint (ebuf e) fieldID\<rparr> in
      e1\<lparr>ebuf := AppendUUID (ebuf e1) v\<rparr>)"

definition WriteFieldUUIDPtr :: "goint \<Rightarrow> bytes option \<Rightarrow> Encoder \<Rightarrow> Encoder" where
  "WriteFieldUUIDPtr fieldID v e =
     (let e1 = e\<lparr>ebuf := AppendVarint (ebuf e) fieldID\<rparr> in
      case v of None \<Rightarrow> e1\<lparr>ebuf := AppendNull (ebuf e1)\<rparr>
      | Some x \<Rightarrow> e1\<lparr>ebuf := AppendUUID (AppendPresent (ebuf e1)) x\<rparr>)"

section \<open>Array fields\<close>

definition WriteFieldIntArray :: "goint \<Rightarrow> goint list \<Rightarrow> Encoder \<Rightarrow> Encoder" where
  "WriteFieldIntArray fieldID v e =
     (let e1 = e\<lparr>ebuf := AppendVarint (ebuf e) fieldID\<rparr>;
          e2 = e1\<lparr>ebuf := AppendArrayHeader (ebuf e1) (of_nat (length v))\<rparr> in
      fold (\<lambda>item e. e\<lparr>ebuf := AppendSvarint (ebuf e) item\<rparr>) v e2)"

definition WriteFieldStringArray :: "goint \<Rightarrow> bytes list \<Rightarrow> Encoder \<Rightarrow> Encoder" where
  "WriteFieldStringArray fieldID v e =
     (let e1 = e\<lparr>ebuf := AppendVarint (ebuf e) fieldID\<rparr>;
          e2 = e1\<lparr>ebuf := AppendArrayHeader (ebuf e1) (of_nat (length v))\<rparr> in
      fold (\<lambda>item e. e\<lparr>ebuf := AppendString (ebuf e) item\<rparr>) v e2)"

definition WriteFieldFloatArray :: "goint \<Rightarrow> float64 list \<Rightarrow> Encoder \<Rightarrow> Encoder" where
  "WriteFieldFloatArray fieldID v e =
     (let e1 = e\<lparr>ebuf := AppendVarint (ebuf e) fieldID\<rparr>;
          e2 = e1\<lparr>ebuf := AppendArrayHeader (ebuf e1) (of_nat (length v))\<rparr> in
      fold (\<lambda>item e. e\<lparr>ebuf := AppendFixed64 (ebuf e) item\<rparr>) v e2)"

definition WriteFieldBoolArray :: "goint \<Rightarrow> bool list \<Rightarrow> Encoder \<Rightarrow> Encoder" where
  "WriteFieldBoolArray fieldID v e =
     (let e1 = e\<lparr>ebuf := AppendVarint (ebuf e) fieldID\<rparr>;
          e2 = e1\<lparr>ebuf := AppendArrayHeader (ebuf e1) (of_nat (length v))\<rparr> in
      fold (\<lambda>item e. e\<lparr>ebuf := AppendBool (ebuf e) item\<rparr>) v e2)"

definition WriteFieldBytesArray :: "goint \<Rightarrow> bytes list \<Rightarrow> Encoder \<Rightarrow> Encoder" where
  "WriteFieldBytesArray fieldID v e =
     (let e1 = e\<lparr>ebuf := AppendVarint (ebuf e) fieldID\<rparr>;
          e2 = e1\<lparr>ebuf := AppendArrayHeader (ebuf e1) (of_nat (length v))\<rparr> in
      fold (\<lambda>item e. e\<lparr>ebuf := AppendBytes (ebuf e) item\<rparr>) v e2)"

definition WriteFieldUUIDArray :: "goint \<Rightarrow> bytes list \<Rightarrow> Encoder \<Rightarrow> Encoder" where
  "WriteFieldUUIDArray fieldID v e =
     (let e1 = e\<lparr>ebuf := AppendVarint (ebuf e) fieldID\<rparr>;
          e2 = e1\<lparr>ebuf := AppendArrayHeader (ebuf e1) (of_nat (length v))\<rparr> in
      fold (\<lambda>item e. e\<lparr>ebuf := AppendUUID (ebuf e) item\<rparr>) v e2)"

definition WriteEnd :: "Encoder \<Rightarrow> Encoder" where
  "WriteEnd e = e\<lparr>ebuf := ebuf e @ [0x00]\<rparr>"

section \<open>What the methods append\<close>

text \<open>The bytes of a nullable value and of a counted array, for any item format.\<close>

definition ptr_bytes :: "(bytes \<Rightarrow> 'a \<Rightarrow> bytes) \<Rightarrow> 'a option \<Rightarrow> bytes" where
  "ptr_bytes app v = (case v of None \<Rightarrow> [0] | Some x \<Rightarrow> 1 # app [] x)"

definition array_bytes :: "(bytes \<Rightarrow> 'a \<Rightarrow> bytes) \<Rightarrow> 'a list \<Rightarrow> bytes" where
  "array_bytes app vs = AppendVarint [] (of_nat (length vs)) @ concat (map (app []) vs)"

lemma Encoder_eqI: "ebuf e = ebuf e' \<Longrightarrow> e = (e' :: Encoder)"
  by simp

lemma ebuf_fold: "ebuf (fold (\<lambda>item e. e\<lparr>ebuf := app (ebuf e) item\<rparr>) vs e) = fold (\<lambda>v dst. app dst v) vs (ebuf e)"
  by (induction vs arbitrary: e) simp_all

context wire_format
begin

lemma field_value_bytes:
  "app (AppendVarint b fieldID) v = b @ AppendVarint [] fieldID @ app [] v"
  by (subst app_append, subst AppendVarint_app) simp

lemma field_ptr_bytes:
  "(case v of None \<Rightarrow> AppendNull (AppendVarint b fieldID)
    | Some x \<Rightarrow> app (AppendPresent (AppendVarint b fieldID)) x)
   = b @ AppendVarint [] fieldID @ ptr_bytes app v"
proof (cases v)
  case None
  then show ?thesis by (simp add: AppendNull_def ptr_bytes_def AppendVarint_app [of b])
next
  case (Some x)
  then show ?thesis
    by (simp add: AppendPresent_def ptr_bytes_def AppendVarint_app [of b] app_append [of "_ @ _"])
qed

lemma field_array_bytes:
  "fold (\<lambda>v dst. app dst v) vs
     (AppendArrayHeader (AppendVarint b fieldID) (of_nat (length vs)))
   = b @ AppendVarint [] fieldID @ array_bytes app vs"
  by (simp add: app_fold array_bytes_def AppendArrayHeader_def
      AppendVarint_app [of "b @ _"] AppendVarint_app [of b])

end

lemmas encoder_value_bytes =
  svarint.field_value_bytes fixed64.field_value_bytes str.field_value_bytes
  bool.field_value_bytes bytes.field_value_bytes uuid.field_value_bytes

lemma ebuf_WriteField:
  "ebuf (WriteFieldInt f i e) = ebuf e @ AppendVarint [] f @ AppendSvarint [] i"
  "ebuf (WriteFieldFloat f x e) = ebuf e @ AppendVarint [] f @ AppendFixed64 [] x"
  "ebuf (WriteFieldString f s e) = ebuf e @ AppendVarint [] f @ AppendString [] s"
  "ebuf (WriteFieldBool f b e) = ebuf e @ AppendVarint [] f @ AppendBool [] b"
  "ebuf (WriteFieldBytes f s e) = ebuf e @ AppendVarint [] f @ AppendBytes [] s"
  "ebuf (WriteFieldUUID f s e) = ebuf e @ AppendVarint [] f @ AppendUUID [] s"
  by (simp_all add: WriteFieldInt_def WriteFieldFloat_def WriteFieldString_def WriteFieldBool_def
      WriteFieldBytes_def WriteFieldUUID_def encoder_value_bytes)

lemma ebuf_WriteFieldPtr:
  "ebuf (WriteFieldIntPtr f i e) = ebuf e @ AppendVarint [] f @ ptr_bytes AppendSvarint i"
  "ebuf (WriteFieldFloatPtr f x e) = ebuf e @ AppendVarint [] f @ ptr_bytes AppendFixed64 x"
  "ebuf (WriteFieldStringPtr f s e) = ebuf e @ AppendVarint [] f @ ptr_bytes AppendString s"
  "ebuf (WriteFieldBoolPtr f b e) = ebuf e @ AppendVarint [] f @ ptr_bytes AppendBool b"
  "ebuf (WriteFieldUUIDPtr f s e) = ebuf e @ AppendVarint [] f @ ptr_bytes AppendUUID s"
  by (simp_all add: WriteFieldIntPtr_def WriteFieldFloatPtr_def WriteFieldStringPtr_def
      WriteFieldBoolPtr_def WriteFieldUUIDPtr_def
      flip: svarint.field_ptr_bytes fixed64.field_ptr_bytes str.field_ptr_bytes
        bool.field_ptr_bytes uuid.field_ptr_bytes split: option.split)

lemma ebuf_WriteFieldArray:
  "ebuf (WriteFieldIntArray f is e) = ebuf e @ AppendVarint [] f @ array_bytes AppendSvarint is"
  "ebuf (WriteFieldFloatArray f xs e) = ebuf e @ AppendVarint [] f @ array_bytes AppendFixed64 xs"
  "ebuf (WriteFieldStringArray f ss e) = ebuf e @ AppendVarint [] f @ array_bytes AppendString ss"
  "ebuf (WriteFieldBoolArray f bs e) = ebuf e @ AppendVarint [] f @ array_bytes AppendBool bs"
  "ebuf (WriteFieldBytesArray f ss e) = ebuf e @ AppendVarint [] f @ array_bytes AppendBytes ss"
  "ebuf (WriteFieldUUIDArray f ss e) = ebuf e @ AppendVarint [] f @ array_bytes AppendUUID ss"
  by (simp_all add: WriteFieldIntArray_def WriteFieldFloatArray_def WriteFieldStringArray_def
      WriteFieldBoolArray_def WriteFieldBytesArray_def WriteFieldUUIDArray_def ebuf_fold
      svarint.field_array_bytes fixed64.field_array_bytes str.field_array_bytes
      bool.field_array_bytes bytes.field_array_bytes uuid.field_array_bytes)

end
