(* ===== verification/Decoder.thy ===== *)
theory Decoder
  imports Encoder
begin

text \<open>
  The message decoder of pkg/lux/codec/decoder.go. The state is the buffer, the read offset,
  the current field ID and the recorded error; every method takes the decoder and returns its
  result with the new state. A nil pointer or nil slice is None. Reading an array can panic in
  the make call that allocates the result, so the array readers return a panic or a result.

  The locale field_reader is the contract the message level relies on: a reader returns the
  value whose encoding stands at the offset and moves past it, and it only ever moves the
  offset forward inside the buffer. Each Read method is an interpretation.
\<close>

datatype codec_error =
    MissingEndMarker nat
  | VarintOverflow nat
  | TruncatedVarint nat
  | InvalidSvarint nat
  | InvalidFixed64 nat
  | InvalidString nat
  | InvalidBool nat
  | InvalidBytes nat
  | InvalidNullable nat
  | InvalidArrayHeader nat
  | ArrayTooLarge goint nat
  | TruncatedUUID nat
  | TruncatedNullableUUID nat
  | TruncatedUUIDValue nat
  | TruncatedUUIDAt nat
  | InvalidArenaSize nat
  | ArenaTooLarge u64 nat
  | InvalidArenaHeader nat
  | InvalidVarint nat
  | TruncatedFixed64 nat
  | TruncatedFixed16 nat
  | InvalidLenPrefixed nat
  | UnknownSkipType goint
  | CannotSkipField goint nat
  | SemanticError bytes

record Decoder =
  dbuf :: bytes
  doff :: nat
  dfieldID :: goint
  derr :: "codec_error option"

definition NewDecoder :: "bytes \<Rightarrow> Decoder" where
  "NewDecoder buf = \<lparr>dbuf = buf, doff = 0, dfieldID = 0, derr = None\<rparr>"

definition dec_fail :: "codec_error \<Rightarrow> Decoder \<Rightarrow> Decoder" where
  "dec_fail e d = d\<lparr>derr := Some e\<rparr>"

definition dec_skip :: "int \<Rightarrow> Decoder \<Rightarrow> Decoder" where
  "dec_skip n d = d\<lparr>doff := doff d + nat n\<rparr>"

definition NextField :: "Decoder \<Rightarrow> bool \<times> Decoder" where
  "NextField d =
     (if derr d \<noteq> None then (False, d)
      else if doff d \<ge> length (dbuf d) then (False, dec_fail (MissingEndMarker (doff d)) d)
      else case ReadVarint (dbuf d) (doff d) of (fid, n) \<Rightarrow>
        if n \<le> 0 then
          (False, dec_fail (if n < 0 then VarintOverflow (doff d) else TruncatedVarint (doff d)) d)
        else let d' = (dec_skip n d)\<lparr>dfieldID := fid\<rparr> in (dfieldID d' \<noteq> 0, d'))"

definition FieldID :: "Decoder \<Rightarrow> goint" where
  "FieldID d = dfieldID d"

definition Decoder_Err :: "Decoder \<Rightarrow> codec_error option" where
  "Decoder_Err d = derr d"

definition Decoder_Fail :: "codec_error \<Rightarrow> Decoder \<Rightarrow> Decoder" where
  "Decoder_Fail e d = (if derr d = None then d\<lparr>derr := Some e\<rparr> else d)"

definition Decoder_Offset :: "Decoder \<Rightarrow> nat" where
  "Decoder_Offset d = doff d"

section \<open>Typed readers\<close>

text \<open>The shared shape of the typed readers: call the wire reader, record the error and return
  the zero value when the count says it failed, else move on.\<close>

definition dec_value ::
  "(int \<Rightarrow> bool) \<Rightarrow> (bytes \<Rightarrow> nat \<Rightarrow> 'a \<times> int) \<Rightarrow> (nat \<Rightarrow> codec_error) \<Rightarrow> 'b \<Rightarrow> ('a \<Rightarrow> 'b) \<Rightarrow>
   Decoder \<Rightarrow> 'b \<times> Decoder" where
  "dec_value failed rd mk zero f d =
     (case rd (dbuf d) (doff d) of (v, n) \<Rightarrow>
        if failed n then (zero, dec_fail (mk (doff d)) d) else (f v, dec_skip n d))"

definition dec_ReadInt :: "Decoder \<Rightarrow> goint \<times> Decoder" where
  "dec_ReadInt = dec_value (\<lambda>n. n \<le> 0) ReadSvarint InvalidSvarint 0 id"

definition dec_ReadFloat :: "Decoder \<Rightarrow> float64 \<times> Decoder" where
  "dec_ReadFloat = dec_value (\<lambda>n. n = 0) ReadFixed64 InvalidFixed64 0 id"

definition dec_ReadString :: "Decoder \<Rightarrow> bytes \<times> Decoder" where
  "dec_ReadString = dec_value (\<lambda>n. n = 0) ReadString InvalidString [] id"

definition dec_ReadBool :: "Decoder \<Rightarrow> bool \<times> Decoder" where
  "dec_ReadBool = dec_value (\<lambda>n. n = 0) ReadBool InvalidBool False id"

definition dec_ReadBytes :: "Decoder \<Rightarrow> bytes option \<times> Decoder" where
  "dec_ReadBytes = dec_value (\<lambda>n. n = 0) ReadBytes InvalidBytes None Some"

section \<open>Nullable readers\<close>

definition dec_nullable ::
  "(nat \<Rightarrow> codec_error) \<Rightarrow> 'b \<Rightarrow> (Decoder \<Rightarrow> 'b \<times> Decoder) \<Rightarrow> Decoder \<Rightarrow> 'b \<times> Decoder" where
  "dec_nullable mk nil rd d =
     (case ReadNullable (dbuf d) (doff d) of (present, n) \<Rightarrow>
        if n = 0 then (nil, dec_fail (mk (doff d)) d)
        else let d' = dec_skip n d in
             if \<not> present then (nil, d') else rd d')"

definition ReadIntPtr :: "Decoder \<Rightarrow> goint option \<times> Decoder" where
  "ReadIntPtr = dec_nullable InvalidNullable None
     (\<lambda>d. case dec_ReadInt d of (v, d') \<Rightarrow> (Some v, d'))"

definition ReadFloatPtr :: "Decoder \<Rightarrow> float64 option \<times> Decoder" where
  "ReadFloatPtr = dec_nullable InvalidNullable None
     (\<lambda>d. case dec_ReadFloat d of (v, d') \<Rightarrow> (Some v, d'))"

definition ReadStringPtr :: "Decoder \<Rightarrow> bytes option \<times> Decoder" where
  "ReadStringPtr = dec_nullable InvalidNullable None
     (\<lambda>d. case dec_ReadString d of (v, d') \<Rightarrow> (Some v, d'))"

definition ReadBoolPtr :: "Decoder \<Rightarrow> bool option \<times> Decoder" where
  "ReadBoolPtr = dec_nullable InvalidNullable None
     (\<lambda>d. case dec_ReadBool d of (v, d') \<Rightarrow> (Some v, d'))"

definition ReadBytesPtr :: "Decoder \<Rightarrow> bytes option \<times> Decoder" where
  "ReadBytesPtr = dec_nullable InvalidNullable None dec_ReadBytes"

definition ReadBytesValuePtr :: "Decoder \<Rightarrow> bytes option option \<times> Decoder" where
  "ReadBytesValuePtr = dec_nullable InvalidNullable None
     (\<lambda>d. case dec_ReadBytes d of (value, d') \<Rightarrow>
        if derr d' \<noteq> None then (None, d') else (Some value, d'))"

section \<open>Array readers\<close>

definition ReadArrayLength :: "Decoder \<Rightarrow> goint \<times> Decoder" where
  "ReadArrayLength d =
     (case ReadArrayHeader (dbuf d) (doff d) of (count, n) \<Rightarrow>
        if n = 0 then (0, dec_fail (InvalidArrayHeader (doff d)) d)
        else if sint count > MaxArrayElements then (0, dec_fail (ArrayTooLarge count (doff d)) d)
        else (count, dec_skip n d))"

text \<open>The loop of the array readers: it stops at the first error.\<close>

fun dec_items :: "(Decoder \<Rightarrow> 'a \<times> Decoder) \<Rightarrow> nat \<Rightarrow> Decoder \<Rightarrow> 'a list option \<times> Decoder" where
  "dec_items rd 0 d = (Some [], d)"
| "dec_items rd (Suc k) d =
     (case rd d of (v, d') \<Rightarrow>
        if derr d' \<noteq> None then (None, d')
        else case dec_items rd k d' of (None, d'') \<Rightarrow> (None, d'') | (Some vs, d'') \<Rightarrow> (Some (v # vs), d''))"

text \<open>The length has been read; make panics on a negative one.\<close>

definition dec_array ::
  "(nat \<Rightarrow> Decoder \<Rightarrow> 'a list option \<times> Decoder) \<Rightarrow> Decoder \<Rightarrow> go_panic + 'a list option \<times> Decoder" where
  "dec_array loop d =
     (case ReadArrayLength d of (count, d') \<Rightarrow>
        if derr d' \<noteq> None then Inr (None, d')
        else if sint count < 0 then Inl (MakeSliceLen count)
        else Inr (loop (unat count) d'))"

definition ReadIntArray :: "Decoder \<Rightarrow> go_panic + goint list option \<times> Decoder" where
  "ReadIntArray = dec_array (dec_items dec_ReadInt)"

definition ReadStringArray :: "Decoder \<Rightarrow> go_panic + bytes list option \<times> Decoder" where
  "ReadStringArray = dec_array (dec_items dec_ReadString)"

definition ReadFloatArray :: "Decoder \<Rightarrow> go_panic + float64 list option \<times> Decoder" where
  "ReadFloatArray = dec_array (dec_items dec_ReadFloat)"

definition ReadBoolArray :: "Decoder \<Rightarrow> go_panic + bool list option \<times> Decoder" where
  "ReadBoolArray = dec_array (dec_items dec_ReadBool)"

definition ReadBytesArray :: "Decoder \<Rightarrow> go_panic + bytes option list option \<times> Decoder" where
  "ReadBytesArray = dec_array (dec_items dec_ReadBytes)"

section \<open>UUIDs\<close>

definition dec_ReadUUID :: "Decoder \<Rightarrow> bytes \<times> Decoder" where
  "dec_ReadUUID = dec_value (\<lambda>n. n = 0) ReadUUID TruncatedUUID (replicate 16 0) id"

definition ReadUUIDPtr :: "Decoder \<Rightarrow> bytes option \<times> Decoder" where
  "ReadUUIDPtr = dec_nullable TruncatedNullableUUID None
     (dec_value (\<lambda>n. n = 0) ReadUUID TruncatedUUIDValue None Some)"

text \<open>The loop reports the index of the item that is cut short.\<close>

fun ReadUUIDArray_loop :: "nat \<Rightarrow> nat \<Rightarrow> Decoder \<Rightarrow> bytes list option \<times> Decoder" where
  "ReadUUIDArray_loop i 0 d = (Some [], d)"
| "ReadUUIDArray_loop i (Suc k) d =
     (case ReadUUID (dbuf d) (doff d) of (u, un) \<Rightarrow>
        if un = 0 then (None, dec_fail (TruncatedUUIDAt i) d)
        else case ReadUUIDArray_loop (Suc i) k (dec_skip un d) of
            (None, d'') \<Rightarrow> (None, d'')
          | (Some us, d'') \<Rightarrow> (Some (u # us), d''))"

definition ReadUUIDArray :: "Decoder \<Rightarrow> go_panic + bytes list option \<times> Decoder" where
  "ReadUUIDArray = dec_array (ReadUUIDArray_loop 0)"

section \<open>Arena readers\<close>

definition MaxArenaSize :: nat where
  "MaxArenaSize = 64 * 1024 * 1024"

definition ReadArenaSize :: "Decoder \<Rightarrow> nat \<times> Decoder" where
  "ReadArenaSize d =
     (case ReadVarint (dbuf d) (doff d) of (v, n) \<Rightarrow>
        if n \<le> 0 then (0, dec_fail (InvalidArenaSize (doff d)) d)
        else let d' = dec_skip n d in
             if unat v > MaxArenaSize then (0, dec_fail (ArenaTooLarge v (doff d' - nat n)) d')
             else (unat v, d'))"

definition SkipArenaHeader :: "Decoder \<Rightarrow> Decoder" where
  "SkipArenaHeader d =
     (case ReadVarint (dbuf d) (doff d) of (v, n) \<Rightarrow>
        if n \<le> 0 then dec_fail (InvalidArenaHeader (doff d)) d else dec_skip n d)"

text \<open>
  A string made by unsafe.String points into the arena: its contents are whatever the arena
  holds at its place when it is looked at. A string made by string(b) owns its bytes.
\<close>

datatype gostring = Owned bytes | InArena nat nat

fun string_val :: "bytes \<Rightarrow> gostring \<Rightarrow> bytes" where
  "string_val arena (Owned b) = b"
| "string_val arena (InArena start len) = take len (drop start arena)"

text \<open>Go's copy(arena[start:end], b), where end = start + len(b) is within the arena.\<close>

definition copy_at :: "bytes \<Rightarrow> nat \<Rightarrow> bytes \<Rightarrow> bytes" where
  "copy_at arena start b = take start arena @ b @ drop (start + length b) arena"

definition ReadStringArena :: "bytes \<Rightarrow> nat \<Rightarrow> Decoder \<Rightarrow> gostring \<times> bytes \<times> nat \<times> Decoder" where
  "ReadStringArena arena arenaOff d =
     (case ReadBytes (dbuf d) (doff d) of (b, n) \<Rightarrow>
        if n = 0 then (Owned [], arena, arenaOff, dec_fail (InvalidString (doff d)) d)
        else let d' = dec_skip n d in
          if length b = 0 then (Owned [], arena, arenaOff, d')
          else let start = arenaOff; end' = start + length b in
            if end' > length arena then (Owned b, arena, arenaOff, d')
            else (InArena start (length b), copy_at arena start b, end', d'))"

definition ReadStringArenaPtr ::
  "bytes \<Rightarrow> nat \<Rightarrow> Decoder \<Rightarrow> gostring option \<times> bytes \<times> nat \<times> Decoder" where
  "ReadStringArenaPtr arena arenaOff d =
     (case ReadNullable (dbuf d) (doff d) of (present, n) \<Rightarrow>
        if n = 0 then (None, arena, arenaOff, dec_fail (InvalidNullable (doff d)) d)
        else let d' = dec_skip n d in
             if \<not> present then (None, arena, arenaOff, d')
             else case ReadStringArena arena arenaOff d' of
               (v, arena', off', d'') \<Rightarrow> (Some v, arena', off', d''))"

section \<open>Skipping\<close>

text \<open>FieldSkipType is a Go int: a value outside the declared ones is possible.\<close>

datatype FieldSkipType =
    SkipVarint_t | SkipFixed64_t | SkipBytes_t | SkipNullVarint_t | SkipNullFixed64_t
  | SkipNullBytes_t | SkipFixed16_t | SkipNullFixed16_t | SkipOther_t goint

definition SkipVarint :: "Decoder \<Rightarrow> Decoder" where
  "SkipVarint d =
     (case ReadVarint (dbuf d) (doff d) of (v, n) \<Rightarrow>
        if n \<le> 0 then dec_fail (InvalidVarint (doff d)) d else dec_skip n d)"

definition SkipFixed64 :: "Decoder \<Rightarrow> Decoder" where
  "SkipFixed64 d =
     (if doff d + 8 > length (dbuf d) then dec_fail (TruncatedFixed64 (doff d)) d
      else dec_skip 8 d)"

definition SkipFixed16 :: "Decoder \<Rightarrow> Decoder" where
  "SkipFixed16 d =
     (if doff d > length (dbuf d) \<or> length (dbuf d) - doff d < 16
      then dec_fail (TruncatedFixed16 (doff d)) d else dec_skip 16 d)"

definition SkipLenPrefixed :: "Decoder \<Rightarrow> Decoder" where
  "SkipLenPrefixed d =
     (case ReadBytes (dbuf d) (doff d) of (b, n) \<Rightarrow>
        if n = 0 then dec_fail (InvalidLenPrefixed (doff d)) d else dec_skip n d)"

definition skip_nullable :: "(Decoder \<Rightarrow> Decoder) \<Rightarrow> Decoder \<Rightarrow> Decoder" where
  "skip_nullable skip d =
     (case ReadNullable (dbuf d) (doff d) of (present, n) \<Rightarrow>
        if n = 0 then dec_fail (InvalidNullable (doff d)) d
        else let d' = dec_skip n d in if present then skip d' else d')"

definition SkipNullableVarint :: "Decoder \<Rightarrow> Decoder" where
  "SkipNullableVarint = skip_nullable SkipVarint"

definition SkipNullableFixed64 :: "Decoder \<Rightarrow> Decoder" where
  "SkipNullableFixed64 = skip_nullable SkipFixed64"

definition SkipNullableFixed16 :: "Decoder \<Rightarrow> Decoder" where
  "SkipNullableFixed16 = skip_nullable SkipFixed16"

definition SkipNullableLenPrefixed :: "Decoder \<Rightarrow> Decoder" where
  "SkipNullableLenPrefixed = skip_nullable SkipLenPrefixed"

fun SkipValue :: "FieldSkipType \<Rightarrow> Decoder \<Rightarrow> Decoder" where
  "SkipValue SkipVarint_t d = SkipVarint d"
| "SkipValue SkipFixed64_t d = SkipFixed64 d"
| "SkipValue SkipBytes_t d = SkipLenPrefixed d"
| "SkipValue SkipNullVarint_t d = SkipNullableVarint d"
| "SkipValue SkipNullFixed64_t d = SkipNullableFixed64 d"
| "SkipValue SkipNullBytes_t d = SkipNullableLenPrefixed d"
| "SkipValue SkipFixed16_t d = SkipFixed16 d"
| "SkipValue SkipNullFixed16_t d = SkipNullableFixed16 d"
| "SkipValue (SkipOther_t t) d = dec_fail (UnknownSkipType t) d"

fun SkipArray_loop :: "FieldSkipType \<Rightarrow> nat \<Rightarrow> Decoder \<Rightarrow> Decoder" where
  "SkipArray_loop t 0 d = d"
| "SkipArray_loop t (Suc k) d =
     (let d' = SkipValue t d in if derr d' \<noteq> None then d' else SkipArray_loop t k d')"

text \<open>Ranging over a negative count makes no iteration.\<close>

definition SkipArray :: "FieldSkipType \<Rightarrow> Decoder \<Rightarrow> Decoder" where
  "SkipArray elementType d =
     (case ReadArrayHeader (dbuf d) (doff d) of (count, n) \<Rightarrow>
        if n = 0 then dec_fail (InvalidArrayHeader (doff d)) d
        else if sint count > MaxArrayElements then dec_fail (ArrayTooLarge count (doff d)) d
        else SkipArray_loop elementType (nat (sint count)) (dec_skip n d))"

definition SkipField :: "Decoder \<Rightarrow> Decoder" where
  "SkipField d = dec_fail (CannotSkipField (dfieldID d) (doff d)) d"

section \<open>What every operation keeps\<close>

text \<open>The offset moves forward inside the buffer, and a recorded error is never cleared.\<close>

definition dec_ok :: "Decoder \<Rightarrow> bool" where
  "dec_ok d = (doff d \<le> length (dbuf d))"

definition dec_steps :: "Decoder \<Rightarrow> Decoder \<Rightarrow> bool" where
  "dec_steps d d' =
     (dbuf d' = dbuf d \<and> dfieldID d' = dfieldID d \<and> doff d \<le> doff d' \<and>
      (dec_ok d \<longrightarrow> dec_ok d') \<and> (derr d \<noteq> None \<longrightarrow> derr d' \<noteq> None))"

lemma dec_skip_simps [simp]:
  "dbuf (dec_skip n d) = dbuf d" "doff (dec_skip n d) = doff d + nat n"
  "dfieldID (dec_skip n d) = dfieldID d" "derr (dec_skip n d) = derr d"
  by (simp_all add: dec_skip_def)

lemma dec_fail_simps [simp]:
  "dbuf (dec_fail e d) = dbuf d" "doff (dec_fail e d) = doff d"
  "dfieldID (dec_fail e d) = dfieldID d" "derr (dec_fail e d) = Some e"
  by (simp_all add: dec_fail_def)

lemma dec_skip_add [simp]: "0 \<le> m \<Longrightarrow> 0 \<le> n \<Longrightarrow> dec_skip n (dec_skip m d) = dec_skip (m + n) d"
  by (simp add: dec_skip_def nat_add_distrib add.assoc)

lemma dec_skip_0 [simp]: "dec_skip 0 d = d"
  by (simp add: dec_skip_def)

lemma dec_steps_refl [simp, intro]: "dec_steps d d"
  by (simp add: dec_steps_def)

lemma dec_steps_trans [trans]: "dec_steps d d' \<Longrightarrow> dec_steps d' d'' \<Longrightarrow> dec_steps d d''"
  by (auto simp: dec_steps_def)

lemma dec_steps_fail [simp, intro]: "dec_steps d (dec_fail e d)"
  by (simp add: dec_steps_def dec_ok_def)

lemma dec_steps_fail_after [intro]: "dec_steps d d' \<Longrightarrow> dec_steps d (dec_fail e d')"
  by (auto simp: dec_steps_def dec_ok_def)

lemma dec_steps_skip: "doff d + nat n \<le> length (dbuf d) \<Longrightarrow> dec_steps d (dec_skip n d)"
  by (simp add: dec_steps_def dec_ok_def)

lemma dec_steps_ok: "dec_steps d d' \<Longrightarrow> dec_ok d \<Longrightarrow> dec_ok d'"
  by (simp add: dec_steps_def)

lemma drop_dec_skip:
  "drop (doff d) (dbuf d) = xs @ rest \<Longrightarrow>
   drop (doff (dec_skip (int (length xs)) d)) (dbuf (dec_skip (int (length xs)) d)) = rest"
  using drop_eq_appendD [of "doff d" "dbuf d" xs rest] by simp

section \<open>The contract of a reader\<close>

locale field_reader =
  fixes enc :: "'a \<Rightarrow> bytes"
    and read :: "Decoder \<Rightarrow> 'a \<times> Decoder"
    and ok :: "'a \<Rightarrow> bool"
  assumes read_enc: "ok v \<Longrightarrow> drop (doff d) (dbuf d) = enc v @ rest \<Longrightarrow>
      read d = (v, dec_skip (int (length (enc v))) d)"
    and read_steps: "dec_steps d (snd (read d))"
    and read_truncated: "ok v \<Longrightarrow> k < length (enc v) \<Longrightarrow> drop (doff d) (dbuf d) = take k (enc v) \<Longrightarrow>
      derr (snd (read d)) \<noteq> None"
begin

lemma items_enc:
  assumes "list_all ok vs" "derr d = None" "drop (doff d) (dbuf d) = concat (map enc vs) @ rest"
  shows "dec_items read (length vs) d = (Some vs, dec_skip (int (length (concat (map enc vs)))) d)"
  using assms
proof (induction vs arbitrary: d)
  case Nil
  then show ?case by simp
next
  case (Cons v vs)
  then have d: "drop (doff d) (dbuf d) = enc v @ concat (map enc vs) @ rest" and w: "ok v" by simp_all
  note r = read_enc [OF w d] and d' = drop_dec_skip [OF d]
  show ?case
    using Cons.IH [OF _ _ d'] Cons.prems by (simp add: r)
qed

lemma items_truncated:
  assumes "list_all ok vs" "derr d = None" "k < length (concat (map enc vs))"
    "drop (doff d) (dbuf d) = take k (concat (map enc vs))"
  shows "fst (dec_items read (length vs) d) = None \<and> derr (snd (dec_items read (length vs) d)) \<noteq> None"
  using assms
proof (induction vs arbitrary: d k)
  case Nil
  then show ?case by simp
next
  case (Cons v vs)
  then have w: "ok v" by simp
  show ?case
  proof (cases "k < length (enc v)")
    case True
    then have "derr (snd (read d)) \<noteq> None"
      using Cons.prems(4) by (intro read_truncated [OF w True]) simp
    then show ?thesis by (cases "read d") simp
  next
    case False
    then have d: "drop (doff d) (dbuf d) = enc v @ take (k - length (enc v)) (concat (map enc vs))"
      using Cons.prems(4) by simp
    note r = read_enc [OF w d] and d' = drop_dec_skip [OF d]
    have IH: "fst (dec_items read (length vs) (dec_skip (int (length (enc v))) d)) = None \<and>
        derr (snd (dec_items read (length vs) (dec_skip (int (length (enc v))) d))) \<noteq> None"
      by (rule Cons.IH [OF _ _ _ d']) (use Cons.prems False in auto)
    then show ?thesis
      using Cons.prems(2)
      by (cases "dec_items read (length vs) (dec_skip (int (length (enc v))) d)") (simp add: r)
  qed
qed

lemma items_steps: "dec_steps d (snd (dec_items read k d))"
proof (induction k arbitrary: d)
  case 0
  then show ?case by simp
next
  case (Suc k)
  obtain v d' where r: "read d = (v, d')" by (cases "read d")
  have s: "dec_steps d d'" using read_steps [of d] r by simp
  have "dec_steps d (snd (dec_items read k d'))"
    using s Suc.IH [of d'] by (rule dec_steps_trans)
  with s r show ?case by (auto split: prod.splits option.splits)
qed

end

lemma ReadArrayLength_steps: "dec_steps d (snd (ReadArrayLength d))"
  by (auto simp: ReadArrayLength_def ReadArrayHeader_def split: prod.splits
      intro!: dec_steps_skip dest: ReadVarint_bound)

lemma ReadArrayLength_enc:
  assumes "n \<le> 1000000" "drop (doff d) (dbuf d) = AppendVarint [] (of_nat n) @ rest"
  shows "ReadArrayLength d = (of_nat n, dec_skip (int (length (AppendVarint [] (of_nat n)))) d)"
proof -
  have "sint (of_nat n :: 64 word) = int n"
    using assms(1) by (simp add: signed_of_nat signed_take_bit_int_eq_self)
  then show ?thesis
    using assms arrhdr.rd_app [of "doff d" "dbuf d" "of_nat n" rest]
    by (simp add: ReadArrayLength_def AppendArrayHeader_def MaxArrayElements_def)
qed

lemma ReadArrayLength_truncated:
  assumes "k < length (AppendVarint [] v)" "drop (doff d) (dbuf d) = take k (AppendVarint [] v)"
  shows "derr (snd (ReadArrayLength d)) \<noteq> None"
  using arrhdr.rd_truncated [of k v "doff d" "dbuf d"] assms
  by (auto simp: ReadArrayLength_def AppendArrayHeader_def ReadArrayHeader_def split: prod.splits if_splits)

section \<open>The readers meet the contract\<close>

definition dec_some :: "(Decoder \<Rightarrow> 'a \<times> Decoder) \<Rightarrow> Decoder \<Rightarrow> 'a option \<times> Decoder" where
  "dec_some read d = (case read d of (v, d') \<Rightarrow> (Some v, d'))"

lemma ReadNullable_cases:
  "ReadNullable buf off \<in> {(False, 0), (False, 1), (True, 1)} \<and>
   (snd (ReadNullable buf off) \<noteq> 0 \<longrightarrow> off + 1 \<le> length buf)"
  by (auto simp: ReadNullable_def)

lemma ReadNullable_Cons:
  "drop off buf = 0 # rest \<Longrightarrow> ReadNullable buf off = (False, 1)"
  "drop off buf = 1 # rest \<Longrightarrow> ReadNullable buf off = (True, 1)"
  by (auto simp: ReadNullable_def dest: drop_eq_Cons_nth)

lemma dec_nullable_steps:
  assumes "\<And>d. dec_steps d (snd (rd d))"
  shows "dec_steps d (snd (dec_nullable mk nil rd d))"
proof -
  have s: "snd (ReadNullable (dbuf d) (doff d)) \<noteq> 0 \<Longrightarrow> dec_steps d (dec_skip 1 d)"
    using ReadNullable_cases [of "dbuf d" "doff d"] by (auto intro!: dec_steps_skip)
  show ?thesis
    using ReadNullable_cases [of "dbuf d" "doff d"] s dec_steps_trans [OF s assms]
    by (auto simp: dec_nullable_def split: prod.splits)
qed

context field_reader
begin

lemma array_enc:
  assumes "list_all ok vs" "length vs \<le> 1000000" "derr d = None"
    and d: "drop (doff d) (dbuf d) = AppendVarint [] (of_nat (length vs)) @ concat (map enc vs) @ rest"
  shows "dec_array (dec_items read) d =
    Inr (Some vs, dec_skip (int (length (AppendVarint [] (of_nat (length vs)) @ concat (map enc vs)))) d)"
proof -
  let ?n = "of_nat (length vs) :: 64 word"
  have h: "ReadArrayLength d = (?n, dec_skip (int (length (AppendVarint [] ?n))) d)"
    by (rule ReadArrayLength_enc [OF assms(2) d])
  note d' = drop_dec_skip [OF d]
  have "unat ?n = length vs" and "\<not> sint ?n < 0"
    using assms(2) by (simp_all add: unat_le_max_len max_len_def signed_of_nat signed_take_bit_int_eq_self)
  then show ?thesis
    using items_enc [OF assms(1) _ d'] assms(3) by (simp add: dec_array_def h del: of_nat_less_0_iff)
qed

lemma array_truncated:
  assumes "list_all ok vs" "length vs \<le> 1000000" "derr d = None"
    and k: "k < length (AppendVarint [] (of_nat (length vs)) @ concat (map enc vs))"
    and d: "drop (doff d) (dbuf d) = take k (AppendVarint [] (of_nat (length vs)) @ concat (map enc vs))"
  shows "\<exists>d'. dec_array (dec_items read) d = Inr (None, d') \<and> derr d' \<noteq> None"
proof (cases "k < length (AppendVarint [] (of_nat (length vs) :: 64 word))")
  case True
  then have "derr (snd (ReadArrayLength d)) \<noteq> None"
    using d by (intro ReadArrayLength_truncated [OF True]) simp
  then show ?thesis by (auto simp: dec_array_def split: prod.splits)
next
  case False
  let ?n = "of_nat (length vs) :: 64 word"
  let ?k = "k - length (AppendVarint [] ?n)"
  have d0: "drop (doff d) (dbuf d) = AppendVarint [] ?n @ take ?k (concat (map enc vs))"
    using d False by simp
  have h: "ReadArrayLength d = (?n, dec_skip (int (length (AppendVarint [] ?n))) d)"
    by (rule ReadArrayLength_enc [OF assms(2) d0])
  note d' = drop_dec_skip [OF d0]
  have "unat ?n = length vs" and "\<not> sint ?n < 0"
    using assms(2) by (simp_all add: unat_le_max_len max_len_def signed_of_nat signed_take_bit_int_eq_self)
  moreover have "?k < length (concat (map enc vs))" using k False by simp
  ultimately show ?thesis
    using items_truncated [OF assms(1) _ _ d'] assms(3)
    by (cases "dec_items read (length vs) (dec_skip (int (length (AppendVarint [] ?n))) d)")
       (simp add: dec_array_def h del: of_nat_less_0_iff)
qed

lemma some_reader:
  "field_reader (\<lambda>v. enc (the v)) (dec_some read) (\<lambda>v. v \<noteq> None \<and> ok (the v))"
proof
  fix v and d :: Decoder and rest assume "v \<noteq> None \<and> ok (the v)" "drop (doff d) (dbuf d) = enc (the v) @ rest"
  then show "dec_some read d = (v, dec_skip (int (length (enc (the v)))) d)"
    by (auto simp: dec_some_def read_enc)
next
  fix d :: Decoder show "dec_steps d (snd (dec_some read d))"
    using read_steps [of d] by (simp add: dec_some_def split_beta)
next
  fix v k and d :: Decoder
  assume "v \<noteq> None \<and> ok (the v)" "k < length (enc (the v))" "drop (doff d) (dbuf d) = take k (enc (the v))"
  then show "derr (snd (dec_some read d)) \<noteq> None"
    using read_truncated [of "the v" k d] by (simp add: dec_some_def split_beta)
qed

end

text \<open>The nullable flag in front of a reader whose values are never nil.\<close>

lemma nullable_reader:
  assumes R: "field_reader enc rd ok" and nn: "\<And>v. ok v \<Longrightarrow> v \<noteq> None"
  shows "field_reader (\<lambda>v. if v = None then [0] else 1 # enc v)
     (dec_nullable mk None rd) (\<lambda>v. v = None \<or> ok v)"
proof
  fix v and d :: Decoder and rest
  assume w: "v = None \<or> ok v"
    and d: "drop (doff d) (dbuf d) = (if v = None then [0] else 1 # enc v) @ rest"
  show "dec_nullable mk None rd d =
      (v, dec_skip (int (length (if v = None then [0] else 1 # enc v))) d)"
  proof (cases v)
    case None
    then show ?thesis using d by (simp add: dec_nullable_def ReadNullable_Cons)
  next
    case (Some x)
    then have d1: "drop (doff d) (dbuf d) = [1] @ enc v @ rest" and x: "ok v" using d w by simp_all
    have "rd (dec_skip 1 d) = (v, dec_skip (int (length (enc v))) (dec_skip 1 d))"
      using drop_dec_skip [OF d1] by (intro field_reader.read_enc [OF R x]) simp
    then show ?thesis
      using d1 Some by (simp add: dec_nullable_def ReadNullable_Cons)
  qed
next
  fix d :: Decoder show "dec_steps d (snd (dec_nullable mk None rd d))"
    using field_reader.read_steps [OF R] by (rule dec_nullable_steps)
next
  fix v k and d :: Decoder
  assume w: "v = None \<or> ok v" and k: "k < length (if v = None then [0] else 1 # enc v)"
    and d: "drop (doff d) (dbuf d) = take k (if v = None then [0] else 1 # enc v)"
  show "derr (snd (dec_nullable mk None rd d)) \<noteq> None"
  proof (cases k)
    case 0
    then show ?thesis using d by (simp add: dec_nullable_def ReadNullable_def)
  next
    case (Suc j)
    then have x: "ok v" and j: "j < length (enc v)" and d1: "drop (doff d) (dbuf d) = [1] @ take j (enc v)"
      using w k d by (auto split: if_splits)
    have "derr (snd (rd (dec_skip 1 d))) \<noteq> None"
      using drop_dec_skip [OF d1] by (intro field_reader.read_truncated [OF R x j]) simp
    then show ?thesis
      using d1 by (simp add: dec_nullable_def ReadNullable_Cons Let_def)
  qed
qed

text \<open>A wire format read through the shared shape of the typed readers is a field reader.\<close>

context wire_format
begin

lemma dec_value_reader:
  assumes bad: "\<And>buf off. bad (snd (rd buf off)) = (snd (rd buf off) \<le> 0)"
    and g: "\<And>u. g (f u) = u"
  shows "field_reader (\<lambda>v. app [] (g v)) (dec_value bad rd mk zero f) (\<lambda>v. v = f (g v) \<and> ok (g v))"
proof
  fix v and d :: Decoder and rest assume w: "v = f (g v) \<and> ok (g v)"
    and d: "drop (doff d) (dbuf d) = app [] (g v) @ rest"
  then show "dec_value bad rd mk zero f d = (v, dec_skip (int (length (app [] (g v)))) d)"
    using bad [of "dbuf d" "doff d"] by (simp add: dec_value_def rd_app [of "g v"] app_nonempty)
next
  fix d :: Decoder show "dec_steps d (snd (dec_value bad rd mk zero f d))"
    using rd_bound [of "dbuf d" "doff d"] bad [of "dbuf d" "doff d"]
    by (auto simp: dec_value_def split: prod.splits intro!: dec_steps_skip)
next
  fix v k and d :: Decoder assume w: "v = f (g v) \<and> ok (g v)" and k: "k < length (app [] (g v))"
    and d: "drop (doff d) (dbuf d) = take k (app [] (g v))"
  then show "derr (snd (dec_value bad rd mk zero f d)) \<noteq> None"
    using bad [of "dbuf d" "doff d"] rd_truncated [of "g v" k "doff d" "dbuf d"]
    by (auto simp: dec_value_def split: prod.splits)
qed

end

lemma nonneg_readers:
  "0 \<le> snd (ReadSvarint buf off)" "0 \<le> snd (ReadFixed64 buf off)" "0 \<le> snd (ReadString buf off)"
  "0 \<le> snd (ReadBool buf off)" "0 \<le> snd (ReadUUID buf off)"
  by (auto simp: ReadSvarint_def ReadFixed64_def ReadString_def ReadBytes_nonneg ReadBool_def
      ReadUUID_def split: prod.splits) (metis ReadBytes_nonneg snd_conv)

lemma failed_eq:
  "(snd (ReadSvarint buf off) = 0) = (snd (ReadSvarint buf off) \<le> 0)"
  "(snd (ReadFixed64 buf off) = 0) = (snd (ReadFixed64 buf off) \<le> 0)"
  "(snd (ReadString buf off) = 0) = (snd (ReadString buf off) \<le> 0)"
  "(snd (ReadBool buf off) = 0) = (snd (ReadBool buf off) \<le> 0)"
  "(snd (ReadBytes buf off) = 0) = (snd (ReadBytes buf off) \<le> 0)"
  "(snd (ReadUUID buf off) = 0) = (snd (ReadUUID buf off) \<le> 0)"
  using nonneg_readers ReadBytes_nonneg by (simp_all add: order.eq_iff)

interpretation int_reader: field_reader "\<lambda>v. AppendSvarint [] v" dec_ReadInt "\<lambda>_. True"
  using svarint.dec_value_reader [of "\<lambda>n. n \<le> 0" id id] by (simp add: dec_ReadInt_def)

interpretation float_reader: field_reader "\<lambda>v. AppendFixed64 [] v" dec_ReadFloat "\<lambda>_. True"
  using fixed64.dec_value_reader [of "\<lambda>n. n = 0" id id, OF failed_eq(2)] by (simp add: dec_ReadFloat_def)

interpretation string_reader: field_reader "\<lambda>v. AppendString [] v" dec_ReadString len_ok
  using str.dec_value_reader [of "\<lambda>n. n = 0" id id, OF failed_eq(3)] by (simp add: dec_ReadString_def)

interpretation bool_reader: field_reader "\<lambda>v. AppendBool [] v" dec_ReadBool "\<lambda>_. True"
  using bool.dec_value_reader [of "\<lambda>n. n = 0" id id, OF failed_eq(4)] by (simp add: dec_ReadBool_def)

definition some_len_ok :: "bytes option \<Rightarrow> bool" where
  "some_len_ok v = (v \<noteq> None \<and> len_ok (the v))"

interpretation bytes_reader: field_reader "\<lambda>v. AppendBytes [] (the v)" dec_ReadBytes some_len_ok
proof -
  have "some_len_ok = (\<lambda>v. v = Some (the v) \<and> len_ok (the v))"
    by (auto simp: some_len_ok_def fun_eq_iff)
  then show "field_reader (\<lambda>v. AppendBytes [] (the v)) dec_ReadBytes some_len_ok"
    using bytes.dec_value_reader [of "\<lambda>n. n = 0" the Some, OF failed_eq(5)] by (simp add: dec_ReadBytes_def)
qed

interpretation uuid_reader: field_reader "\<lambda>v. AppendUUID [] v" dec_ReadUUID uuid_ok
  using uuid.dec_value_reader [of "\<lambda>n. n = 0" id id, OF failed_eq(6)] by (simp add: dec_ReadUUID_def)


text \<open>Nullable readers: the contract of the value carried over the flag.\<close>

definition opt_ok :: "('a \<Rightarrow> bool) \<Rightarrow> 'a option \<Rightarrow> bool" where
  "opt_ok ok v = (case v of None \<Rightarrow> True | Some x \<Rightarrow> ok x)"

lemma ptr_reader:
  assumes "field_reader (\<lambda>v. app [] (the v)) rd (\<lambda>v. v \<noteq> None \<and> ok (the v))"
  shows "field_reader (ptr_bytes app) (dec_nullable mk None rd) (opt_ok ok)"
proof -
  have "ptr_bytes app = (\<lambda>v. if v = None then [0] else 1 # app [] (the v))"
    by (auto simp: ptr_bytes_def fun_eq_iff split: option.split)
  moreover have "opt_ok ok = (\<lambda>v. v = None \<or> v \<noteq> None \<and> ok (the v))"
    by (auto simp: opt_ok_def fun_eq_iff split: option.split)
  ultimately show ?thesis using nullable_reader [OF assms] by auto
qed

interpretation intptr_reader: field_reader "ptr_bytes AppendSvarint" ReadIntPtr "opt_ok (\<lambda>_. True)"
  unfolding ReadIntPtr_def dec_some_def [symmetric, abs_def]
  by (rule ptr_reader, rule int_reader.some_reader)

interpretation floatptr_reader: field_reader "ptr_bytes AppendFixed64" ReadFloatPtr "opt_ok (\<lambda>_. True)"
  unfolding ReadFloatPtr_def dec_some_def [symmetric, abs_def]
  by (rule ptr_reader, rule float_reader.some_reader)

interpretation stringptr_reader: field_reader "ptr_bytes AppendString" ReadStringPtr "opt_ok len_ok"
  unfolding ReadStringPtr_def dec_some_def [symmetric, abs_def]
  by (rule ptr_reader, rule string_reader.some_reader)

interpretation boolptr_reader: field_reader "ptr_bytes AppendBool" ReadBoolPtr "opt_ok (\<lambda>_. True)"
  unfolding ReadBoolPtr_def dec_some_def [symmetric, abs_def]
  by (rule ptr_reader, rule bool_reader.some_reader)

interpretation bytesptr_reader: field_reader "ptr_bytes AppendBytes" ReadBytesPtr "opt_ok len_ok"
  unfolding ReadBytesPtr_def
  by (rule ptr_reader) (use bytes_reader.field_reader_axioms in \<open>simp add: some_len_ok_def [abs_def]\<close>)

lemma value_eq_Some: "(v = Some (the v)) = (v \<noteq> None)"
  by (cases v) auto

interpretation uuidptr_reader: field_reader "ptr_bytes AppendUUID" ReadUUIDPtr "opt_ok uuid_ok"
  unfolding ReadUUIDPtr_def
  by (rule ptr_reader)
     (rule uuid.dec_value_reader [of "\<lambda>n. n = 0" the Some, OF failed_eq(6), unfolded value_eq_Some],
      simp)

text \<open>The UUID array loop differs from the shared one only in the error it records.\<close>

lemma dec_ReadUUID_cases:
  assumes "ReadUUID (dbuf d) (doff d) = (u, n)"
  shows "dec_ReadUUID d = (if n = 0 then (replicate 16 0, dec_fail (TruncatedUUID (doff d)) d) else (u, dec_skip n d))"
  using assms by (simp add: dec_ReadUUID_def dec_value_def)

lemma dec_fail_fail [simp]: "dec_fail e (dec_fail e' d) = dec_fail e d"
  by (simp add: dec_fail_def)

lemma ReadUUIDArray_loop_items:
  "derr d = None \<Longrightarrow> dec_items dec_ReadUUID k d = (r, d') \<Longrightarrow>
   ReadUUIDArray_loop i k d = (r, d') \<and> r \<noteq> None \<or>
   r = None \<and> (\<exists>e. ReadUUIDArray_loop i k d = (None, dec_fail e d'))"
proof (induction k arbitrary: i d r d')
  case 0
  then show ?case by auto
next
  case (Suc k)
  obtain u n where rd: "ReadUUID (dbuf d) (doff d) = (u, n)" by (cases "ReadUUID (dbuf d) (doff d)")
  show ?case
  proof (cases "n = 0")
    case True
    then show ?thesis using Suc.prems(2) by (auto simp: rd dec_ReadUUID_cases [OF rd])
  next
    case False
    obtain r1 d1 where i1: "dec_items dec_ReadUUID k (dec_skip n d) = (r1, d1)"
      by (cases "dec_items dec_ReadUUID k (dec_skip n d)")
    have "derr (dec_skip n d) = None" using Suc.prems by simp
    note IH = Suc.IH [OF this i1, of "Suc i"]
    have "d' = d1" "r = map_option (Cons u) r1"
      using Suc.prems False i1 by (auto simp: dec_ReadUUID_cases [OF rd] split: option.splits)
    with IH False show ?thesis by (cases r1) (auto simp: rd)
  qed
qed

lemma ReadUUIDArray_dec_array:
  assumes "dec_array (dec_items dec_ReadUUID) d = Inr (r, d')"
  shows "ReadUUIDArray d = Inr (r, d') \<or> r = None \<and> (\<exists>e. ReadUUIDArray d = Inr (None, dec_fail e d'))"
proof -
  obtain c d1 where h: "ReadArrayLength d = (c, d1)" by (cases "ReadArrayLength d")
  show ?thesis
  proof (cases "derr d1")
    case (Some e)
    then show ?thesis using assms by (simp add: ReadUUIDArray_def dec_array_def h)
  next
    case None
    then have "\<not> sint c < 0" "dec_items dec_ReadUUID (unat c) d1 = (r, d')"
      using assms by (auto simp: dec_array_def h split: if_splits)
    with ReadUUIDArray_loop_items [OF None this(2), of 0] None show ?thesis
      by (auto simp: ReadUUIDArray_def dec_array_def h)
  qed
qed

lemma ReadUUIDArray_enc:
  assumes "list_all uuid_ok vs" "length vs \<le> 1000000" "derr d = None"
    and "drop (doff d) (dbuf d) = AppendVarint [] (of_nat (length vs)) @ concat (map (AppendUUID []) vs) @ rest"
  shows "ReadUUIDArray d =
    Inr (Some vs, dec_skip (int (length (AppendVarint [] (of_nat (length vs)) @ concat (map (AppendUUID []) vs)))) d)"
  using ReadUUIDArray_dec_array [OF uuid_reader.array_enc [OF assms]] by simp

lemma ReadUUIDArray_truncated:
  assumes "list_all uuid_ok vs" "length vs \<le> 1000000" "derr d = None"
    and k: "k < length (AppendVarint [] (of_nat (length vs)) @ concat (map (AppendUUID []) vs))"
    and d: "drop (doff d) (dbuf d) = take k (AppendVarint [] (of_nat (length vs)) @ concat (map (AppendUUID []) vs))"
  shows "\<exists>d'. ReadUUIDArray d = Inr (None, d') \<and> derr d' \<noteq> None"
proof -
  obtain d' where "dec_array (dec_items dec_ReadUUID) d = Inr (None, d')" "derr d' \<noteq> None"
    using uuid_reader.array_truncated [OF assms] by blast
  then show ?thesis using ReadUUIDArray_dec_array by force
qed

lemma ReadUUIDArray_loop_steps: "dec_steps d (snd (ReadUUIDArray_loop i k d))"
proof (induction k arbitrary: i d)
  case 0
  then show ?case by simp
next
  case (Suc k)
  obtain u n where rd: "ReadUUID (dbuf d) (doff d) = (u, n)" by (cases "ReadUUID (dbuf d) (doff d)")
  have s: "dec_steps d (dec_skip n d)"
    using uuid.rd_bound [OF rd] nonneg_readers(5) [of "dbuf d" "doff d"] rd
    by (cases "n = 0") (auto intro!: dec_steps_skip)
  show ?case
    using dec_steps_trans [OF s Suc.IH [of "dec_skip n d" "Suc i"]] by (auto simp: rd split: prod.splits option.splits)
qed

lemma dec_array_steps:
  assumes "dec_array loop d = Inr (r, d')" "\<And>k d. dec_steps d (snd (loop k d))"
  shows "dec_steps d d'"
proof -
  obtain c d1 where h: "ReadArrayLength d = (c, d1)" by (cases "ReadArrayLength d")
  then have s: "dec_steps d d1" using ReadArrayLength_steps [of d] by simp
  show ?thesis
    using assms(1) h s dec_steps_trans [OF s assms(2) [of d1 "unat c"]]
    by (auto simp: dec_array_def split: if_splits)
qed

section \<open>The contract of an array reader\<close>

text \<open>Elements Go can hold, in a number the readers accept.\<close>

definition arr_ok :: "('a \<Rightarrow> bool) \<Rightarrow> 'a list \<Rightarrow> bool" where
  "arr_ok ok vs = (list_all ok vs \<and> length vs \<le> 1000000)"

text \<open>Reading can panic on a hostile header, never on an encoded array, cut short or not.\<close>

locale array_reader =
  fixes enc :: "'a \<Rightarrow> bytes"
    and read :: "Decoder \<Rightarrow> go_panic + 'a list option \<times> Decoder"
    and ok :: "'a \<Rightarrow> bool"
  assumes arr_enc: "arr_ok ok vs \<Longrightarrow> derr d = None \<Longrightarrow>
      drop (doff d) (dbuf d) = AppendVarint [] (of_nat (length vs)) @ concat (map enc vs) @ rest \<Longrightarrow>
      read d = Inr (Some vs, dec_skip (int (length (AppendVarint [] (of_nat (length vs)) @ concat (map enc vs)))) d)"
    and arr_truncated: "arr_ok ok vs \<Longrightarrow> derr d = None \<Longrightarrow>
      k < length (AppendVarint [] (of_nat (length vs)) @ concat (map enc vs)) \<Longrightarrow>
      drop (doff d) (dbuf d) = take k (AppendVarint [] (of_nat (length vs)) @ concat (map enc vs)) \<Longrightarrow>
      \<exists>d'. read d = Inr (None, d') \<and> derr d' \<noteq> None"
    and arr_steps: "read d = Inr (r, d') \<Longrightarrow> dec_steps d d'"
    and arr_panic: "(\<exists>p. read d = Inl p) \<longleftrightarrow>
      derr d = None \<and> (\<exists>c n. ReadArrayHeader (dbuf d) (doff d) = (c, n) \<and> n \<noteq> 0 \<and> sint c < 0)"

lemma ReadArrayLength_panic:
  "(\<exists>p. dec_array loop d = Inl p) \<longleftrightarrow>
   derr d = None \<and> (\<exists>c n. ReadArrayHeader (dbuf d) (doff d) = (c, n) \<and> n \<noteq> 0 \<and> sint c < 0)"
  by (auto simp: dec_array_def ReadArrayLength_def MaxArrayElements_def split: prod.splits if_splits)

context field_reader
begin

lemma dec_array_reader: "array_reader enc (dec_array (dec_items read)) ok"
proof
  show "dec_array (dec_items read) d =
      Inr (Some vs, dec_skip (int (length (AppendVarint [] (of_nat (length vs)) @ concat (map enc vs)))) d)"
    if "arr_ok ok vs" "derr d = None"
      "drop (doff d) (dbuf d) = AppendVarint [] (of_nat (length vs)) @ concat (map enc vs) @ rest"
    for vs and d :: Decoder and rest
    using array_enc that unfolding arr_ok_def by blast
  show "\<exists>d'. dec_array (dec_items read) d = Inr (None, d') \<and> derr d' \<noteq> None"
    if "arr_ok ok vs" "derr d = None"
      "k < length (AppendVarint [] (of_nat (length vs)) @ concat (map enc vs))"
      "drop (doff d) (dbuf d) = take k (AppendVarint [] (of_nat (length vs)) @ concat (map enc vs))"
    for vs and d :: Decoder and k
    using that unfolding arr_ok_def by (blast intro!: array_truncated)
  show "dec_steps d d'" if "dec_array (dec_items read) d = Inr (r, d')" for d d' :: Decoder and r
    using that items_steps by (rule dec_array_steps)
qed (rule ReadArrayLength_panic)

end

interpretation int_array: array_reader "\<lambda>v. AppendSvarint [] v" ReadIntArray "\<lambda>_. True"
  unfolding ReadIntArray_def by (rule int_reader.dec_array_reader)

interpretation float_array: array_reader "\<lambda>v. AppendFixed64 [] v" ReadFloatArray "\<lambda>_. True"
  unfolding ReadFloatArray_def by (rule float_reader.dec_array_reader)

interpretation string_array: array_reader "\<lambda>v. AppendString [] v" ReadStringArray len_ok
  unfolding ReadStringArray_def by (rule string_reader.dec_array_reader)

interpretation bool_array: array_reader "\<lambda>v. AppendBool [] v" ReadBoolArray "\<lambda>_. True"
  unfolding ReadBoolArray_def by (rule bool_reader.dec_array_reader)

interpretation bytes_array: array_reader "\<lambda>v. AppendBytes [] (the v)" ReadBytesArray some_len_ok
  unfolding ReadBytesArray_def by (rule bytes_reader.dec_array_reader)

interpretation uuid_array: array_reader "\<lambda>v. AppendUUID [] v" ReadUUIDArray uuid_ok
proof
  show "ReadUUIDArray d =
      Inr (Some vs, dec_skip (int (length (AppendVarint [] (of_nat (length vs)) @ concat (map (AppendUUID []) vs)))) d)"
    if "arr_ok uuid_ok vs" "derr d = None"
      "drop (doff d) (dbuf d) = AppendVarint [] (of_nat (length vs)) @ concat (map (AppendUUID []) vs) @ rest"
    for vs and d :: Decoder and rest
    using ReadUUIDArray_enc that unfolding arr_ok_def by blast
  show "\<exists>d'. ReadUUIDArray d = Inr (None, d') \<and> derr d' \<noteq> None"
    if "arr_ok uuid_ok vs" "derr d = None"
      "k < length (AppendVarint [] (of_nat (length vs)) @ concat (map (AppendUUID []) vs))"
      "drop (doff d) (dbuf d) = take k (AppendVarint [] (of_nat (length vs)) @ concat (map (AppendUUID []) vs))"
    for vs and d :: Decoder and k
    using that unfolding arr_ok_def by (blast intro!: ReadUUIDArray_truncated)
  show "dec_steps d d'" if "ReadUUIDArray d = Inr (r, d')" for d d' :: Decoder and r
    using that [unfolded ReadUUIDArray_def] ReadUUIDArray_loop_steps by (rule dec_array_steps)
qed (unfold ReadUUIDArray_def, rule ReadArrayLength_panic)

section \<open>Skipping moves forward inside the buffer\<close>

lemma SkipVarint_steps: "dec_steps d (SkipVarint d)"
  by (auto simp: SkipVarint_def split: prod.splits intro!: dec_steps_skip dest: ReadVarint_bound)

lemma SkipArenaHeader_steps: "dec_steps d (SkipArenaHeader d)"
  by (auto simp: SkipArenaHeader_def split: prod.splits intro!: dec_steps_skip dest: ReadVarint_bound)

lemma SkipFixed_steps: "dec_steps d (SkipFixed64 d)" "dec_steps d (SkipFixed16 d)"
  by (auto simp: SkipFixed64_def SkipFixed16_def intro!: dec_steps_skip)

lemma SkipLenPrefixed_steps: "dec_steps d (SkipLenPrefixed d)"
  using ReadBytes_bound [of "dbuf d" "doff d"] ReadBytes_nonneg [of "dbuf d" "doff d"]
  by (auto simp: SkipLenPrefixed_def split: prod.splits intro!: dec_steps_skip)

lemma skip_nullable_steps:
  assumes "\<And>d. dec_steps d (skip d)"
  shows "dec_steps d (skip_nullable skip d)"
proof -
  obtain p n where rd: "ReadNullable (dbuf d) (doff d) = (p, n)" by (cases "ReadNullable (dbuf d) (doff d)")
  have "n \<noteq> 0 \<Longrightarrow> dec_steps d (dec_skip n d)"
    using rd by (intro dec_steps_skip) (auto simp: ReadNullable_def split: if_splits)
  then show ?thesis
    using dec_steps_trans [OF _ assms] by (auto simp: skip_nullable_def rd Let_def)
qed

lemma SkipValue_steps: "dec_steps d (SkipValue t d)"
  by (cases t) (simp_all add: SkipNullableVarint_def SkipNullableFixed64_def SkipNullableFixed16_def
      SkipNullableLenPrefixed_def SkipVarint_steps SkipFixed_steps SkipLenPrefixed_steps skip_nullable_steps)

lemma SkipArray_loop_steps: "dec_steps d (SkipArray_loop t k d)"
  by (induction k arbitrary: d) (auto simp: Let_def SkipValue_steps intro: dec_steps_trans [OF SkipValue_steps])

lemma SkipArray_steps: "dec_steps d (SkipArray t d)"
proof -
  obtain c n where h: "ReadArrayHeader (dbuf d) (doff d) = (c, n)" by (cases "ReadArrayHeader (dbuf d) (doff d)")
  have "n \<noteq> 0 \<Longrightarrow> dec_steps d (dec_skip n d)"
    using h by (intro dec_steps_skip) (auto simp: ReadArrayHeader_def dest: ReadVarint_bound split: prod.splits if_splits)
  then show ?thesis
    using dec_steps_trans [OF _ SkipArray_loop_steps] by (auto simp: SkipArray_def h)
qed

lemma NextField_True:
  assumes "NextField d = (True, d1)"
  shows "doff d < length (dbuf d)" "doff d < doff d1" "dbuf d1 = dbuf d" "dec_ok d1" "derr d1 = None"
proof -
  from assms show "doff d < length (dbuf d)" "doff d < doff d1" "dbuf d1 = dbuf d" "derr d1 = None"
    by (auto simp: NextField_def Let_def split: prod.splits if_splits)
  from assms show "dec_ok d1"
    by (auto simp: NextField_def Let_def dec_ok_def split: prod.splits if_splits dest!: ReadVarint_bound)
qed

lemma NextField_failed: "derr d \<noteq> None \<Longrightarrow> NextField d = (False, d)"
  by (simp add: NextField_def)

text \<open>What is left of the buffer: every loop over fields decreases it.\<close>

definition remaining :: "Decoder \<Rightarrow> nat" where
  "remaining d = length (dbuf d) - doff d"

lemma remaining_NextField: "NextField d = (True, d1) \<Longrightarrow> remaining d1 < remaining d"
  using NextField_True [of d d1] by (simp add: remaining_def)

lemma remaining_steps: "dec_steps d d' \<Longrightarrow> remaining d' \<le> remaining d"
  by (auto simp: dec_steps_def remaining_def)

end
