(* ===== verification/Message.thy ===== *)
theory Message
  imports Decoder
begin

text \<open>
  Whole messages. Generated code writes a message as a sequence of WriteField calls closed by
  WriteEnd, and reads one by looping over NextField and calling, for each field ID, the Read
  method of the type the schema declares (the usage comments of encoder.go and decoder.go).
  The definitions here put the methods of the two files together in that way for every field
  type, so that the properties of the wire format can be stated on complete messages.
\<close>

datatype wire_val =
    VInt goint | VFloat float64 | VString bytes | VBool bool | VBytes bytes | VUUID bytes
  | VIntPtr "goint option" | VFloatPtr "float64 option" | VStringPtr "bytes option"
  | VBoolPtr "bool option" | VUUIDPtr "bytes option"
  | VIntArray "goint list" | VFloatArray "float64 list" | VStringArray "bytes list"
  | VBoolArray "bool list" | VBytesArray "bytes list" | VUUIDArray "bytes list"

datatype wire_kind =
    KInt | KFloat | KString | KBool | KBytes | KUUID
  | KIntPtr | KFloatPtr | KStringPtr | KBoolPtr | KUUIDPtr
  | KIntArray | KFloatArray | KStringArray | KBoolArray | KBytesArray | KUUIDArray

fun kind_of :: "wire_val \<Rightarrow> wire_kind" where
  "kind_of (VInt _) = KInt" | "kind_of (VFloat _) = KFloat" | "kind_of (VString _) = KString"
| "kind_of (VBool _) = KBool" | "kind_of (VBytes _) = KBytes" | "kind_of (VUUID _) = KUUID"
| "kind_of (VIntPtr _) = KIntPtr" | "kind_of (VFloatPtr _) = KFloatPtr"
| "kind_of (VStringPtr _) = KStringPtr" | "kind_of (VBoolPtr _) = KBoolPtr"
| "kind_of (VUUIDPtr _) = KUUIDPtr" | "kind_of (VIntArray _) = KIntArray"
| "kind_of (VFloatArray _) = KFloatArray" | "kind_of (VStringArray _) = KStringArray"
| "kind_of (VBoolArray _) = KBoolArray" | "kind_of (VBytesArray _) = KBytesArray"
| "kind_of (VUUIDArray _) = KUUIDArray"

fun val_ok :: "wire_val \<Rightarrow> bool" where
  "val_ok (VString s) = len_ok s" | "val_ok (VBytes s) = len_ok s" | "val_ok (VUUID u) = uuid_ok u"
| "val_ok (VStringPtr s) = opt_ok len_ok s" | "val_ok (VUUIDPtr u) = opt_ok uuid_ok u"
| "val_ok (VIntArray xs) = arr_ok (\<lambda>_. True) xs" | "val_ok (VFloatArray xs) = arr_ok (\<lambda>_. True) xs"
| "val_ok (VStringArray xs) = arr_ok len_ok xs" | "val_ok (VBoolArray xs) = arr_ok (\<lambda>_. True) xs"
| "val_ok (VBytesArray xs) = arr_ok len_ok xs" | "val_ok (VUUIDArray xs) = arr_ok uuid_ok xs"
| "val_ok _ = True"

fun write_field :: "goint \<times> wire_val \<Rightarrow> Encoder \<Rightarrow> Encoder" where
  "write_field (f, VInt v) = WriteFieldInt f v"
| "write_field (f, VFloat v) = WriteFieldFloat f v"
| "write_field (f, VString v) = WriteFieldString f v"
| "write_field (f, VBool v) = WriteFieldBool f v"
| "write_field (f, VBytes v) = WriteFieldBytes f v"
| "write_field (f, VUUID v) = WriteFieldUUID f v"
| "write_field (f, VIntPtr v) = WriteFieldIntPtr f v"
| "write_field (f, VFloatPtr v) = WriteFieldFloatPtr f v"
| "write_field (f, VStringPtr v) = WriteFieldStringPtr f v"
| "write_field (f, VBoolPtr v) = WriteFieldBoolPtr f v"
| "write_field (f, VUUIDPtr v) = WriteFieldUUIDPtr f v"
| "write_field (f, VIntArray v) = WriteFieldIntArray f v"
| "write_field (f, VFloatArray v) = WriteFieldFloatArray f v"
| "write_field (f, VStringArray v) = WriteFieldStringArray f v"
| "write_field (f, VBoolArray v) = WriteFieldBoolArray f v"
| "write_field (f, VBytesArray v) = WriteFieldBytesArray f v"
| "write_field (f, VUUIDArray v) = WriteFieldUUIDArray f v"

definition encode_message :: "(goint \<times> wire_val) list \<Rightarrow> bytes" where
  "encode_message fs = Encoder_Bytes (WriteEnd (fold write_field fs \<lparr>ebuf = []\<rparr>))"

text \<open>None stands for the nil slice an array reader returns after an error.\<close>

definition plain :: "('a \<Rightarrow> wire_val) \<Rightarrow> 'a \<times> Decoder \<Rightarrow> go_panic + wire_val option \<times> Decoder" where
  "plain c r = Inr (Some (c (fst r)), snd r)"

definition listed ::
  "('a list \<Rightarrow> wire_val) \<Rightarrow> go_panic + 'a list option \<times> Decoder \<Rightarrow> go_panic + wire_val option \<times> Decoder" where
  "listed c r = (case r of Inl p \<Rightarrow> Inl p | Inr (vs, d) \<Rightarrow> Inr (map_option c vs, d))"

fun read_field :: "wire_kind \<Rightarrow> Decoder \<Rightarrow> go_panic + wire_val option \<times> Decoder" where
  "read_field KInt d = plain VInt (dec_ReadInt d)"
| "read_field KFloat d = plain VFloat (dec_ReadFloat d)"
| "read_field KString d = plain VString (dec_ReadString d)"
| "read_field KBool d = plain VBool (dec_ReadBool d)"
| "read_field KBytes d = plain (\<lambda>b. VBytes (case b of None \<Rightarrow> [] | Some b \<Rightarrow> b)) (dec_ReadBytes d)"
| "read_field KUUID d = plain VUUID (dec_ReadUUID d)"
| "read_field KIntPtr d = plain VIntPtr (ReadIntPtr d)"
| "read_field KFloatPtr d = plain VFloatPtr (ReadFloatPtr d)"
| "read_field KStringPtr d = plain VStringPtr (ReadStringPtr d)"
| "read_field KBoolPtr d = plain VBoolPtr (ReadBoolPtr d)"
| "read_field KUUIDPtr d = plain VUUIDPtr (ReadUUIDPtr d)"
| "read_field KIntArray d = listed VIntArray (ReadIntArray d)"
| "read_field KFloatArray d = listed VFloatArray (ReadFloatArray d)"
| "read_field KStringArray d = listed VStringArray (ReadStringArray d)"
| "read_field KBoolArray d = listed VBoolArray (ReadBoolArray d)"
| "read_field KBytesArray d =
     listed (\<lambda>bs. VBytesArray (map (\<lambda>b. case b of None \<Rightarrow> [] | Some b \<Rightarrow> b) bs)) (ReadBytesArray d)"
| "read_field KUUIDArray d = listed VUUIDArray (ReadUUIDArray d)"

section \<open>One field\<close>

fun val_enc :: "wire_val \<Rightarrow> bytes" where
  "val_enc (VInt v) = AppendSvarint [] v"
| "val_enc (VFloat v) = AppendFixed64 [] v"
| "val_enc (VString v) = AppendString [] v"
| "val_enc (VBool v) = AppendBool [] v"
| "val_enc (VBytes v) = AppendBytes [] v"
| "val_enc (VUUID v) = AppendUUID [] v"
| "val_enc (VIntPtr v) = ptr_bytes AppendSvarint v"
| "val_enc (VFloatPtr v) = ptr_bytes AppendFixed64 v"
| "val_enc (VStringPtr v) = ptr_bytes AppendString v"
| "val_enc (VBoolPtr v) = ptr_bytes AppendBool v"
| "val_enc (VUUIDPtr v) = ptr_bytes AppendUUID v"
| "val_enc (VIntArray v) = array_bytes AppendSvarint v"
| "val_enc (VFloatArray v) = array_bytes AppendFixed64 v"
| "val_enc (VStringArray v) = array_bytes AppendString v"
| "val_enc (VBoolArray v) = array_bytes AppendBool v"
| "val_enc (VBytesArray v) = array_bytes AppendBytes v"
| "val_enc (VUUIDArray v) = array_bytes AppendUUID v"

definition field_enc :: "goint \<times> wire_val \<Rightarrow> bytes" where
  "field_enc fv = AppendVarint [] (fst fv) @ val_enc (snd fv)"

lemma ebuf_write_field: "ebuf (write_field fv e) = ebuf e @ field_enc fv"
  by (cases fv; cases "snd fv")
     (simp_all add: field_enc_def ebuf_WriteField ebuf_WriteFieldPtr ebuf_WriteFieldArray)

lemma encode_message_bytes: "encode_message fs = concat (map field_enc fs) @ [0]"
proof -
  have "ebuf (fold write_field fs e) = ebuf e @ concat (map field_enc fs)" for e
    by (induction fs arbitrary: e) (simp_all add: ebuf_write_field)
  then show ?thesis by (simp add: encode_message_def Encoder_Bytes_def WriteEnd_def)
qed

lemma read_field_scalar_enc:
  assumes "val_ok v" "drop (doff d) (dbuf d) = val_enc v @ rest"
    "kind_of v \<in> {KInt, KFloat, KString, KBool, KBytes, KUUID,
       KIntPtr, KFloatPtr, KStringPtr, KBoolPtr, KUUIDPtr}"
  shows "read_field (kind_of v) d = Inr (Some v, dec_skip (int (length (val_enc v))) d)"
  by (cases v; use assms in \<open>simp add: plain_def some_len_ok_def opt_ok_def [of "\<lambda>_. True"]
      int_reader.read_enc float_reader.read_enc string_reader.read_enc bool_reader.read_enc
      uuid_reader.read_enc bytes_reader.read_enc [of "Some _"]
      intptr_reader.read_enc floatptr_reader.read_enc stringptr_reader.read_enc
      boolptr_reader.read_enc uuidptr_reader.read_enc split: option.split\<close>)

lemma read_field_array_enc:
  assumes "val_ok v" "derr d = None" "drop (doff d) (dbuf d) = val_enc v @ rest"
    "kind_of v \<in> {KIntArray, KFloatArray, KStringArray, KBoolArray, KBytesArray, KUUIDArray}"
  shows "read_field (kind_of v) d = Inr (Some v, dec_skip (int (length (val_enc v))) d)"
proof (cases v)
  case (VBytesArray bs)
  have "arr_ok some_len_ok (map Some bs)"
    using assms VBytesArray by (simp add: list_all_iff arr_ok_def some_len_ok_def)
  then show ?thesis
    using bytes_array.arr_enc [of "map Some bs" d rest] assms VBytesArray
    by (simp add: array_bytes_def listed_def o_def)
qed (use assms int_array.arr_enc [of _ d rest] float_array.arr_enc [of _ d rest] string_array.arr_enc [of _ d rest]
    bool_array.arr_enc [of _ d rest] uuid_array.arr_enc [of _ d rest]
    in \<open>simp_all add: listed_def array_bytes_def\<close>)

lemma read_field_enc:
  assumes "val_ok v" "derr d = None" "drop (doff d) (dbuf d) = val_enc v @ rest"
  shows "read_field (kind_of v) d = Inr (Some v, dec_skip (int (length (val_enc v))) d)"
proof (cases "kind_of v \<in> {KIntArray, KFloatArray, KStringArray, KBoolArray, KBytesArray, KUUIDArray}")
  case True
  then show ?thesis by (rule read_field_array_enc [OF assms])
next
  case False
  then show ?thesis by (intro read_field_scalar_enc [OF assms(1,3)]) (cases v; simp)
qed

lemma read_field_steps: "read_field k d = Inr (v, d') \<Longrightarrow> dec_steps d d'"
  using int_reader.read_steps [of d] float_reader.read_steps [of d] string_reader.read_steps [of d]
    bool_reader.read_steps [of d] bytes_reader.read_steps [of d] uuid_reader.read_steps [of d]
    intptr_reader.read_steps [of d] floatptr_reader.read_steps [of d] stringptr_reader.read_steps [of d]
    boolptr_reader.read_steps [of d] uuidptr_reader.read_steps [of d]
  by (cases k) (auto simp: plain_def listed_def split: sum.splits
      dest: int_array.arr_steps float_array.arr_steps string_array.arr_steps
        bool_array.arr_steps bytes_array.arr_steps uuid_array.arr_steps)

lemma listed_truncated:
  "\<exists>d'. r = Inr (None, d') \<and> derr d' \<noteq> None \<Longrightarrow> \<exists>w d'. listed c r = Inr (w, d') \<and> derr d' \<noteq> None"
  by (auto simp: listed_def)

lemma plain_truncated:
  "derr (snd r) \<noteq> None \<Longrightarrow> \<exists>w d'. plain c r = Inr (w, d') \<and> derr d' \<noteq> None"
  by (auto simp: plain_def)

lemmas truncated_readers =
  int_reader.read_truncated [unfolded not_None_eq]
  float_reader.read_truncated [unfolded not_None_eq]
  string_reader.read_truncated [unfolded not_None_eq]
  bool_reader.read_truncated [unfolded not_None_eq]
  uuid_reader.read_truncated [unfolded not_None_eq]
  intptr_reader.read_truncated [unfolded not_None_eq]
  floatptr_reader.read_truncated [unfolded not_None_eq]
  stringptr_reader.read_truncated [unfolded not_None_eq]
  boolptr_reader.read_truncated [unfolded not_None_eq]
  uuidptr_reader.read_truncated [unfolded not_None_eq]
  int_array.arr_truncated [unfolded not_None_eq]
  float_array.arr_truncated [unfolded not_None_eq]
  string_array.arr_truncated [unfolded not_None_eq]
  bool_array.arr_truncated [unfolded not_None_eq]
  uuid_array.arr_truncated [unfolded not_None_eq]

lemma read_field_truncated:
  assumes "val_ok v" "derr d = None" "k < length (val_enc v)" "drop (doff d) (dbuf d) = take k (val_enc v)"
  shows "\<exists>w d'. read_field (kind_of v) d = Inr (w, d') \<and> derr d' \<noteq> None"
proof (cases v)
  case (VBytesArray bs)
  have ok: "arr_ok some_len_ok (map Some bs)"
    using assms VBytesArray by (simp add: list_all_iff arr_ok_def some_len_ok_def)
  show ?thesis
    using bytes_array.arr_truncated [OF ok assms(2), of k] assms(3,4) VBytesArray
    by (auto simp: array_bytes_def o_def listed_def)
next
  case (VBytes b)
  then show ?thesis
    using bytes_reader.read_truncated [of "Some b" k d] assms
    by (auto simp: some_len_ok_def plain_def)
qed (use assms in \<open>auto intro!: plain_truncated [unfolded not_None_eq] listed_truncated [unfolded not_None_eq]
      intro: truncated_readers
      simp: array_bytes_def opt_ok_def [of "\<lambda>_. True"] split: option.split\<close>)

section \<open>The decoding loop\<close>

definition array_kinds :: "wire_kind set" where
  "array_kinds = {KIntArray, KFloatArray, KStringArray, KBoolArray, KBytesArray, KUUIDArray}"

function unmarshal_loop ::
  "(goint \<Rightarrow> wire_kind option) \<Rightarrow> (goint \<times> wire_val) list \<Rightarrow> Decoder \<Rightarrow>
   go_panic + (goint \<times> wire_val) list \<times> Decoder" where
  "unmarshal_loop sch acc d =
     (case NextField d of (found, d1) \<Rightarrow>
        if \<not> found then Inr (acc, d1)
        else (case sch (FieldID d1) of
            None \<Rightarrow> unmarshal_loop sch acc (SkipField d1)
          | Some k \<Rightarrow>
              (case read_field k d1 of
                 Inl p \<Rightarrow> Inl p
               | Inr (v, d2) \<Rightarrow>
                   unmarshal_loop sch (case v of None \<Rightarrow> acc | Some v \<Rightarrow> acc @ [(FieldID d1, v)]) d2)))"
  by pat_completeness auto
termination
proof (relation "measure (\<lambda>(sch, acc, d). remaining d)", goal_cases)
  case 1
  show ?case by simp
next
  case (2 sch acc d x d1)
  then have "NextField d = (True, d1)" by auto
  from remaining_NextField [OF this] show ?case by (simp add: SkipField_def remaining_def)
next
  case (3 sch acc d x d1 k r x2 d2)
  then have n: "NextField d = (True, d1)" and r: "read_field k d1 = Inr (x2, d2)" by auto
  from remaining_NextField [OF n] remaining_steps [OF read_field_steps [OF r]] show ?case by simp
qed

declare unmarshal_loop.simps [simp del]

definition UnmarshalLuxo ::
  "(goint \<Rightarrow> wire_kind option) \<Rightarrow> bytes \<Rightarrow> go_panic + codec_error + (goint \<times> wire_val) list" where
  "UnmarshalLuxo sch data =
     (case unmarshal_loop sch [] (NewDecoder data) of
        Inl p \<Rightarrow> Inl p
      | Inr (fs, d) \<Rightarrow> Inr (case Decoder_Err d of Some e \<Rightarrow> Inl e | None \<Rightarrow> Inr fs))"

definition fields_ok :: "(goint \<Rightarrow> wire_kind option) \<Rightarrow> (goint \<times> wire_val) list \<Rightarrow> bool" where
  "fields_ok sch fs = list_all (\<lambda>(f, v). f \<noteq> 0 \<and> sch f = Some (kind_of v) \<and> val_ok v) fs"

lemma NextField_enc:
  assumes "derr d = None" "drop (doff d) (dbuf d) = AppendVarint [] f @ rest"
  shows "NextField d = (f \<noteq> 0, (dec_skip (int (length (AppendVarint [] f))) d)\<lparr>dfieldID := f\<rparr>)"
proof -
  have "doff d < length (dbuf d)" using drop_eq_lengthD [OF assms(2)] by (cases "AppendVarint [] f") auto
  then show ?thesis using assms by (simp add: NextField_def ReadVarint_app Let_def)
qed

lemma NextField_truncated:
  assumes "derr d = None" "k < length (AppendVarint [] f)" "drop (doff d) (dbuf d) = take k (AppendVarint [] f)"
  shows "\<exists>e. NextField d = (False, dec_fail e d)"
  using assms by (auto simp: NextField_def ReadVarint_truncated)

lemma unmarshal_loop_failed: "derr d \<noteq> None \<Longrightarrow> unmarshal_loop sch acc d = Inr (acc, d)"
  by (subst unmarshal_loop.simps) (simp add: NextField_def)

lemma unmarshal_field:
  assumes "derr d = None" "f \<noteq> 0" "sch f = Some (kind_of v)" "val_ok v"
    and d: "drop (doff d) (dbuf d) = field_enc (f, v) @ rest"
  shows "unmarshal_loop sch acc d =
    unmarshal_loop sch (acc @ [(f, v)]) ((dec_skip (int (length (field_enc (f, v)))) d)\<lparr>dfieldID := f\<rparr>)"
proof -
  let ?d = "(dec_skip (int (length (AppendVarint [] f))) d)\<lparr>dfieldID := f\<rparr>"
  have d0: "drop (doff d) (dbuf d) = AppendVarint [] f @ val_enc v @ rest"
    using d by (simp add: field_enc_def)
  have "read_field (kind_of v) ?d = Inr (Some v, dec_skip (int (length (val_enc v))) ?d)"
    using drop_dec_skip [OF d0] assms by (intro read_field_enc [of v ?d rest]) simp_all
  moreover have "dec_skip (int (length (val_enc v))) ?d = (dec_skip (int (length (field_enc (f, v)))) d)\<lparr>dfieldID := f\<rparr>"
    by (simp add: dec_skip_def field_enc_def nat_add_distrib)
  ultimately show ?thesis
    using assms NextField_enc [OF assms(1) d0] by (subst unmarshal_loop.simps) (simp add: FieldID_def)
qed

lemma unmarshal_loop_enc:
  "derr d = None \<Longrightarrow> fields_ok sch fs \<Longrightarrow>
   drop (doff d) (dbuf d) = concat (map field_enc fs) @ 0 # rest \<Longrightarrow>
   \<exists>d'. unmarshal_loop sch acc d = Inr (acc @ fs, d') \<and> derr d' = None"
proof (induction fs arbitrary: acc d)
  case Nil
  then have "NextField d = (False, (dec_skip 1 d)\<lparr>dfieldID := 0\<rparr>)"
    using NextField_enc [of d 0 rest] by (simp add: AppendVarint_unfold)
  with Nil show ?case by (subst unmarshal_loop.simps) simp
next
  case (Cons fv fs)
  obtain f v where fv: "fv = (f, v)" by (cases fv)
  let ?d = "(dec_skip (int (length (field_enc fv))) d)\<lparr>dfieldID := f\<rparr>"
  have d: "drop (doff d) (dbuf d) = field_enc fv @ concat (map field_enc fs) @ 0 # rest"
    using Cons.prems by simp
  have "drop (doff ?d) (dbuf ?d) = concat (map field_enc fs) @ 0 # rest"
    using drop_dec_skip [OF d] by simp
  with Cons.IH [of ?d "acc @ [fv]"] Cons.prems
  have "\<exists>d'. unmarshal_loop sch (acc @ [fv]) ?d = Inr (acc @ fv # fs, d') \<and> derr d' = None"
    by (simp add: fields_ok_def)
  then show ?case
    using unmarshal_field [of d f sch v _ acc] d Cons.prems by (simp add: fv fields_ok_def)
qed

lemma unmarshal_loop_truncated:
  "derr d = None \<Longrightarrow> fields_ok sch fs \<Longrightarrow> k < length (concat (map field_enc fs) @ [0]) \<Longrightarrow>
   drop (doff d) (dbuf d) = take k (concat (map field_enc fs) @ [0]) \<Longrightarrow>
   \<exists>fs' d'. unmarshal_loop sch acc d = Inr (fs', d') \<and> derr d' \<noteq> None"
proof (induction fs arbitrary: acc d k)
  case Nil
  then show ?case by (subst unmarshal_loop.simps) (simp add: NextField_def)
next
  case (Cons fv fs)
  obtain f v where fv: "fv = (f, v)" by (cases fv)
  have ok: "f \<noteq> 0" "sch f = Some (kind_of v)" "val_ok v" using Cons.prems fv by (simp_all add: fields_ok_def)
  let ?h = "AppendVarint [] f"
  consider (head) "k < length ?h" | (val) "length ?h \<le> k" "k < length (field_enc fv)"
    | (more) "length (field_enc fv) \<le> k" by linarith
  then show ?case
  proof cases
    case head
    then have "drop (doff d) (dbuf d) = take k ?h"
      using Cons.prems(4) by (simp add: field_enc_def fv)
    then obtain e where "NextField d = (False, dec_fail e d)"
      using NextField_truncated [OF Cons.prems(1) head] by blast
    then show ?thesis by (subst unmarshal_loop.simps) simp
  next
    case val
    let ?d = "(dec_skip (int (length ?h)) d)\<lparr>dfieldID := f\<rparr>"
    have d0: "drop (doff d) (dbuf d) = ?h @ take (k - length ?h) (val_enc v)"
      using Cons.prems(4) val by (simp add: field_enc_def fv)
    have "\<exists>w d'. read_field (kind_of v) ?d = Inr (w, d') \<and> derr d' \<noteq> None"
      using drop_dec_skip [OF d0] Cons.prems(1) ok val
      by (intro read_field_truncated [of v ?d "k - length ?h"]) (auto simp: field_enc_def fv)
    then show ?thesis
      using ok NextField_enc [OF Cons.prems(1) d0]
      by (subst unmarshal_loop.simps) (auto simp: FieldID_def unmarshal_loop_failed)
  next
    case more
    let ?d = "(dec_skip (int (length (field_enc fv))) d)\<lparr>dfieldID := f\<rparr>"
    let ?k = "k - length (field_enc fv)"
    have d: "drop (doff d) (dbuf d) = field_enc fv @ take ?k (concat (map field_enc fs) @ [0])"
      using Cons.prems(4) more by simp
    have "\<exists>fs' d'. unmarshal_loop sch (acc @ [fv]) ?d = Inr (fs', d') \<and> derr d' \<noteq> None"
      using drop_dec_skip [OF d] Cons.prems more by (intro Cons.IH [of _ ?k]) (auto simp: fields_ok_def)
    then show ?thesis
      using unmarshal_field [of d f sch v _ acc] d Cons.prems(1) ok by (simp add: fv)
  qed
qed

lemma unmarshal_loop_no_panic:
  "(\<And>f k. sch f = Some k \<Longrightarrow> k \<notin> array_kinds) \<Longrightarrow> \<exists>r. unmarshal_loop sch acc d = Inr r"
proof (induction sch acc d rule: unmarshal_loop.induct)
  case (1 sch acc d)
  have scalar: "\<exists>v d2. read_field k d1 = Inr (v, d2)" if "sch f = Some k" for f k d1
    using 1(3) [OF that] by (cases k) (auto simp: plain_def array_kinds_def)
  obtain found d1 where n: "NextField d = (found, d1)" by (cases "NextField d")
  show ?case
  proof (cases "found \<and> sch (FieldID d1) \<noteq> None")
    case True
    then obtain k where k: "sch (FieldID d1) = Some k" by auto
    then obtain v d2 where r: "read_field k d1 = Inr (v, d2)" using scalar by blast
    from 1(2) [OF n [symmetric] _ k r refl] True 1(3) n k r show ?thesis
      by (subst unmarshal_loop.simps) (auto split: option.splits)
  next
    case False
    with 1(1) [OF n [symmetric]] 1(3) n show ?thesis
      by (subst unmarshal_loop.simps) (auto split: option.splits)
  qed
qed

section \<open>Skipping a field moves where reading it moves\<close>

text \<open>The skip type of each scalar kind, after the comments of FieldSkipType in decoder.go; array
  fields are skipped with SkipArray and the type of their elements.\<close>

fun skip_field :: "wire_kind \<Rightarrow> Decoder \<Rightarrow> Decoder" where
  "skip_field KInt d = SkipValue SkipVarint_t d"
| "skip_field KFloat d = SkipValue SkipFixed64_t d"
| "skip_field KString d = SkipValue SkipBytes_t d"
| "skip_field KBool d = SkipValue SkipVarint_t d"
| "skip_field KBytes d = SkipValue SkipBytes_t d"
| "skip_field KUUID d = SkipValue SkipFixed16_t d"
| "skip_field KIntPtr d = SkipValue SkipNullVarint_t d"
| "skip_field KFloatPtr d = SkipValue SkipNullFixed64_t d"
| "skip_field KStringPtr d = SkipValue SkipNullBytes_t d"
| "skip_field KBoolPtr d = SkipValue SkipNullVarint_t d"
| "skip_field KUUIDPtr d = SkipValue SkipNullFixed16_t d"
| "skip_field KIntArray d = SkipArray SkipVarint_t d"
| "skip_field KFloatArray d = SkipArray SkipFixed64_t d"
| "skip_field KStringArray d = SkipArray SkipBytes_t d"
| "skip_field KBoolArray d = SkipArray SkipVarint_t d"
| "skip_field KBytesArray d = SkipArray SkipBytes_t d"
| "skip_field KUUIDArray d = SkipArray SkipFixed16_t d"

text \<open>Two decoders after the same bytes: both failed, or both at the same place.\<close>

definition same_outcome :: "Decoder \<Rightarrow> Decoder \<Rightarrow> bool" where
  "same_outcome d d' = ((derr d = None) = (derr d' = None) \<and> (derr d = None \<longrightarrow> d = d'))"

lemma same_outcome_refl [simp]: "same_outcome d d"
  by (simp add: same_outcome_def)

lemma same_outcome_trans: "same_outcome d d' \<Longrightarrow> same_outcome d' d'' \<Longrightarrow> same_outcome d d''"
  unfolding same_outcome_def by metis

lemma same_outcome_fail [simp]: "same_outcome (dec_fail e d) (dec_fail e' d')"
  by (simp add: same_outcome_def)

lemma skip_value_read:
  "same_outcome (SkipVarint d) (snd (dec_ReadInt d))"
  "same_outcome (SkipFixed64 d) (snd (dec_ReadFloat d))"
  "same_outcome (SkipLenPrefixed d) (snd (dec_ReadString d))"
  "same_outcome (SkipLenPrefixed d) (snd (dec_ReadBytes d))"
  "same_outcome (SkipFixed16 d) (snd (dec_ReadUUID d))"
  by (simp_all add: SkipVarint_def SkipFixed64_def SkipLenPrefixed_def SkipFixed16_def
      dec_ReadInt_def dec_ReadFloat_def dec_ReadString_def dec_ReadBytes_def dec_ReadUUID_def
      dec_value_def ReadSvarint_def ReadFixed64_def ReadString_eq ReadUUID_def split: prod.splits)
    
lemma skip_nullable_read:
  assumes "\<And>d. same_outcome (skip d) (snd (rd d))"
  shows "same_outcome (skip_nullable skip d) (snd (dec_nullable mk nil rd d))"
  using assms by (simp add: skip_nullable_def dec_nullable_def Let_def split: prod.splits)

lemma skip_ptr_read:
  "same_outcome (SkipNullableVarint d) (snd (ReadIntPtr d))"
  "same_outcome (SkipNullableFixed64 d) (snd (ReadFloatPtr d))"
  "same_outcome (SkipNullableLenPrefixed d) (snd (ReadStringPtr d))"
  "same_outcome (SkipNullableLenPrefixed d) (snd (ReadBytesPtr d))"
  "same_outcome (SkipNullableFixed16 d) (snd (ReadUUIDPtr d))"
  unfolding SkipNullableVarint_def SkipNullableFixed64_def SkipNullableLenPrefixed_def
    SkipNullableFixed16_def ReadIntPtr_def ReadFloatPtr_def ReadStringPtr_def ReadBytesPtr_def ReadUUIDPtr_def
  by (rule skip_nullable_read;
      simp add: split_beta skip_value_read
        SkipFixed16_def dec_value_def ReadUUID_def)+

lemma SkipArray_loop_items:
  assumes "\<And>d. same_outcome (SkipValue t d) (snd (rd d))"
  shows "derr d = None \<Longrightarrow> same_outcome (SkipArray_loop t k d) (snd (dec_items rd k d))"
proof (induction k arbitrary: d)
  case 0
  then show ?case by simp
next
  case (Suc k)
  obtain v d' where r: "rd d = (v, d')" by (cases "rd d")
  show ?case
  proof (cases "derr d'")
    case None
    then have "SkipValue t d = d'" using assms [of d] r by (auto simp: same_outcome_def)
    then show ?thesis using Suc.IH [of d'] None by (auto simp: r split: prod.splits option.splits)
  next
    case (Some e)
    then have "derr (SkipValue t d) \<noteq> None" using assms [of d] r by (auto simp: same_outcome_def)
    then show ?thesis using Some by (auto simp: r same_outcome_def Let_def)
  qed
qed

lemma SkipArray_read:
  assumes "\<And>d. same_outcome (SkipValue t d) (snd (rd d))" "derr d = None"
    "dec_array (dec_items rd) d = Inr (r, d')"
  shows "same_outcome (SkipArray t d) d'"
proof -
  obtain c n where h: "ReadArrayHeader (dbuf d) (doff d) = (c, n)" by (cases "ReadArrayHeader (dbuf d) (doff d)")
  consider "n = 0" | "n \<noteq> 0" "sint c > MaxArrayElements"
    | (run) "n \<noteq> 0" "\<not> sint c > MaxArrayElements" "\<not> sint c < 0"
    using assms(2,3) h by (auto simp: dec_array_def ReadArrayLength_def split: if_splits)
  then show ?thesis
  proof cases
    case run
    then have "unat c = nat (sint c)" by (simp add: nat_sint)
    moreover have "dec_items rd (unat c) (dec_skip n d) = (r, d')"
      using assms(2,3) h run by (simp add: dec_array_def ReadArrayLength_def)
    ultimately show ?thesis
      using SkipArray_loop_items [of t rd "dec_skip n d" "unat c", OF assms(1)] assms(2) h run
      by (simp add: SkipArray_def)
  qed (use assms h in \<open>auto simp: SkipArray_def dec_array_def ReadArrayLength_def\<close>)
qed

lemma dec_items_None: "dec_items rd k d = (None, d') \<Longrightarrow> derr d' \<noteq> None"
  by (induction k arbitrary: d) (auto split: prod.splits if_splits option.splits)

lemma dec_array_None: "dec_array (dec_items rd) d = Inr (None, d') \<Longrightarrow> derr d' \<noteq> None"
  by (auto simp: dec_array_def split: prod.splits if_splits dest: dec_items_None)

lemma ReadUUIDArray_items:
  assumes "ReadUUIDArray d = Inr (r, d')"
  shows "\<exists>d''. dec_array (dec_items dec_ReadUUID) d = Inr (r, d'') \<and> same_outcome d'' d'"
proof -
  have "\<not> (\<exists>p. ReadUUIDArray d = Inl p)" using assms by simp
  then have "\<not> (\<exists>p. dec_array (dec_items dec_ReadUUID) d = Inl p)"
    unfolding uuid_array.arr_panic ReadArrayLength_panic .
  then obtain r1 d1 where a: "dec_array (dec_items dec_ReadUUID) d = Inr (r1, d1)"
    by (cases "dec_array (dec_items dec_ReadUUID) d") auto
  with ReadUUIDArray_dec_array [OF a] dec_array_None [of dec_ReadUUID d d1] assms show ?thesis
    by (auto simp: same_outcome_def)
qed

lemma SkipArray_listed:
  assumes "listed c (dec_array (dec_items rd) d) = Inr (v, d')" "derr d = None"
    "\<And>d. same_outcome (SkipValue t d) (snd (rd d))"
  shows "same_outcome (SkipArray t d) d'"
  using assms(1) SkipArray_read [OF assms(3,2)] by (auto simp: listed_def split: sum.splits)

lemma skip_field_read:
  assumes "derr d = None" "k \<notin> {KBool, KBoolPtr, KBoolArray}" "read_field k d = Inr (v, d')"
  shows "same_outcome (skip_field k d) d'"
proof (cases k)
  case KUUIDArray
  then obtain r where "ReadUUIDArray d = Inr (r, d')"
    using assms(3) by (auto simp: listed_def split: sum.splits)
  then obtain d'' where a: "dec_array (dec_items dec_ReadUUID) d = Inr (r, d'')" and s: "same_outcome d'' d'"
    using ReadUUIDArray_items by blast
  have "same_outcome (SkipArray SkipFixed16_t d) d''"
    by (rule SkipArray_read [OF _ assms(1) a]) (simp add: skip_value_read)
  with s show ?thesis unfolding KUUIDArray skip_field.simps by (blast intro: same_outcome_trans)
next
  case KIntArray
  show ?thesis
    using assms(3) unfolding KIntArray read_field.simps skip_field.simps ReadIntArray_def
    by (rule SkipArray_listed) (simp_all add: assms(1) skip_value_read)
next
  case KFloatArray
  show ?thesis
    using assms(3) unfolding KFloatArray read_field.simps skip_field.simps ReadFloatArray_def
    by (rule SkipArray_listed) (simp_all add: assms(1) skip_value_read)
next
  case KStringArray
  show ?thesis
    using assms(3) unfolding KStringArray read_field.simps skip_field.simps ReadStringArray_def
    by (rule SkipArray_listed) (simp_all add: assms(1) skip_value_read)
next
  case KBytesArray
  show ?thesis
    using assms(3) unfolding KBytesArray read_field.simps skip_field.simps ReadBytesArray_def
    by (rule SkipArray_listed) (simp_all add: assms(1) skip_value_read)
qed (use assms skip_value_read [of d] skip_ptr_read [of d] in \<open>auto simp: plain_def\<close>)

lemma skip_field_enc:
  assumes "val_ok v" "derr d = None" "kind_of v \<notin> {KBool, KBoolPtr, KBoolArray}"
    "drop (doff d) (dbuf d) = val_enc v @ rest"
  shows "skip_field (kind_of v) d = dec_skip (int (length (val_enc v))) d"
  using skip_field_read [OF assms(2,3) read_field_enc [OF assms(1,2,4)]] assms(2)
  by (auto simp: same_outcome_def)

section \<open>Strings in an arena\<close>

text \<open>Generated code reads the strings of a message one after the other into one arena.\<close>

fun read_strings :: "nat \<Rightarrow> Decoder \<Rightarrow> bytes list \<times> Decoder" where
  "read_strings 0 d = ([], d)"
| "read_strings (Suc k) d =
     (case dec_ReadString d of (v, d1) \<Rightarrow> case read_strings k d1 of (vs, d2) \<Rightarrow> (v # vs, d2))"

fun read_strings_arena :: "nat \<Rightarrow> bytes \<Rightarrow> nat \<Rightarrow> Decoder \<Rightarrow> gostring list \<times> bytes \<times> nat \<times> Decoder" where
  "read_strings_arena 0 arena off d = ([], arena, off, d)"
| "read_strings_arena (Suc k) arena off d =
     (case ReadStringArena arena off d of (v, arena1, off1, d1) \<Rightarrow>
      case read_strings_arena k arena1 off1 d1 of (vs, arena2, off2, d2) \<Rightarrow> (v # vs, arena2, off2, d2))"

lemma ReadStringArena_result:
  assumes "ReadStringArena arena off d = (s, arena', off', d')" "off \<le> length arena"
  shows "d' = snd (dec_ReadString d)" "off \<le> off'" "off' \<le> length arena'" "length arena' = length arena"
    "take off arena' = take off arena"
    "take off' final = take off' arena' \<Longrightarrow> string_val final s = fst (dec_ReadString d)"
proof -
  obtain b n where r: "ReadBytes (dbuf d) (doff d) = (b, n)" by (cases "ReadBytes (dbuf d) (doff d)")
  show "d' = snd (dec_ReadString d)" "off \<le> off'" "off' \<le> length arena'" "length arena' = length arena"
    "take off arena' = take off arena"
    using assms r by (auto simp: ReadStringArena_def dec_ReadString_def dec_value_def ReadString_eq
        copy_at_def Let_def split: if_splits)
  assume f: "take off' final = take off' arena'"
  show "string_val final s = fst (dec_ReadString d)"
  proof (cases "n = 0 \<or> b = [] \<or> off + length b > length arena")
    case True
    then show ?thesis
      using assms r by (auto simp: ReadStringArena_def dec_ReadString_def dec_value_def ReadString_eq
          Let_def split: if_splits)
  next
    case False
    then have s: "s = InArena off (length b)" and o': "off' = off + length b"
      and a': "arena' = take off arena @ b @ drop (off + length b) arena"
      using assms r by (auto simp: ReadStringArena_def copy_at_def Let_def)
    have "take (length b) (drop off final) = drop off (take off' final)" by (simp add: o' drop_take)
    also have "\<dots> = drop off (take (off + length b) arena')" using f by (simp add: o')
    also have "\<dots> = b" using assms(2) by (simp add: a')
    finally show ?thesis
      using False r by (simp add: s dec_ReadString_def dec_value_def ReadString_eq)
  qed
qed

lemma read_strings_arena_correct:
  assumes "read_strings_arena k arena off d = (ss, arena', off', d')" "off \<le> length arena"
  shows "off \<le> off' \<and> off' \<le> length arena' \<and> length arena' = length arena \<and> take off arena' = take off arena \<and>
    (map (string_val arena') ss, d') = read_strings k d"
  using assms
proof (induction k arbitrary: arena off d ss)
  case 0
  then show ?case by simp
next
  case (Suc k)
  obtain s arena1 off1 d1 where r: "ReadStringArena arena off d = (s, arena1, off1, d1)"
    by (cases "ReadStringArena arena off d")
  obtain vs2 d2 where p: "read_strings k (snd (dec_ReadString d)) = (vs2, d2)"
    by (cases "read_strings k (snd (dec_ReadString d))")
  note h = ReadStringArena_result [OF r Suc.prems(2)]
  obtain ss1 where rest: "read_strings_arena k arena1 off1 d1 = (ss1, arena', off', d')" and ss: "ss = s # ss1"
    using Suc.prems(1) by (auto simp: r split: prod.splits)
  note IH = Suc.IH [OF rest h(3)]
  then have t1: "take off1 arena' = take off1 arena1" by blast
  have "take off arena' = take off (take off1 arena')" using h(2) by (simp add: min_def)
  also have "\<dots> = take off arena" using h(2,5) by (simp add: t1 min_def)
  finally have "take off arena' = take off arena" .
  moreover have "string_val arena' s = fst (dec_ReadString d)" by (rule h(6) [OF t1])
  ultimately show ?case using IH h(1,2,4) by (auto simp: ss p split_beta)
qed

section \<open>Properties\<close>

lemma unmarshal_encoded:
  assumes "fields_ok sch fs"
  shows "UnmarshalLuxo sch (encode_message fs @ rest) = Inr (Inr fs)"
  using unmarshal_loop_enc [of "NewDecoder (encode_message fs @ rest)" sch fs rest "[]"] assms
  by (auto simp: UnmarshalLuxo_def NewDecoder_def encode_message_bytes Decoder_Err_def)







text \<open>An array header of 2^63 or more is read as a negative Go int, passes the check against
  MaxArrayElements, and the make call of the array readers panics; nothing else makes
  ReadIntArray panic.\<close>

theorem ReadIntArray_panics_iff:
  "(\<exists>p. ReadIntArray d = Inl p) \<longleftrightarrow>
   derr d = None \<and> (\<exists>v n. ReadVarint (dbuf d) (doff d) = (v, n) \<and> 0 < n \<and> 2 ^ 63 \<le> unat v)"
  unfolding int_array.arr_panic
  by (auto simp: ReadArrayHeader_def sint_less_0_iff split: prod.splits if_splits)



text \<open>C19: Strings read into a shared arena keep their values when later ones are read: looked at
  in the final arena, they are the strings plain reading gives, and the decoder ends in the
  same state.\<close>

theorem arena_strings_keep_their_value:
  assumes "read_strings_arena k arena off d = (ss, arena', off', d')" "off \<le> length arena"
  shows "(map (string_val arena') ss, d') = read_strings k d"
  using read_strings_arena_correct [OF assms] by blast

lemma arena_strings_keep_their_value_witness:
  "(map (string_val [65, 66, 67]) [InArena 0 1, Owned [], InArena 1 2], (NewDecoder [1, 65, 0, 2, 66, 67])\<lparr>doff := 6\<rparr>) =
   read_strings 3 (NewDecoder [1, 65, 0, 2, 66, 67])"
  by (rule arena_strings_keep_their_value [of _ "[0, 0, 0]" 0 _ _ _ 3])
     (simp_all add: numeral_3_eq_3 ReadStringArena_def NewDecoder_def ReadBytes_def ReadVarint_def
        dec_skip_def copy_at_def Let_def)

end
