(* ===== verification/Columnar.thy ===== *)
theory Columnar
  imports Decoder
begin

text \<open>
  The columnar format of pkg/lux/codec/columnar.go: a record count, the total string length,
  one column after the other and an end marker. The writer's state is the list of columns
  encoded so far; the reader's state is the buffer, the offset, the header values and the
  recorded error. Counts and sizes the reader has checked against their limits are naturals.

  The locale column_item is the contract of one cell: what its reader and its skipper do on an
  encoded, a cut short and an arbitrary input. Every column type is an interpretation, and
  reading and skipping whole columns is proved once inside the locale.
\<close>

section \<open>The writer\<close>

record column =
  colID :: goint
  coldata :: bytes

record ColumnarWriter =
  wbuf :: bytes
  wcount :: goint
  wcolumns :: "column list"
  wtotal :: goint

definition empty_writer :: ColumnarWriter where
  "empty_writer = \<lparr>wbuf = [], wcount = 0, wcolumns = [], wtotal = 0\<rparr>"

definition Writer_Reset :: "ColumnarWriter \<Rightarrow> ColumnarWriter" where
  "Writer_Reset w = w\<lparr>wbuf := take 0 (wbuf w), wcount := 0, wcolumns := take 0 (wcolumns w), wtotal := 0\<rparr>"

definition SetCount :: "goint \<Rightarrow> ColumnarWriter \<Rightarrow> ColumnarWriter" where
  "SetCount n w = w\<lparr>wcount := n\<rparr>"

definition add_column :: "goint \<Rightarrow> bytes \<Rightarrow> ColumnarWriter \<Rightarrow> ColumnarWriter" where
  "add_column fieldID data w = w\<lparr>wcolumns := wcolumns w @ [\<lparr>colID = fieldID, coldata = data\<rparr>]\<rparr>"

text \<open>The loop over nullable values, for any way of appending a value.\<close>

definition append_ptrs :: "(bytes \<Rightarrow> 'a \<Rightarrow> bytes) \<Rightarrow> 'a option list \<Rightarrow> bytes" where
  "append_ptrs app values =
     fold (\<lambda>v data. case v of None \<Rightarrow> AppendNull data | Some x \<Rightarrow> app (AppendPresent data) x) values []"

definition WriteColumnInt :: "goint \<Rightarrow> goint list \<Rightarrow> ColumnarWriter \<Rightarrow> ColumnarWriter" where
  "WriteColumnInt fieldID values w = add_column fieldID (fold (\<lambda>v data. AppendSvarint data v) values []) w"

definition WriteColumnFloat :: "goint \<Rightarrow> float64 list \<Rightarrow> ColumnarWriter \<Rightarrow> ColumnarWriter" where
  "WriteColumnFloat fieldID values w = add_column fieldID (fold (\<lambda>v data. AppendFixed64 data v) values []) w"

definition WriteColumnString :: "goint \<Rightarrow> bytes list \<Rightarrow> ColumnarWriter \<Rightarrow> ColumnarWriter" where
  "WriteColumnString fieldID values w =
     (let total = fold (\<lambda>v t. t + of_nat (length v)) values (wtotal w) in
      add_column fieldID (fold (\<lambda>v data. AppendString data v) values []) (w\<lparr>wtotal := total\<rparr>))"

definition WriteColumnBool :: "goint \<Rightarrow> bool list \<Rightarrow> ColumnarWriter \<Rightarrow> ColumnarWriter" where
  "WriteColumnBool fieldID values w = add_column fieldID (fold (\<lambda>v data. AppendBool data v) values []) w"

definition WriteColumnIntPtr :: "goint \<Rightarrow> goint option list \<Rightarrow> ColumnarWriter \<Rightarrow> ColumnarWriter" where
  "WriteColumnIntPtr fieldID values w = add_column fieldID (append_ptrs AppendSvarint values) w"

definition WriteColumnFloatPtr :: "goint \<Rightarrow> float64 option list \<Rightarrow> ColumnarWriter \<Rightarrow> ColumnarWriter" where
  "WriteColumnFloatPtr fieldID values w = add_column fieldID (append_ptrs AppendFixed64 values) w"

definition WriteColumnStringPtr :: "goint \<Rightarrow> bytes option list \<Rightarrow> ColumnarWriter \<Rightarrow> ColumnarWriter" where
  "WriteColumnStringPtr fieldID values w =
     (let total = fold (\<lambda>v t. case v of None \<Rightarrow> t | Some s \<Rightarrow> t + of_nat (length s)) values (wtotal w) in
      add_column fieldID (append_ptrs AppendString values) (w\<lparr>wtotal := total\<rparr>))"

definition WriteColumnBoolPtr :: "goint \<Rightarrow> bool option list \<Rightarrow> ColumnarWriter \<Rightarrow> ColumnarWriter" where
  "WriteColumnBoolPtr fieldID values w = add_column fieldID (append_ptrs AppendBool values) w"

definition WriteColumnBytes :: "goint \<Rightarrow> bytes list \<Rightarrow> ColumnarWriter \<Rightarrow> ColumnarWriter" where
  "WriteColumnBytes fieldID values w = add_column fieldID (fold (\<lambda>v data. AppendBytes data v) values []) w"

definition WriteColumnBytesPtr :: "goint \<Rightarrow> bytes option list \<Rightarrow> ColumnarWriter \<Rightarrow> ColumnarWriter" where
  "WriteColumnBytesPtr fieldID values w = add_column fieldID (append_ptrs AppendBytes values) w"

definition WriteColumnUUID :: "goint \<Rightarrow> bytes list \<Rightarrow> ColumnarWriter \<Rightarrow> ColumnarWriter" where
  "WriteColumnUUID fieldID values w = add_column fieldID (fold (\<lambda>v data. AppendUUID data v) values []) w"

definition WriteColumnUUIDPtr :: "goint \<Rightarrow> bytes option list \<Rightarrow> ColumnarWriter \<Rightarrow> ColumnarWriter" where
  "WriteColumnUUIDPtr fieldID values w = add_column fieldID (append_ptrs AppendUUID values) w"

definition Writer_Bytes :: "ColumnarWriter \<Rightarrow> bytes \<times> ColumnarWriter" where
  "Writer_Bytes w =
     (let b0 = [];
          b1 = AppendVarint b0 (wcount w);
          b2 = AppendVarint b1 (wtotal w);
          b3 = (if sint (wcount w) > 0
                then fold (\<lambda>col b. AppendVarint b (colID col) @ coldata col) (wcolumns w) b2
                else b2);
          b4 = b3 @ [0x00]
      in (b4, w\<lparr>wbuf := b4\<rparr>))"

definition TotalStringLen :: "ColumnarWriter \<Rightarrow> goint" where
  "TotalStringLen w = wtotal w"

section \<open>The reader\<close>

datatype cell = CellInt | CellFloat | CellString | CellBool | CellBytes | CellUUID

datatype columnar_error =
    InvalidRecordCount
  | RecordCountTooLarge u64
  | InvalidColumnarArena
  | ColumnarArenaTooLarge u64
  | TruncatedColumn cell nat
  | TruncatedNullable nat
  | TruncatedValue cell nat

record ColumnarReader =
  cbuf :: bytes
  coff :: nat
  ccount :: nat
  cfieldID :: goint
  carenaSize :: nat
  cerr :: "columnar_error option"

definition col_fail :: "columnar_error \<Rightarrow> ColumnarReader \<Rightarrow> ColumnarReader" where
  "col_fail e r = r\<lparr>cerr := Some e\<rparr>"

definition col_move :: "int \<Rightarrow> ColumnarReader \<Rightarrow> ColumnarReader" where
  "col_move n r = r\<lparr>coff := coff r + nat n\<rparr>"

definition NewColumnarReader :: "bytes \<Rightarrow> ColumnarReader" where
  "NewColumnarReader buf =
     (let r = \<lparr>cbuf = buf, coff = 0, ccount = 0, cfieldID = 0, carenaSize = 0, cerr = None\<rparr> in
      case ReadVarint buf 0 of (count, n) \<Rightarrow>
        if n \<le> 0 then col_fail InvalidRecordCount r
        else if unat count > MaxColumnarRecords then col_fail (RecordCountTooLarge count) r
        else let r1 = r\<lparr>ccount := unat count, coff := nat n\<rparr> in
          case ReadVarint buf (coff r1) of (arenaSize, an) \<Rightarrow>
            if an \<le> 0 then col_fail InvalidColumnarArena r1
            else let r2 = col_move an r1 in
              if unat arenaSize > MaxArenaSize then col_fail (ColumnarArenaTooLarge arenaSize) r2
              else r2\<lparr>carenaSize := unat arenaSize\<rparr>)"

definition Count :: "ColumnarReader \<Rightarrow> nat" where
  "Count r = ccount r"

definition ArenaSize :: "ColumnarReader \<Rightarrow> nat" where
  "ArenaSize r = carenaSize r"

definition NextColumn :: "ColumnarReader \<Rightarrow> bool \<times> ColumnarReader" where
  "NextColumn r =
     (if cerr r \<noteq> None \<or> coff r \<ge> length (cbuf r) then (False, r)
      else case ReadVarint (cbuf r) (coff r) of (fid, n) \<Rightarrow>
        if n \<le> 0 then (False, r)
        else if fid = 0 then (False, col_move n r)
        else (True, (col_move n r)\<lparr>cfieldID := fid\<rparr>))"

definition Column_FieldID :: "ColumnarReader \<Rightarrow> goint" where
  "Column_FieldID r = cfieldID r"

definition Reader_Err :: "ColumnarReader \<Rightarrow> columnar_error option" where
  "Reader_Err r = cerr r"

definition Reader_Offset :: "ColumnarReader \<Rightarrow> nat" where
  "Reader_Offset r = coff r"

text \<open>One cell: None when the loop returns early, with the error recorded.\<close>

definition cell_value ::
  "(int \<Rightarrow> bool) \<Rightarrow> (bytes \<Rightarrow> nat \<Rightarrow> 'a \<times> int) \<Rightarrow> (nat \<Rightarrow> columnar_error) \<Rightarrow>
   nat \<Rightarrow> ColumnarReader \<Rightarrow> 'a option \<times> ColumnarReader" where
  "cell_value failed rd mk i r =
     (case rd (cbuf r) (coff r) of (v, n) \<Rightarrow>
        if failed n then (None, col_fail (mk i) r) else (Some v, col_move n r))"

definition cell_nullable ::
  "(nat \<Rightarrow> ColumnarReader \<Rightarrow> 'a option \<times> ColumnarReader) \<Rightarrow>
   nat \<Rightarrow> ColumnarReader \<Rightarrow> 'a option option \<times> ColumnarReader" where
  "cell_nullable item i r =
     (case ReadNullable (cbuf r) (coff r) of (present, n) \<Rightarrow>
        if n = 0 then (None, col_fail (TruncatedNullable i) r)
        else let r' = col_move n r in
          if \<not> present then (Some None, r')
          else case item i r' of (None, r'') \<Rightarrow> (None, r'') | (Some v, r'') \<Rightarrow> (Some (Some v), r''))"

text \<open>The loop over the records of a column, i being the record index.\<close>

fun col_items ::
  "(nat \<Rightarrow> ColumnarReader \<Rightarrow> 'a option \<times> ColumnarReader) \<Rightarrow> nat \<Rightarrow> nat \<Rightarrow> ColumnarReader \<Rightarrow>
   'a list option \<times> ColumnarReader" where
  "col_items item i 0 r = (Some [], r)"
| "col_items item i (Suc k) r =
     (case item i r of
        (None, r') \<Rightarrow> (None, r')
      | (Some v, r') \<Rightarrow>
          (case col_items item (Suc i) k r' of
             (None, r'') \<Rightarrow> (None, r'')
           | (Some vs, r'') \<Rightarrow> (Some (v # vs), r'')))"

definition int_cell where
  "int_cell mk = cell_value (\<lambda>n. n \<le> 0) ReadSvarint (mk CellInt)"

definition float_cell where
  "float_cell mk = cell_value (\<lambda>n. n = 0) ReadFixed64 (mk CellFloat)"

definition string_cell where
  "string_cell mk = cell_value (\<lambda>n. n = 0) ReadString (mk CellString)"

definition bool_cell where
  "bool_cell mk = cell_value (\<lambda>n. n = 0) ReadBool (mk CellBool)"

definition bytes_cell where
  "bytes_cell mk = cell_value (\<lambda>n. n = 0) ReadBytes (mk CellBytes)"

definition uuid_cell where
  "uuid_cell mk = cell_value (\<lambda>n. n = 0) ReadUUID (mk CellUUID)"

definition ReadColumnInt :: "ColumnarReader \<Rightarrow> goint list option \<times> ColumnarReader" where
  "ReadColumnInt r = col_items (int_cell TruncatedColumn) 0 (ccount r) r"

definition ReadColumnFloat :: "ColumnarReader \<Rightarrow> float64 list option \<times> ColumnarReader" where
  "ReadColumnFloat r = col_items (float_cell TruncatedColumn) 0 (ccount r) r"

definition ReadColumnString :: "ColumnarReader \<Rightarrow> bytes list option \<times> ColumnarReader" where
  "ReadColumnString r = col_items (string_cell TruncatedColumn) 0 (ccount r) r"

definition ReadColumnBool :: "ColumnarReader \<Rightarrow> bool list option \<times> ColumnarReader" where
  "ReadColumnBool r = col_items (bool_cell TruncatedColumn) 0 (ccount r) r"

definition ReadColumnBytes :: "ColumnarReader \<Rightarrow> bytes list option \<times> ColumnarReader" where
  "ReadColumnBytes r = col_items (bytes_cell TruncatedColumn) 0 (ccount r) r"

definition ReadColumnUUID :: "ColumnarReader \<Rightarrow> bytes list option \<times> ColumnarReader" where
  "ReadColumnUUID r = col_items (uuid_cell TruncatedColumn) 0 (ccount r) r"

definition ReadColumnIntPtr :: "ColumnarReader \<Rightarrow> goint option list option \<times> ColumnarReader" where
  "ReadColumnIntPtr r = col_items (cell_nullable (int_cell TruncatedValue)) 0 (ccount r) r"

definition ReadColumnFloatPtr :: "ColumnarReader \<Rightarrow> float64 option list option \<times> ColumnarReader" where
  "ReadColumnFloatPtr r = col_items (cell_nullable (float_cell TruncatedValue)) 0 (ccount r) r"

definition ReadColumnStringPtr :: "ColumnarReader \<Rightarrow> bytes option list option \<times> ColumnarReader" where
  "ReadColumnStringPtr r = col_items (cell_nullable (string_cell TruncatedValue)) 0 (ccount r) r"

definition ReadColumnBoolPtr :: "ColumnarReader \<Rightarrow> bool option list option \<times> ColumnarReader" where
  "ReadColumnBoolPtr r = col_items (cell_nullable (bool_cell TruncatedValue)) 0 (ccount r) r"

definition ReadColumnBytesPtr :: "ColumnarReader \<Rightarrow> bytes option list option \<times> ColumnarReader" where
  "ReadColumnBytesPtr r = col_items (cell_nullable (bytes_cell TruncatedValue)) 0 (ccount r) r"

definition ReadColumnUUIDPtr :: "ColumnarReader \<Rightarrow> bytes option list option \<times> ColumnarReader" where
  "ReadColumnUUIDPtr r = col_items (cell_nullable (uuid_cell TruncatedValue)) 0 (ccount r) r"

section \<open>Skipping columns\<close>

text \<open>Skipping one cell: False when the loop returns early.\<close>

definition skip_value ::
  "(int \<Rightarrow> bool) \<Rightarrow> (bytes \<Rightarrow> nat \<Rightarrow> 'a \<times> int) \<Rightarrow> (nat \<Rightarrow> columnar_error) \<Rightarrow>
   nat \<Rightarrow> ColumnarReader \<Rightarrow> bool \<times> ColumnarReader" where
  "skip_value failed rd mk i r =
     (case rd (cbuf r) (coff r) of (v, n) \<Rightarrow>
        if failed n then (False, col_fail (mk i) r) else (True, col_move n r))"

definition skip_float :: "(nat \<Rightarrow> columnar_error) \<Rightarrow> nat \<Rightarrow> ColumnarReader \<Rightarrow> bool \<times> ColumnarReader" where
  "skip_float mk i r =
     (if coff r + 8 > length (cbuf r) then (False, col_fail (mk i) r) else (True, col_move 8 r))"

definition skip_uuid :: "(nat \<Rightarrow> columnar_error) \<Rightarrow> nat \<Rightarrow> ColumnarReader \<Rightarrow> bool \<times> ColumnarReader" where
  "skip_uuid mk i r =
     (if coff r > length (cbuf r) \<or> length (cbuf r) - coff r < 16
      then (False, col_fail (mk i) r) else (True, col_move 16 r))"

definition skip_cell_nullable ::
  "(nat \<Rightarrow> ColumnarReader \<Rightarrow> bool \<times> ColumnarReader) \<Rightarrow> nat \<Rightarrow> ColumnarReader \<Rightarrow> bool \<times> ColumnarReader" where
  "skip_cell_nullable skip i r =
     (case ReadNullable (cbuf r) (coff r) of (present, n) \<Rightarrow>
        if n = 0 then (False, col_fail (TruncatedNullable i) r)
        else let r' = col_move n r in if present then skip i r' else (True, r'))"

fun skip_items ::
  "(nat \<Rightarrow> ColumnarReader \<Rightarrow> bool \<times> ColumnarReader) \<Rightarrow> nat \<Rightarrow> nat \<Rightarrow> ColumnarReader \<Rightarrow> ColumnarReader" where
  "skip_items skip i 0 r = r"
| "skip_items skip i (Suc k) r =
     (case skip i r of (go, r') \<Rightarrow> if go then skip_items skip (Suc i) k r' else r')"

definition SkipColumnInt :: "ColumnarReader \<Rightarrow> ColumnarReader" where
  "SkipColumnInt r = skip_items (skip_value (\<lambda>n. n \<le> 0) ReadSvarint (TruncatedColumn CellInt)) 0 (ccount r) r"

definition SkipColumnFloat :: "ColumnarReader \<Rightarrow> ColumnarReader" where
  "SkipColumnFloat r = skip_items (skip_float (TruncatedColumn CellFloat)) 0 (ccount r) r"

definition SkipColumnString :: "ColumnarReader \<Rightarrow> ColumnarReader" where
  "SkipColumnString r = skip_items (skip_value (\<lambda>n. n = 0) ReadBytes (TruncatedColumn CellString)) 0 (ccount r) r"

definition SkipColumnBool :: "ColumnarReader \<Rightarrow> ColumnarReader" where
  "SkipColumnBool r = skip_items (skip_value (\<lambda>n. n = 0) ReadBool (TruncatedColumn CellBool)) 0 (ccount r) r"

definition SkipColumnIntPtr :: "ColumnarReader \<Rightarrow> ColumnarReader" where
  "SkipColumnIntPtr r =
     skip_items (skip_cell_nullable (skip_value (\<lambda>n. n \<le> 0) ReadSvarint (TruncatedValue CellInt))) 0 (ccount r) r"

definition SkipColumnFloatPtr :: "ColumnarReader \<Rightarrow> ColumnarReader" where
  "SkipColumnFloatPtr r =
     skip_items (skip_cell_nullable (skip_float (TruncatedValue CellFloat))) 0 (ccount r) r"

definition SkipColumnStringPtr :: "ColumnarReader \<Rightarrow> ColumnarReader" where
  "SkipColumnStringPtr r =
     skip_items (skip_cell_nullable (skip_value (\<lambda>n. n = 0) ReadBytes (TruncatedValue CellString))) 0 (ccount r) r"

definition SkipColumnBoolPtr :: "ColumnarReader \<Rightarrow> ColumnarReader" where
  "SkipColumnBoolPtr r =
     skip_items (skip_cell_nullable (skip_value (\<lambda>n. n = 0) ReadBool (TruncatedValue CellBool))) 0 (ccount r) r"

definition SkipColumnBytes :: "ColumnarReader \<Rightarrow> ColumnarReader" where
  "SkipColumnBytes r = skip_items (skip_value (\<lambda>n. n = 0) ReadBytes (TruncatedColumn CellBytes)) 0 (ccount r) r"

definition SkipColumnBytesPtr :: "ColumnarReader \<Rightarrow> ColumnarReader" where
  "SkipColumnBytesPtr r =
     skip_items (skip_cell_nullable (skip_value (\<lambda>n. n = 0) ReadBytes (TruncatedValue CellBytes))) 0 (ccount r) r"

definition SkipColumnUUID :: "ColumnarReader \<Rightarrow> ColumnarReader" where
  "SkipColumnUUID r = skip_items (skip_uuid (TruncatedColumn CellUUID)) 0 (ccount r) r"

definition SkipColumnUUIDPtr :: "ColumnarReader \<Rightarrow> ColumnarReader" where
  "SkipColumnUUIDPtr r =
     skip_items (skip_cell_nullable (skip_uuid (TruncatedValue CellUUID))) 0 (ccount r) r"

section \<open>Columns of strings in an arena\<close>

text \<open>The tail of both loops: put a string that was read into the arena if it fits.\<close>

definition arena_put :: "bytes \<Rightarrow> bytes \<Rightarrow> nat \<Rightarrow> gostring \<times> bytes \<times> nat" where
  "arena_put b arena arenaOff =
     (if length b = 0 then (Owned [], arena, arenaOff)
      else let start = arenaOff; end' = start + length b in
        if end' > length arena then (Owned b, arena, arenaOff)
        else (InArena start (length b), copy_at arena start b, end'))"

fun ReadColumnStringArena_loop ::
  "nat \<Rightarrow> nat \<Rightarrow> bytes \<Rightarrow> nat \<Rightarrow> ColumnarReader \<Rightarrow> gostring list option \<times> bytes \<times> nat \<times> ColumnarReader" where
  "ReadColumnStringArena_loop i 0 arena off r = (Some [], arena, off, r)"
| "ReadColumnStringArena_loop i (Suc k) arena off r =
     (case ReadBytes (cbuf r) (coff r) of (b, n) \<Rightarrow>
        if n = 0 then (None, arena, off, col_fail (TruncatedColumn CellString i) r)
        else case arena_put b arena off of (s, arena', off') \<Rightarrow>
          case ReadColumnStringArena_loop (Suc i) k arena' off' (col_move n r) of
            (ss, arena'', off'', r'') \<Rightarrow> (map_option (Cons s) ss, arena'', off'', r''))"

definition ReadColumnStringArena ::
  "bytes \<Rightarrow> nat \<Rightarrow> ColumnarReader \<Rightarrow> gostring list option \<times> bytes \<times> nat \<times> ColumnarReader" where
  "ReadColumnStringArena arena arenaOff r = ReadColumnStringArena_loop 0 (ccount r) arena arenaOff r"

fun ReadColumnStringPtrArena_loop ::
  "nat \<Rightarrow> nat \<Rightarrow> bytes \<Rightarrow> nat \<Rightarrow> ColumnarReader \<Rightarrow>
   gostring option list option \<times> bytes \<times> nat \<times> ColumnarReader" where
  "ReadColumnStringPtrArena_loop i 0 arena off r = (Some [], arena, off, r)"
| "ReadColumnStringPtrArena_loop i (Suc k) arena off r =
     (case ReadNullable (cbuf r) (coff r) of (present, n) \<Rightarrow>
        if n = 0 then (None, arena, off, col_fail (TruncatedNullable i) r)
        else let r' = col_move n r in
          if \<not> present then
            (case ReadColumnStringPtrArena_loop (Suc i) k arena off r' of
               (ss, arena'', off'', r'') \<Rightarrow> (map_option (Cons None) ss, arena'', off'', r''))
          else case ReadBytes (cbuf r') (coff r') of (b, bn) \<Rightarrow>
            if bn = 0 then (None, arena, off, col_fail (TruncatedValue CellString i) r')
            else case arena_put b arena off of (s, arena', off') \<Rightarrow>
              case ReadColumnStringPtrArena_loop (Suc i) k arena' off' (col_move bn r') of
                (ss, arena'', off'', r'') \<Rightarrow> (map_option (Cons (Some s)) ss, arena'', off'', r''))"

definition ReadColumnStringPtrArena ::
  "bytes \<Rightarrow> nat \<Rightarrow> ColumnarReader \<Rightarrow> gostring option list option \<times> bytes \<times> nat \<times> ColumnarReader" where
  "ReadColumnStringPtrArena arena arenaOff r = ReadColumnStringPtrArena_loop 0 (ccount r) arena arenaOff r"

section \<open>What every operation keeps\<close>

definition col_steps :: "ColumnarReader \<Rightarrow> ColumnarReader \<Rightarrow> bool" where
  "col_steps r r' =
     (cbuf r' = cbuf r \<and> ccount r' = ccount r \<and> cfieldID r' = cfieldID r \<and> carenaSize r' = carenaSize r \<and>
      coff r \<le> coff r' \<and> (coff r \<le> length (cbuf r) \<longrightarrow> coff r' \<le> length (cbuf r')) \<and>
      (cerr r \<noteq> None \<longrightarrow> cerr r' \<noteq> None))"

lemma col_move_simps [simp]:
  "cbuf (col_move n r) = cbuf r" "coff (col_move n r) = coff r + nat n" "ccount (col_move n r) = ccount r"
  "cfieldID (col_move n r) = cfieldID r" "carenaSize (col_move n r) = carenaSize r" "cerr (col_move n r) = cerr r"
  by (simp_all add: col_move_def)

lemma col_fail_simps [simp]:
  "cbuf (col_fail e r) = cbuf r" "coff (col_fail e r) = coff r" "ccount (col_fail e r) = ccount r"
  "cfieldID (col_fail e r) = cfieldID r" "carenaSize (col_fail e r) = carenaSize r" "cerr (col_fail e r) = Some e"
  by (simp_all add: col_fail_def)

lemma col_move_add [simp]: "0 \<le> m \<Longrightarrow> 0 \<le> n \<Longrightarrow> col_move n (col_move m r) = col_move (m + n) r"
  by (simp add: col_move_def nat_add_distrib add.assoc)

lemma col_move_0 [simp]: "col_move 0 r = r"
  by (simp add: col_move_def)

lemma col_steps_refl [simp, intro]: "col_steps r r"
  by (simp add: col_steps_def)

lemma col_steps_trans [trans]: "col_steps r r' \<Longrightarrow> col_steps r' r'' \<Longrightarrow> col_steps r r''"
  by (auto simp: col_steps_def)

lemma col_steps_fail [simp, intro]: "col_steps r (col_fail e r)"
  by (simp add: col_steps_def)

lemma col_steps_move: "coff r + nat n \<le> length (cbuf r) \<Longrightarrow> col_steps r (col_move n r)"
  by (simp add: col_steps_def)

lemma drop_col_move:
  "drop (coff r) (cbuf r) = xs @ rest \<Longrightarrow>
   drop (coff (col_move (int (length xs)) r)) (cbuf (col_move (int (length xs)) r)) = rest"
  using drop_eq_appendD [of "coff r" "cbuf r" xs rest] by simp

section \<open>The contract of a cell\<close>

locale column_item =
  fixes enc :: "'a \<Rightarrow> bytes"
    and item :: "nat \<Rightarrow> ColumnarReader \<Rightarrow> 'a option \<times> ColumnarReader"
    and skip :: "nat \<Rightarrow> ColumnarReader \<Rightarrow> bool \<times> ColumnarReader"
    and ok :: "'a \<Rightarrow> bool"
  assumes item_enc: "ok v \<Longrightarrow> drop (coff r) (cbuf r) = enc v @ rest \<Longrightarrow>
      item i r = (Some v, col_move (int (length (enc v))) r)"
    and item_truncated: "ok v \<Longrightarrow> k < length (enc v) \<Longrightarrow> drop (coff r) (cbuf r) = take k (enc v) \<Longrightarrow>
      fst (item i r) = None"
    and item_None: "item i r = (None, r') \<Longrightarrow> cerr r' \<noteq> None"
    and item_Some: "item i r = (Some v, r') \<Longrightarrow> cerr r' = cerr r"
    and item_steps: "col_steps r (snd (item i r))"
    and skip_item: "skip i r = (fst (item i r) \<noteq> None, snd (item i r))"
begin

lemma items_enc:
  assumes "list_all ok vs" "drop (coff r) (cbuf r) = concat (map enc vs) @ rest"
  shows "col_items item i (length vs) r = (Some vs, col_move (int (length (concat (map enc vs)))) r)"
  using assms
proof (induction vs arbitrary: i r)
  case Nil
  then show ?case by simp
next
  case (Cons v vs)
  then have d: "drop (coff r) (cbuf r) = enc v @ concat (map enc vs) @ rest" and w: "ok v" by simp_all
  note r' = item_enc [OF w d] and d' = drop_col_move [OF d]
  show ?case using Cons.IH [OF _ d'] Cons.prems by (simp add: r')
qed

lemma items_None: "col_items item i k r = (None, r') \<Longrightarrow> cerr r' \<noteq> None"
  by (induction k arbitrary: i r) (auto split: prod.splits option.splits dest: item_None)

lemma items_Some: "col_items item i k r = (Some vs, r') \<Longrightarrow> cerr r' = cerr r \<and> length vs = k"
  by (induction k arbitrary: i r vs) (auto split: prod.splits option.splits dest: item_Some)

lemma items_failed: "fst (col_items item i k r) = None \<Longrightarrow> \<exists>e. cerr (snd (col_items item i k r)) = Some e"
  using items_None by (cases "col_items item i k r") fastforce

lemma items_done:
  "fst (col_items item i k r) = Some vs \<Longrightarrow> cerr (snd (col_items item i k r)) = cerr r \<and> length vs = k"
  using items_Some by (cases "col_items item i k r") fastforce

lemma items_truncated:
  assumes "list_all ok vs" "k < length (concat (map enc vs))"
    "drop (coff r) (cbuf r) = take k (concat (map enc vs))"
  shows "fst (col_items item i (length vs) r) = None"
  using assms
proof (induction vs arbitrary: i r k)
  case Nil
  then show ?case by simp
next
  case (Cons v vs)
  then have w: "ok v" by simp
  show ?case
  proof (cases "k < length (enc v)")
    case True
    then have "fst (item i r) = None" using Cons.prems(3) by (intro item_truncated [OF w True]) simp
    then show ?thesis by (cases "item i r") simp
  next
    case False
    then have d: "drop (coff r) (cbuf r) = enc v @ take (k - length (enc v)) (concat (map enc vs))"
      using Cons.prems(3) by simp
    have "fst (col_items item (Suc i) (length vs) (col_move (int (length (enc v))) r)) = None"
      by (rule Cons.IH [OF _ _ drop_col_move [OF d]]) (use Cons.prems False in auto)
    then show ?thesis
      by (cases "col_items item (Suc i) (length vs) (col_move (int (length (enc v))) r)")
         (simp add: item_enc [OF w d])
  qed
qed

lemma items_steps: "col_steps r (snd (col_items item i k r))"
proof (induction k arbitrary: i r)
  case 0
  then show ?case by simp
next
  case (Suc k)
  obtain v r' where r: "item i r = (v, r')" by (cases "item i r")
  have s: "col_steps r r'" using item_steps [of r i] r by simp
  have "col_steps r (snd (col_items item (Suc i) k r'))" using s Suc.IH by (rule col_steps_trans)
  with s r show ?case by (auto split: prod.splits option.splits)
qed

lemma skip_items: "skip_items skip i k r = snd (col_items item i k r)"
  by (induction k arbitrary: i r) (auto simp: skip_item split: prod.splits option.splits)

lemma nullable_item:
  "column_item (\<lambda>v. case v of None \<Rightarrow> [0] | Some x \<Rightarrow> 1 # enc x) (cell_nullable item)
     (skip_cell_nullable skip) (opt_ok ok)"
proof
  fix v :: "'a option" and r :: ColumnarReader and rest i
  assume w: "opt_ok ok v" and d: "drop (coff r) (cbuf r) = (case v of None \<Rightarrow> [0] | Some x \<Rightarrow> 1 # enc x) @ rest"
  show "cell_nullable item i r = (Some v, col_move (int (length (case v of None \<Rightarrow> [0] | Some x \<Rightarrow> 1 # enc x))) r)"
  proof (cases v)
    case None
    then show ?thesis using d by (simp add: cell_nullable_def ReadNullable_Cons)
  next
    case (Some x)
    then have d1: "drop (coff r) (cbuf r) = [1] @ enc x @ rest" and x: "ok x" using d w by (simp_all add: opt_ok_def)
    have "item i (col_move 1 r) = (Some x, col_move (int (length (enc x))) (col_move 1 r))"
      using drop_col_move [OF d1] by (intro item_enc [OF x]) simp
    then show ?thesis using d1 Some by (simp add: cell_nullable_def ReadNullable_Cons)
  qed
next
  fix v :: "'a option" and r :: ColumnarReader and k i
  assume w: "opt_ok ok v" and k: "k < length (case v of None \<Rightarrow> [0] | Some x \<Rightarrow> 1 # enc x)"
    and d: "drop (coff r) (cbuf r) = take k (case v of None \<Rightarrow> [0] | Some x \<Rightarrow> 1 # enc x)"
  show "fst (cell_nullable item i r) = None"
  proof (cases k)
    case 0
    then show ?thesis using d by (simp add: cell_nullable_def ReadNullable_def)
  next
    case (Suc j)
    then obtain x where v: "v = Some x" and j: "j < length (enc x)" using k by (cases v) auto
    then have d1: "drop (coff r) (cbuf r) = [1] @ take j (enc x)" and x: "ok x"
      using d w Suc by (simp_all add: opt_ok_def)
    have "fst (item i (col_move 1 r)) = None"
      using drop_col_move [OF d1] by (intro item_truncated [OF x j]) simp
    then show ?thesis
      using d1 by (auto simp: cell_nullable_def ReadNullable_Cons Let_def split: prod.splits option.splits)
  qed
next
  fix r :: ColumnarReader and i
  show s: "col_steps r (snd (cell_nullable item i r))"
  proof -
    obtain p n where rd: "ReadNullable (cbuf r) (coff r) = (p, n)" by (cases "ReadNullable (cbuf r) (coff r)")
    have "n \<noteq> 0 \<Longrightarrow> col_steps r (col_move n r)"
      using rd by (intro col_steps_move) (auto simp: ReadNullable_def split: if_splits)
    then show ?thesis
      using item_steps [of "col_move n r" i] 
      by (auto simp: cell_nullable_def rd Let_def split: prod.splits option.splits intro: col_steps_trans)
  qed
  show "skip_cell_nullable skip i r = (fst (cell_nullable item i r) \<noteq> None, snd (cell_nullable item i r))"
    by (auto simp: skip_cell_nullable_def cell_nullable_def skip_item Let_def split: prod.splits option.splits)
next
  fix r r' :: ColumnarReader and i
  assume "cell_nullable item i r = (None, r')"
  then show "cerr r' \<noteq> None"
    by (auto simp: cell_nullable_def Let_def split: prod.splits option.splits if_splits dest: item_None)
next
  fix r r' :: ColumnarReader and i v
  assume "cell_nullable item i r = (Some v, r')"
  then show "cerr r' = cerr r"
    by (auto simp: cell_nullable_def Let_def split: prod.splits option.splits if_splits dest: item_Some)
qed

end

section \<open>The cells meet the contract\<close>

context wire_format
begin

lemma cell_value_item:
  assumes "\<And>buf off. bad (snd (rd buf off)) = (snd (rd buf off) \<le> 0)"
  shows "column_item (app []) (cell_value bad rd mk) (skip_value bad rd mk) ok"
proof
  fix v and r :: ColumnarReader and rest i
  assume "ok v" "drop (coff r) (cbuf r) = app [] v @ rest"
  then show "cell_value bad rd mk i r = (Some v, col_move (int (length (app [] v))) r)"
    using assms [of "cbuf r" "coff r"] by (simp add: cell_value_def rd_app app_nonempty)
next
  fix v and r :: ColumnarReader and k i
  assume "ok v" "k < length (app [] v)" "drop (coff r) (cbuf r) = take k (app [] v)"
  then show "fst (cell_value bad rd mk i r) = None"
    using assms [of "cbuf r" "coff r"] rd_truncated [of v k "coff r" "cbuf r"]
    by (auto simp: cell_value_def split: prod.splits)
next
  fix r :: ColumnarReader and i
  show "col_steps r (snd (cell_value bad rd mk i r))"
    using assms [of "cbuf r" "coff r"] rd_bound [of "cbuf r" "coff r"]
    by (auto simp: cell_value_def split: prod.splits intro!: col_steps_move)
qed (auto simp: cell_value_def skip_value_def split: prod.splits if_splits)

end

lemma skip_float_value: "skip_float mk = skip_value (\<lambda>n. n = 0) ReadFixed64 mk"
  by (intro ext) (simp add: skip_float_def skip_value_def ReadFixed64_def)

lemma skip_uuid_value: "skip_uuid mk = skip_value (\<lambda>n. n = 0) ReadUUID mk"
  by (intro ext) (auto simp: skip_uuid_def skip_value_def ReadUUID_def)

lemma int_cell_item:
  "column_item (AppendSvarint []) (int_cell mk) (skip_value (\<lambda>n. n \<le> 0) ReadSvarint (mk CellInt)) (\<lambda>_. True)"
  unfolding int_cell_def by (rule svarint.cell_value_item) simp

lemma float_cell_item:
  "column_item (AppendFixed64 []) (float_cell mk) (skip_float (mk CellFloat)) (\<lambda>_. True)"
  unfolding float_cell_def skip_float_value by (rule fixed64.cell_value_item) (rule failed_eq)

lemma string_cell_item:
  "column_item (AppendString []) (string_cell mk) (skip_value (\<lambda>n. n = 0) ReadBytes (mk CellString)) len_ok"
  unfolding string_cell_def ReadString_eq [symmetric] by (rule str.cell_value_item) (rule failed_eq)

lemma bool_cell_item:
  "column_item (AppendBool []) (bool_cell mk) (skip_value (\<lambda>n. n = 0) ReadBool (mk CellBool)) (\<lambda>_. True)"
  unfolding bool_cell_def by (rule bool.cell_value_item) (rule failed_eq)

lemma bytes_cell_item:
  "column_item (AppendBytes []) (bytes_cell mk) (skip_value (\<lambda>n. n = 0) ReadBytes (mk CellBytes)) len_ok"
  unfolding bytes_cell_def by (rule bytes.cell_value_item) (rule failed_eq)

lemma uuid_cell_item:
  "column_item (AppendUUID []) (uuid_cell mk) (skip_uuid (mk CellUUID)) uuid_ok"
  unfolding uuid_cell_def skip_uuid_value by (rule uuid.cell_value_item) (rule failed_eq)

interpretation int_column: column_item "AppendSvarint []" "int_cell TruncatedColumn"
  "skip_value (\<lambda>n. n \<le> 0) ReadSvarint (TruncatedColumn CellInt)" "\<lambda>_. True"
  by (rule int_cell_item)

interpretation intptr_column: column_item "ptr_bytes AppendSvarint" "cell_nullable (int_cell TruncatedValue)"
  "skip_cell_nullable (skip_value (\<lambda>n. n \<le> 0) ReadSvarint (TruncatedValue CellInt))" "opt_ok (\<lambda>_. True)"
  unfolding ptr_bytes_def [abs_def] by (rule column_item.nullable_item [OF int_cell_item])

interpretation float_column: column_item "AppendFixed64 []" "float_cell TruncatedColumn"
  "skip_float (TruncatedColumn CellFloat)" "\<lambda>_. True"
  by (rule float_cell_item)

interpretation floatptr_column: column_item "ptr_bytes AppendFixed64" "cell_nullable (float_cell TruncatedValue)"
  "skip_cell_nullable (skip_float (TruncatedValue CellFloat))" "opt_ok (\<lambda>_. True)"
  unfolding ptr_bytes_def [abs_def] by (rule column_item.nullable_item [OF float_cell_item])

interpretation string_column: column_item "AppendString []" "string_cell TruncatedColumn"
  "skip_value (\<lambda>n. n = 0) ReadBytes (TruncatedColumn CellString)" "len_ok"
  by (rule string_cell_item)

interpretation stringptr_column: column_item "ptr_bytes AppendString" "cell_nullable (string_cell TruncatedValue)"
  "skip_cell_nullable (skip_value (\<lambda>n. n = 0) ReadBytes (TruncatedValue CellString))" "opt_ok len_ok"
  unfolding ptr_bytes_def [abs_def] by (rule column_item.nullable_item [OF string_cell_item])

interpretation bool_column: column_item "AppendBool []" "bool_cell TruncatedColumn"
  "skip_value (\<lambda>n. n = 0) ReadBool (TruncatedColumn CellBool)" "\<lambda>_. True"
  by (rule bool_cell_item)

interpretation boolptr_column: column_item "ptr_bytes AppendBool" "cell_nullable (bool_cell TruncatedValue)"
  "skip_cell_nullable (skip_value (\<lambda>n. n = 0) ReadBool (TruncatedValue CellBool))" "opt_ok (\<lambda>_. True)"
  unfolding ptr_bytes_def [abs_def] by (rule column_item.nullable_item [OF bool_cell_item])

interpretation bytes_column: column_item "AppendBytes []" "bytes_cell TruncatedColumn"
  "skip_value (\<lambda>n. n = 0) ReadBytes (TruncatedColumn CellBytes)" "len_ok"
  by (rule bytes_cell_item)

interpretation bytesptr_column: column_item "ptr_bytes AppendBytes" "cell_nullable (bytes_cell TruncatedValue)"
  "skip_cell_nullable (skip_value (\<lambda>n. n = 0) ReadBytes (TruncatedValue CellBytes))" "opt_ok len_ok"
  unfolding ptr_bytes_def [abs_def] by (rule column_item.nullable_item [OF bytes_cell_item])

interpretation uuid_column: column_item "AppendUUID []" "uuid_cell TruncatedColumn"
  "skip_uuid (TruncatedColumn CellUUID)" "uuid_ok"
  by (rule uuid_cell_item)

interpretation uuidptr_column: column_item "ptr_bytes AppendUUID" "cell_nullable (uuid_cell TruncatedValue)"
  "skip_cell_nullable (skip_uuid (TruncatedValue CellUUID))" "opt_ok uuid_ok"
  unfolding ptr_bytes_def [abs_def] by (rule column_item.nullable_item [OF uuid_cell_item])

end
