(* ===== verification/Columns.thy ===== *)
theory Columns
  imports Columnar
begin

text \<open>
  Whole columnar messages: the writer's methods applied to one column after the other, and the
  loop over NextColumn that the code reading columns runs (columnarToJSON in
  pkg/lux/schema/convert.go, generated list decoders), with the reader of each column chosen by
  its kind.
\<close>

datatype col_val =
    ColInt "goint list" | ColFloat "float64 list" | ColString "bytes list" | ColBool "bool list" | ColBytes "bytes list" | ColUUID "bytes list"
  | ColIntPtr "goint option list"
  | ColFloatPtr "float64 option list"
  | ColStringPtr "bytes option list"
  | ColBoolPtr "bool option list"
  | ColBytesPtr "bytes option list"
  | ColUUIDPtr "bytes option list"

datatype col_kind =
    KColInt | KColFloat | KColString | KColBool | KColBytes | KColUUID
  | KColIntPtr | KColFloatPtr | KColStringPtr | KColBoolPtr | KColBytesPtr | KColUUIDPtr

fun col_kind_of :: "col_val \<Rightarrow> col_kind" where
  "col_kind_of (ColInt _) = KColInt"
| "col_kind_of (ColFloat _) = KColFloat"
| "col_kind_of (ColString _) = KColString"
| "col_kind_of (ColBool _) = KColBool"
| "col_kind_of (ColBytes _) = KColBytes"
| "col_kind_of (ColUUID _) = KColUUID"
| "col_kind_of (ColIntPtr _) = KColIntPtr"
| "col_kind_of (ColFloatPtr _) = KColFloatPtr"
| "col_kind_of (ColStringPtr _) = KColStringPtr"
| "col_kind_of (ColBoolPtr _) = KColBoolPtr"
| "col_kind_of (ColBytesPtr _) = KColBytesPtr"
| "col_kind_of (ColUUIDPtr _) = KColUUIDPtr"

fun col_len :: "col_val \<Rightarrow> nat" where
  "col_len (ColInt vs) = length vs"
| "col_len (ColFloat vs) = length vs"
| "col_len (ColString vs) = length vs"
| "col_len (ColBool vs) = length vs"
| "col_len (ColBytes vs) = length vs"
| "col_len (ColUUID vs) = length vs"
| "col_len (ColIntPtr vs) = length vs"
| "col_len (ColFloatPtr vs) = length vs"
| "col_len (ColStringPtr vs) = length vs"
| "col_len (ColBoolPtr vs) = length vs"
| "col_len (ColBytesPtr vs) = length vs"
| "col_len (ColUUIDPtr vs) = length vs"

text \<open>Values Go can hold.\<close>

fun col_ok :: "col_val \<Rightarrow> bool" where
  "col_ok (ColInt vs) = list_all (\<lambda>_. True) vs"
| "col_ok (ColFloat vs) = list_all (\<lambda>_. True) vs"
| "col_ok (ColString vs) = list_all len_ok vs"
| "col_ok (ColBool vs) = list_all (\<lambda>_. True) vs"
| "col_ok (ColBytes vs) = list_all len_ok vs"
| "col_ok (ColUUID vs) = list_all uuid_ok vs"
| "col_ok (ColIntPtr vs) = list_all (opt_ok (\<lambda>_. True)) vs"
| "col_ok (ColFloatPtr vs) = list_all (opt_ok (\<lambda>_. True)) vs"
| "col_ok (ColStringPtr vs) = list_all (opt_ok len_ok) vs"
| "col_ok (ColBoolPtr vs) = list_all (opt_ok (\<lambda>_. True)) vs"
| "col_ok (ColBytesPtr vs) = list_all (opt_ok len_ok) vs"
| "col_ok (ColUUIDPtr vs) = list_all (opt_ok uuid_ok) vs"

text \<open>The string bytes a column adds to the arena size.\<close>

fun col_strings :: "col_val \<Rightarrow> nat" where
  "col_strings (ColString vs) = sum_list (map length vs)"
| "col_strings (ColStringPtr vs) = sum_list (map (\<lambda>v. case v of None \<Rightarrow> 0 | Some s \<Rightarrow> length s) vs)"
| "col_strings _ = 0"

fun write_column :: "goint \<times> col_val \<Rightarrow> ColumnarWriter \<Rightarrow> ColumnarWriter" where
  "write_column (f, ColInt vs) w = WriteColumnInt f vs w"
| "write_column (f, ColFloat vs) w = WriteColumnFloat f vs w"
| "write_column (f, ColString vs) w = WriteColumnString f vs w"
| "write_column (f, ColBool vs) w = WriteColumnBool f vs w"
| "write_column (f, ColBytes vs) w = WriteColumnBytes f vs w"
| "write_column (f, ColUUID vs) w = WriteColumnUUID f vs w"
| "write_column (f, ColIntPtr vs) w = WriteColumnIntPtr f vs w"
| "write_column (f, ColFloatPtr vs) w = WriteColumnFloatPtr f vs w"
| "write_column (f, ColStringPtr vs) w = WriteColumnStringPtr f vs w"
| "write_column (f, ColBoolPtr vs) w = WriteColumnBoolPtr f vs w"
| "write_column (f, ColBytesPtr vs) w = WriteColumnBytesPtr f vs w"
| "write_column (f, ColUUIDPtr vs) w = WriteColumnUUIDPtr f vs w"

definition encode_columns :: "goint \<Rightarrow> (goint \<times> col_val) list \<Rightarrow> bytes" where
  "encode_columns n cols = fst (Writer_Bytes (fold write_column cols (SetCount n (Writer_Reset empty_writer))))"

definition read_as :: "('a list \<Rightarrow> col_val) \<Rightarrow> 'a list option \<times> ColumnarReader \<Rightarrow> col_val option \<times> ColumnarReader" where
  "read_as c r = (map_option c (fst r), snd r)"

fun read_column :: "col_kind \<Rightarrow> ColumnarReader \<Rightarrow> col_val option \<times> ColumnarReader" where
  "read_column KColInt r = read_as ColInt (ReadColumnInt r)"
| "read_column KColFloat r = read_as ColFloat (ReadColumnFloat r)"
| "read_column KColString r = read_as ColString (ReadColumnString r)"
| "read_column KColBool r = read_as ColBool (ReadColumnBool r)"
| "read_column KColBytes r = read_as ColBytes (ReadColumnBytes r)"
| "read_column KColUUID r = read_as ColUUID (ReadColumnUUID r)"
| "read_column KColIntPtr r = read_as ColIntPtr (ReadColumnIntPtr r)"
| "read_column KColFloatPtr r = read_as ColFloatPtr (ReadColumnFloatPtr r)"
| "read_column KColStringPtr r = read_as ColStringPtr (ReadColumnStringPtr r)"
| "read_column KColBoolPtr r = read_as ColBoolPtr (ReadColumnBoolPtr r)"
| "read_column KColBytesPtr r = read_as ColBytesPtr (ReadColumnBytesPtr r)"
| "read_column KColUUIDPtr r = read_as ColUUIDPtr (ReadColumnUUIDPtr r)"

fun skip_column :: "col_kind \<Rightarrow> ColumnarReader \<Rightarrow> ColumnarReader" where
  "skip_column KColInt r = SkipColumnInt r"
| "skip_column KColFloat r = SkipColumnFloat r"
| "skip_column KColString r = SkipColumnString r"
| "skip_column KColBool r = SkipColumnBool r"
| "skip_column KColBytes r = SkipColumnBytes r"
| "skip_column KColUUID r = SkipColumnUUID r"
| "skip_column KColIntPtr r = SkipColumnIntPtr r"
| "skip_column KColFloatPtr r = SkipColumnFloatPtr r"
| "skip_column KColStringPtr r = SkipColumnStringPtr r"
| "skip_column KColBoolPtr r = SkipColumnBoolPtr r"
| "skip_column KColBytesPtr r = SkipColumnBytesPtr r"
| "skip_column KColUUIDPtr r = SkipColumnUUIDPtr r"

lemmas read_column_defs =
  ReadColumnInt_def
  ReadColumnFloat_def
  ReadColumnString_def
  ReadColumnBool_def
  ReadColumnBytes_def
  ReadColumnUUID_def
  ReadColumnIntPtr_def
  ReadColumnFloatPtr_def
  ReadColumnStringPtr_def
  ReadColumnBoolPtr_def
  ReadColumnBytesPtr_def
  ReadColumnUUIDPtr_def

lemmas skip_column_defs =
  SkipColumnInt_def
  SkipColumnFloat_def
  SkipColumnString_def
  SkipColumnBool_def
  SkipColumnBytes_def
  SkipColumnUUID_def
  SkipColumnIntPtr_def
  SkipColumnFloatPtr_def
  SkipColumnStringPtr_def
  SkipColumnBoolPtr_def
  SkipColumnBytesPtr_def
  SkipColumnUUIDPtr_def

lemmas write_column_defs =
  WriteColumnInt_def
  WriteColumnFloat_def
  WriteColumnString_def
  WriteColumnBool_def
  WriteColumnBytes_def
  WriteColumnUUID_def
  WriteColumnIntPtr_def
  WriteColumnFloatPtr_def
  WriteColumnStringPtr_def
  WriteColumnBoolPtr_def
  WriteColumnBytesPtr_def
  WriteColumnUUIDPtr_def

section \<open>One column\<close>

fun col_enc :: "col_val \<Rightarrow> bytes" where
  "col_enc (ColInt vs) = concat (map (AppendSvarint []) vs)"
| "col_enc (ColFloat vs) = concat (map (AppendFixed64 []) vs)"
| "col_enc (ColString vs) = concat (map (AppendString []) vs)"
| "col_enc (ColBool vs) = concat (map (AppendBool []) vs)"
| "col_enc (ColBytes vs) = concat (map (AppendBytes []) vs)"
| "col_enc (ColUUID vs) = concat (map (AppendUUID []) vs)"
| "col_enc (ColIntPtr vs) = concat (map (ptr_bytes AppendSvarint) vs)"
| "col_enc (ColFloatPtr vs) = concat (map (ptr_bytes AppendFixed64) vs)"
| "col_enc (ColStringPtr vs) = concat (map (ptr_bytes AppendString) vs)"
| "col_enc (ColBoolPtr vs) = concat (map (ptr_bytes AppendBool) vs)"
| "col_enc (ColBytesPtr vs) = concat (map (ptr_bytes AppendBytes) vs)"
| "col_enc (ColUUIDPtr vs) = concat (map (ptr_bytes AppendUUID) vs)"

lemmas columns_enc = int_column.items_enc float_column.items_enc string_column.items_enc bool_column.items_enc bytes_column.items_enc uuid_column.items_enc intptr_column.items_enc floatptr_column.items_enc stringptr_column.items_enc boolptr_column.items_enc bytesptr_column.items_enc uuidptr_column.items_enc
lemmas columns_truncated = int_column.items_truncated float_column.items_truncated string_column.items_truncated bool_column.items_truncated bytes_column.items_truncated uuid_column.items_truncated intptr_column.items_truncated floatptr_column.items_truncated stringptr_column.items_truncated boolptr_column.items_truncated bytesptr_column.items_truncated uuidptr_column.items_truncated
lemmas columns_steps = int_column.items_steps float_column.items_steps string_column.items_steps bool_column.items_steps bytes_column.items_steps uuid_column.items_steps intptr_column.items_steps floatptr_column.items_steps stringptr_column.items_steps boolptr_column.items_steps bytesptr_column.items_steps uuidptr_column.items_steps
lemmas columns_None = int_column.items_failed float_column.items_failed string_column.items_failed bool_column.items_failed bytes_column.items_failed uuid_column.items_failed intptr_column.items_failed floatptr_column.items_failed stringptr_column.items_failed boolptr_column.items_failed bytesptr_column.items_failed uuidptr_column.items_failed
lemmas columns_Some = int_column.items_done float_column.items_done string_column.items_done bool_column.items_done bytes_column.items_done uuid_column.items_done intptr_column.items_done floatptr_column.items_done stringptr_column.items_done boolptr_column.items_done bytesptr_column.items_done uuidptr_column.items_done
lemmas columns_skip = int_column.skip_items float_column.skip_items string_column.skip_items bool_column.skip_items bytes_column.skip_items uuid_column.skip_items intptr_column.skip_items floatptr_column.skip_items stringptr_column.skip_items boolptr_column.skip_items bytesptr_column.skip_items uuidptr_column.skip_items

lemma read_column_enc:
  assumes "col_ok v" "ccount r = col_len v" "drop (coff r) (cbuf r) = col_enc v @ rest"
  shows "read_column (col_kind_of v) r = (Some v, col_move (int (length (col_enc v))) r)"
  by (cases v; use assms in \<open>simp add: read_as_def read_column_defs columns_enc\<close>)

lemma read_column_truncated:
  assumes "col_ok v" "ccount r = col_len v" "k < length (col_enc v)"
    "drop (coff r) (cbuf r) = take k (col_enc v)"
  shows "fst (read_column (col_kind_of v) r) = None"
  by (cases v; use assms in \<open>simp add: read_as_def read_column_defs columns_truncated\<close>)

lemma read_column_steps: "col_steps r (snd (read_column k r))"
  by (cases k) (simp_all add: read_as_def read_column_defs columns_steps)

lemma read_column_None: "read_column k r = (None, r') \<Longrightarrow> cerr r' \<noteq> None"
  by (cases k) (auto simp: read_as_def read_column_defs dest: columns_None)

lemma read_column_Some: "read_column k r = (Some v, r') \<Longrightarrow> cerr r' = cerr r \<and> col_len v = ccount r \<and> col_kind_of v = k"
  by (cases k) (auto simp: read_as_def read_column_defs dest: columns_Some)

lemma skip_column_read: "skip_column k r = snd (read_column k r)"
  by (cases k) (simp_all add: read_as_def read_column_defs skip_column_defs columns_skip)

section \<open>The writer\<close>

context wire_format
begin

lemma append_ptrs_bytes: "append_ptrs app vs = concat (map (ptr_bytes app) vs)"
proof -
  have "fold (\<lambda>v data. case v of None \<Rightarrow> AppendNull data | Some x \<Rightarrow> app (AppendPresent data) x) vs dst =
    dst @ concat (map (ptr_bytes app) vs)" for dst
  proof (induction vs arbitrary: dst)
    case (Cons v vs)
    then show ?case
      by (cases v) (simp_all add: AppendNull_def AppendPresent_def ptr_bytes_def app_append [of "dst @ _"])
  qed simp
  then show ?thesis by (simp add: append_ptrs_def)
qed

end

lemmas column_data_bytes =
  svarint.app_fold fixed64.app_fold str.app_fold bool.app_fold bytes.app_fold uuid.app_fold
  svarint.append_ptrs_bytes fixed64.append_ptrs_bytes str.append_ptrs_bytes bool.append_ptrs_bytes
  bytes.append_ptrs_bytes uuid.append_ptrs_bytes

lemma fold_lengths: "fold (\<lambda>v t. t + of_nat (length v)) vs t = (t :: goint) + of_nat (sum_list (map length vs))"
  by (induction vs arbitrary: t) simp_all

lemma fold_option_lengths:
  "fold (\<lambda>v t. case v of None \<Rightarrow> t | Some s \<Rightarrow> t + of_nat (length s)) vs t =
   (t :: goint) + of_nat (sum_list (map (\<lambda>v. case v of None \<Rightarrow> 0 | Some s \<Rightarrow> length s) vs))"
proof (induction vs arbitrary: t)
  case (Cons v vs)
  then show ?case by (cases v) simp_all
qed simp

lemma write_column_effect:
  "wcolumns (write_column fv w) = wcolumns w @ [\<lparr>colID = fst fv, coldata = col_enc (snd fv)\<rparr>]"
  "wcount (write_column fv w) = wcount w"
  "wtotal (write_column fv w) = wtotal w + of_nat (col_strings (snd fv))"
  by (cases fv; cases "snd fv"; simp add: write_column_defs add_column_def column_data_bytes
      fold_lengths fold_option_lengths)+

lemma write_columns_effect:
  "wcolumns (fold write_column cols w) =
     wcolumns w @ map (\<lambda>fv. \<lparr>colID = fst fv, coldata = col_enc (snd fv)\<rparr>) cols"
  "wcount (fold write_column cols w) = wcount w"
  "wtotal (fold write_column cols w) = wtotal w + of_nat (sum_list (map (col_strings \<circ> snd) cols))"
  by (induction cols arbitrary: w) (simp_all add: write_column_effect)

definition column_enc :: "goint \<times> col_val \<Rightarrow> bytes" where
  "column_enc fv = AppendVarint [] (fst fv) @ col_enc (snd fv)"

definition columns_header :: "goint \<Rightarrow> (goint \<times> col_val) list \<Rightarrow> bytes" where
  "columns_header n cols =
     AppendVarint [] n @ AppendVarint [] (of_nat (sum_list (map (col_strings \<circ> snd) cols)))"

lemma encode_columns_bytes:
  "encode_columns n cols =
     columns_header n cols @ (if sint n > 0 then concat (map column_enc cols) else []) @ [0]"
proof -
  have "fold (\<lambda>col b. AppendVarint b (colID col) @ coldata col)
      (map (\<lambda>fv. \<lparr>colID = fst fv, coldata = col_enc (snd fv)\<rparr>) cols) b = b @ concat (map column_enc cols)" for b
  proof (induction cols arbitrary: b)
    case (Cons fv cols)
    have "AppendVarint b (fst fv) = b @ AppendVarint [] (fst fv)" by (rule AppendVarint_app)
    then show ?case by (simp add: Cons column_enc_def)
  qed simp
  then show ?thesis
    by (simp add: encode_columns_def Writer_Bytes_def write_columns_effect columns_header_def
        SetCount_def Writer_Reset_def empty_writer_def Let_def AppendVarint_app [of "AppendVarint _ _"])
qed

section \<open>The reading loop\<close>

lemma NextColumn_True:
  assumes "NextColumn r = (True, r1)"
  shows "coff r < length (cbuf r)" "coff r < coff r1" "cbuf r1 = cbuf r" "cerr r1 = None"
  using assms by (auto simp: NextColumn_def split: prod.splits if_splits)

function read_columns ::
  "(goint \<Rightarrow> col_kind option) \<Rightarrow> (goint \<times> col_val option) list \<Rightarrow> ColumnarReader \<Rightarrow>
   (goint \<times> col_val option) list \<times> ColumnarReader" where
  "read_columns sch acc r =
     (case NextColumn r of (found, r1) \<Rightarrow>
        if \<not> found then (acc, r1)
        else (case sch (Column_FieldID r1) of
            None \<Rightarrow> (acc, r1)
          | Some k \<Rightarrow>
              (case read_column k r1 of (v, r2) \<Rightarrow>
                 read_columns sch (acc @ [(Column_FieldID r1, v)]) r2)))"
  by pat_completeness auto
termination
proof (relation "measure (\<lambda>(sch, acc, r). length (cbuf r) - coff r)", goal_cases)
  case 1
  show ?case by simp
next
  case (2 sch acc r x r1 k x2 r2)
  then have n: "NextColumn r = (True, r1)" and c: "read_column k r1 = (x2, r2)" by auto
  from NextColumn_True [OF n] read_column_steps [of r1 k] c show ?case by (auto simp: col_steps_def)
qed

declare read_columns.simps [simp del]

definition decode_columns ::
  "(goint \<Rightarrow> col_kind option) \<Rightarrow> bytes \<Rightarrow> (goint \<times> col_val option) list \<times> ColumnarReader" where
  "decode_columns sch data =
     (let r = NewColumnarReader data in if Count r = 0 then ([], r) else read_columns sch [] r)"

text \<open>Columns of n records each, that the schema knows.\<close>

definition columns_ok :: "(goint \<Rightarrow> col_kind option) \<Rightarrow> nat \<Rightarrow> (goint \<times> col_val) list \<Rightarrow> bool" where
  "columns_ok sch n cols =
     (list_all (\<lambda>(f, v). f \<noteq> 0 \<and> sch f = Some (col_kind_of v) \<and> col_ok v \<and> col_len v = n) cols \<and>
      sum_list (map (col_strings \<circ> snd) cols) \<le> MaxArenaSize)"

lemma NextColumn_enc:
  assumes "cerr r = None" "drop (coff r) (cbuf r) = AppendVarint [] f @ rest" "f \<noteq> 0"
  shows "NextColumn r = (True, (col_move (int (length (AppendVarint [] f))) r)\<lparr>cfieldID := f\<rparr>)"
proof -
  have "coff r < length (cbuf r)" using drop_eq_lengthD [OF assms(2)] by (cases "AppendVarint [] f") auto
  then show ?thesis using assms by (simp add: NextColumn_def ReadVarint_app)
qed

lemma NextColumn_end:
  assumes "cerr r = None" "drop (coff r) (cbuf r) = 0 # rest"
  shows "NextColumn r = (False, col_move 1 r)"
proof -
  have "coff r < length (cbuf r)" using drop_eq_lengthD [OF assms(2)] by auto
  moreover have "ReadVarint (cbuf r) (coff r) = (0, 1)"
    using assms(2) ReadVarint_app [of "coff r" "cbuf r" 0 rest] by (simp add: AppendVarint_unfold)
  ultimately show ?thesis using assms(1) by (simp add: NextColumn_def)
qed

lemma NextColumn_truncated:
  assumes "k < length (AppendVarint [] f)" "drop (coff r) (cbuf r) = take k (AppendVarint [] f)"
  shows "NextColumn r = (False, r)"
  using assms by (auto simp: NextColumn_def ReadVarint_truncated)

lemma read_columns_one:
  assumes "cerr r = None" "f \<noteq> 0" "sch f = Some (col_kind_of v)" "col_ok v" "col_len v = ccount r"
    and d: "drop (coff r) (cbuf r) = column_enc (f, v) @ rest"
  shows "read_columns sch acc r =
    read_columns sch (acc @ [(f, Some v)]) ((col_move (int (length (column_enc (f, v)))) r)\<lparr>cfieldID := f\<rparr>)"
proof -
  let ?r = "(col_move (int (length (AppendVarint [] f))) r)\<lparr>cfieldID := f\<rparr>"
  have d0: "drop (coff r) (cbuf r) = AppendVarint [] f @ col_enc v @ rest" using d by (simp add: column_enc_def)
  have "read_column (col_kind_of v) ?r = (Some v, col_move (int (length (col_enc v))) ?r)"
    using drop_col_move [OF d0] assms by (intro read_column_enc [of v ?r rest]) simp_all
  moreover have "col_move (int (length (col_enc v))) ?r = (col_move (int (length (column_enc (f, v)))) r)\<lparr>cfieldID := f\<rparr>"
    by (simp add: col_move_def column_enc_def nat_add_distrib)
  ultimately show ?thesis
    using assms NextColumn_enc [OF assms(1) d0] by (subst read_columns.simps) (simp add: Column_FieldID_def)
qed

definition read_back :: "(goint \<times> col_val) list \<Rightarrow> (goint \<times> col_val option) list" where
  "read_back cols = map (\<lambda>(f, v). (f, Some v)) cols"

text \<open>The columns themselves, followed by anything: the loop goes on after them.\<close>

lemma read_columns_enc:
  assumes "cerr r = None" "drop (coff r) (cbuf r) = concat (map column_enc cols) @ rest"
    "list_all (\<lambda>(f, v). f \<noteq> 0 \<and> sch f = Some (col_kind_of v) \<and> col_ok v \<and> col_len v = ccount r) cols"
  shows "\<exists>f. read_columns sch acc r = read_columns sch (acc @ read_back cols)
      ((col_move (int (length (concat (map column_enc cols)))) r)\<lparr>cfieldID := f\<rparr>)"
  using assms
proof (induction cols arbitrary: acc r)
  case Nil
  show ?case by (intro exI [of _ "cfieldID r"]) (simp add: read_back_def)
next
  case (Cons fv cols)
  obtain f v where fv: "fv = (f, v)" by (cases fv)
  let ?r = "(col_move (int (length (column_enc fv))) r)\<lparr>cfieldID := f\<rparr>"
  have d: "drop (coff r) (cbuf r) = column_enc fv @ concat (map column_enc cols) @ rest" using Cons.prems by simp
  have one: "read_columns sch acc r = read_columns sch (acc @ [(f, Some v)]) ?r"
    using read_columns_one [of r f sch v _ acc] Cons.prems d by (simp add: fv)
  have "drop (coff ?r) (cbuf ?r) = concat (map column_enc cols) @ rest" using drop_col_move [OF d] by simp
  with Cons.IH [of ?r "acc @ [(f, Some v)]"] Cons.prems obtain f' where
    "read_columns sch (acc @ [(f, Some v)]) ?r = read_columns sch ((acc @ [(f, Some v)]) @ read_back cols)
      ((col_move (int (length (concat (map column_enc cols)))) ?r)\<lparr>cfieldID := f'\<rparr>)" by auto
  then show ?case
    unfolding one by (intro exI [of _ f']) (simp add: fv read_back_def col_move_def nat_add_distrib add.assoc)
qed

lemma NewColumnarReader_enc:
  assumes "columns_ok sch n cols" "n \<le> MaxColumnarRecords" "data = columns_header (of_nat n) cols @ rest"
  shows "NewColumnarReader data = \<lparr>cbuf = data, coff = length (columns_header (of_nat n) cols), ccount = n,
    cfieldID = 0, carenaSize = sum_list (map (col_strings \<circ> snd) cols), cerr = None\<rparr>"
proof -
  let ?t = "sum_list (map (col_strings \<circ> snd) cols)"
  have n: "unat (of_nat n :: u64) = n" and t: "unat (of_nat ?t :: u64) = ?t" and le: "?t \<le> MaxArenaSize"
    using assms(1,2) by (auto simp: columns_ok_def MaxColumnarRecords_def MaxArenaSize_def max_len_def intro!: unat_le_max_len)
  have d0: "drop 0 data = AppendVarint [] (of_nat n) @ AppendVarint [] (of_nat ?t) @ rest"
    using assms(3) by (simp add: columns_header_def)
  have d1: "drop (length (AppendVarint [] (of_nat n :: u64))) data = AppendVarint [] (of_nat ?t) @ rest"
    using drop_eq_appendD [OF d0] by simp
  show ?thesis
    using ReadVarint_app [OF d0] ReadVarint_app [OF d1] n t le assms(2)
    by (simp add: NewColumnarReader_def Let_def col_move_def columns_header_def)
qed


lemma read_columns_end:
  assumes "cerr r = None" "drop (coff r) (cbuf r) = 0 # rest"
  shows "read_columns sch acc r = (acc, col_move 1 r)"
  by (subst read_columns.simps) (simp add: NextColumn_end [OF assms])

lemma read_columns_failed: "cerr r \<noteq> None \<Longrightarrow> read_columns sch acc r = (acc, r)"
  by (subst read_columns.simps) (simp add: NextColumn_def)

lemma read_columns_cut:
  assumes "cerr r = None" "k < length (concat (map column_enc cols) @ [0])"
    "drop (coff r) (cbuf r) = take k (concat (map column_enc cols) @ [0])"
    "list_all (\<lambda>(f, v). f \<noteq> 0 \<and> sch f = Some (col_kind_of v) \<and> col_ok v \<and> col_len v = ccount r) cols"
  shows "\<exists>m cs r'. read_columns sch acc r = (cs, r') \<and> (cerr r' \<noteq> None \<or> cs = acc @ read_back (take m cols))"
  using assms
proof (induction cols arbitrary: acc r k)
  case Nil
  then show ?case by (subst read_columns.simps) (simp add: NextColumn_def read_back_def)
next
  case (Cons fv cols)
  obtain f v where fv: "fv = (f, v)" by (cases fv)
  let ?h = "AppendVarint [] f"
  consider (head) "k < length ?h" | (val) "length ?h \<le> k" "k < length (column_enc fv)"
    | (later) "length (column_enc fv) \<le> k" by linarith
  then show ?case
  proof cases
    case head
    then have "drop (coff r) (cbuf r) = take k ?h" using Cons.prems(3) by (simp add: column_enc_def fv)
    then have "read_columns sch acc r = (acc, r)"
      using NextColumn_truncated [OF head] by (subst read_columns.simps) simp
    then show ?thesis by (intro exI [of _ 0]) (simp add: read_back_def)
  next
    case val
    let ?r = "(col_move (int (length ?h)) r)\<lparr>cfieldID := f\<rparr>"
    have d0: "drop (coff r) (cbuf r) = ?h @ take (k - length ?h) (col_enc v)"
      using Cons.prems(3) val by (simp add: column_enc_def fv)
    have "fst (read_column (col_kind_of v) ?r) = None"
      using drop_col_move [OF d0] Cons.prems(4) val
      by (intro read_column_truncated [of v ?r "k - length ?h"]) (auto simp: column_enc_def fv)
    then obtain r2 where r2: "read_column (col_kind_of v) ?r = (None, r2)" by (metis prod.collapse)
    then have "cerr r2 \<noteq> None" by (rule read_column_None)
    then show ?thesis
      using NextColumn_enc [OF Cons.prems(1) d0] Cons.prems(4) r2
      by (subst read_columns.simps) (auto simp: Column_FieldID_def fv read_columns_failed)
  next
    case later
    let ?r = "(col_move (int (length (column_enc fv))) r)\<lparr>cfieldID := f\<rparr>"
    let ?k = "k - length (column_enc fv)"
    have d: "drop (coff r) (cbuf r) = column_enc fv @ take ?k (concat (map column_enc cols) @ [0])"
      using Cons.prems(3) later by simp
    have "\<exists>m cs r'. read_columns sch (acc @ [(f, Some v)]) ?r = (cs, r') \<and>
        (cerr r' \<noteq> None \<or> cs = (acc @ [(f, Some v)]) @ read_back (take m cols))"
      using drop_col_move [OF d] Cons.prems later by (intro Cons.IH [of _ ?k]) auto
    then obtain m cs r' where m: "read_columns sch (acc @ [(f, Some v)]) ?r = (cs, r')"
      "cerr r' \<noteq> None \<or> cs = acc @ read_back (take (Suc m) (fv # cols))"
      by (auto simp: read_back_def fv)
    then show ?thesis
      using read_columns_one [of r f sch v _ acc] d Cons.prems(1,4)
      by (intro exI [of _ "Suc m"]) (simp add: fv)
  qed
qed

lemma NewColumnarReader_cut:
  assumes "columns_ok sch n cols" "n \<le> MaxColumnarRecords" "k < length (columns_header (of_nat n) cols)"
    "data = take k (columns_header (of_nat n) cols)"
  shows "cerr (NewColumnarReader data) \<noteq> None"
proof -
  let ?n = "of_nat n :: u64" and ?t = "of_nat (sum_list (map (col_strings \<circ> snd) cols)) :: u64"
  show ?thesis
  proof (cases "k < length (AppendVarint [] ?n)")
    case True
    then have "ReadVarint data 0 = (0, 0)"
      using assms(4) by (intro ReadVarint_truncated [of k ?n]) (simp_all add: columns_header_def)
    then show ?thesis by (simp add: NewColumnarReader_def)
  next
    case False
    let ?k = "k - length (AppendVarint [] ?n)"
    have d: "drop 0 data = AppendVarint [] ?n @ take ?k (AppendVarint [] ?t)"
      using assms(4) False by (simp add: columns_header_def)
    have "ReadVarint data (length (AppendVarint [] ?n)) = (0, 0)"
      using drop_eq_appendD [OF d] assms(3) False
      by (intro ReadVarint_truncated [of ?k ?t]) (simp_all add: columns_header_def)
    then show ?thesis using ReadVarint_app [OF d] by (simp add: NewColumnarReader_def Let_def)
  qed
qed

section \<open>String columns in an arena\<close>

lemma arena_put_result:
  assumes "arena_put b arena off = (s, arena', off')" "off \<le> length arena"
  shows "off \<le> off'" "off' \<le> length arena'" "length arena' = length arena" "take off arena' = take off arena"
    "take off' final = take off' arena' \<Longrightarrow> string_val final s = b"
    "off + length b \<le> length arena \<Longrightarrow> off' = off + length b"
proof -
  show "off \<le> off'" "off' \<le> length arena'" "length arena' = length arena" "take off arena' = take off arena"
    "off + length b \<le> length arena \<Longrightarrow> off' = off + length b"
    using assms by (auto simp: arena_put_def copy_at_def Let_def split: if_splits)
  assume f: "take off' final = take off' arena'"
  show "string_val final s = b"
  proof (cases "b = [] \<or> off + length b > length arena")
    case True
    then show ?thesis using assms by (auto simp: arena_put_def Let_def split: if_splits)
  next
    case False
    then have s: "s = InArena off (length b)" and o': "off' = off + length b"
      and a': "arena' = take off arena @ b @ drop (off + length b) arena"
      using assms by (auto simp: arena_put_def copy_at_def Let_def)
    have "take (length b) (drop off final) = drop off (take off' final)" by (simp add: o' drop_take)
    also have "\<dots> = drop off (take (off + length b) arena')" using f by (simp add: o')
    also have "\<dots> = b" using assms(2) by (simp add: a')
    finally show ?thesis by (simp add: s)
  qed
qed

lemma take_take_mono: "off \<le> off1 \<Longrightarrow> take off1 a = take off1 b \<Longrightarrow> take off a = take off b"
  by (metis min.absorb1 take_take)

definition arena_ok :: "bytes \<Rightarrow> nat \<Rightarrow> bytes \<Rightarrow> nat \<Rightarrow> bool" where
  "arena_ok arena off arena' off' =
     (off \<le> off' \<and> off' \<le> length arena' \<and> length arena' = length arena \<and> take off arena' = take off arena)"

lemma arena_ok_trans: "arena_ok a off a1 off1 \<Longrightarrow> arena_ok a1 off1 a2 off2 \<Longrightarrow> arena_ok a off a2 off2"
  unfolding arena_ok_def by (metis take_take_mono le_trans)

lemma string_cell_eq:
  "ReadBytes (cbuf r) (coff r) = (b, n) \<Longrightarrow>
   string_cell mk i r = (if n = 0 then (None, col_fail (mk CellString i) r) else (Some b, col_move n r))"
  by (simp add: string_cell_def cell_value_def ReadString_eq)

lemma string_cell_nullable_eq:
  "ReadNullable (cbuf r) (coff r) = (p, n) \<Longrightarrow> ReadBytes (cbuf r) (coff r + nat n) = (b, bn) \<Longrightarrow>
   cell_nullable (string_cell mk) i r =
     (if n = 0 then (None, col_fail (TruncatedNullable i) r)
      else if \<not> p then (Some None, col_move n r)
      else if bn = 0 then (None, col_fail (mk CellString i) (col_move n r))
      else (Some (Some b), col_move bn (col_move n r)))"
  using string_cell_eq [of "col_move n r" b bn mk i] by (simp add: cell_nullable_def)

lemma ReadColumnStringArena_loop_correct:
  assumes "ReadColumnStringArena_loop i k arena off r = (ss, arena', off', r')" "off \<le> length arena"
  shows "arena_ok arena off arena' off' \<and>
    (map_option (map (string_val arena')) ss, r') = col_items (string_cell TruncatedColumn) i k r"
  using assms
proof (induction k arbitrary: i arena off r ss)
  case 0
  then show ?case by (simp add: arena_ok_def)
next
  case (Suc k)
  obtain b n where rd: "ReadBytes (cbuf r) (coff r) = (b, n)" by (cases "ReadBytes (cbuf r) (coff r)")
  show ?case
  proof (cases "n = 0")
    case True
    then show ?thesis using Suc.prems rd by (auto simp: string_cell_eq arena_ok_def)
  next
    case False
    obtain s arena1 off1 where p: "arena_put b arena off = (s, arena1, off1)" by (cases "arena_put b arena off")
    obtain ss1 where rest: "ReadColumnStringArena_loop (Suc i) k arena1 off1 (col_move n r) = (ss1, arena', off', r')"
      and ss: "ss = map_option (Cons s) ss1"
      using Suc.prems(1) False rd p by (auto split: prod.splits)
    note h = arena_put_result [OF p Suc.prems(2)]
    note IH = Suc.IH [OF rest h(2)]
    have "arena_ok arena off arena1 off1" using h by (simp add: arena_ok_def)
    with IH have ok: "arena_ok arena off arena' off'" by (blast intro: arena_ok_trans)
    have "string_val arena' s = b" using IH by (intro h(5)) (simp add: arena_ok_def)
    moreover obtain vs2 r2 where c: "col_items (string_cell TruncatedColumn) (Suc i) k (col_move n r) = (vs2, r2)"
      by (cases "col_items (string_cell TruncatedColumn) (Suc i) k (col_move n r)")
    ultimately show ?thesis
      using IH ok False rd by (cases ss1) (auto simp: ss string_cell_eq)
  qed
qed


lemma ReadColumnStringPtrArena_loop_correct:
  assumes "ReadColumnStringPtrArena_loop i k arena off r = (ss, arena', off', r')" "off \<le> length arena"
  shows "arena_ok arena off arena' off' \<and>
    (map_option (map (map_option (string_val arena'))) ss, r') =
    col_items (cell_nullable (string_cell TruncatedValue)) i k r"
  using assms
proof (induction k arbitrary: i arena off r ss)
  case 0
  then show ?case by (simp add: arena_ok_def)
next
  case (Suc k)
  let ?items = "col_items (cell_nullable (string_cell TruncatedValue)) (Suc i) k"
  obtain p n where nl: "ReadNullable (cbuf r) (coff r) = (p, n)" by (cases "ReadNullable (cbuf r) (coff r)")
  obtain b bn where rd: "ReadBytes (cbuf r) (coff r + nat n) = (b, bn)" by (cases "ReadBytes (cbuf r) (coff r + nat n)")
  consider (flag) "n = 0" | (null) "n \<noteq> 0" "\<not> p" | (cut) "n \<noteq> 0" p "bn = 0" | (val) "n \<noteq> 0" p "bn \<noteq> 0" by blast
  then show ?case
  proof cases
    case null
    obtain ss1 where rest: "ReadColumnStringPtrArena_loop (Suc i) k arena off (col_move n r) = (ss1, arena', off', r')"
      and ss: "ss = map_option (Cons None) ss1"
      using Suc.prems(1) null nl by (auto split: prod.splits)
    note IH = Suc.IH [OF rest Suc.prems(2)]
    obtain vs2 r2 where c: "?items (col_move n r) = (vs2, r2)" by (cases "?items (col_move n r)")
    show ?thesis using IH null nl c by (cases ss1) (auto simp: ss string_cell_nullable_eq [OF nl rd])
  next
    case val
    obtain s arena1 off1 where put: "arena_put b arena off = (s, arena1, off1)" by (cases "arena_put b arena off")
    let ?r = "col_move bn (col_move n r)"
    obtain ss1 where rest: "ReadColumnStringPtrArena_loop (Suc i) k arena1 off1 ?r = (ss1, arena', off', r')"
      and ss: "ss = map_option (Cons (Some s)) ss1"
      using Suc.prems(1) val nl rd put by (auto split: prod.splits)
    note h = arena_put_result [OF put Suc.prems(2)]
    note IH = Suc.IH [OF rest h(2)]
    have "arena_ok arena off arena1 off1" using h by (simp add: arena_ok_def)
    with IH have ok: "arena_ok arena off arena' off'" by (blast intro: arena_ok_trans)
    have "string_val arena' s = b" using IH by (intro h(5)) (simp add: arena_ok_def)
    moreover obtain vs2 r2 where c: "?items ?r = (vs2, r2)" by (cases "?items ?r")
    ultimately show ?thesis
      using IH ok val nl rd
      by (cases ss1) (auto simp: ss string_cell_nullable_eq [OF nl rd])
  qed (use Suc.prems nl rd in
      \<open>auto simp: string_cell_nullable_eq [OF nl rd] arena_ok_def\<close>)
qed

text \<open>An arena with room for the strings of the column holds all of them.\<close>

lemma ReadColumnStringArena_loop_fits:
  assumes "col_items (string_cell TruncatedColumn) i k r = (Some vs, r')"
    "off + sum_list (map length vs) \<le> length arena"
  shows "\<exists>ss arena'. ReadColumnStringArena_loop i k arena off r =
    (Some ss, arena', off + sum_list (map length vs), r') \<and> (\<forall>s\<in>set ss. \<forall>b. s = Owned b \<longrightarrow> b = [])"
  using assms
proof (induction k arbitrary: i arena off r vs)
  case 0
  then show ?case by simp
next
  case (Suc k)
  obtain b n where rd: "ReadBytes (cbuf r) (coff r) = (b, n)" by (cases "ReadBytes (cbuf r) (coff r)")
  have n: "n \<noteq> 0" using Suc.prems(1) rd by (auto simp: string_cell_eq)
  then obtain vs1 where vs: "vs = b # vs1"
    and rest: "col_items (string_cell TruncatedColumn) (Suc i) k (col_move n r) = (Some vs1, r')"
    using Suc.prems(1) rd
    by (auto simp: string_cell_eq split: prod.splits option.splits)
  obtain s arena1 off1 where p: "arena_put b arena off = (s, arena1, off1)" by (cases "arena_put b arena off")
  have le: "off + length b \<le> length arena" "off \<le> length arena" using Suc.prems(2) vs by simp_all
  note h = arena_put_result [OF p le(2)]
  have off1: "off1 = off + length b" by (rule h(6) [OF le(1)])
  then have "off1 + sum_list (map length vs1) \<le> length arena1" using Suc.prems(2) vs h(3) by simp
  from Suc.IH [OF rest this] obtain ss arena' where
    r: "ReadColumnStringArena_loop (Suc i) k arena1 off1 (col_move n r) =
      (Some ss, arena', off1 + sum_list (map length vs1), r')"
    and o: "\<forall>s\<in>set ss. \<forall>b. s = Owned b \<longrightarrow> b = []" by blast
  have "\<forall>c. s = Owned c \<longrightarrow> c = []" using p le by (auto simp: arena_put_def Let_def split: if_splits)
  with r o show ?case using n rd p by (simp add: vs off1 add.assoc)
qed

section \<open>Properties\<close>

text \<open>C20: A columnar message of n records reads back as the columns written, whatever follows its end
  marker; the reader ends just after the marker, with the record count and the arena size the
  writer counted.\<close>

theorem columns_roundtrip:
  assumes "columns_ok sch n cols" "0 < n" "n \<le> MaxColumnarRecords"
  shows "\<exists>r. decode_columns sch (encode_columns (of_nat n) cols @ rest) = (read_back cols, r) \<and>
    Reader_Err r = None \<and> Reader_Offset r = length (encode_columns (of_nat n) cols) \<and> Count r = n \<and>
    ArenaSize r = sum_list (map (col_strings \<circ> snd) cols)"
proof -
  let ?h = "columns_header (of_nat n) cols" and ?c = "concat (map column_enc cols)"
  let ?data = "encode_columns (of_nat n) cols @ rest"
  have "sint (of_nat n :: u64) > 0"
    using assms(2,3) by (simp add: MaxColumnarRecords_def signed_of_nat signed_take_bit_int_eq_self)
  then have enc: "encode_columns (of_nat n) cols = ?h @ ?c @ [0]" by (simp add: encode_columns_bytes)
  define r where "r = NewColumnarReader ?data"
  have r: "r = \<lparr>cbuf = ?data, coff = length ?h, ccount = n, cfieldID = 0,
      carenaSize = sum_list (map (col_strings \<circ> snd) cols), cerr = None\<rparr>"
    unfolding r_def by (rule NewColumnarReader_enc [OF assms(1,3), of _ "?c @ 0 # rest"]) (simp add: enc)
  have d: "drop (coff r) (cbuf r) = ?c @ 0 # rest" by (simp add: r enc)
  obtain f where loop: "read_columns sch [] r =
      read_columns sch (read_back cols) ((col_move (int (length ?c)) r)\<lparr>cfieldID := f\<rparr>)"
    using read_columns_enc [OF _ d, of sch "[]"] assms(1) by (auto simp: r columns_ok_def)
  have "read_columns sch (read_back cols) ((col_move (int (length ?c)) r)\<lparr>cfieldID := f\<rparr>) =
      (read_back cols, col_move 1 ((col_move (int (length ?c)) r)\<lparr>cfieldID := f\<rparr>))"
    by (rule read_columns_end) (use drop_col_move [OF d] in \<open>simp_all add: r\<close>)
  with loop have "decode_columns sch ?data =
      (read_back cols, col_move 1 ((col_move (int (length ?c)) r)\<lparr>cfieldID := f\<rparr>))"
    using assms(2) by (simp add: decode_columns_def Let_def Count_def flip: r_def) (simp add: r)
  then show ?thesis
    by (simp add: Reader_Err_def Reader_Offset_def Count_def ArenaSize_def enc) (simp add: r)
qed

lemma columns_roundtrip_witness:
  "\<exists>r. decode_columns [1 \<mapsto> KColInt, 2 \<mapsto> KColStringPtr]
     (encode_columns (of_nat 2) [(1, ColInt [5, - 7]), (2, ColStringPtr [None, Some [65]])] @ [9]) =
     (read_back [(1, ColInt [5, - 7]), (2, ColStringPtr [None, Some [65]])], r) \<and>
   Reader_Err r = None \<and>
   Reader_Offset r = length (encode_columns (of_nat 2) [(1, ColInt [5, - 7]), (2, ColStringPtr [None, Some [65]])]) \<and>
   Count r = 2 \<and> ArenaSize r = sum_list (map (col_strings \<circ> snd) [(1 :: goint, ColInt [5, - 7]), (2, ColStringPtr [None, Some [65]])])"
  by (rule columns_roundtrip)
     (simp_all add: columns_ok_def MaxArenaSize_def MaxColumnarRecords_def len_ok_def max_len_def opt_ok_def)

text \<open>C21: A columnar message cut short anywhere is reported as an error or read as some of its first
  columns: no value that was not written is ever returned.\<close>

theorem columns_cut:
  assumes "columns_ok sch n cols" "0 < n" "n \<le> MaxColumnarRecords"
    "k < length (encode_columns (of_nat n) cols)"
    "decode_columns sch (take k (encode_columns (of_nat n) cols)) = (cs, r)"
  shows "(\<exists>e. Reader_Err r = Some e) \<or> (\<exists>m. cs = read_back (take m cols))"
proof -
  let ?h = "columns_header (of_nat n) cols" and ?c = "concat (map column_enc cols)"
  let ?data = "take k (encode_columns (of_nat n) cols)"
  define q where "q = NewColumnarReader ?data"
  have "sint (of_nat n :: u64) > 0"
    using assms(2,3) by (simp add: MaxColumnarRecords_def signed_of_nat signed_take_bit_int_eq_self)
  then have enc: "encode_columns (of_nat n) cols = ?h @ ?c @ [0]" by (simp add: encode_columns_bytes)
  show ?thesis
  proof (cases "k < length ?h")
    case True
    then have "cerr q \<noteq> None" unfolding q_def by (intro NewColumnarReader_cut [OF assms(1,3) True]) (simp add: enc)
    then have "decode_columns sch ?data = ([], q)"
      by (simp add: decode_columns_def Let_def read_columns_failed flip: q_def)
    then show ?thesis using assms(5) by (auto simp: read_back_def intro!: exI [of _ 0])
  next
    case False
    let ?k = "k - length ?h"
    have q: "q = \<lparr>cbuf = ?data, coff = length ?h, ccount = n, cfieldID = 0,
        carenaSize = sum_list (map (col_strings \<circ> snd) cols), cerr = None\<rparr>"
      unfolding q_def by (rule NewColumnarReader_enc [OF assms(1,3), of _ "take ?k (?c @ [0])"]) (use False in \<open>simp add: enc\<close>)
    have d: "drop (coff q) (cbuf q) = take ?k (?c @ [0])" using False by (simp add: q enc)
    have nc: "cerr q = None" by (simp add: q)
    have kk: "?k < length (?c @ [0])" using assms(4) False by (simp add: enc)
    have "list_all (\<lambda>(f, v). f \<noteq> 0 \<and> sch f = Some (col_kind_of v) \<and> col_ok v \<and> col_len v = ccount q) cols"
      using assms(1) by (simp add: columns_ok_def q)
    from read_columns_cut [OF nc kk d this, of "[]"]
    obtain m cs' r' where "read_columns sch [] q = (cs', r')" "cerr r' \<noteq> None \<or> cs' = read_back (take m cols)"
      unfolding append_Nil by blast
    moreover have "decode_columns sch ?data = read_columns sch [] q"
      using assms(2) by (simp add: decode_columns_def Let_def Count_def flip: q_def) (simp add: q)
    ultimately show ?thesis using assms(5) by (auto simp: Reader_Err_def)
  qed
qed

lemma columns_cut_witness:
  "(\<exists>e. Reader_Err (snd (decode_columns [1 \<mapsto> KColInt] (take 4 (encode_columns (of_nat 2) [(1, ColInt [5, - 7])])))) = Some e) \<or>
   (\<exists>m. fst (decode_columns [1 \<mapsto> KColInt] (take 4 (encode_columns (of_nat 2) [(1, ColInt [5, - 7])]))) =
     read_back (take m [(1, ColInt [5, - 7])]))"
  by (rule columns_cut [OF _ _ _ _ prod.collapse [symmetric]])
     (simp_all add: columns_ok_def MaxArenaSize_def MaxColumnarRecords_def encode_columns_bytes columns_header_def
       column_enc_def AppendVarint_unfold svarint.app_nonempty)

text \<open>A columnar message cut at a column boundary is accepted without an error: the end marker is
  not required, unlike in row messages, so the columns that are missing go unnoticed.\<close>

theorem columns_cut_at_boundary:
  assumes "columns_ok sch n (cols @ cols')" "0 < n" "n \<le> MaxColumnarRecords"
    "k = length (columns_header (of_nat n) (cols @ cols') @ concat (map column_enc cols))"
  shows "\<exists>r. decode_columns sch (take k (encode_columns (of_nat n) (cols @ cols'))) = (read_back cols, r) \<and>
    Reader_Err r = None"
proof -
  let ?h = "columns_header (of_nat n) (cols @ cols')" and ?c = "concat (map column_enc cols)"
  let ?data = "take k (encode_columns (of_nat n) (cols @ cols'))"
  have "sint (of_nat n :: u64) > 0"
    using assms(2,3) by (simp add: MaxColumnarRecords_def signed_of_nat signed_take_bit_int_eq_self)
  then have enc: "?data = ?h @ ?c" by (simp add: encode_columns_bytes assms(4))
  define r where "r = NewColumnarReader ?data"
  have r: "r = \<lparr>cbuf = ?data, coff = length ?h, ccount = n, cfieldID = 0,
      carenaSize = sum_list (map (col_strings \<circ> snd) (cols @ cols')), cerr = None\<rparr>"
    unfolding r_def by (rule NewColumnarReader_enc [OF assms(1,3) enc])
  have d: "drop (coff r) (cbuf r) = ?c @ []" by (simp add: r enc)
  obtain f where loop: "read_columns sch [] r =
      read_columns sch (read_back cols) ((col_move (int (length ?c)) r)\<lparr>cfieldID := f\<rparr>)"
    using read_columns_enc [OF _ d, of sch "[]"] assms(1) by (auto simp: r columns_ok_def)
  have "NextColumn ((col_move (int (length ?c)) r)\<lparr>cfieldID := f\<rparr>) =
      (False, (col_move (int (length ?c)) r)\<lparr>cfieldID := f\<rparr>)"
    by (simp add: NextColumn_def r enc)
  then have "decode_columns sch ?data = (read_back cols, (col_move (int (length ?c)) r)\<lparr>cfieldID := f\<rparr>)"
    using assms(2) loop
    by (simp add: decode_columns_def Let_def Count_def read_columns.simps [of sch "read_back cols"] flip: r_def)
       (simp add: r)
  then show ?thesis by (simp add: Reader_Err_def r)
qed

lemma columns_cut_at_boundary_witness:
  "\<exists>r. decode_columns [1 \<mapsto> KColInt, 2 \<mapsto> KColBool]
     (take (length (columns_header (of_nat 1) ([(1, ColInt [5])] @ [(2, ColBool [True])]) @
                    concat (map column_enc [(1, ColInt [5])])))
       (encode_columns (of_nat 1) ([(1, ColInt [5])] @ [(2, ColBool [True])]))) = (read_back [(1, ColInt [5])], r) \<and>
   Reader_Err r = None"
  by (rule columns_cut_at_boundary [OF _ _ _ refl])
     (simp_all add: columns_ok_def MaxArenaSize_def MaxColumnarRecords_def)

text \<open>For every column type, skipping the column leaves the reader in the very state reading it
  does, errors included.\<close>

theorem skip_column_is_read: "skip_column k r = snd (read_column k r)"
  by (rule skip_column_read)

text \<open>Reading a string column into an arena gives the strings of plain reading, looked at in the
  arena as it is afterwards, and does not touch the strings read into it before; when the arena
  has room for the column no string is allocated on the heap.\<close>

theorem string_column_in_arena:
  assumes "ReadColumnString r = (Some vs, r')" "off + sum_list (map length vs) \<le> length arena"
  shows "\<exists>ss arena'. ReadColumnStringArena arena off r = (Some ss, arena', off + sum_list (map length vs), r') \<and>
    map (string_val arena') ss = vs \<and> take off arena' = take off arena \<and>
    (\<forall>s\<in>set ss. \<forall>b. s = Owned b \<longrightarrow> b = [])"
proof -
  from ReadColumnStringArena_loop_fits [OF _ assms(2)] assms(1) obtain ss arena' where
    f: "ReadColumnStringArena_loop 0 (ccount r) arena off r = (Some ss, arena', off + sum_list (map length vs), r')"
    and o: "\<forall>s\<in>set ss. \<forall>b. s = Owned b \<longrightarrow> b = []" unfolding ReadColumnString_def by blast
  have "off \<le> length arena" using assms(2) by simp
  from ReadColumnStringArena_loop_correct [OF f this] f o assms(1) show ?thesis
    unfolding ReadColumnStringArena_def ReadColumnString_def by (auto simp: arena_ok_def)
qed

lemma string_column_in_arena_witness:
  "\<exists>ss arena'. ReadColumnStringArena [0, 0, 0] 1
      \<lparr>cbuf = [1, 66, 1, 67], coff = 0, ccount = Suc (Suc 0), cfieldID = 4, carenaSize = 2, cerr = None\<rparr> =
     (Some ss, arena', 1 + sum_list (map length [[66], [67 :: byte]]),
      \<lparr>cbuf = [1, 66, 1, 67], coff = 4, ccount = Suc (Suc 0), cfieldID = 4, carenaSize = 2, cerr = None\<rparr>) \<and>
    map (string_val arena') ss = [[66], [67]] \<and> take 1 arena' = take 1 [0, 0, 0] \<and>
    (\<forall>s\<in>set ss. \<forall>b. s = Owned b \<longrightarrow> b = [])"
  by (rule string_column_in_arena)
     (simp_all add: ReadColumnString_def ReadVarint_def Let_def col_move_def string_cell_def cell_value_def
       ReadString_eq ReadBytes_def)

text \<open>The same for a nullable string column, in an arena of any size: the values are those of plain
  reading and the reader ends in the same state.\<close>

theorem nullable_string_column_in_arena:
  assumes "ReadColumnStringPtrArena arena off r = (ss, arena', off', r')" "off \<le> length arena"
  shows "(map_option (map (map_option (string_val arena'))) ss, r') = ReadColumnStringPtr r \<and>
    off \<le> off' \<and> off' \<le> length arena \<and> take off arena' = take off arena"
  using ReadColumnStringPtrArena_loop_correct [of 0 "ccount r" arena off r ss arena' off' r'] assms
  by (simp add: ReadColumnStringPtrArena_def ReadColumnStringPtr_def arena_ok_def)

lemma nullable_string_column_in_arena_witness:
  "(map_option (map (map_option (string_val [7, 66, 0]))) (Some [Some (InArena 1 1), None]),
     \<lparr>cbuf = [1, 1, 66, 0], coff = 4, ccount = Suc (Suc 0), cfieldID = 4, carenaSize = 1, cerr = None\<rparr>) =
   ReadColumnStringPtr \<lparr>cbuf = [1, 1, 66, 0], coff = 0, ccount = Suc (Suc 0), cfieldID = 4, carenaSize = 1, cerr = None\<rparr> \<and>
   1 \<le> (2 :: nat) \<and> 2 \<le> length [7, 0, 0 :: byte] \<and> take 1 [7, 66, 0 :: byte] = take 1 [7, 0, 0]"
  by (rule nullable_string_column_in_arena)
     (simp_all add: ReadColumnStringPtrArena_def ReadNullable_def ReadBytes_def ReadVarint_def Let_def col_move_def
       arena_put_def copy_at_def)

end
