(* ===== verification/Masks.thy ===== *)
theory Masks
  imports Wire
begin

text \<open>
  Field masks (pkg/lux/codec/fieldmask.go) and recursive selection masks
  (pkg/lux/codec/selectionmask.go). A field mask is a bitmap of field IDs, the empty one meaning
  all fields. A selection mask is a bitmap followed by length-delimited masks of relation
  fields, in strictly increasing order of field ID.

  A field ID is a Go int; once it is known to be positive the code's arithmetic on it is that of
  naturals. Sort.Slice is not stable, so sort_key gives its result when the IDs are distinct.
\<close>

section \<open>Field masks\<close>

definition FieldMaskHas :: "bytes \<Rightarrow> goint \<Rightarrow> bool" where
  "FieldMaskHas msk fieldID =
     (if length msk = 0 then True
      else if sint fieldID \<le> 0 then False
      else let idx = (unat fieldID - 1) div 8; b = (unat fieldID - 1) mod 8 in
           if idx \<ge> length msk then False
           else msk ! idx AND push_bit b 1 \<noteq> 0)"

definition FieldMaskSet :: "bytes \<Rightarrow> goint \<Rightarrow> bytes" where
  "FieldMaskSet msk fieldID =
     (if sint fieldID \<le> 0 then msk
      else let idx = (unat fieldID - 1) div 8; b = (unat fieldID - 1) mod 8;
               msk' = msk @ replicate (Suc idx - length msk) 0 in
           msk'[idx := msk' ! idx OR push_bit b 1])"

definition FieldMaskAll :: "goint \<Rightarrow> bytes" where
  "FieldMaskAll maxID =
     (if sint maxID \<le> 0 then []
      else let size = (unat maxID + 7) div 8 in
           fold (\<lambda>i msk. let idx = (i - 1) div 8; b = (i - 1) mod 8 in
                          msk[idx := msk ! idx OR push_bit b 1])
             [1..<unat maxID + 1] (replicate size 0))"

section \<open>Selection masks\<close>

record SelectionMaskChild =
  childID :: goint
  childMask :: bytes

definition AppendSelectionMask :: "bytes \<Rightarrow> bytes \<Rightarrow> SelectionMaskChild list \<Rightarrow> bytes" where
  "AppendSelectionMask dst flds children =
     (let dst1 = AppendVarint dst (of_nat (length flds)); dst2 = dst1 @ flds in
      if length children = 0 then dst2
      else fold (\<lambda>child dst.
             if sint (childID child) \<le> 0 \<or> length (childMask child) = 0 then dst
             else let d1 = AppendVarint dst (childID child);
                      d2 = AppendVarint d1 (of_nat (length (childMask child))) in
                  d2 @ childMask child)
             (sort_key (\<lambda>c. sint (childID c)) children) dst2)"

text \<open>None for a malformed node. validSelectionChildren carries the loop state: the last ID and the offset.\<close>

function SplitSelectionMask :: "bytes \<Rightarrow> (bytes \<times> bytes) option"
  and validSelectionChildren :: "bytes \<Rightarrow> u64 \<Rightarrow> nat \<Rightarrow> bool" where
  "SplitSelectionMask msk =
     (if length msk = 0 then Some ([], [])
      else case ReadVarint msk 0 of (fieldLen, n) \<Rightarrow>
        if n \<le> 0 \<or> fieldLen = 0 \<or> unat fieldLen > length msk - nat n then None
        else let end' = nat n + unat fieldLen; flds = take (unat fieldLen) (drop (nat n) msk) in
          if last flds = 0 \<or> \<not> validSelectionChildren (drop end' msk) 0 0 then None
          else Some (flds, drop end' msk))"
| "validSelectionChildren children previousID off =
     (if off \<ge> length children then True
      else case ReadVarint children off of (fieldID, n) \<Rightarrow>
        if n \<le> 0 \<or> fieldID = 0 \<or> fieldID \<le> previousID then False
        else let off1 = off + nat n in
          case ReadVarint children off1 of (len, n2) \<Rightarrow>
            if n2 \<le> 0 \<or> len = 0 \<or> unat len > length children - off1 - nat n2 then False
            else let off2 = off1 + nat n2; end' = off2 + unat len in
              if SplitSelectionMask (take (unat len) (drop off2 children)) = None then False
              else validSelectionChildren children fieldID end')"
  by pat_completeness auto
termination
proof (relation "measure (\<lambda>x. case x of Inl msk \<Rightarrow> length msk | Inr (children, p, off) \<Rightarrow> length children - off)",
    goal_cases)
  case 1
  show ?case by simp
qed (auto dest!: ReadVarint_bound [OF sym])

declare SplitSelectionMask.simps [simp del] validSelectionChildren.simps [simp del]

definition SelectionMaskFields :: "bytes \<Rightarrow> bytes" where
  "SelectionMaskFields msk = (case SplitSelectionMask msk of None \<Rightarrow> [] | Some (flds, _) \<Rightarrow> flds)"

text \<open>
  The loop of SelectionMaskNested trusts the children area: on bytes that are not one it may not
  end, or slice out of bounds. None stands for not returning.
\<close>

partial_function (option) SelectionMaskNested_loop ::
  "bytes \<Rightarrow> goint \<Rightarrow> int \<Rightarrow> (go_panic + bytes option) option" where
  "SelectionMaskNested_loop children targetID off =
     (if off \<ge> int (length children) then Some (Inr None)
      else if off < 0 then Some (Inl SliceBounds)
      else case ReadVarint children (nat off) of (fieldID, n) \<Rightarrow>
        let off1 = off + n in
        if off1 < 0 then Some (Inl SliceBounds)
        else case ReadVarint children (nat off1) of (len, n2) \<Rightarrow>
          let off2 = off1 + n2; end' = off2 + sint len in
          if sint fieldID = sint targetID then
            (if off2 < 0 \<or> end' < off2 \<or> end' > int (length children) then Some (Inl SliceBounds)
             else Some (Inr (Some (take (nat (end' - off2)) (drop (nat off2) children)))))
          else if sint fieldID > sint targetID then Some (Inr None)
          else SelectionMaskNested_loop children targetID end')"

definition SelectionMaskNested :: "bytes \<Rightarrow> goint \<Rightarrow> (go_panic + bytes option) option" where
  "SelectionMaskNested msk targetID =
     (case SplitSelectionMask msk of
        None \<Rightarrow> Some (Inr None)
      | Some (_, children) \<Rightarrow>
          if sint targetID \<le> 0 then Some (Inr None) else SelectionMaskNested_loop children targetID 0)"

section \<open>The bits of a field mask\<close>

definition has_bit :: "bytes \<Rightarrow> nat \<Rightarrow> bool" where
  "has_bit m i = (i div 8 < length m \<and> bit (m ! (i div 8)) (i mod 8))"

lemma nat_eq_div_mod: "(i = (j::nat)) = (i div 8 = j div 8 \<and> i mod 8 = j mod 8)"
  by (metis div_mult_mod_eq)

lemma bit_push_1: "c < 8 \<Longrightarrow> bit (2 ^ b :: byte) c = (c = b)"
  by (simp add: bit_exp_iff)

lemma has_bit_update:
  assumes "i div 8 < length m"
  shows "has_bit (m[i div 8 := m ! (i div 8) OR push_bit (i mod 8) 1]) j = (j = i \<or> has_bit m j)"
  using assms by (auto simp: has_bit_def nth_list_update bit_or_iff bit_push_1 nat_eq_div_mod [of j i])

lemma has_bit_Nil [simp]: "\<not> has_bit [] j"
  by (simp add: has_bit_def)

lemma has_bit_grow: "has_bit (m @ replicate k 0) j = has_bit m j"
  by (auto simp: has_bit_def nth_append)

lemma FieldMaskHas_bit: "m \<noteq> [] \<Longrightarrow> FieldMaskHas m f = (0 < sint f \<and> has_bit m (unat f - 1))"
  by (simp add: FieldMaskHas_def has_bit_def Let_def bit_iff_and_push_bit_not_eq_0)

lemma sint_pos_unat: "0 < sint (f :: goint) \<Longrightarrow> 0 < unat f"
  by (metis less_irrefl nat_sint order_less_imp_le unat_0 unat_gt_0 word_gt_0_no zero_less_nat_eq)

lemma unat_diff_eq: "0 < sint (f :: goint) \<Longrightarrow> 0 < sint g \<Longrightarrow> (unat f - 1 = unat g - 1) = (f = g)"
  using sint_pos_unat [of f] sint_pos_unat [of g] by (metis Suc_pred' diff_Suc_1 word_unat_eq_iff)

lemma FieldMaskSet_bit:
  assumes "0 < sint f"
  shows "has_bit (FieldMaskSet m f) j = (j = unat f - 1 \<or> has_bit m j)" "FieldMaskSet m f \<noteq> []"
    "length (FieldMaskSet m f) = max (length m) (Suc ((unat f - 1) div 8))"
proof -
  let ?i = "unat f - 1" and ?m = "m @ replicate (Suc ((unat f - 1) div 8) - length m) 0"
  have eq: "FieldMaskSet m f = ?m[?i div 8 := ?m ! (?i div 8) OR push_bit (?i mod 8) 1]"
    using assms by (simp add: FieldMaskSet_def Let_def)
  show "has_bit (FieldMaskSet m f) j = (j = unat f - 1 \<or> has_bit m j)"
    unfolding eq by (subst has_bit_update) (auto simp: has_bit_grow)
  show l: "length (FieldMaskSet m f) = max (length m) (Suc ((unat f - 1) div 8))" unfolding eq by simp
  then have "0 < length (FieldMaskSet m f)" by simp
  then show "FieldMaskSet m f \<noteq> []" by auto
qed

lemma FieldMaskAll_bit:
  assumes "0 < sint n"
  shows "has_bit (FieldMaskAll n) j = (j < unat n)" "FieldMaskAll n \<noteq> []"
proof -
  let ?step = "\<lambda>i m. let idx = (i - 1) div 8; b = (i - 1) mod 8 in m[idx := m ! idx OR push_bit b 1]"
  let ?m = "replicate ((unat n + 7) div 8) (0 :: byte)"
  have inv: "k \<le> unat n \<Longrightarrow> length (fold ?step [1..<k + 1] ?m) = length ?m \<and>
      (\<forall>j. has_bit (fold ?step [1..<k + 1] ?m) j = (j < k))" for k
  proof (induction k)
    case 0
    then show ?case by (simp add: has_bit_def)
  next
    case (Suc k)
    define F where "F = fold ?step [1..<k + 1] ?m"
    have F: "length F = length ?m" "\<And>j. has_bit F j = (j < k)" using Suc by (simp_all add: F_def)
    have "k div 8 < length F" using Suc.prems unfolding F(1) length_replicate by linarith
    note up = has_bit_update [OF this]
    have "fold ?step [1..<Suc k + 1] ?m = F[k div 8 := F ! (k div 8) OR push_bit (k mod 8) 1]"
      unfolding F_def by (simp add: Let_def)
    then show ?case using F up by (auto simp: less_Suc_eq)
  qed
  have eq: "FieldMaskAll n = fold ?step [1..<unat n + 1] ?m" using assms by (simp add: FieldMaskAll_def)
  show "has_bit (FieldMaskAll n) j = (j < unat n)" unfolding eq using inv [of "unat n"] by simp
  have "length (FieldMaskAll n) = length ?m" unfolding eq using inv [of "unat n"] by simp
  moreover have "0 < (unat n + 7) div 8" using sint_pos_unat [OF assms] by linarith
  ultimately have "0 < length (FieldMaskAll n)" unfolding length_replicate by linarith
  then show "FieldMaskAll n \<noteq> []" by auto
qed

section \<open>The children of a selection mask\<close>

definition child_enc :: "SelectionMaskChild \<Rightarrow> bytes" where
  "child_enc c = AppendVarint [] (childID c) @ AppendVarint [] (of_nat (length (childMask c))) @ childMask c"

definition child_ok :: "SelectionMaskChild \<Rightarrow> bool" where
  "child_ok c = (0 < sint (childID c) \<and> len_ok (childMask c) \<and> childMask c \<noteq> [] \<and>
     SplitSelectionMask (childMask c) \<noteq> None)"

definition children_sorted :: "SelectionMaskChild list \<Rightarrow> bool" where
  "children_sorted cs = sorted_wrt (\<lambda>a b. sint (childID a) < sint (childID b)) cs"

lemma less_sint_pos: "0 < sint (a :: goint) \<Longrightarrow> 0 < sint b \<Longrightarrow> (a < b) = (sint a < sint b)"
  by (simp add: word_less_nat_alt flip: nat_sint)

lemma AppendSelectionMask_bytes:
  "AppendSelectionMask [] flds children = AppendVarint [] (of_nat (length flds)) @ flds @
     concat (map child_enc (filter (\<lambda>c. 0 < sint (childID c) \<and> childMask c \<noteq> [])
       (sort_key (\<lambda>c. sint (childID c)) children)))"
proof -
  let ?step = "\<lambda>child dst.
       if sint (childID child) \<le> 0 \<or> length (childMask child) = 0 then dst
       else let d1 = AppendVarint dst (childID child);
                d2 = AppendVarint d1 (of_nat (length (childMask child))) in
            d2 @ childMask child"
  have step: "?step c dst = dst @ (if 0 < sint (childID c) \<and> childMask c \<noteq> [] then child_enc c else [])" for c dst
  proof -
    have "AppendVarint dst (childID c) = dst @ AppendVarint [] (childID c)" by (rule AppendVarint_app)
    moreover have "AppendVarint (dst @ x) y = dst @ x @ AppendVarint [] y" for x y
      by (subst AppendVarint_app) simp
    ultimately show ?thesis by (auto simp: child_enc_def Let_def not_less)
  qed
  have "fold ?step cs dst =
     dst @ concat (map child_enc (filter (\<lambda>c. 0 < sint (childID c) \<and> childMask c \<noteq> []) cs))" for cs dst
    by (induction cs arbitrary: dst) (simp_all only: fold_Cons fold_Nil o_apply id_apply step, simp_all)
  then show ?thesis by (simp add: AppendSelectionMask_def Let_def)
qed

lemma pos_word: "0 < sint (a :: goint) \<Longrightarrow> 0 < a"
  using sint_pos_unat [of a] by (simp add: word_less_nat_alt)

lemma child_read:
  assumes "child_ok c" "drop off buf = child_enc c @ rest"
  defines "a \<equiv> length (AppendVarint [] (childID c))"
    and "b \<equiv> length (AppendVarint [] (of_nat (length (childMask c)) :: u64))"
  shows "ReadVarint buf off = (childID c, int a)"
    "ReadVarint buf (off + a) = (of_nat (length (childMask c)), int b)"
    "take (length (childMask c)) (drop (off + a + b) buf) = childMask c"
    "drop (off + a + b + length (childMask c)) buf = rest"
    "off + a + b + length (childMask c) \<le> length buf" "0 < a" "0 < b"
    "unat (of_nat (length (childMask c)) :: u64) = length (childMask c)"
    "sint (of_nat (length (childMask c)) :: u64) = int (length (childMask c))"
    "off < length buf"
proof -
  have d0: "drop off buf = AppendVarint [] (childID c) @ AppendVarint [] (of_nat (length (childMask c))) @ childMask c @ rest"
    using assms(2) by (simp add: child_enc_def)
  have d1: "drop (off + a) buf = AppendVarint [] (of_nat (length (childMask c))) @ childMask c @ rest"
    unfolding a_def by (rule drop_eq_appendD [OF d0])
  have d2: "drop (off + a + b) buf = childMask c @ rest" unfolding b_def by (rule drop_eq_appendD [OF d1])
  show "ReadVarint buf off = (childID c, int a)" unfolding a_def by (rule ReadVarint_app [OF d0])
  show "ReadVarint buf (off + a) = (of_nat (length (childMask c)), int b)" unfolding b_def by (rule ReadVarint_app [OF d1])
  show "take (length (childMask c)) (drop (off + a + b) buf) = childMask c" by (simp add: d2)
  show "drop (off + a + b + length (childMask c)) buf = rest" by (rule drop_eq_appendD [OF d2])
  have ne: "childMask c \<noteq> []" using assms(1) by (simp add: child_ok_def)
  show "off + a + b + length (childMask c) \<le> length buf" using drop_eq_append_length [OF d2 ne] by simp
  show ab: "0 < a" "0 < b" by (simp_all add: a_def b_def)
  show "off < length buf" using drop_eq_append_length [OF d2 ne] ab by simp
  show u: "unat (of_nat (length (childMask c)) :: u64) = length (childMask c)"
    using assms(1) by (simp add: child_ok_def len_ok_def unat_le_max_len)
  have "0 \<le> sint (of_nat (length (childMask c)) :: u64)"
    using assms(1) u sint_less_0_iff [of "of_nat (length (childMask c))"] by (simp add: child_ok_def len_ok_def max_len_def)
  then show "sint (of_nat (length (childMask c)) :: u64) = int (length (childMask c))" using nat_sint u by force
qed

lemma validSelectionChildren_enc:
  assumes "list_all child_ok cs" "children_sorted cs" "\<forall>c\<in>set cs. prev < childID c"
    "drop off buf = concat (map child_enc cs)"
  shows "validSelectionChildren buf prev off"
  using assms
proof (induction cs arbitrary: prev off)
  case Nil
  then show ?case by (subst validSelectionChildren.simps) simp
next
  case (Cons c cs)
  then have d: "drop off buf = child_enc c @ concat (map child_enc cs)" and ok: "child_ok c" by simp_all
  note r = child_read [OF ok d]
  have pos: "0 < sint (childID c)" "childID c \<noteq> 0" using ok by (auto simp: child_ok_def)
  have "\<forall>c'\<in>set cs. childID c < childID c'"
    using Cons.prems(1,2) pos by (auto simp: children_sorted_def child_ok_def list_all_iff less_sint_pos)
  then have "validSelectionChildren buf (childID c)
     (off + length (AppendVarint [] (childID c)) + length (AppendVarint [] (of_nat (length (childMask c)) :: u64)) + length (childMask c))"
    using Cons.prems r(4) by (intro Cons.IH) (auto simp: children_sorted_def)
  then show ?case
    using r Cons.prems(3) pos ok by (subst validSelectionChildren.simps) (auto simp: Let_def child_ok_def)
qed

lemma SelectionMaskNested_loop_step:
  assumes "off < length ch" "ReadVarint ch off = (fid, int a)" "ReadVarint ch (off + a) = (len, int b)"
    "sint len = int l" "off + a + b + l \<le> length ch"
  shows "SelectionMaskNested_loop ch t (int off) =
    (if fid = t then Some (Inr (Some (take l (drop (off + a + b) ch))))
     else if sint t < sint fid then Some (Inr None)
     else SelectionMaskNested_loop ch t (int (off + a + b + l)))"
proof -
  have eq: "sint fid = sint t \<longleftrightarrow> fid = t" by (auto intro: signed_word_eqI)
  have l: "nat (int (off + a + b + l) - int (off + a + b)) = l" by simp
  show ?thesis
    using assms by (subst SelectionMaskNested_loop.simps) (auto simp: Let_def eq l simp flip: of_nat_add)
qed

lemma SelectionMaskNested_loop_enc:
  assumes "list_all child_ok cs" "children_sorted cs" "0 < sint t" "drop off buf = concat (map child_enc cs)"
  shows "SelectionMaskNested_loop buf t (int off) = Some (Inr (map_option childMask (find (\<lambda>c. childID c = t) cs)))"
  using assms
proof (induction cs arbitrary: off)
  case Nil
  then show ?case by (subst SelectionMaskNested_loop.simps) simp
next
  case (Cons c cs)
  then have d: "drop off buf = child_enc c @ concat (map child_enc cs)" and ok: "child_ok c" by simp_all
  note r = child_read [OF ok d]
  have pos: "0 < sint (childID c)" using ok by (auto simp: child_ok_def)
  have none: "find (\<lambda>c. childID c = t) cs = None" if "sint t < sint (childID c)"
    using that Cons.prems(2) by (auto simp: find_None_iff children_sorted_def)
  have IH: "SelectionMaskNested_loop buf t (int (off + length (AppendVarint [] (childID c)) +
      length (AppendVarint [] (of_nat (length (childMask c)) :: u64)) + length (childMask c))) =
      Some (Inr (map_option childMask (find (\<lambda>c. childID c = t) cs)))"
    using Cons.prems r(4) by (intro Cons.IH) (auto simp: children_sorted_def)
  show ?case
    unfolding SelectionMaskNested_loop_step [OF r(10,1,2,9,5)] IH using r(3) none by auto
qed


lemma SplitSelectionMask_enc:
  assumes "flds \<noteq> []" "last flds \<noteq> 0" "len_ok flds" "validSelectionChildren ch 0 0"
  shows "SplitSelectionMask (AppendVarint [] (of_nat (length flds)) @ flds @ ch) = Some (flds, ch)"
proof -
  let ?v = "AppendVarint [] (of_nat (length flds) :: u64)" and ?m = "AppendVarint [] (of_nat (length flds)) @ flds @ ch"
  have rd: "ReadVarint ?m 0 = (of_nat (length flds), int (length ?v))" by (rule ReadVarint_app [of _ _ _ "flds @ ch"]) simp
  have u: "unat (of_nat (length flds) :: u64) = length flds" using assms(3) by (simp add: len_ok_def unat_le_max_len)
  then have "(of_nat (length flds) :: u64) \<noteq> 0" using assms(1) by (metis length_0_conv unat_0)
  then show ?thesis using assms rd u by (subst SplitSelectionMask.simps) (simp add: Let_def)
qed

text \<open>On a well-formed children area the loop returns, inside bounds, and what it returns is a mask.\<close>

lemma SelectionMaskNested_loop_total:
  "True"
  "validSelectionChildren ch prev off \<Longrightarrow> len_ok ch \<Longrightarrow> \<exists>r. SelectionMaskNested_loop ch t (int off) = Some (Inr r) \<and>
     (\<forall>m. r = Some m \<longrightarrow> SplitSelectionMask m \<noteq> None \<and> m \<noteq> [] \<and> length m < length ch)"
proof (induction and ch prev off rule: SplitSelectionMask_validSelectionChildren.induct)
  case (1 msk)
  show ?case by simp
next
  case (2 ch prev off)
  show ?case
  proof (cases "off \<ge> length ch")
    case True
    then show ?thesis by (subst SelectionMaskNested_loop.simps) simp
  next
    case False
    obtain fid n where a: "ReadVarint ch off = (fid, n)" by (cases "ReadVarint ch off")
    obtain len n2 where b: "ReadVarint ch (off + nat n) = (len, n2)" by (cases "ReadVarint ch (off + nat n)")
    let ?sub = "take (unat len) (drop (off + nat n + nat n2) ch)" and ?stop = "off + nat n + nat n2 + unat len"
    from "2.prems"(1) False a b have v: "0 < n" "0 < n2" "len \<noteq> 0" "unat len \<le> length ch - (off + nat n) - nat n2"
      "SplitSelectionMask ?sub \<noteq> None" "validSelectionChildren ch fid ?stop" "fid \<noteq> 0 \<and> \<not> fid \<le> prev"
      by (subst (asm) validSelectionChildren.simps; auto simp: Let_def split: if_splits)+
    have IH: "\<exists>r. SelectionMaskNested_loop ch t (int ?stop) = Some (Inr r) \<and>
       (\<forall>m. r = Some m \<longrightarrow> SplitSelectionMask m \<noteq> None \<and> m \<noteq> [] \<and> length m < length ch)"
      using "2.IH"(2) [OF False a [symmetric] _ refl b [symmetric] _ refl refl] v "2.prems"(2) by auto
    have bound: "off + nat n + nat n2 \<le> length ch" using ReadVarint_bound [OF b v(2)] by simp
    have pos: "0 < unat len" using v(3) by (simp add: unat_gt_0)
    have nn: "0 \<le> sint len"
      using v(4) "2.prems"(2) sint_less_0_iff [of len] by (auto simp: len_ok_def max_len_def)
    have s: "sint len = int (unat len)" unfolding nat_sint [OF nn, symmetric] using nn by simp
    have sub: "?sub \<noteq> []" "length ?sub < length ch" using v(1,4) bound pos False by auto
    have st: "SelectionMaskNested_loop ch t (int off) =
        (if fid = t then Some (Inr (Some ?sub))
         else if sint t < sint fid then Some (Inr None)
         else SelectionMaskNested_loop ch t (int ?stop))"
      by (rule SelectionMaskNested_loop_step) (use False a b s v(1,2,4) bound in auto)
    show ?thesis using IH sub v(5) by (auto simp: st)
  qed
qed


lemma lookup_enc:
  assumes "flds \<noteq> []" "last flds \<noteq> 0" "len_ok flds" "list_all child_ok children"
    "distinct (map childID children)" "0 < sint t"
  shows "SelectionMaskFields (AppendSelectionMask [] flds children) = flds \<and>
    SelectionMaskNested (AppendSelectionMask [] flds children) t =
      Some (Inr (map_option childMask (find (\<lambda>c. childID c = t) children)))"
proof -
  let ?cs = "sort_key (\<lambda>c. sint (childID c)) children"
  have ok: "list_all child_ok ?cs" using assms(4) by (simp add: list_all_iff)
  then have all: "filter (\<lambda>c. 0 < sint (childID c) \<and> childMask c \<noteq> []) ?cs = ?cs"
    by (intro filter_True) (auto simp: list_all_iff child_ok_def)
  have "distinct (map childID ?cs)" using assms(5)
    by (metis distinct_map distinct_sort set_sort)
  then have "distinct (map (\<lambda>c. sint (childID c)) ?cs)"
    by (auto simp: distinct_map inj_on_def intro: signed_word_eqI)
  moreover have "sorted (map (\<lambda>c. sint (childID c)) ?cs)" by simp
  ultimately have "sorted_wrt (<) (map (\<lambda>c. sint (childID c)) ?cs)" unfolding strict_sorted_iff by blast
  then have sorted: "children_sorted ?cs" unfolding children_sorted_def sorted_wrt_map .
  have "validSelectionChildren (concat (map child_enc ?cs)) 0 0"
    using ok by (intro validSelectionChildren_enc [OF ok sorted]) (auto simp: list_all_iff child_ok_def intro: pos_word)
  then have split: "SplitSelectionMask (AppendSelectionMask [] flds children) = Some (flds, concat (map child_enc ?cs))"
    unfolding AppendSelectionMask_bytes all by (rule SplitSelectionMask_enc [OF assms(1-3)])
  have "find (\<lambda>c. childID c = t) ?cs = find (\<lambda>c. childID c = t) children"
    by (rule find_key_set [OF assms(5)]) simp
  then show ?thesis
    using SelectionMaskNested_loop_enc [OF ok sorted assms(6), of 0] assms(6)
    by (simp add: split SelectionMaskFields_def SelectionMaskNested_def)
qed

lemma nested_total:
  assumes "len_ok m"
  shows "\<exists>r. SelectionMaskNested m t = Some (Inr r) \<and>
    (\<forall>m'. r = Some m' \<longrightarrow> SplitSelectionMask m' \<noteq> None \<and> m' \<noteq> [] \<and> length m' < length m)"
proof (cases "SplitSelectionMask m")
  case None
  then show ?thesis by (simp add: SelectionMaskNested_def)
next
  case (Some fc)
  obtain ch where c: "SplitSelectionMask m = Some (fst fc, ch)" using Some by (cases fc) auto
  have "ch = [] \<or> validSelectionChildren ch 0 0 \<and> length ch \<le> length m"
    using c by (subst (asm) SplitSelectionMask.simps) (auto simp: Let_def split: prod.splits if_splits)
  then show ?thesis
  proof
    assume "ch = []"
    then show ?thesis using c by (simp add: SelectionMaskNested_def SelectionMaskNested_loop.simps)
  next
    assume ch: "validSelectionChildren ch 0 0 \<and> length ch \<le> length m"
    with SelectionMaskNested_loop_total(2) [of ch 0 0 t] assms show ?thesis
      by (auto simp: c SelectionMaskNested_def len_ok_def)
  qed
qed

section \<open>Properties\<close>

text \<open>Setting a field ID in a mask selects that field and leaves every other one as it was; in the
  empty mask, which stands for all fields, it selects that field alone.\<close>

theorem FieldMaskHas_FieldMaskSet:
  assumes "0 < sint f"
  shows "FieldMaskHas (FieldMaskSet m f) g = (g = f \<or> m \<noteq> [] \<and> FieldMaskHas m g)"
proof (cases "0 < sint g")
  case True
  then show ?thesis
    using assms unat_diff_eq [OF True assms] by (cases "m = []") (auto simp: FieldMaskHas_bit FieldMaskSet_bit(1,2))
next
  case False
  then show ?thesis using assms by (auto simp: FieldMaskHas_bit FieldMaskSet_bit(2))
qed

lemma FieldMaskHas_FieldMaskSet_witness:
  "FieldMaskHas (FieldMaskSet [4] 20) 3 = (3 = (20 :: goint) \<or> [4] \<noteq> ([] :: bytes) \<and> FieldMaskHas [4] 3)"
  by (rule FieldMaskHas_FieldMaskSet) simp

text \<open>The mask of all fields up to a maximal ID selects exactly the IDs from 1 to it.\<close>

theorem FieldMaskHas_FieldMaskAll:
  assumes "0 < sint n"
  shows "FieldMaskHas (FieldMaskAll n) f = (0 < sint f \<and> sint f \<le> sint n)"
proof (cases "0 < sint f")
  case True
  then have "unat f = nat (sint f)" "unat n = nat (sint n)" using assms by (simp_all add: nat_sint)
  then show ?thesis using True assms by (auto simp: FieldMaskHas_bit FieldMaskAll_bit)
next
  case False
  then show ?thesis using assms by (auto simp: FieldMaskHas_bit FieldMaskAll_bit(2))
qed

lemma FieldMaskHas_FieldMaskAll_witness:
  "FieldMaskHas (FieldMaskAll 20) 21 = (0 < sint (21 :: goint) \<and> sint (21 :: goint) \<le> sint (20 :: goint))"
  by (rule FieldMaskHas_FieldMaskAll) simp

text \<open>C22: A selection mask splits into the bitmap it was built from, and looking up a relation field in
  it gives the mask of that field's child, or none when there is no such child. Children may be
  given in any order.\<close>

theorem SelectionMask_lookup:
  assumes "flds \<noteq> []" "last flds \<noteq> 0" "len_ok flds" "list_all child_ok children"
    "distinct (map childID children)" "0 < sint t"
  shows "SelectionMaskFields (AppendSelectionMask [] flds children) = flds \<and>
    SelectionMaskNested (AppendSelectionMask [] flds children) t =
      Some (Inr (map_option childMask (find (\<lambda>c. childID c = t) children)))"
  using assms by (rule lookup_enc)

text \<open>On any bytes whatever, looking up a nested mask returns, without a panic, and a mask it finds is
  itself well formed, not empty and shorter, so a recursive walk over nested masks ends.\<close>

theorem SelectionMaskNested_total:
  assumes "len_ok m"
  shows "\<exists>r. SelectionMaskNested m t = Some (Inr r) \<and>
    pred_option (\<lambda>m'. SplitSelectionMask m' \<noteq> None \<and> m' \<noteq> [] \<and> length m' < length m) r"
  using nested_total [OF assms, of t] by (auto simp: option.pred_set elem_set)

lemma SelectionMask_lookup_witness:
  "SelectionMaskFields (AppendSelectionMask [] [5] [\<lparr>childID = 3, childMask = [1, 1]\<rparr>, \<lparr>childID = 1, childMask = [1, 4]\<rparr>]) = [5] \<and>
   SelectionMaskNested (AppendSelectionMask [] [5] [\<lparr>childID = 3, childMask = [1, 1]\<rparr>, \<lparr>childID = 1, childMask = [1, 4]\<rparr>]) 1 =
     Some (Inr (map_option childMask (find (\<lambda>c. childID c = 1)
       [\<lparr>childID = 3, childMask = [1, 1]\<rparr>, \<lparr>childID = 1, childMask = [1, 4]\<rparr>])))"
  by (rule SelectionMask_lookup)
     (simp_all add: len_ok_def max_len_def child_ok_def SplitSelectionMask.simps validSelectionChildren.simps
       ReadVarint_def)

lemma SelectionMaskNested_total_witness:
  "\<exists>r. SelectionMaskNested [1, 5, 1, 0xFF] 1 = Some (Inr r) \<and>
    pred_option (\<lambda>m'. SplitSelectionMask m' \<noteq> None \<and> m' \<noteq> [] \<and> length m' < length [1, 5, 1, 0xFF :: byte]) r"
  by (rule SelectionMaskNested_total) (simp add: len_ok_def max_len_def)

end
