(* ===== verification/Schema.thy ===== *)
theory Schema
  imports Decoder Columnar
begin

text \<open>
  The run-time schema of pkg/lux/schema/schema.go, as far as binary conversion and federation
  look at it: field types, fields, models with their indexes by ID and by name, plain type
  declarations and the registry of both. Names are character lists; descriptions, directives
  and the JSON prefixes are display data and are left out. A pointer into a model's field slice
  is the field itself, since no field changes after a model is initialized.

  The last section relates a field to its wire format: the type with which generated code
  writes it and the reader the gateway chooses for it.
\<close>

datatype FieldType =
    FieldInt | FieldFloat | FieldString | FieldBool | FieldDateTime | FieldDuration
  | FieldBytes | FieldEnum | FieldModel | FieldUUID | FieldDecimal | FieldJSON

record Field =
  fID :: goint
  fName :: string
  fType :: FieldType
  fTypeName :: string
  fNullable :: bool
  fIsList :: bool
  fRelation :: bool
  fPrimaryKey :: bool
  fModule :: string
  fForeignKey :: string

record Model =
  mName :: string
  mModule :: string
  mFields :: "Field list"
  mbyID :: "goint \<rightharpoonup> Field"
  mbyName :: "string \<rightharpoonup> Field"

record TypeDecl =
  tName :: string
  tModule :: string
  tFields :: "Field list"

record Schema =
  sModels :: "string \<rightharpoonup> Model"
  sTypes :: "string \<rightharpoonup> TypeDecl"

definition New :: Schema where
  "New = \<lparr>sModels = Map.empty, sTypes = Map.empty\<rparr>"

text \<open>Both loops assign in field order, so the last field with an ID or a name wins.\<close>

definition index_by :: "(Field \<Rightarrow> 'k) \<Rightarrow> Field list \<Rightarrow> 'k \<rightharpoonup> Field" where
  "index_by key flds = fold (\<lambda>f idx. idx(key f \<mapsto> f)) flds Map.empty"

definition initializeModel :: "Model \<Rightarrow> Model" where
  "initializeModel m = m\<lparr>mbyID := index_by fID (mFields m), mbyName := index_by fName (mFields m)\<rparr>"

definition AsModel :: "TypeDecl \<Rightarrow> Model" where
  "AsModel td =
     \<lparr>mName = tName td, mModule = tModule td, mFields = tFields td,
      mbyID = index_by fID (tFields td), mbyName = index_by fName (tFields td)\<rparr>"

definition RegisterType :: "TypeDecl \<Rightarrow> Schema \<Rightarrow> Schema" where
  "RegisterType t s = s\<lparr>sTypes := (sTypes s)(tName t \<mapsto> t)\<rparr>"

section \<open>Merging two declarations of a model\<close>

record merge_state =
  mergedFields :: "Field list"
  byIDIndex :: "goint \<rightharpoonup> nat"
  byNameIndex :: "string \<rightharpoonup> nat"

definition merge_field :: "Field \<Rightarrow> merge_state \<Rightarrow> merge_state" where
  "merge_field field st =
     (let found = (case byIDIndex st (fID field) of Some i \<Rightarrow> Some i | None \<Rightarrow> byNameIndex st (fName field)) in
      case found of
        Some index \<Rightarrow>
          (let old = mergedFields st ! index;
               field' = field\<lparr>fPrimaryKey := fPrimaryKey field \<or> fPrimaryKey old\<rparr>;
               ids = (byIDIndex st)(fID old := None);
               names = (byNameIndex st)(fName old := None)
           in \<lparr>mergedFields = (mergedFields st)[index := field'],
               byIDIndex = ids(fID field \<mapsto> index), byNameIndex = names(fName field \<mapsto> index)\<rparr>)
      | None \<Rightarrow>
          (let index = length (mergedFields st)
           in \<lparr>mergedFields = mergedFields st @ [field],
               byIDIndex = (byIDIndex st)(fID field \<mapsto> index),
               byNameIndex = (byNameIndex st)(fName field \<mapsto> index)\<rparr>))"

definition index_positions :: "(Field \<Rightarrow> 'k) \<Rightarrow> Field list \<Rightarrow> 'k \<rightharpoonup> nat" where
  "index_positions key flds = fold (\<lambda>i idx. idx(key (flds ! i) \<mapsto> i)) [0..<length flds] Map.empty"

text \<open>The order of fields with equal IDs after sort.Slice is unspecified; sort_key keeps it.\<close>

definition mergeModels :: "Model \<Rightarrow> Model \<Rightarrow> Model" where
  "mergeModels existing incoming =
     (let start = \<lparr>mergedFields = mFields existing,
                   byIDIndex = index_positions fID (mFields existing),
                   byNameIndex = index_positions fName (mFields existing)\<rparr>;
          st = fold merge_field (mFields incoming) start
      in \<lparr>mName = mName existing,
          mModule = (if mModule incoming \<noteq> [] then mModule incoming else mModule existing),
          mFields = sort_key (\<lambda>f. sint (fID f)) (mergedFields st),
          mbyID = Map.empty, mbyName = Map.empty\<rparr>)"

definition RegisterModel :: "Model \<Rightarrow> Schema \<Rightarrow> Schema" where
  "RegisterModel m s =
     (let m1 = (case sModels s (mName m) of Some existing \<Rightarrow> mergeModels existing m | None \<Rightarrow> m);
          m2 = initializeModel m1
      in s\<lparr>sModels := (sModels s)(mName m2 \<mapsto> m2)\<rparr>)"

section \<open>Lookups\<close>

definition FieldByID :: "Model \<Rightarrow> goint \<Rightarrow> Field option" where
  "FieldByID m i = mbyID m i"

definition FieldByName :: "Model \<Rightarrow> string \<Rightarrow> Field option" where
  "FieldByName m n = mbyName m n"

definition PrimaryKeyField :: "Model \<Rightarrow> Field option" where
  "PrimaryKeyField m =
     (case find fPrimaryKey (mFields m) of Some f \<Rightarrow> Some f | None \<Rightarrow> FieldByName m ''id'')"

definition HasExtendFields :: "Model \<Rightarrow> bool" where
  "HasExtendFields m = (\<exists>f\<in>set (mFields m). fModule f \<noteq> [])"

text \<open>The lookup of a nested model by type name, written out in convert.go, merger.go and schema.go.\<close>

definition nested_model :: "Schema \<Rightarrow> string \<Rightarrow> Model option" where
  "nested_model s n =
     (case sModels s n of
        Some m \<Rightarrow> Some m
      | None \<Rightarrow> (case sTypes s n of None \<Rightarrow> None | Some td \<Rightarrow> Some (AsModel td)))"

section \<open>Indexes\<close>

lemma index_by_None: "index_by key flds k = None \<longleftrightarrow> (\<forall>f\<in>set flds. key f \<noteq> k)"
proof -
  have "fold (\<lambda>f idx. idx(key f \<mapsto> f)) flds m k = None \<longleftrightarrow> m k = None \<and> (\<forall>f\<in>set flds. key f \<noteq> k)" for m
    by (induction flds arbitrary: m) auto
  then show ?thesis by (simp add: index_by_def)
qed

lemma index_by_Some: "index_by key flds k = Some f \<Longrightarrow> f \<in> set flds \<and> key f = k"
proof -
  have "fold (\<lambda>f idx. idx(key f \<mapsto> f)) flds m k = Some f \<Longrightarrow> m k = Some f \<or> f \<in> set flds \<and> key f = k" for m
    by (induction flds arbitrary: m) (fastforce split: if_splits)+
  from this [of Map.empty] show "index_by key flds k = Some f \<Longrightarrow> f \<in> set flds \<and> key f = k"
    by (simp add: index_by_def)
qed

lemma index_by_distinct:
  assumes "distinct (map key flds)" "f \<in> set flds"
  shows "index_by key flds (key f) = Some f"
proof (cases "index_by key flds (key f)")
  case None
  with assms(2) show ?thesis by (auto simp: index_by_None)
next
  case (Some g)
  from index_by_Some [OF this] assms have "g = f" by (auto simp: distinct_map dest: inj_onD)
  with Some show ?thesis by simp
qed

text \<open>A model whose fields have distinct IDs and names, with its indexes built.\<close>

definition model_ok :: "Model \<Rightarrow> bool" where
  "model_ok m =
     (distinct (map fID (mFields m)) \<and> distinct (map fName (mFields m)) \<and>
      mbyID m = index_by fID (mFields m) \<and> mbyName m = index_by fName (mFields m))"

lemma FieldByID_Some: "model_ok m \<Longrightarrow> (FieldByID m i = Some f) = (f \<in> set (mFields m) \<and> fID f = i)"
  by (auto simp: model_ok_def FieldByID_def dest: index_by_Some index_by_distinct)

lemma FieldByName_Some: "model_ok m \<Longrightarrow> (FieldByName m n = Some f) = (f \<in> set (mFields m) \<and> fName f = n)"
  by (auto simp: model_ok_def FieldByName_def dest: index_by_Some index_by_distinct)

end
