(* ===== verification/Federation.thy ===== *)
theory Federation
  imports Schema Masks Message Columns
begin

text \<open>
  The federation core of the gateway: the planner (pkg/lux/luvia/planner.go), which splits a
  selection into the owning module's part and the fields other modules resolve, and the merger
  (pkg/lux/luvia/merger.go), which finds the primary keys in a response without decoding it and
  puts the resolved fields back.

  Skipping a nested model recurses on the bytes that are left. The fuel counts the calls; the
  theorem skip_row_fuel shows that five for each byte left, and five more, are always enough.
\<close>

section \<open>Planning\<close>

record PlanStep =
  psModule :: string
  psMask :: bytes

record ExtendStep =
  esSvcName :: string
  esModule :: string
  esFieldID :: goint
  esFieldName :: string
  esModelName :: string
  esForeignKey :: string
  esIsList :: bool
  esMask :: bytes

record QueryPlan =
  qpPrimary :: PlanStep
  qpExtends :: "ExtendStep list"
  qpOriginalMask :: bytes
  qpPrimaryKeyField :: Field

datatype plan_error = NoResolver string string | NoPrimaryKey string | UnsupportedKey string string

definition isFederationKeyType :: "FieldType \<Rightarrow> bool" where
  "isFederationKeyType t = (t = FieldInt \<or> t = FieldString \<or> t = FieldUUID)"

text \<open>The nested mask of a field, when the lookup does not panic (it never does: SelectionMaskNested_total).\<close>

definition selection_nested :: "bytes \<Rightarrow> goint \<Rightarrow> bytes option" where
  "selection_nested m fieldID = (case SelectionMaskNested m fieldID of Some (Inr r) \<Rightarrow> r | _ \<Rightarrow> None)"

definition selectionChild :: "bytes \<Rightarrow> goint \<Rightarrow> bytes" where
  "selectionChild m fieldID = (case selection_nested m fieldID of None \<Rightarrow> [] | Some child \<Rightarrow> child)"

record plan_state =
  plExtends :: "ExtendStep list"
  plMask :: bytes
  plChildren :: "SelectionMaskChild list"

fun Plan_loop :: "Model \<Rightarrow> bytes \<Rightarrow> Field list \<Rightarrow> plan_state \<Rightarrow> plan_error + plan_state" where
  "Plan_loop model m [] st = Inr st"
| "Plan_loop model m (f # fs) st =
     (if \<not> FieldMaskHas (SelectionMaskFields m) (fID f) then Plan_loop model m fs st
      else if fModule f = [] then
        Plan_loop model m fs
          (st\<lparr>plMask := FieldMaskSet (plMask st) (fID f),
              plChildren := (case selection_nested m (fID f) of
                 Some child \<Rightarrow> plChildren st @ [\<lparr>childID = fID f, childMask = child\<rparr>]
               | None \<Rightarrow> plChildren st)\<rparr>)
      else if fRelation f \<and> fForeignKey f \<noteq> [] then
        Plan_loop model m fs
          (st\<lparr>plExtends := plExtends st @
             [\<lparr>esSvcName = ''svc:resolve:'' @ fTypeName f @ '':'' @ fForeignKey f,
               esModule = fModule f, esFieldID = fID f, esFieldName = fName f,
               esModelName = fTypeName f, esForeignKey = fForeignKey f, esIsList = fIsList f,
               esMask = selectionChild m (fID f)\<rparr>]\<rparr>)
      else Inl (NoResolver (mName model) (fName f)))"

definition Plan :: "Model option \<Rightarrow> bytes \<Rightarrow> string \<Rightarrow> plan_error + QueryPlan option" where
  "Plan model_opt m apiModule =
     (case model_opt of
        None \<Rightarrow> Inr None
      | Some model \<Rightarrow>
          if \<not> HasExtendFields model then Inr None
          else case Plan_loop model m (mFields model) \<lparr>plExtends = [], plMask = [], plChildren = []\<rparr> of
            Inl e \<Rightarrow> Inl e
          | Inr st \<Rightarrow>
              if length (plExtends st) = 0 then Inr None
              else case PrimaryKeyField model of
                None \<Rightarrow> Inl (NoPrimaryKey (mName model))
              | Some pk \<Rightarrow>
                  if fNullable pk \<or> fIsList pk \<or> \<not> isFederationKeyType (fType pk)
                  then Inl (UnsupportedKey (mName model) (fName pk))
                  else Inr (Some
                    \<lparr>qpPrimary = \<lparr>psModule = apiModule,
                       psMask = AppendSelectionMask [] (FieldMaskSet (plMask st) (fID pk)) (plChildren st)\<rparr>,
                     qpExtends = plExtends st, qpOriginalMask = m, qpPrimaryKeyField = pk\<rparr>))"

section \<open>Merging row responses\<close>

record ExtendResult =
  erFieldID :: goint
  erData :: bytes

text \<open>Both mergers drop one trailing end marker, if there is one.\<close>

definition strip_end :: "bytes \<Rightarrow> bytes" where
  "strip_end primary =
     (if length primary > 0 \<and> last primary = 0x00 then butlast primary else primary)"

definition Merge :: "bytes \<Rightarrow> ExtendResult list \<Rightarrow> bytes" where
  "Merge primary extends =
     (if length extends = 0 then primary
      else fold (\<lambda>ext result.
             if length (erData ext) = 0 then result
             else AppendVarint result (erFieldID ext) @ erData ext) extends (strip_end primary) @ [0x00])"

section \<open>Keys of a row response\<close>

record BinaryKeys =
  bkcount :: goint
  bkvalues :: bytes

definition BinaryKeys_Len :: "BinaryKeys \<Rightarrow> goint" where
  "BinaryKeys_Len k = bkcount k"

definition EncodeParam :: "goint \<Rightarrow> BinaryKeys \<Rightarrow> bytes" where
  "EncodeParam fieldID k =
     (let r1 = AppendVarint [] fieldID; r2 = AppendVarint r1 (bkcount k) in (r2 @ bkvalues k) @ [0])"

definition schemaFieldToSkipType :: "Field \<Rightarrow> FieldSkipType" where
  "schemaFieldToSkipType f =
     (if fType f \<in> {FieldInt, FieldDateTime, FieldDuration, FieldBool} then
        (if fNullable f then SkipNullVarint_t else SkipVarint_t)
      else if fType f = FieldFloat then (if fNullable f then SkipNullFixed64_t else SkipFixed64_t)
      else if fType f = FieldUUID then (if fNullable f then SkipNullFixed16_t else SkipFixed16_t)
      else if fType f \<in> {FieldString, FieldEnum, FieldBytes, FieldModel} then
        (if fNullable f then SkipNullBytes_t else SkipBytes_t)
      else SkipBytes_t)"

text \<open>The mutual recursion of the skip functions; None means the fuel ran out.\<close>

fun skipSchemaRowField :: "nat \<Rightarrow> Field \<Rightarrow> Schema \<Rightarrow> Decoder \<Rightarrow> (bool \<times> Decoder) option"
  and skipNestedRowField :: "nat \<Rightarrow> Field \<Rightarrow> Schema \<Rightarrow> Decoder \<Rightarrow> (bool \<times> Decoder) option"
  and skipModelRows :: "nat \<Rightarrow> nat \<Rightarrow> Model \<Rightarrow> Schema \<Rightarrow> Decoder \<Rightarrow> (bool \<times> Decoder) option"
  and skipModelRow :: "nat \<Rightarrow> Model \<Rightarrow> Schema \<Rightarrow> Decoder \<Rightarrow> (bool \<times> Decoder) option"
  and skipModelRow_loop :: "nat \<Rightarrow> Model \<Rightarrow> Schema \<Rightarrow> Decoder \<Rightarrow> (bool \<times> Decoder) option" where
  "skipSchemaRowField 0 f s d = None"
| "skipSchemaRowField (Suc n) f s d =
     (if fRelation f then skipNestedRowField n f s d
      else let d' = (if fIsList f
                     then SkipArray (schemaFieldToSkipType (f\<lparr>fNullable := False, fIsList := False\<rparr>)) d
                     else SkipValue (schemaFieldToSkipType f) d)
           in Some (derr d' = None, d'))"
| "skipNestedRowField 0 f s d = None"
| "skipNestedRowField (Suc n) f s d =
     (case nested_model s (fTypeName f) of
        None \<Rightarrow> Some (False, d)
      | Some nested \<Rightarrow>
          if fIsList f then
            (case ReadArrayLength d of (count, d') \<Rightarrow>
               if derr d' \<noteq> None then Some (False, d')
               else skipModelRows n (nat (sint count)) nested s d')
          else if fNullable f then
            (case dec_ReadBool d of (present, d') \<Rightarrow>
               if \<not> present then Some (derr d' = None, d') else skipModelRow n nested s d')
          else skipModelRow n nested s d)"
| "skipModelRows 0 count m s d = None"
| "skipModelRows (Suc n) 0 m s d = Some (True, d)"
| "skipModelRows (Suc n) (Suc count) m s d =
     (case skipModelRow n m s d of
        None \<Rightarrow> None
      | Some (True, d') \<Rightarrow> skipModelRows n count m s d'
      | Some (False, d') \<Rightarrow> Some (False, d'))"
| "skipModelRow 0 m s d = None"
| "skipModelRow (Suc n) m s d = skipModelRow_loop n m s (SkipArenaHeader d)"
| "skipModelRow_loop 0 m s d = None"
| "skipModelRow_loop (Suc n) m s d =
     (case NextField d of (found, d1) \<Rightarrow>
        if \<not> found then Some (derr d1 = None, d1)
        else case FieldByID m (FieldID d1) of
            None \<Rightarrow> Some (False, d1)
          | Some f \<Rightarrow>
              (case skipSchemaRowField n f s d1 of
                 None \<Rightarrow> None
               | Some (True, d2) \<Rightarrow> skipModelRow_loop n m s d2
               | Some (False, d2) \<Rightarrow> Some (False, d2)))"

definition row_fuel :: "Decoder \<Rightarrow> nat" where
  "row_fuel d = 5 * (length (dbuf d) - doff d) + 5"

fun ExtractPrimaryKeys_loop ::
  "nat \<Rightarrow> bytes \<Rightarrow> Field \<Rightarrow> Model \<Rightarrow> Schema \<Rightarrow> Decoder \<Rightarrow> BinaryKeys option option" where
  "ExtractPrimaryKeys_loop 0 primary key m s d = None"
| "ExtractPrimaryKeys_loop (Suc n) primary key m s d =
     (case NextField d of (found, d1) \<Rightarrow>
        if \<not> found then Some None
        else let fieldID = FieldID d1 in
          case FieldByID m fieldID of
            None \<Rightarrow> Some None
          | Some f \<Rightarrow>
              (case skipSchemaRowField n f s d1 of
                 None \<Rightarrow> None
               | Some (False, d2) \<Rightarrow> Some None
               | Some (True, d2) \<Rightarrow>
                   if fieldID = fID key then
                     Some (Some \<lparr>bkcount = 1,
                       bkvalues = take (Decoder_Offset d2 - Decoder_Offset d1) (drop (Decoder_Offset d1) primary)\<rparr>)
                   else ExtractPrimaryKeys_loop n primary key m s d2))"

text \<open>The inner None is the code's false result; the outer one, running out of fuel, never happens.\<close>

definition ExtractPrimaryKeys ::
  "bytes \<Rightarrow> Field option \<Rightarrow> Model option \<Rightarrow> Schema option \<Rightarrow> BinaryKeys option option" where
  "ExtractPrimaryKeys primary keyField model registry =
     (case (keyField, model, registry) of
        (Some key, Some m, Some s) \<Rightarrow>
          if length primary = 0 \<or> \<not> isFederationKeyType (fType key) then Some None
          else let d = SkipArenaHeader (NewDecoder primary) in
               ExtractPrimaryKeys_loop (row_fuel d) primary key m s d
      | _ \<Rightarrow> Some None)"

function ExtractID_loop :: "goint \<Rightarrow> (goint \<rightharpoonup> FieldSkipType) \<Rightarrow> Decoder \<Rightarrow> goint \<times> bool" where
  "ExtractID_loop idFieldID fieldTypes d =
     (case NextField d of (found, d1) \<Rightarrow>
        if \<not> found then (0, False)
        else let fid = FieldID d1 in
          if fid = idFieldID then (case dec_ReadInt d1 of (v, d2) \<Rightarrow> (v, derr d2 = None))
          else (case fieldTypes fid of
              None \<Rightarrow> (0, False)
            | Some st \<Rightarrow>
                let d2 = SkipValue st d1 in
                if derr d2 \<noteq> None then (0, False) else ExtractID_loop idFieldID fieldTypes d2))"
  by pat_completeness auto
termination
proof (relation "measure (\<lambda>(i, t, d). remaining d)", goal_cases)
  case (2 i t d x d1 fid st d2)
  then have "NextField d = (True, d1)" by auto
  from remaining_NextField [OF this] remaining_steps [OF SkipValue_steps [of d1 st]] 2 show ?case by simp
qed simp

definition ExtractID :: "bytes \<Rightarrow> goint \<Rightarrow> (goint \<rightharpoonup> FieldSkipType) \<Rightarrow> goint \<times> bool" where
  "ExtractID primary idFieldID fieldTypes =
     (if length primary = 0 then (0, False)
      else ExtractID_loop idFieldID fieldTypes (SkipArenaHeader (NewDecoder primary)))"

section \<open>Keys of a columnar response\<close>

definition skipColumnarColumn :: "Field \<Rightarrow> ColumnarReader \<Rightarrow> ColumnarReader" where
  "skipColumnarColumn f r =
     (if fIsList f then (if fNullable f then SkipColumnBytesPtr r else SkipColumnBytes r)
      else if fType f \<in> {FieldInt, FieldDateTime, FieldDuration} then
        (if fNullable f then SkipColumnIntPtr r else SkipColumnInt r)
      else if fType f = FieldFloat then (if fNullable f then SkipColumnFloatPtr r else SkipColumnFloat r)
      else if fType f \<in> {FieldString, FieldEnum} then
        (if fNullable f then SkipColumnStringPtr r else SkipColumnString r)
      else if fType f = FieldBool then (if fNullable f then SkipColumnBoolPtr r else SkipColumnBool r)
      else if fType f = FieldUUID then (if fNullable f then SkipColumnUUIDPtr r else SkipColumnUUID r)
      else SkipColumnBytes r)"

text \<open>The column kind the code takes a field to have when it skips its column.\<close>

fun skip_kind :: "Field \<Rightarrow> col_kind" where
  "skip_kind f =
     (if fIsList f then (if fNullable f then KColBytesPtr else KColBytes)
      else case fType f of
          FieldInt \<Rightarrow> if fNullable f then KColIntPtr else KColInt
        | FieldDateTime \<Rightarrow> if fNullable f then KColIntPtr else KColInt
        | FieldDuration \<Rightarrow> if fNullable f then KColIntPtr else KColInt
        | FieldFloat \<Rightarrow> if fNullable f then KColFloatPtr else KColFloat
        | FieldString \<Rightarrow> if fNullable f then KColStringPtr else KColString
        | FieldEnum \<Rightarrow> if fNullable f then KColStringPtr else KColString
        | FieldBool \<Rightarrow> if fNullable f then KColBoolPtr else KColBool
        | FieldUUID \<Rightarrow> if fNullable f then KColUUIDPtr else KColUUID
        | _ \<Rightarrow> KColBytes)"

declare skip_kind.simps [simp del]

lemma skipColumnarColumn_kind: "skipColumnarColumn f r = skip_column (skip_kind f) r"
  by (cases "fType f") (simp_all add: skipColumnarColumn_def skip_kind.simps)

lemma skipColumnarColumn_steps: "col_steps r (skipColumnarColumn f r)"
  using read_column_steps [of r "skip_kind f"] by (simp add: skipColumnarColumn_kind skip_column_read)

lemma column_loop_decreases:
  "NextColumn r = (True, r1) \<Longrightarrow>
   length (cbuf (skipColumnarColumn f r1)) - coff (skipColumnarColumn f r1) < length (cbuf r) - coff r"
  using NextColumn_True [of r r1] skipColumnarColumn_steps [of r1 f] by (auto simp: col_steps_def)

function ExtractIDColumn_loop :: "goint \<Rightarrow> Model \<Rightarrow> ColumnarReader \<Rightarrow> goint list option" where
  "ExtractIDColumn_loop idFieldID model r =
     (case NextColumn r of (found, r1) \<Rightarrow>
        if \<not> found then None
        else if Column_FieldID r1 = idFieldID then fst (ReadColumnInt r1)
        else (case FieldByID model (Column_FieldID r1) of
            None \<Rightarrow> None
          | Some f \<Rightarrow>
              let r2 = skipColumnarColumn f r1 in
              if Reader_Err r2 \<noteq> None then None else ExtractIDColumn_loop idFieldID model r2))"
  by pat_completeness auto
termination
  by (relation "measure (\<lambda>(i, m, r). length (cbuf r) - coff r)")
     (auto dest!: sym [of "(_, _)"] intro: column_loop_decreases)

definition ExtractIDColumn :: "bytes \<Rightarrow> goint \<Rightarrow> Model \<Rightarrow> goint list option" where
  "ExtractIDColumn data idFieldID model =
     (let r = NewColumnarReader data in
      if Reader_Err r \<noteq> None \<or> Count r = 0 then None else ExtractIDColumn_loop idFieldID model r)"

function ExtractPrimaryKeyColumn_loop ::
  "bytes \<Rightarrow> Field \<Rightarrow> Model \<Rightarrow> ColumnarReader \<Rightarrow> BinaryKeys option" where
  "ExtractPrimaryKeyColumn_loop data keyField model r =
     (case NextColumn r of (found, r1) \<Rightarrow>
        if \<not> found then None
        else (case FieldByID model (Column_FieldID r1) of
            None \<Rightarrow> None
          | Some f \<Rightarrow>
              let start = Reader_Offset r1; r2 = skipColumnarColumn f r1 in
              if Reader_Err r2 \<noteq> None then None
              else if fID f = fID keyField then
                Some \<lparr>bkcount = of_nat (Count r2), bkvalues = take (Reader_Offset r2 - start) (drop start data)\<rparr>
              else ExtractPrimaryKeyColumn_loop data keyField model r2))"
  by pat_completeness auto
termination
  by (relation "measure (\<lambda>(data, k, m, r). length (cbuf r) - coff r)")
     (auto dest!: sym [of "(_, _)"] intro: column_loop_decreases)

declare ExtractID_loop.simps [simp del] ExtractIDColumn_loop.simps [simp del]
  ExtractPrimaryKeyColumn_loop.simps [simp del]

definition ExtractPrimaryKeyColumn :: "bytes \<Rightarrow> Field option \<Rightarrow> Model option \<Rightarrow> BinaryKeys option" where
  "ExtractPrimaryKeyColumn data keyField model =
     (case (keyField, model) of
        (Some key, Some m) \<Rightarrow>
          if length data = 0 \<or> \<not> isFederationKeyType (fType key) then None
          else let r = NewColumnarReader data in
               if Reader_Err r \<noteq> None \<or> Count r = 0 then None
               else ExtractPrimaryKeyColumn_loop data key m r
      | _ \<Rightarrow> None)"

record ExtendColumnResult =
  ecFieldID :: goint
  ecBlobs :: "bytes list"

definition MergeColumnar :: "bytes \<Rightarrow> ExtendColumnResult list \<Rightarrow> bytes" where
  "MergeColumnar primary extends =
     (if length extends = 0 then primary
      else fold (\<lambda>ext result.
             if length (ecBlobs ext) = 0 then result
             else fold (\<lambda>blob res. AppendBytes res blob) (ecBlobs ext) (AppendVarint result (ecFieldID ext)))
             extends (strip_end primary) @ [0x00])"

section \<open>Grouped responses\<close>

text \<open>Both item loops return None when the response is cut short; the list loop collects the items.\<close>

fun grouped_items :: "bytes \<Rightarrow> nat \<Rightarrow> nat \<Rightarrow> bytes \<Rightarrow> (bytes \<times> nat) option" where
  "grouped_items resp 0 off listBuf = Some (listBuf, off)"
| "grouped_items resp (Suc k) off listBuf =
     (case ReadBytes resp off of (item, rn) \<Rightarrow>
        if rn = 0 then None else grouped_items resp k (off + nat rn) (listBuf @ item))"

text \<open>The blobs read so far are returned when the response is cut short: the ones not reached stay nil.\<close>

fun ParseGroupedResponse_loop ::
  "bytes \<Rightarrow> bool \<Rightarrow> nat \<Rightarrow> nat \<Rightarrow> nat \<Rightarrow> bytes option list \<Rightarrow> bytes option list" where
  "ParseGroupedResponse_loop resp isList 0 i off blobs = blobs"
| "ParseGroupedResponse_loop resp isList (Suc k) i off blobs =
     (case ReadVarint resp off of (itemCount, cn) \<Rightarrow>
        if cn \<le> 0 then blobs
        else let off1 = off + nat cn in
          if isList then
            (case grouped_items resp (nat (sint itemCount)) off1 (AppendArrayHeader [] itemCount) of
               None \<Rightarrow> blobs
             | Some (listBuf, off2) \<Rightarrow>
                 ParseGroupedResponse_loop resp isList k (Suc i) off2 (blobs[i := Some listBuf]))
          else if itemCount = 0 then
            ParseGroupedResponse_loop resp isList k (Suc i) off1 (blobs[i := None])
          else (case ReadBytes resp off1 of (item, rn) \<Rightarrow>
            if rn = 0 then blobs
            else let off2 = off1 + nat rn; blobs' = blobs[i := Some item] in
              (case grouped_items resp (nat (sint itemCount) - 1) off2 [] of
                 None \<Rightarrow> blobs'
               | Some (_, off3) \<Rightarrow> ParseGroupedResponse_loop resp isList k (Suc i) off3 blobs')))"

text \<open>maxSlice is the largest number of slice headers make can allocate; a larger keyCount panics.\<close>

definition ParseGroupedResponse ::
  "nat \<Rightarrow> bytes \<Rightarrow> bool \<Rightarrow> go_panic + bytes option list option" where
  "ParseGroupedResponse maxSlice resp isList =
     (if length resp = 0 then Inr None
      else case ReadVarint resp 0 of (keyCount, n) \<Rightarrow>
        if n \<le> 0 then Inr None
        else if unat keyCount > maxSlice then Inl (MakeSliceLen keyCount)
        else Inr (Some (ParseGroupedResponse_loop resp isList (unat keyCount) 0 (nat n)
               (replicate (unat keyCount) None))))"

section \<open>Skipping a row ends\<close>

definition moves :: "Decoder \<Rightarrow> Decoder \<Rightarrow> bool" where
  "moves d d' = (dbuf d' = dbuf d \<and> doff d \<le> doff d')"

lemma moves_refl [simp]: "moves d d"
  by (simp add: moves_def)

lemma moves_trans: "moves d d' \<Longrightarrow> moves d' d'' \<Longrightarrow> moves d d''"
  by (auto simp: moves_def)

lemma moves_steps: "dec_steps d d' \<Longrightarrow> moves d d'"
  by (simp add: moves_def dec_steps_def)

lemma moves_remaining: "moves d d' \<Longrightarrow> remaining d' \<le> remaining d"
  by (auto simp: moves_def remaining_def)

lemma moves_NextField: "NextField d = (b, d') \<Longrightarrow> moves d d'"
  by (auto simp: NextField_def moves_def Let_def split: prod.splits if_splits)

lemma SkipArenaHeader_decreases:
  "derr (SkipArenaHeader d) = None \<Longrightarrow> remaining (SkipArenaHeader d) < remaining d"
  by (auto simp: SkipArenaHeader_def remaining_def split: prod.splits if_splits dest!: ReadVarint_bound)

lemma ReadArrayLength_decreases:
  "ReadArrayLength d = (c, d') \<Longrightarrow> derr d' = None \<Longrightarrow> remaining d' < remaining d"
  by (auto simp: ReadArrayLength_def ReadArrayHeader_def remaining_def split: prod.splits if_splits dest!: ReadVarint_bound)

definition returns :: "Decoder \<Rightarrow> (bool \<times> Decoder) option \<Rightarrow> bool" where
  "returns d r = (\<exists>b d'. r = Some (b, d') \<and> moves d d')"

lemma returns_trans: "moves d d1 \<Longrightarrow> returns d1 r \<Longrightarrow> returns d r"
  by (auto simp: returns_def intro: moves_trans)

text \<open>What n calls are enough for: the weights of the five functions differ by their order of calling.\<close>

definition fuel_ok :: "nat \<Rightarrow> Schema \<Rightarrow> bool" where
  "fuel_ok n s =
     ((\<forall>f d. 5 * remaining d + 5 \<le> n \<longrightarrow> returns d (skipSchemaRowField n f s d)) \<and>
      (\<forall>f d. 5 * remaining d + 4 \<le> n \<longrightarrow> returns d (skipNestedRowField n f s d)) \<and>
      (\<forall>k m d. 5 * remaining d + 4 \<le> n \<longrightarrow> returns d (skipModelRows n k m s d)) \<and>
      (\<forall>m d. 5 * remaining d + 3 \<le> n \<longrightarrow> returns d (skipModelRow n m s d) \<and>
         (\<forall>d'. skipModelRow n m s d = Some (True, d') \<longrightarrow> remaining d' < remaining d)) \<and>
      (\<forall>m d. 5 * remaining d + 1 \<le> n \<longrightarrow> returns d (skipModelRow_loop n m s d) \<and>
         (\<forall>d'. skipModelRow_loop n m s d = Some (True, d') \<longrightarrow> derr d = None)))"

lemma fuel_okD:
  assumes "fuel_ok n s"
  shows "5 * remaining d + 5 \<le> n \<Longrightarrow> returns d (skipSchemaRowField n f s d)"
    "5 * remaining d + 4 \<le> n \<Longrightarrow> returns d (skipNestedRowField n f s d)"
    "5 * remaining d + 4 \<le> n \<Longrightarrow> returns d (skipModelRows n k m s d)"
    "5 * remaining d + 3 \<le> n \<Longrightarrow> returns d (skipModelRow n m s d)"
    "5 * remaining d + 3 \<le> n \<Longrightarrow> skipModelRow n m s d = Some (True, d') \<Longrightarrow> remaining d' < remaining d"
    "5 * remaining d + 1 \<le> n \<Longrightarrow> returns d (skipModelRow_loop n m s d)"
    "5 * remaining d + 1 \<le> n \<Longrightarrow> skipModelRow_loop n m s d = Some (True, d') \<Longrightarrow> derr d = None"
  using assms unfolding fuel_ok_def by blast+

lemma fuel_field:
  assumes "fuel_ok n s" "5 * remaining d + 5 \<le> Suc n"
  shows "returns d (skipSchemaRowField (Suc n) f s d)"
  using fuel_okD(2) [OF assms(1), of d f] assms(2) moves_steps [OF SkipValue_steps] moves_steps [OF SkipArray_steps]
  by (auto simp: returns_def Let_def)

lemma fuel_nested:
  assumes "fuel_ok n s" "5 * remaining d + 4 \<le> Suc n"
  shows "returns d (skipNestedRowField (Suc n) f s d)"
proof -
  obtain c d1 where c: "ReadArrayLength d = (c, d1)" by (cases "ReadArrayLength d")
  obtain p d2 where p: "dec_ReadBool d = (p, d2)" by (cases "dec_ReadBool d")
  have m1: "moves d d1" using moves_steps [OF ReadArrayLength_steps [of d]] c by simp
  have m2: "moves d d2" using moves_steps [OF bool_reader.read_steps [of d]] p by simp
  show ?thesis
  proof (cases "nested_model s (fTypeName f)")
    case None
    then show ?thesis by (simp add: returns_def ex_bool_eq)
  next
    case (Some nested)
    have row: "returns d (skipModelRow n nested s d)" using assms(2) by (intro fuel_okD(4) [OF assms(1)]) simp
    have "returns d2 (skipModelRow n nested s d2)"
      using moves_remaining [OF m2] assms(2) by (intro fuel_okD(4) [OF assms(1)]) simp
    then have row2: "returns d (skipModelRow n nested s d2)" using m2 by (rule returns_trans [rotated])
    have "returns d (skipModelRows n (nat (sint c)) nested s d1)" if "derr d1 = None"
      using ReadArrayLength_decreases [OF c that] assms(2)
      by (intro returns_trans [OF m1] fuel_okD(3) [OF assms(1)]) simp
    with row row2 show ?thesis using Some m1 m2 by (auto simp: c p returns_def)
  qed
qed

lemma fuel_rows:
  assumes "fuel_ok n s" "5 * remaining d + 4 \<le> Suc n"
  shows "returns d (skipModelRows (Suc n) k m s d)"
proof (cases k)
  case 0
  then show ?thesis by (simp add: returns_def ex_bool_eq)
next
  case (Suc k')
  from fuel_okD(4) [OF assms(1), of d m] assms(2)
  obtain b d1 where b: "skipModelRow n m s d = Some (b, d1)" and mv: "moves d d1" by (auto simp: returns_def)
  show ?thesis
  proof (cases b)
    case True
    then have "remaining d1 < remaining d" using fuel_okD(5) [OF assms(1), of d m d1] b assms(2) by simp
    then have "returns d1 (skipModelRows n k' m s d1)" using assms(2) by (intro fuel_okD(3) [OF assms(1)]) simp
    then show ?thesis using returns_trans [OF mv] by (simp add: Suc b True)
  next
    case False
    then show ?thesis using mv by (simp add: Suc b returns_def ex_bool_eq)
  qed
qed

lemma fuel_row:
  assumes "fuel_ok n s" "5 * remaining d + 3 \<le> Suc n"
  shows "returns d (skipModelRow (Suc n) m s d) \<and>
    (\<forall>d'. skipModelRow (Suc n) m s d = Some (True, d') \<longrightarrow> remaining d' < remaining d)"
proof -
  let ?a = "SkipArenaHeader d"
  have mv: "moves d ?a" by (rule moves_steps [OF SkipArenaHeader_steps])
  then have "5 * remaining ?a + 1 \<le> n" using moves_remaining [OF mv] assms(2) by simp
  note l = fuel_okD(6) [OF assms(1) this, of m] and l' = fuel_okD(7) [OF assms(1) this, of m]
  then show ?thesis
    using returns_trans [OF mv l] SkipArenaHeader_decreases [of d] moves_remaining
    by (fastforce simp: returns_def)
qed

lemma fuel_loop:
  assumes "fuel_ok n s" "5 * remaining d + 1 \<le> Suc n"
  shows "returns d (skipModelRow_loop (Suc n) m s d) \<and>
    (\<forall>d'. skipModelRow_loop (Suc n) m s d = Some (True, d') \<longrightarrow> derr d = None)"
proof -
  obtain found d1 where nf: "NextField d = (found, d1)" by (cases "NextField d")
  have mv: "moves d d1" by (rule moves_NextField [OF nf])
  have fail: "derr d \<noteq> None \<Longrightarrow> \<not> found \<and> d1 = d" using NextField_failed [of d] nf by auto
  show ?thesis
  proof (cases "found \<and> FieldByID m (FieldID d1) \<noteq> None")
    case False
    then show ?thesis using nf mv fail by (cases "derr d") (auto simp: returns_def)
  next
    case True
    then obtain f where fd: "FieldByID m (FieldID d1) = Some f" by auto
    have lt: "remaining d1 < remaining d" using remaining_NextField nf True by simp
    then obtain b d2 where b: "skipSchemaRowField n f s d1 = Some (b, d2)" and mv2: "moves d1 d2"
      using fuel_okD(1) [OF assms(1), of d1 f] assms(2) by (auto simp: returns_def)
    have "returns d2 (skipModelRow_loop n m s d2)"
      using moves_remaining [OF mv2] lt assms(2) by (intro fuel_okD(6) [OF assms(1)]) simp
    then have "returns d (skipModelRow_loop n m s d2)"
      using moves_trans [OF mv mv2] by (rule returns_trans [rotated])
    moreover have "derr d = None" using fail True by (cases "derr d") auto
    ultimately show ?thesis
      using True nf fd b moves_trans [OF mv mv2] by (cases b) (auto simp: returns_def)
  qed
qed

lemma fuel_ok: "fuel_ok n s"
proof (induction n)
  case 0
  show ?case by (simp add: fuel_ok_def)
next
  case (Suc n)
  show ?case
    unfolding fuel_ok_def [of "Suc n"]
    using fuel_field [OF Suc] fuel_nested [OF Suc] fuel_rows [OF Suc] fuel_row [OF Suc] fuel_loop [OF Suc] by blast
qed

lemma ExtractPrimaryKeys_loop_returns:
  "5 * remaining d + 1 \<le> n \<Longrightarrow> \<exists>r. ExtractPrimaryKeys_loop n primary key m s d = Some r"
proof (induction n arbitrary: d)
  case 0
  then show ?case by simp
next
  case (Suc n)
  obtain found d1 where nf: "NextField d = (found, d1)" by (cases "NextField d")
  show ?case
  proof (cases "found \<and> FieldByID m (FieldID d1) \<noteq> None")
    case False
    then show ?thesis using nf by auto
  next
    case True
    then obtain f where fd: "FieldByID m (FieldID d1) = Some f" by auto
    have lt: "remaining d1 < remaining d" using remaining_NextField nf True by simp
    then obtain b d2 where b: "skipSchemaRowField n f s d1 = Some (b, d2)" and mv2: "moves d1 d2"
      using fuel_okD(1) [OF fuel_ok, of d1 n f s] Suc.prems by (auto simp: returns_def)
    have "\<exists>r. ExtractPrimaryKeys_loop n primary key m s d2 = Some r"
      using moves_remaining [OF mv2] lt Suc.prems by (intro Suc.IH) simp
    then show ?thesis using True nf fd b by (cases b) auto
  qed
qed

section \<open>The wire kind of a field\<close>

text \<open>How generated code writes a field of a row (writeModelFieldEncoding and writeScalarEncoding in
  pkg/codegen/writejson.go); None for relations, and for the nullable bytes that no Write method
  of the encoder writes.\<close>

definition row_kind :: "Field \<Rightarrow> wire_kind option" where
  "row_kind f =
     (if fRelation f then None
      else case fType f of
          FieldInt \<Rightarrow> Some (if fIsList f then KIntArray else if fNullable f then KIntPtr else KInt)
        | FieldDateTime \<Rightarrow> Some (if fIsList f then KIntArray else if fNullable f then KIntPtr else KInt)
        | FieldDuration \<Rightarrow> Some (if fIsList f then KIntArray else if fNullable f then KIntPtr else KInt)
        | FieldFloat \<Rightarrow> Some (if fIsList f then KFloatArray else if fNullable f then KFloatPtr else KFloat)
        | FieldString \<Rightarrow> Some (if fIsList f then KStringArray else if fNullable f then KStringPtr else KString)
        | FieldEnum \<Rightarrow> Some (if fIsList f then KStringArray else if fNullable f then KStringPtr else KString)
        | FieldDecimal \<Rightarrow> Some (if fIsList f then KStringArray else if fNullable f then KStringPtr else KString)
        | FieldBool \<Rightarrow> Some (if fIsList f then KBoolArray else if fNullable f then KBoolPtr else KBool)
        | FieldUUID \<Rightarrow> Some (if fIsList f then KUUIDArray else if fNullable f then KUUIDPtr else KUUID)
        | FieldBytes \<Rightarrow> if fIsList f then Some KBytesArray else if fNullable f then None else Some KBytes
        | FieldJSON \<Rightarrow> if fIsList f then Some KBytesArray else if fNullable f then None else Some KBytes
        | FieldModel \<Rightarrow> None)"

text \<open>schemaFieldToSkipType forgets the flag of a nullable decimal.\<close>

definition skips_right :: "Field \<Rightarrow> bool" where
  "skips_right f = (fIsList f \<or> \<not> fNullable f \<or> fType f \<noteq> FieldDecimal)"

lemma skip_field_skip_type:
  assumes "row_kind f = Some k" "skips_right f"
  shows "(if fIsList f then SkipArray (schemaFieldToSkipType (f\<lparr>fNullable := False, fIsList := False\<rparr>)) d
    else SkipValue (schemaFieldToSkipType f) d) = skip_field k d"
  using assms
  by (cases "fType f") (auto simp: row_kind_def skips_right_def schemaFieldToSkipType_def split: if_splits)

text \<open>A boolean is skipped as a varint, which is the same thing for an encoded one.\<close>

lemma SkipVarint_bool:
  assumes "drop (doff d) (dbuf d) = AppendBool [] v @ rest"
  shows "SkipVarint d = dec_skip 1 d"
proof -
  have "drop (doff d) (dbuf d) = AppendVarint [] (if v then 1 else 0) @ rest"
    using assms by (simp add: AppendBool_def AppendVarint_unfold split: if_splits)
  from ReadVarint_app [OF this] show ?thesis by (simp add: SkipVarint_def AppendVarint_unfold split: if_splits)
qed

lemma SkipArray_loop_bool:
  "derr d = None \<Longrightarrow> drop (doff d) (dbuf d) = concat (map (AppendBool []) vs) @ rest \<Longrightarrow>
   SkipArray_loop SkipVarint_t (length vs) d = dec_skip (int (length (concat (map (AppendBool []) vs)))) d"
proof (induction vs arbitrary: d)
  case (Cons v vs)
  have l: "length (AppendBool [] v) = 1" by (simp add: AppendBool_def)
  have d: "drop (doff d) (dbuf d) = AppendBool [] v @ concat (map (AppendBool []) vs) @ rest" using Cons.prems by simp
  have "drop (doff (dec_skip 1 d)) (dbuf (dec_skip 1 d)) = concat (map (AppendBool []) vs) @ rest"
    using drop_dec_skip [OF d] l by simp
  then show ?case using Cons.IH [of "dec_skip 1 d"] Cons.prems(1) SkipVarint_bool [OF d] l by simp
qed simp

lemma skip_field_enc_all:
  assumes "val_ok v" "derr d = None" "drop (doff d) (dbuf d) = val_enc v @ rest"
  shows "skip_field (kind_of v) d = dec_skip (int (length (val_enc v))) d"
proof (cases v)
  case (VBool b)
  then show ?thesis using SkipVarint_bool [of d b rest] assms(3) by (simp add: AppendBool_def)
next
  case (VBoolPtr b)
  show ?thesis
  proof (cases b)
    case None
    then show ?thesis
      using assms(3) VBoolPtr by (simp add: SkipNullableVarint_def skip_nullable_def ptr_bytes_def ReadNullable_Cons)
  next
    case (Some x)
    then have d1: "drop (doff d) (dbuf d) = [1] @ AppendBool [] x @ rest" using assms(3) VBoolPtr by (simp add: ptr_bytes_def)
    have "drop (doff (dec_skip 1 d)) (dbuf (dec_skip 1 d)) = AppendBool [] x @ rest" using drop_dec_skip [OF d1] by simp
    from SkipVarint_bool [OF this] show ?thesis
      using d1 VBoolPtr Some
      by (simp add: SkipNullableVarint_def skip_nullable_def ptr_bytes_def ReadNullable_Cons AppendBool_def)
  qed
next
  case (VBoolArray bs)
  let ?n = "of_nat (length bs) :: goint"
  have d: "drop (doff d) (dbuf d) = AppendVarint [] ?n @ concat (map (AppendBool []) bs) @ rest" and l: "length bs \<le> 1000000"
    using assms(1,3) VBoolArray by (simp_all add: array_bytes_def arr_ok_def)
  have s: "sint ?n = int (length bs)" using l by (simp add: signed_of_nat signed_take_bit_int_eq_self)
  have "ReadArrayHeader (dbuf d) (doff d) = (?n, int (length (AppendVarint [] ?n)))"
    using arrhdr.rd_app [of "doff d" "dbuf d" ?n] d by (simp add: AppendArrayHeader_def)
  moreover have "SkipArray_loop SkipVarint_t (length bs) (dec_skip (int (length (AppendVarint [] ?n))) d) =
      dec_skip (int (length (concat (map (AppendBool []) bs)))) (dec_skip (int (length (AppendVarint [] ?n))) d)"
    by (rule SkipArray_loop_bool [OF _ drop_dec_skip [OF d]]) (simp add: assms(2))
  ultimately show ?thesis
    using VBoolArray l s by (simp add: SkipArray_def MaxArrayElements_def array_bytes_def)
qed (use skip_field_enc [OF assms(1,2) _ assms(3)] in simp_all)

section \<open>Keys of an encoded row\<close>

text \<open>A field of the row that the gateway can skip.\<close>

definition row_field_ok :: "Model \<Rightarrow> goint \<times> wire_val \<Rightarrow> bool" where
  "row_field_ok m fv =
     (fst fv \<noteq> 0 \<and> val_ok (snd fv) \<and>
      (case FieldByID m (fst fv) of
         None \<Rightarrow> False
       | Some f \<Rightarrow> row_kind f = Some (kind_of (snd fv)) \<and> skips_right f))"

lemma skipSchemaRowField_enc:
  assumes "row_kind f = Some (kind_of v)" "skips_right f" "val_ok v" "derr d = None"
    "drop (doff d) (dbuf d) = val_enc v @ rest"
  shows "skipSchemaRowField (Suc n) f s d = Some (True, dec_skip (int (length (val_enc v))) d)"
proof -
  have "\<not> fRelation f" using assms(1) by (auto simp: row_kind_def)
  then show ?thesis
    using skip_field_skip_type [OF assms(1,2), of d] skip_field_enc_all [OF assms(3-5)] assms(4)
    by (auto simp: Let_def split: if_splits)
qed

lemma ExtractPrimaryKeys_loop_enc:
  assumes "list_all (row_field_ok m) fs" "derr d = None" "length fs + 1 < n" "primary = dbuf d"
    "drop (doff d) (dbuf d) = concat (map field_enc fs) @ 0 # rest"
  shows "ExtractPrimaryKeys_loop n primary key m s d =
    Some (map_option (\<lambda>fv. \<lparr>bkcount = 1, bkvalues = val_enc (snd fv)\<rparr>) (find (\<lambda>fv. fst fv = fID key) fs))"
  using assms
proof (induction fs arbitrary: d n)
  case Nil
  then have "NextField d = (False, (dec_skip 1 d)\<lparr>dfieldID := 0\<rparr>)"
    using NextField_enc [of d 0 rest] by (simp add: AppendVarint_unfold)
  with Nil show ?case by (cases n) simp_all
next
  case (Cons fv fs)
  obtain i v where fv: "fv = (i, v)" by (cases fv)
  from Cons.prems(1) obtain f where f: "FieldByID m i = Some f" "row_kind f = Some (kind_of v)" "skips_right f"
    and ok: "i \<noteq> 0" "val_ok v" by (auto simp: row_field_ok_def fv split: option.splits)
  obtain n' k where n: "n = Suc n'" and n': "n' = Suc k" using Cons.prems(3) by (cases n; cases "n - 1") auto
  let ?d = "(dec_skip (int (length (AppendVarint [] i))) d)\<lparr>dfieldID := i\<rparr>"
  let ?e = "dec_skip (int (length (val_enc v))) ?d"
  have d0: "drop (doff d) (dbuf d) = AppendVarint [] i @ val_enc v @ concat (map field_enc fs) @ 0 # rest"
    using Cons.prems(5) by (simp add: fv field_enc_def [of "(i, v)"])
  have d1: "drop (doff ?d) (dbuf ?d) = val_enc v @ concat (map field_enc fs) @ 0 # rest" using drop_dec_skip [OF d0] by simp
  have nf: "NextField d = (True, ?d)" using NextField_enc [OF Cons.prems(2) d0] ok by simp
  have sk: "skipSchemaRowField n' f s ?d = Some (True, ?e)"
    unfolding n' by (rule skipSchemaRowField_enc [OF f(2,3) ok(2) _ d1]) (simp add: Cons.prems(2))
  have d2: "drop (doff ?e) (dbuf ?e) = concat (map field_enc fs) @ 0 # rest" using drop_dec_skip [OF d1] by simp
  have IH: "ExtractPrimaryKeys_loop n' primary key m s ?e =
    Some (map_option (\<lambda>fv. \<lparr>bkcount = 1, bkvalues = val_enc (snd fv)\<rparr>) (find (\<lambda>fv. fst fv = fID key) fs))"
    using Cons.prems by (intro Cons.IH [OF _ _ _ _ d2]) (auto simp: n)
  have "take (length (val_enc v)) (drop (doff ?d) primary) = val_enc v" using d1 Cons.prems(4) by simp
  then show ?case
    using nf sk f(1) IH by (cases "i = fID key") (auto simp: n fv FieldID_def Decoder_Offset_def simp del: of_nat_add)
qed

section \<open>Merging appends fields and columns\<close>

lemma strip_end_snoc [simp]: "strip_end (xs @ [0]) = xs"
  by (simp add: strip_end_def)

lemma val_enc_nonempty: "val_ok v \<Longrightarrow> val_enc v \<noteq> []"
  by (cases v) (simp_all add: svarint.app_nonempty fixed64.app_nonempty str.app_nonempty bool.app_nonempty
      bytes.app_nonempty uuid.app_nonempty ptr_bytes_def array_bytes_def split: option.split)

definition extend_of :: "goint \<times> wire_val \<Rightarrow> ExtendResult" where
  "extend_of fv = \<lparr>erFieldID = fst fv, erData = val_enc (snd fv)\<rparr>"

lemma Merge_message:
  assumes "\<forall>fv\<in>set exts. val_ok (snd fv)"
  shows "Merge (AppendVarint [] arena @ encode_message fs) (map extend_of exts) =
    AppendVarint [] arena @ encode_message (fs @ exts)"
proof -
  let ?step = "\<lambda>ext result. if length (erData ext) = 0 then result else AppendVarint result (erFieldID ext) @ erData ext"
  have "\<forall>fv\<in>set exts. val_ok (snd fv) \<Longrightarrow>
      fold ?step (map extend_of exts) b = b @ concat (map field_enc exts)" for b
  proof (induction exts arbitrary: b)
    case (Cons fv exts)
    have "AppendVarint b (fst fv) = b @ AppendVarint [] (fst fv)" by (rule AppendVarint_app)
    then have "?step (extend_of fv) b = b @ field_enc fv"
      using Cons.prems val_enc_nonempty by (simp add: extend_of_def field_enc_def)
    then show ?case using Cons by simp
  qed simp
  from this [OF assms] show ?thesis
    by (simp add: Merge_def encode_message_bytes flip: append_assoc)
qed

definition extend_column_of :: "goint \<times> bytes list \<Rightarrow> ExtendColumnResult" where
  "extend_column_of fb = \<lparr>ecFieldID = fst fb, ecBlobs = snd fb\<rparr>"

lemma MergeColumnar_columns:
  assumes "0 < n" "n \<le> MaxColumnarRecords" "\<forall>fb\<in>set exts. length (snd fb) = n"
  shows "MergeColumnar (encode_columns (of_nat n) cols) (map extend_column_of exts) =
    encode_columns (of_nat n) (cols @ map (apsnd ColBytes) exts)"
proof -
  let ?step = "\<lambda>ext result. if length (ecBlobs ext) = 0 then result
      else fold (\<lambda>blob res. AppendBytes res blob) (ecBlobs ext) (AppendVarint result (ecFieldID ext))"
  have "\<forall>fb\<in>set exts. length (snd fb) = n \<Longrightarrow>
      fold ?step (map extend_column_of exts) b = b @ concat (map column_enc (map (apsnd ColBytes) exts))" for b
  proof (induction exts arbitrary: b)
    case (Cons fb exts)
    have "AppendVarint b (fst fb) = b @ AppendVarint [] (fst fb)" by (rule AppendVarint_app)
    then have "?step (extend_column_of fb) b = b @ column_enc (apsnd ColBytes fb)"
      using Cons.prems assms(1) by (cases fb) (auto simp: extend_column_of_def column_enc_def bytes.app_fold)
    then show ?case using Cons by simp
  qed simp
  from this [OF assms(3)] have f: "fold ?step (map extend_column_of exts) b =
     b @ concat (map column_enc (map (apsnd ColBytes) exts))" for b .
  have "sint (of_nat n :: u64) > 0"
    using assms(1,2) by (simp add: MaxColumnarRecords_def signed_of_nat signed_take_bit_int_eq_self)
  moreover have "columns_header (of_nat n) (cols @ map (apsnd ColBytes) exts) = columns_header (of_nat n) cols"
    by (auto simp: columns_header_def o_def intro!: arg_cong [of _ _ "AppendVarint []"] arg_cong [of _ _ word_of_nat] sum_list_0)
  ultimately show ?thesis
    using f by (simp add: MergeColumnar_def encode_columns_bytes flip: append_assoc)
qed

section \<open>Keys of a columnar response\<close>

lemma skip_column_enc:
  assumes "col_ok v" "ccount r = col_len v" "drop (coff r) (cbuf r) = col_enc v @ rest"
  shows "skip_column (col_kind_of v) r = col_move (int (length (col_enc v))) r"
  using read_column_enc [OF assms] by (simp add: skip_column_read)

text \<open>The column of the field is skipped as what it was written as; a string column as bytes will do.\<close>

definition skips_as :: "Field \<Rightarrow> col_val \<Rightarrow> bool" where
  "skips_as f v = (skip_kind f = col_kind_of v \<or> skip_kind f = KColBytes \<and> col_kind_of v = KColString)"

lemma skipColumnarColumn_enc:
  assumes "skips_as f v" "col_ok v" "ccount r = col_len v" "drop (coff r) (cbuf r) = col_enc v @ rest"
  shows "skipColumnarColumn f r = col_move (int (length (col_enc v))) r"
proof (cases "skip_kind f = col_kind_of v")
  case True
  then show ?thesis using skip_column_enc [OF assms(2-4)] by (simp add: skipColumnarColumn_kind)
next
  case False
  then obtain vs where v: "v = ColString vs" "skip_kind f = KColBytes" using assms(1) by (cases v) (auto simp: skips_as_def)
  have "skip_column (col_kind_of (ColBytes vs)) r = col_move (int (length (col_enc (ColBytes vs)))) r"
    by (rule skip_column_enc) (use assms v in \<open>simp_all add: AppendString_eq\<close>)
  then show ?thesis using v by (simp add: skipColumnarColumn_kind AppendString_eq)
qed

definition row_column_ok :: "Model \<Rightarrow> nat \<Rightarrow> goint \<times> col_val \<Rightarrow> bool" where
  "row_column_ok m n fv =
     (fst fv \<noteq> 0 \<and> col_ok (snd fv) \<and> col_len (snd fv) = n \<and>
      (case FieldByID m (fst fv) of None \<Rightarrow> False | Some f \<Rightarrow> fID f = fst fv \<and> skips_as f (snd fv)))"

lemma ExtractPrimaryKeyColumn_loop_enc:
  assumes "list_all (row_column_ok m (ccount r)) cols" "cerr r = None" "data = cbuf r"
    "drop (coff r) (cbuf r) = concat (map column_enc cols) @ 0 # rest"
  shows "ExtractPrimaryKeyColumn_loop data key m r =
    map_option (\<lambda>fv. \<lparr>bkcount = of_nat (ccount r), bkvalues = col_enc (snd fv)\<rparr>) (find (\<lambda>fv. fst fv = fID key) cols)"
  using assms
proof (induction cols arbitrary: r)
  case Nil
  then show ?case by (subst ExtractPrimaryKeyColumn_loop.simps) (simp add: NextColumn_end)
next
  case (Cons fv cols)
  obtain i v where fv: "fv = (i, v)" by (cases fv)
  from Cons.prems(1) obtain f where f: "FieldByID m i = Some f" "fID f = i" "skips_as f v"
    and ok: "i \<noteq> 0" "col_ok v" "col_len v = ccount r" by (auto simp: row_column_ok_def fv split: option.splits)
  let ?r = "(col_move (int (length (AppendVarint [] i))) r)\<lparr>cfieldID := i\<rparr>"
  let ?e = "col_move (int (length (col_enc v))) ?r"
  have d0: "drop (coff r) (cbuf r) = AppendVarint [] i @ col_enc v @ concat (map column_enc cols) @ 0 # rest"
    using Cons.prems(4) by (simp add: fv column_enc_def [of "(i, v)"])
  have d1: "drop (coff ?r) (cbuf ?r) = col_enc v @ concat (map column_enc cols) @ 0 # rest"
    using drop_col_move [OF d0] by simp
  have nc: "NextColumn r = (True, ?r)" by (rule NextColumn_enc [OF Cons.prems(2) d0 ok(1)])
  have sk: "skipColumnarColumn f ?r = ?e" by (rule skipColumnarColumn_enc [OF f(3) ok(2) _ d1]) (simp add: ok)
  have d2: "drop (coff ?e) (cbuf ?e) = concat (map column_enc cols) @ 0 # rest" using drop_col_move [OF d1] by simp
  have IH: "ExtractPrimaryKeyColumn_loop data key m ?e = map_option
      (\<lambda>fv. \<lparr>bkcount = of_nat (ccount r), bkvalues = col_enc (snd fv)\<rparr>) (find (\<lambda>fv. fst fv = fID key) cols)"
    using Cons.IH [of ?e] Cons.prems d2 by simp
  have "take (length (col_enc v)) (drop (coff ?r) data) = col_enc v" using d1 Cons.prems(3) by simp
  then show ?case
    using nc sk f(1,2) IH Cons.prems(2)
    by (cases "i = fID key"; subst ExtractPrimaryKeyColumn_loop.simps)
       (auto simp: fv Column_FieldID_def Reader_Offset_def Reader_Err_def Count_def simp del: of_nat_add)
qed

section \<open>Grouped responses\<close>

definition grouped_enc :: "bytes list list \<Rightarrow> bytes" where
  "grouped_enc gs = AppendVarint [] (of_nat (length gs)) @
     concat (map (\<lambda>items. AppendVarint [] (of_nat (length items)) @ concat (map (AppendBytes []) items)) gs)"

definition group_blob :: "bool \<Rightarrow> bytes list \<Rightarrow> bytes option" where
  "group_blob isList items =
     (if isList then Some (AppendArrayHeader [] (of_nat (length items)) @ concat items)
      else case items of [] \<Rightarrow> None | x # _ \<Rightarrow> Some x)"

lemma grouped_items_enc:
  assumes "list_all len_ok items" "drop off resp = concat (map (AppendBytes []) items) @ rest"
  shows "grouped_items resp (length items) off lb =
    Some (lb @ concat items, off + length (concat (map (AppendBytes []) items)))"
  using assms
proof (induction items arbitrary: off lb)
  case (Cons x xs)
  then have d: "drop off resp = AppendBytes [] x @ concat (map (AppendBytes []) xs) @ rest" and ok: "len_ok x" by simp_all
  have "ReadBytes resp off = (x, int (length (AppendBytes [] x)))" by (rule bytes.rd_app [OF ok d])
  moreover have "AppendBytes [] x \<noteq> []" using bytes.app_nonempty ok by blast
  ultimately show ?case using Cons.IH [of "off + length (AppendBytes [] x)"] Cons.prems(1) drop_eq_appendD [OF d]
    by (simp add: add.assoc)
qed simp

lemma sint_of_nat_small: "n < 2 ^ 63 \<Longrightarrow> sint (of_nat n :: goint) = int n"
  by (simp add: signed_of_nat signed_take_bit_int_eq_self)

lemma ParseGroupedResponse_loop_enc:
  assumes "list_all (\<lambda>items. list_all len_ok items \<and> length items < max_len) gs"
    "drop off resp = concat (map (\<lambda>items. AppendVarint [] (of_nat (length items)) @ concat (map (AppendBytes []) items)) gs) @ rest"
    "i + length gs = length blobs" "drop i blobs = replicate (length gs) None"
  shows "ParseGroupedResponse_loop resp isList (length gs) i off blobs = take i blobs @ map (group_blob isList) gs"
  using assms
proof (induction gs arbitrary: off i blobs)
  case Nil
  then show ?case by simp
next
  case (Cons items gs)
  let ?h = "AppendVarint [] (of_nat (length items) :: u64)" and ?c = "concat (map (AppendBytes []) items)"
  let ?blob = "group_blob isList items"
  have ok: "list_all len_ok items" and sm: "length items < 2 ^ 63" using Cons.prems(1) by (simp_all add: max_len_def)
  obtain tail where d0: "drop off resp = ?h @ ?c @ tail" and tail: "tail =
      concat (map (\<lambda>items. AppendVarint [] (of_nat (length items)) @ concat (map (AppendBytes []) items)) gs) @ rest"
    using Cons.prems(2) by simp
  have rd: "ReadVarint resp off = (of_nat (length items), int (length ?h))" by (rule ReadVarint_app [OF d0])
  have d1: "drop (off + length ?h) resp = ?c @ tail" by (rule drop_eq_appendD [OF d0])
  have d2: "drop (off + length ?h + length ?c) resp = tail" by (rule drop_eq_appendD [OF d1])
  have s: "nat (sint (of_nat (length items) :: goint)) = length items" using sm by (simp add: sint_of_nat_small)
  have z: "(of_nat (length items) :: u64) = 0 \<longleftrightarrow> items = []"
    using unat_le_max_len [of "length items"] sm by (auto simp: max_len_def dest: arg_cong [of _ _ unat])
  have IH: "ParseGroupedResponse_loop resp isList (length gs) (Suc i) (off + length ?h + length ?c) (blobs[i := ?blob]) =
      take (Suc i) (blobs[i := ?blob]) @ map (group_blob isList) gs"
  proof (rule Cons.IH)
    have "drop (Suc i) blobs = tl (drop i blobs)" by (simp add: drop_Suc tl_drop)
    then show "drop (Suc i) (blobs[i := ?blob]) = replicate (length gs) None" using Cons.prems(4) by simp
  qed (use Cons.prems(1,3) d2 tail in simp_all)
  have tk: "take (Suc i) (blobs[i := ?blob]) = take i blobs @ [?blob]"
    using Cons.prems(3) by (simp add: take_Suc_conv_app_nth)
  show ?case
  proof (cases isList)
    case True
    then show ?thesis
      using rd s IH tk grouped_items_enc [OF ok d1] by (simp add: group_blob_def)
  next
    case False
    show ?thesis
    proof (cases items)
      case Nil
      then show ?thesis using False rd z IH tk by (simp add: group_blob_def Let_def)
    next
      case (Cons x xs)
      have dx: "drop (off + length ?h) resp = AppendBytes [] x @ concat (map (AppendBytes []) xs) @ tail" and lx: "len_ok x" "list_all len_ok xs"
        using d1 ok Cons by simp_all
      have rx: "ReadBytes resp (off + length ?h) = (x, int (length (AppendBytes [] x)))" by (rule bytes.rd_app [OF lx(1) dx])
      have nx: "AppendBytes [] x \<noteq> []" using bytes.app_nonempty lx(1) by blast
      note gi = grouped_items_enc [OF lx(2) drop_eq_appendD [OF dx]]
      show ?thesis
        using False rd z IH tk rx nx gi s Cons by (simp add: group_blob_def Let_def add.assoc)
    qed
  qed
qed

lemma last_FieldMaskSet:
  assumes "0 < sint f" "m = [] \<or> last m \<noteq> 0"
  shows "last (FieldMaskSet m f) \<noteq> 0"
proof -
  let ?i = "(unat f - 1) div 8" and ?b = "(unat f - 1) mod 8"
  let ?m = "m @ replicate (Suc ?i - length m) 0"
  have eq: "FieldMaskSet m f = ?m[?i := ?m ! ?i OR push_bit ?b 1]" using assms(1) by (simp add: FieldMaskSet_def Let_def)
  have len: "length ?m = max (length m) (Suc ?i)" by simp
  have b: "bit (?m ! ?i OR push_bit ?b 1 :: byte) ?b" by (simp add: bit_or_iff bit_exp_iff)
  then have nz: "?m ! ?i OR push_bit ?b 1 \<noteq> (0 :: byte)" by (metis bit_0_eq bot_apply bot_bool_def)
  have ne: "?m \<noteq> []" by (cases m) auto
  show ?thesis
  proof (cases "length m \<le> Suc ?i")
    case True
    then have "length ?m - 1 = ?i" using len by simp
    then show ?thesis using ne nz by (simp add: eq last_conv_nth)
  next
    case False
    then have "?m = m" "m \<noteq> []" "?i \<noteq> length m - 1" by auto
    then show ?thesis using assms(2) by (auto simp: eq last_conv_nth)
  qed
qed

lemma length_FieldMaskSet:
  assumes "0 < sint f" "length m \<le> 2 ^ 60"
  shows "length (FieldMaskSet m f) \<le> 2 ^ 60"
proof -
  have "unat f < 2 ^ 63" using assms(1) sint_less_0_iff [of f] by simp
  then have "Suc ((unat f - 1) div 8) \<le> 2 ^ 60" using sint_pos_unat [OF assms(1)] by simp
  then show ?thesis using assms by (simp add: FieldMaskSet_bit(3))
qed

section \<open>What a plan contains\<close>

definition requested :: "bytes \<Rightarrow> Field \<Rightarrow> bool" where
  "requested m f = FieldMaskHas (SelectionMaskFields m) (fID f)"

definition local_fields :: "bytes \<Rightarrow> Field list \<Rightarrow> Field list" where
  "local_fields m fs = filter (\<lambda>f. requested m f \<and> fModule f = []) fs"

definition extend_fields :: "bytes \<Rightarrow> Field list \<Rightarrow> Field list" where
  "extend_fields m fs = filter (\<lambda>f. requested m f \<and> fModule f \<noteq> []) fs"

definition nested_children :: "bytes \<Rightarrow> Field list \<Rightarrow> SelectionMaskChild list" where
  "nested_children m fs =
     concat (map (\<lambda>f. case selection_nested m (fID f) of None \<Rightarrow> []
       | Some c \<Rightarrow> [\<lparr>childID = fID f, childMask = c\<rparr>]) fs)"

definition extend_step :: "bytes \<Rightarrow> Field \<Rightarrow> ExtendStep" where
  "extend_step m f =
     \<lparr>esSvcName = ''svc:resolve:'' @ fTypeName f @ '':'' @ fForeignKey f,
      esModule = fModule f, esFieldID = fID f, esFieldName = fName f,
      esModelName = fTypeName f, esForeignKey = fForeignKey f, esIsList = fIsList f,
      esMask = selectionChild m (fID f)\<rparr>"

lemma Plan_loop_result:
  "Plan_loop model m fs st = Inr st' \<Longrightarrow>
   plMask st' = fold (\<lambda>f mk. FieldMaskSet mk (fID f)) (local_fields m fs) (plMask st) \<and>
   plChildren st' = plChildren st @ nested_children m (local_fields m fs) \<and>
   plExtends st' = plExtends st @ map (extend_step m) (extend_fields m fs)"
proof (induction fs arbitrary: st)
  case Nil
  then show ?case by (simp add: local_fields_def extend_fields_def nested_children_def)
next
  case (Cons f fs)
  consider (skip) "\<not> requested m f" | (own) "requested m f" "fModule f = []"
    | (ext) "requested m f" "fModule f \<noteq> []" by blast
  then show ?case
  proof cases
    case skip
    then show ?thesis using Cons.IH [of st] Cons.prems by (simp add: requested_def local_fields_def extend_fields_def)
  next
    case own
    then show ?thesis
      using Cons.IH Cons.prems
      by (fastforce simp: requested_def local_fields_def extend_fields_def nested_children_def split: option.splits)
  next
    case ext
    then have "fRelation f \<and> fForeignKey f \<noteq> []" using Cons.prems by (auto simp: requested_def split: if_splits)
    with ext show ?thesis
      using Cons.IH Cons.prems
      by (fastforce simp: requested_def local_fields_def extend_fields_def extend_step_def)
  qed
qed

lemma local_mask:
  assumes "\<forall>f\<in>set fs. 0 < sint (fID f)"
  shows "has_bit (fold (\<lambda>f mk. FieldMaskSet mk (fID f)) fs mk) j =
      (has_bit mk j \<or> (\<exists>f\<in>set fs. j = unat (fID f) - 1))"
    "mk = [] \<or> last mk \<noteq> 0 \<Longrightarrow> fold (\<lambda>f mk. FieldMaskSet mk (fID f)) fs mk = [] \<or>
      last (fold (\<lambda>f mk. FieldMaskSet mk (fID f)) fs mk) \<noteq> 0"
    "length mk \<le> 2 ^ 60 \<Longrightarrow> length (fold (\<lambda>f mk. FieldMaskSet mk (fID f)) fs mk) \<le> 2 ^ 60"
  using assms
proof (induction fs arbitrary: mk)
  case (Cons f fs)
  {
    case 1
    with Cons.IH(1) show ?case by (auto simp: FieldMaskSet_bit(1))
  next
    case 2
    with Cons.IH(2) last_FieldMaskSet show ?case by simp
  next
    case 3
    with Cons.IH(3) length_FieldMaskSet show ?case by simp
  }
qed simp_all

lemma PrimaryKeyField_in: "model_ok m \<Longrightarrow> PrimaryKeyField m = Some pk \<Longrightarrow> pk \<in> set (mFields m)"
  by (auto simp: PrimaryKeyField_def find_Some_iff FieldByName_Some split: option.splits)

lemma Plan_some:
  assumes "Plan (Some model) m api = Inr (Some p)"
  obtains pk st where "PrimaryKeyField model = Some pk" "\<not> fNullable pk" "\<not> fIsList pk"
    "isFederationKeyType (fType pk)" "qpPrimaryKeyField p = pk" "psModule (qpPrimary p) = api"
    "psMask (qpPrimary p) = AppendSelectionMask []
       (FieldMaskSet (fold (\<lambda>f mk. FieldMaskSet mk (fID f)) (local_fields m (mFields model)) []) (fID pk))
       (nested_children m (local_fields m (mFields model)))"
    "qpExtends p = map (extend_step m) (extend_fields m (mFields model))"
    "extend_fields m (mFields model) \<noteq> []" "qpOriginalMask p = m"
proof -
  from assms obtain st where st: "Plan_loop model m (mFields model) \<lparr>plExtends = [], plMask = [], plChildren = []\<rparr> = Inr st"
    and ne: "plExtends st \<noteq> []"
    by (auto simp: Plan_def split: if_splits sum.splits)
  from Plan_loop_result [OF st] have r:
    "plMask st = fold (\<lambda>f mk. FieldMaskSet mk (fID f)) (local_fields m (mFields model)) []"
    "plChildren st = nested_children m (local_fields m (mFields model))"
    "plExtends st = map (extend_step m) (extend_fields m (mFields model))" by simp_all
  show thesis
    using assms st ne r by (intro that) (auto simp: Plan_def split: if_splits option.splits)
qed

lemma selection_nested_ok:
  assumes "len_ok m" "selection_nested m i = Some c" "0 < sint i"
  shows "child_ok \<lparr>childID = i, childMask = c\<rparr>"
  using nested_total [OF assms(1), of i] assms by (auto simp: selection_nested_def child_ok_def len_ok_def)

lemma nested_children_ids: "childID ` set (nested_children m fs) \<subseteq> fID ` set fs"
  by (auto simp: nested_children_def split: option.splits)

lemma nested_children_lookup:
  assumes "f \<in> set fs" "distinct (map fID fs)"
  shows "map_option childMask (find (\<lambda>c. childID c = fID f) (nested_children m fs)) = selection_nested m (fID f)"
  using assms
proof (induction fs)
  case (Cons g fs)
  show ?case
  proof (cases "g = f")
    case True
    have "childID c \<noteq> fID f" if "c \<in> set (nested_children m fs)" for c
    proof -
      have "childID c \<in> fID ` set fs" using nested_children_ids [of m fs] that by blast
      then show ?thesis using Cons.prems(2) True by (metis distinct.simps(2) list.set_map list.simps(9))
    qed
    then have "find (\<lambda>c. childID c = fID f) (nested_children m fs) = None" by (simp add: find_None_iff)
    then show ?thesis by (auto simp: True nested_children_def split: option.splits)
  next
    case False
    then have "fID g \<noteq> fID f" using Cons.prems by (metis distinct.simps(2) image_eqI list.set_map list.simps(9) set_ConsD)
    then show ?thesis using Cons False by (auto simp: nested_children_def split: option.splits)
  qed
qed simp

lemma nested_children_distinct: "distinct (map fID fs) \<Longrightarrow> distinct (map childID (nested_children m fs))"
proof (induction fs)
  case (Cons f fs)
  with nested_children_ids [of m fs] show ?case
    by (auto simp: nested_children_def image_subset_iff split: option.splits)
qed (simp add: nested_children_def)

lemma Plan_selection:
  assumes "Plan (Some model) m api = Inr (Some p)" "model_ok model" "len_ok m"
    "\<forall>f\<in>set (mFields model). 0 < sint (fID f)" "f \<in> set (mFields model)"
  shows "FieldMaskHas (SelectionMaskFields (psMask (qpPrimary p))) (fID f) =
      (requested m f \<and> fModule f = [] \<or> f = qpPrimaryKeyField p) \<and>
    (requested m f \<and> fModule f = [] \<longrightarrow>
      selection_nested (psMask (qpPrimary p)) (fID f) = selection_nested m (fID f)) \<and>
    map esFieldID (qpExtends p) = map fID (filter (\<lambda>f. requested m f \<and> fModule f \<noteq> []) (mFields model))"
proof -
  let ?loc = "local_fields m (mFields model)"
  let ?M = "fold (\<lambda>f mk. FieldMaskSet mk (fID f)) ?loc []"
  let ?ch = "nested_children m ?loc"
  from assms(1) obtain pk where pk: "PrimaryKeyField model = Some pk" "qpPrimaryKeyField p = pk"
    and mask: "psMask (qpPrimary p) = AppendSelectionMask [] (FieldMaskSet ?M (fID pk)) ?ch"
    and ext: "qpExtends p = map (extend_step m) (extend_fields m (mFields model))"
    by (rule Plan_some)
  have pkin: "pk \<in> set (mFields model)" by (rule PrimaryKeyField_in [OF assms(2) pk(1)])
  then have pos: "0 < sint (fID pk)" "0 < sint (fID f)" using assms(4,5) by auto
  have lpos: "\<forall>f\<in>set ?loc. 0 < sint (fID f)" using assms(4) by (auto simp: local_fields_def)
  have ids: "distinct (map fID (mFields model))" using assms(2) by (simp add: model_ok_def)
  then have ldist: "distinct (map fID ?loc)" by (simp add: local_fields_def distinct_map_filter)
  have ok: "list_all child_ok ?ch"
    using lpos selection_nested_ok [OF assms(3)] by (auto simp: list_all_iff nested_children_def split: option.splits)
  have "length (FieldMaskSet ?M (fID pk)) \<le> 2 ^ 60"
    by (rule length_FieldMaskSet [OF pos(1)], rule local_mask(3) [OF lpos]) simp
  then have "length (FieldMaskSet ?M (fID pk)) < max_len" by (simp add: max_len_def)
  then have fl: "FieldMaskSet ?M (fID pk) \<noteq> []" "last (FieldMaskSet ?M (fID pk)) \<noteq> 0" "len_ok (FieldMaskSet ?M (fID pk))"
    using FieldMaskSet_bit(2) [OF pos(1)] last_FieldMaskSet [OF pos(1) local_mask(2) [OF lpos, of "[]"]]
    by (simp_all add: len_ok_def)
  note look = lookup_enc [OF fl ok nested_children_distinct [OF ldist] pos(2)]
  have flds: "SelectionMaskFields (psMask (qpPrimary p)) = FieldMaskSet ?M (fID pk)" using look by (simp add: mask)
  have eqf: "(unat (fID f) - 1 = unat (fID g) - 1) = (f = g)" if "g \<in> set (mFields model)" for g
    using unat_diff_eq [of "fID f" "fID g"] pos(2) assms(4,5) that ids by (auto simp: distinct_map dest: inj_onD)
  have "has_bit ?M (unat (fID f) - 1) = (\<exists>g\<in>set ?loc. unat (fID f) - 1 = unat (fID g) - 1)"
    unfolding local_mask(1) [OF lpos] by simp
  also have "\<dots> = (f \<in> set ?loc)" using eqf by (auto simp: local_fields_def)
  finally have bitM: "has_bit ?M (unat (fID f) - 1) = (requested m f \<and> fModule f = [])"
    using assms(5) by (simp add: local_fields_def)
  have "FieldMaskHas (SelectionMaskFields (psMask (qpPrimary p))) (fID f) =
      (requested m f \<and> fModule f = [] \<or> f = qpPrimaryKeyField p)"
    using pos eqf [OF pkin] FieldMaskSet_bit(1,2) [OF pos(1)] bitM by (auto simp: flds pk(2) FieldMaskHas_bit)
  moreover have "selection_nested (psMask (qpPrimary p)) (fID f) = selection_nested m (fID f)"
    if "requested m f \<and> fModule f = []"
  proof -
    have "f \<in> set ?loc" using that assms(5) by (simp add: local_fields_def)
    from nested_children_lookup [OF this ldist, of m] look show ?thesis by (simp add: mask selection_nested_def)
  qed
  moreover have "map esFieldID (qpExtends p) = map fID (filter (\<lambda>f. requested m f \<and> fModule f \<noteq> []) (mFields model))"
    by (simp add: ext extend_fields_def extend_step_def)
  ultimately show ?thesis by blast
qed

section \<open>Example models\<close>

definition plain_field :: "goint \<Rightarrow> string \<Rightarrow> FieldType \<Rightarrow> Field" where
  "plain_field i n t =
     \<lparr>fID = i, fName = n, fType = t, fTypeName = [], fNullable = False, fIsList = False, fRelation = False,
      fPrimaryKey = False, fModule = [], fForeignKey = []\<rparr>"

definition id_field :: Field where
  "id_field = (plain_field 1 ''id'' FieldInt)\<lparr>fPrimaryKey := True\<rparr>"

definition price_field :: Field where
  "price_field = (plain_field 2 ''price'' FieldDecimal)\<lparr>fNullable := True\<rparr>"

definition name_field :: Field where
  "name_field = plain_field 3 ''name'' FieldString"

definition tags_field :: Field where
  "tags_field = (plain_field 5 ''tags'' FieldString)\<lparr>fNullable := True, fIsList := True\<rparr>"

definition posts_field :: Field where
  "posts_field = (plain_field 4 ''posts'' FieldModel)\<lparr>fTypeName := ''Post'', fRelation := True, fIsList := True,
     fModule := ''blog'', fForeignKey := ''userId''\<rparr>"

definition example_model :: Model where
  "example_model = initializeModel
     \<lparr>mName = ''User'', mModule = ''users'', mFields = [id_field, price_field, name_field, posts_field, tags_field],
      mbyID = Map.empty, mbyName = Map.empty\<rparr>"

lemmas example_defs = example_model_def id_field_def price_field_def name_field_def posts_field_def tags_field_def plain_field_def
  initializeModel_def index_by_def

lemma example_model_ok: "model_ok example_model"
  by (simp add: model_ok_def example_defs)

lemma example_fields: "mFields example_model = [id_field, price_field, name_field, posts_field, tags_field]"
  by (simp add: example_model_def initializeModel_def)

lemma example_attributes:
  "fID id_field = 1" "fID price_field = 2" "fID name_field = 3" "fID posts_field = 4" "fID tags_field = 5"
  "fModule id_field = []" "fModule price_field = []" "fModule name_field = []" "fModule posts_field = ''blog''" "fModule tags_field = []"
  "fRelation posts_field" "fForeignKey posts_field = ''userId''" "fType id_field = FieldInt"
  "\<not> fNullable id_field" "\<not> fIsList id_field" "fPrimaryKey id_field"
  by (simp_all add: example_defs)

lemma example_lookup:
  "FieldByID example_model 1 = Some id_field" "FieldByID example_model 2 = Some price_field"
  "FieldByID example_model 3 = Some name_field" "FieldByID example_model 4 = Some posts_field"
  "FieldByID example_model 5 = Some tags_field"
  by (simp_all add: FieldByID_Some [OF example_model_ok] example_fields)
     (simp_all add: example_defs)

section \<open>Properties\<close>

text \<open>C23: When the planner splits a selection, the owning module's mask selects exactly the requested
  fields it owns and the primary key, keeps their nested selections, and the fields of other
  modules that were requested are each resolved once, in schema order.\<close>

theorem Plan_splits_the_selection:
  assumes "Plan (Some model) m api = Inr (Some p)" "model_ok model" "len_ok m"
    "\<forall>f\<in>set (mFields model). 0 < sint (fID f)" "f \<in> set (mFields model)"
  shows "FieldMaskHas (SelectionMaskFields (psMask (qpPrimary p))) (fID f) =
      (requested m f \<and> fModule f = [] \<or> f = qpPrimaryKeyField p) \<and>
    (requested m f \<and> fModule f = [] \<longrightarrow>
      selection_nested (psMask (qpPrimary p)) (fID f) = selection_nested m (fID f)) \<and>
    map esFieldID (qpExtends p) = map fID (filter (\<lambda>f. requested m f \<and> fModule f \<noteq> []) (mFields model))"
  using assms by (rule Plan_selection)

lemma Plan_splits_the_selection_witness:
  "\<exists>p. Plan (Some example_model) [1, 12] ''users'' = Inr (Some p) \<and>
    FieldMaskHas (SelectionMaskFields (psMask (qpPrimary p))) (fID id_field) =
      (requested [1, 12] id_field \<and> fModule id_field = [] \<or> id_field = qpPrimaryKeyField p) \<and>
    map esFieldID (qpExtends p) = map fID (filter (\<lambda>f. requested [1, 12] f \<and> fModule f \<noteq> []) (mFields example_model))"
proof -
  have s: "SplitSelectionMask [1, 12] = Some ([12], [])"
    by (subst SplitSelectionMask.simps) (simp add: ReadVarint_def validSelectionChildren.simps [of "[]"])
  then have n: "selection_nested [1, 12] i = None" for i
    by (simp add: selection_nested_def SelectionMaskNested_def SelectionMaskNested_loop.simps [of "[]"])
  have h: "FieldMaskHas (SelectionMaskFields [1, 12]) i = (i = 3 \<or> i = 4)" if "i \<in> {1, 2, 3, 4, 5}" for i
    using that by (auto simp: SelectionMaskFields_def s FieldMaskHas_def)
  obtain st where "Plan_loop example_model [1, 12] (mFields example_model)
      \<lparr>plExtends = [], plMask = [], plChildren = []\<rparr> = Inr st" "plExtends st \<noteq> []"
    by (simp add: example_fields example_attributes h)
  then have "\<exists>p. Plan (Some example_model) [1, 12] ''users'' = Inr (Some p)"
    by (simp add: Plan_def HasExtendFields_def PrimaryKeyField_def example_fields example_attributes isFederationKeyType_def)
  then obtain p where p: "Plan (Some example_model) [1, 12] ''users'' = Inr (Some p)" by blast
  have "len_ok [1, 12]" by (simp add: len_ok_def max_len_def)
  moreover have "\<forall>f\<in>set (mFields example_model). 0 < sint (fID f)" by (simp add: example_fields) (simp add: example_defs)
  moreover have "id_field \<in> set (mFields example_model)" by (simp add: example_fields)
  ultimately show ?thesis using Plan_splits_the_selection [OF p example_model_ok] p by blast
qed

text \<open>Extracting the primary key of a row returns on every input: the mutual recursion over nested
  models ends, whatever the bytes, the model and the schema are.\<close>

theorem ExtractPrimaryKeys_returns: "\<exists>r. ExtractPrimaryKeys primary key model registry = Some r"
proof -
  have "\<exists>r. ExtractPrimaryKeys_loop (row_fuel d) primary k m s d = Some r" for k m s d
    by (rule ExtractPrimaryKeys_loop_returns) (simp add: row_fuel_def remaining_def)
  then show ?thesis by (auto simp: ExtractPrimaryKeys_def Let_def split: option.split)
qed



text \<open>A nullable decimal in front of the key defeats the extraction: schemaFieldToSkipType ignores its
  presence flag, so the row below, which has price 7 and then id 5, gives no key.\<close>

theorem nullable_decimal_hides_the_key:
  "encode_message [(2, VStringPtr (Some [55])), (1, VInt 5)] = [2, 1, 1, 55, 1, 10, 0] \<and>
   ExtractPrimaryKeys (AppendVarint [] 1 @ encode_message [(2, VStringPtr (Some [55])), (1, VInt 5)])
     (Some id_field) (Some example_model) (Some New) = Some None"
proof -
  have e: "encode_message [(2, VStringPtr (Some [55])), (1, VInt 5)] = [2, 1, 1, 55, 1, 10, 0]"
    by (simp add: encode_message_bytes field_enc_def AppendVarint_unfold ptr_bytes_def AppendString_def
        AppendSvarint_def zigzag_def)
  have none: "FieldByID example_model 55 = None"
    by (simp add: FieldByID_def example_defs)
  let ?p = "[1, 2, 1, 1, 55, 1, 10, 0] :: bytes"
  let ?d = "\<lambda>off i. \<lparr>dbuf = ?p, doff = off, dfieldID = i, derr = None\<rparr>"
  have a: "SkipArenaHeader (NewDecoder ?p) = ?d (Suc 0) 0"
    by (simp add: SkipArenaHeader_def NewDecoder_def ReadVarint_def dec_skip_def)
  have n1: "NextField (?d (Suc 0) 0) = (True, ?d 2 2)" by (simp add: NextField_def ReadVarint_def dec_skip_def)
  have "SkipLenPrefixed (?d 2 2) = ?d 4 2"
    by (simp add: SkipLenPrefixed_def ReadBytes_def ReadVarint_def dec_skip_def Let_def)
  then have s1: "skipSchemaRowField (Suc k) price_field New (?d 2 2) = Some (True, ?d 4 2)" for k
    by (simp add: price_field_def plain_field_def schemaFieldToSkipType_def)
  have n2: "NextField (?d 4 2) = (True, ?d 5 55)" by (simp add: NextField_def ReadVarint_def dec_skip_def)
  have l: "ExtractPrimaryKeys_loop (Suc (Suc (Suc k))) ?p id_field example_model New (?d (Suc 0) 0) = Some None" for k
    by (simp add: n1 n2 s1 none example_lookup FieldID_def id_field_def plain_field_def del: skipSchemaRowField.simps)
  have "row_fuel (?d (Suc 0) 0) = Suc (Suc (Suc 37))" by (simp add: row_fuel_def)
  then have "ExtractPrimaryKeys ?p (Some id_field) (Some example_model) (Some New) = Some None"
    using l [of 37] by (simp only: ExtractPrimaryKeys_def a Let_def)
      (simp add: isFederationKeyType_def id_field_def plain_field_def)
  then show ?thesis by (simp add: e AppendVarint_unfold)
qed



text \<open>C26: Merging resolved columns into a columnar response gives the very message the writer would have
  written with those columns added as byte columns.\<close>

theorem MergeColumnar_is_writer:
  assumes "0 < n" "n \<le> MaxColumnarRecords" "\<forall>fb\<in>set exts. length (snd fb) = n"
  shows "MergeColumnar (encode_columns (of_nat n) cols) (map extend_column_of exts) =
    encode_columns (of_nat n) (cols @ map (apsnd ColBytes) exts)"
  using assms by (rule MergeColumnar_columns)

lemma MergeColumnar_is_writer_witness:
  "MergeColumnar (encode_columns (of_nat 2) [(1, ColInt [5, 6])]) (map extend_column_of [(4, [[1], [2, 3]])]) =
    encode_columns (of_nat 2) ([(1, ColInt [5, 6])] @ map (apsnd ColBytes) [(4, [[1], [2, 3]])])"
  by (rule MergeColumnar_is_writer) (simp_all add: MaxColumnarRecords_def)



text \<open>A nullable list column in front of the key column hides the keys: the column is written as plain
  byte strings but skipped as if each cell had a presence flag, the length 2 of the cell is
  refused as a flag, and no key is found although the response has the key 7.\<close>

theorem nullable_list_column_hides_the_key:
  "encode_columns 1 [(5, ColBytes [[1, 65]]), (1, ColInt [7])] = [1, 0, 5, 2, 1, 65, 1, 14, 0] \<and>
   ExtractPrimaryKeyColumn (encode_columns 1 [(5, ColBytes [[1, 65]]), (1, ColInt [7])])
     (Some id_field) (Some example_model) = None"
proof -
  let ?p = "[1, 0, 5, 2, 1, 65, 1, 14, 0] :: bytes"
  let ?r = "\<lambda>off i. \<lparr>cbuf = ?p, coff = off, ccount = Suc 0, cfieldID = i, carenaSize = 0, cerr = None\<rparr>"
  have e: "encode_columns 1 [(5, ColBytes [[1, 65]]), (1, ColInt [7])] = ?p"
    by (simp add: encode_columns_bytes columns_header_def column_enc_def AppendVarint_unfold AppendBytes_def
        AppendSvarint_def zigzag_def)
  have a: "NewColumnarReader ?p = ?r 2 0"
    by (simp add: NewColumnarReader_def ReadVarint_def Let_def col_move_def MaxColumnarRecords_def MaxArenaSize_def)
  have n1: "NextColumn (?r 2 0) = (True, ?r 3 5)" by (simp add: NextColumn_def ReadVarint_def col_move_def)
  have s1: "cerr (skipColumnarColumn tags_field (?r 3 5)) \<noteq> None"
    by (simp add: skipColumnarColumn_def tags_field_def plain_field_def SkipColumnBytesPtr_def skip_cell_nullable_def
        ReadNullable_def skip_value_def ReadBytes_def ReadVarint_def col_move_def Let_def)
  have "ExtractPrimaryKeyColumn_loop ?p id_field example_model (?r 2 0) = None"
    by (subst ExtractPrimaryKeyColumn_loop.simps)
       (use s1 in \<open>simp add: n1 example_lookup example_attributes Column_FieldID_def Reader_Err_def Let_def\<close>)
  then show ?thesis
    by (simp add: e ExtractPrimaryKeyColumn_def a Reader_Err_def Count_def isFederationKeyType_def example_attributes)
qed

text \<open>The keys taken from an integer key column, wrapped as a request parameter, decode at the other
  service as the list of those integers.\<close>

theorem EncodeParam_decodes:
  assumes "length ks \<le> 1000000" "i \<noteq> 0"
  shows "UnmarshalLuxo [i \<mapsto> KIntArray] (EncodeParam i \<lparr>bkcount = of_nat (length ks), bkvalues = col_enc (ColInt ks)\<rparr>) =
    Inr (Inr [(i, VIntArray ks)])"
proof -
  have "AppendVarint (AppendVarint [] i) (of_nat (length ks)) = AppendVarint [] i @ AppendVarint [] (of_nat (length ks))"
    by (rule AppendVarint_app)
  then have "EncodeParam i \<lparr>bkcount = of_nat (length ks), bkvalues = col_enc (ColInt ks)\<rparr> = encode_message [(i, VIntArray ks)]"
    by (simp add: EncodeParam_def encode_message_bytes field_enc_def array_bytes_def)
  then show ?thesis
    using unmarshal_encoded [of "[i \<mapsto> KIntArray]" "[(i, VIntArray ks)]" "[]"] assms by (simp add: fields_ok_def arr_ok_def list_all_iff)
qed

lemma EncodeParam_decodes_witness:
  "UnmarshalLuxo [1 \<mapsto> KIntArray] (EncodeParam 1 \<lparr>bkcount = of_nat (length [5, 6 :: goint]), bkvalues = col_enc (ColInt [5, 6])\<rparr>) =
    Inr (Inr [(1, VIntArray [5, 6])])"
  by (rule EncodeParam_decodes) simp_all

text \<open>A grouped response is parsed into one blob for each key: for a list field the item count and
  the items, for a single field the first item, and nil for a key with no item.\<close>

theorem ParseGroupedResponse_groups:
  assumes "list_all (\<lambda>items. list_all len_ok items \<and> length items < max_len) gs" "length gs \<le> maxSlice" "length gs < max_len"
  shows "ParseGroupedResponse maxSlice (grouped_enc gs) isList = Inr (Some (map (group_blob isList) gs))"
proof -
  let ?h = "AppendVarint [] (of_nat (length gs) :: u64)"
  have d: "drop 0 (grouped_enc gs) = ?h @ concat (map (\<lambda>items. AppendVarint [] (of_nat (length items)) @ concat (map (AppendBytes []) items)) gs)"
    by (simp add: grouped_enc_def)
  have u: "unat (of_nat (length gs) :: u64) = length gs" using assms(3) by (simp add: unat_le_max_len)
  have "ParseGroupedResponse_loop (grouped_enc gs) isList (length gs) 0 (length ?h) (replicate (length gs) None) =
      take 0 (replicate (length gs) None) @ map (group_blob isList) gs"
    using drop_eq_appendD [OF d] by (intro ParseGroupedResponse_loop_enc [OF assms(1), where rest = "[]"]) simp_all
  moreover have "grouped_enc gs \<noteq> []" by (simp add: grouped_enc_def)
  ultimately show ?thesis using ReadVarint_app [OF d] u assms(2) by (simp add: ParseGroupedResponse_def)
qed

lemma ParseGroupedResponse_groups_witness:
  "ParseGroupedResponse 10 (grouped_enc [[[1, 2], [3]], []]) True = Inr (Some (map (group_blob True) [[[1, 2], [3]], []]))"
  by (rule ParseGroupedResponse_groups) (simp_all add: len_ok_def max_len_def)

text \<open>Ten bytes of grouped response make the gateway panic, whatever memory it has: the key count is
  not bounded before it is given to make.\<close>

theorem ParseGroupedResponse_panics:
  assumes "maxSlice < 2 ^ 63"
  shows "ParseGroupedResponse maxSlice [0x80, 0x80, 0x80, 0x80, 0x80, 0x80, 0x80, 0x80, 0x80, 1] isList =
    Inl (MakeSliceLen (2 ^ 63))"
proof -
  have "ReadVarint [0x80, 0x80, 0x80, 0x80, 0x80, 0x80, 0x80, 0x80, 0x80, 1] 0 = (0x8000000000000000, 10)"
    by (simp add: ReadVarint_def)
  then show ?thesis using assms by (simp add: ParseGroupedResponse_def)
qed

lemma ParseGroupedResponse_panics_witness:
  "ParseGroupedResponse (2 ^ 44) [0x80, 0x80, 0x80, 0x80, 0x80, 0x80, 0x80, 0x80, 0x80, 1] True =
    Inl (MakeSliceLen (2 ^ 63))"
  by (rule ParseGroupedResponse_panics) simp

end
