(* ===== verification/Token.thy ===== *)
theory Token
  imports Prelude "HOL-Library.Char_ord"
begin

text \<open>
  The tokens of the .luxo language, from pkg/token/token.go: the token types in the order of the
  Go constants, their names, the keyword table, source positions and tokens. The Go constant X is
  the constructor T_X. Go compares token types as integers, so the datatype is ordered by the
  position of the constant; IsKeyword is stated with that order, as in the code.

  Text is a byte list; \<open>lit\<close> gives the bytes of a character list.
\<close>

section \<open>Token types\<close>

datatype (plugins only: size) Type =
    T_Illegal | T_EOF | T_Comment | T_DocComment | T_Ident | T_Int | T_Float | T_String
    | T_StringStart | T_StringMid | T_StringEnd | T_Duration | T_Colon | T_LBrace | T_RBrace
    | T_LParen | T_LParen2 | T_RParen | T_LBracket | T_RBracket | T_Comma | T_Dot | T_At
    | T_Question | T_Assign | T_Plus | T_Minus | T_Star | T_Slash | T_Percent | T_Bang | T_Eq
    | T_Neq | T_Gt | T_Gte | T_Lt | T_Lte | T_And | T_Or | T_Arrow | T_DotDot | T_DotDotDot
    | T_Elvis | T_BangElvis | T_SafeDot | T_ChanSend | T_PlusAssign | T_MinusAssign
    | T_StarAssign | T_SlashAssign | T_PercentAssign | T_kwStart | T_Model | T_Interface
    | T_Enum | T_Sealed | T_KwType | T_Fn | T_Api | T_Error | T_Middleware | T_Event | T_Extend
    | T_Override | T_Use | T_Val | T_Var | T_When | T_If | T_Else | T_For | T_In | T_Return
    | T_Break | T_Continue | T_Is | T_On | T_My | T_Async | T_Await | T_Yield | T_Throw | T_Emit
    | T_True | T_False | T_Null | T_kwEnd

definition types :: "Type list" where
  "types =
     [T_Illegal, T_EOF, T_Comment, T_DocComment, T_Ident, T_Int, T_Float, T_String
      , T_StringStart, T_StringMid, T_StringEnd, T_Duration, T_Colon, T_LBrace, T_RBrace
      , T_LParen, T_LParen2, T_RParen, T_LBracket, T_RBracket, T_Comma, T_Dot, T_At, T_Question
      , T_Assign, T_Plus, T_Minus, T_Star, T_Slash, T_Percent, T_Bang, T_Eq, T_Neq, T_Gt, T_Gte
      , T_Lt, T_Lte, T_And, T_Or, T_Arrow, T_DotDot, T_DotDotDot, T_Elvis, T_BangElvis
      , T_SafeDot, T_ChanSend, T_PlusAssign, T_MinusAssign, T_StarAssign, T_SlashAssign
      , T_PercentAssign, T_kwStart, T_Model, T_Interface, T_Enum, T_Sealed, T_KwType, T_Fn
      , T_Api, T_Error, T_Middleware, T_Event, T_Extend, T_Override, T_Use, T_Val, T_Var, T_When
      , T_If, T_Else, T_For, T_In, T_Return, T_Break, T_Continue, T_Is, T_On, T_My, T_Async
      , T_Await, T_Yield, T_Throw, T_Emit, T_True, T_False, T_Null, T_kwEnd]"

primrec type_index :: "Type \<Rightarrow> nat" where
  "type_index T_Illegal = 0"
| "type_index T_EOF = 1"
| "type_index T_Comment = 2"
| "type_index T_DocComment = 3"
| "type_index T_Ident = 4"
| "type_index T_Int = 5"
| "type_index T_Float = 6"
| "type_index T_String = 7"
| "type_index T_StringStart = 8"
| "type_index T_StringMid = 9"
| "type_index T_StringEnd = 10"
| "type_index T_Duration = 11"
| "type_index T_Colon = 12"
| "type_index T_LBrace = 13"
| "type_index T_RBrace = 14"
| "type_index T_LParen = 15"
| "type_index T_LParen2 = 16"
| "type_index T_RParen = 17"
| "type_index T_LBracket = 18"
| "type_index T_RBracket = 19"
| "type_index T_Comma = 20"
| "type_index T_Dot = 21"
| "type_index T_At = 22"
| "type_index T_Question = 23"
| "type_index T_Assign = 24"
| "type_index T_Plus = 25"
| "type_index T_Minus = 26"
| "type_index T_Star = 27"
| "type_index T_Slash = 28"
| "type_index T_Percent = 29"
| "type_index T_Bang = 30"
| "type_index T_Eq = 31"
| "type_index T_Neq = 32"
| "type_index T_Gt = 33"
| "type_index T_Gte = 34"
| "type_index T_Lt = 35"
| "type_index T_Lte = 36"
| "type_index T_And = 37"
| "type_index T_Or = 38"
| "type_index T_Arrow = 39"
| "type_index T_DotDot = 40"
| "type_index T_DotDotDot = 41"
| "type_index T_Elvis = 42"
| "type_index T_BangElvis = 43"
| "type_index T_SafeDot = 44"
| "type_index T_ChanSend = 45"
| "type_index T_PlusAssign = 46"
| "type_index T_MinusAssign = 47"
| "type_index T_StarAssign = 48"
| "type_index T_SlashAssign = 49"
| "type_index T_PercentAssign = 50"
| "type_index T_kwStart = 51"
| "type_index T_Model = 52"
| "type_index T_Interface = 53"
| "type_index T_Enum = 54"
| "type_index T_Sealed = 55"
| "type_index T_KwType = 56"
| "type_index T_Fn = 57"
| "type_index T_Api = 58"
| "type_index T_Error = 59"
| "type_index T_Middleware = 60"
| "type_index T_Event = 61"
| "type_index T_Extend = 62"
| "type_index T_Override = 63"
| "type_index T_Use = 64"
| "type_index T_Val = 65"
| "type_index T_Var = 66"
| "type_index T_When = 67"
| "type_index T_If = 68"
| "type_index T_Else = 69"
| "type_index T_For = 70"
| "type_index T_In = 71"
| "type_index T_Return = 72"
| "type_index T_Break = 73"
| "type_index T_Continue = 74"
| "type_index T_Is = 75"
| "type_index T_On = 76"
| "type_index T_My = 77"
| "type_index T_Async = 78"
| "type_index T_Await = 79"
| "type_index T_Yield = 80"
| "type_index T_Throw = 81"
| "type_index T_Emit = 82"
| "type_index T_True = 83"
| "type_index T_False = 84"
| "type_index T_Null = 85"
| "type_index T_kwEnd = 86"

lemma types_type_index: "types ! type_index t = t"
  by (cases t) (simp_all add: types_def)

lemma type_index_inject: "type_index t = type_index u \<longleftrightarrow> t = u"
  by (metis types_type_index)

instantiation Type :: linorder
begin

definition less_eq_Type :: "Type \<Rightarrow> Type \<Rightarrow> bool" where
  "less_eq_Type t u = (type_index t \<le> type_index u)"

definition less_Type :: "Type \<Rightarrow> Type \<Rightarrow> bool" where
  "less_Type t u = (type_index t < type_index u)"

instance
  by standard (auto simp: less_eq_Type_def less_Type_def type_index_inject)

end

instantiation Type :: equal
begin

definition equal_Type :: "Type \<Rightarrow> Type \<Rightarrow> bool" where
  "equal_Type t u = (type_index t = type_index u)"

instance
  by standard (simp add: equal_Type_def type_index_inject)

end

section \<open>Names and keywords\<close>

definition lit :: "string \<Rightarrow> bytes" where
  "lit s = map of_char s"

definition tokenNames :: "(Type \<times> bytes) list" where
  "tokenNames =
     [(T_Illegal, lit ''ILLEGAL''), (T_EOF, lit ''EOF''), (T_Comment, lit ''COMMENT''),
      (T_DocComment, lit ''DOC_COMMENT''), (T_Ident, lit ''IDENT''), (T_Int, lit ''INT''),
      (T_Float, lit ''FLOAT''), (T_String, lit ''STRING''),
      (T_StringStart, lit ''STRING_START''), (T_StringMid, lit ''STRING_MID''),
      (T_StringEnd, lit ''STRING_END''), (T_Duration, lit ''DURATION''), (T_Colon, lit '':''),
      (T_LBrace, lit ''{''), (T_RBrace, lit ''}''), (T_LParen, lit ''(''),
      (T_RParen, lit '')''), (T_LBracket, lit ''[''), (T_RBracket, lit '']''),
      (T_Comma, lit '',''), (T_Dot, lit ''.''), (T_At, lit ''@''), (T_Question, lit ''?''),
      (T_Assign, lit ''=''), (T_Plus, lit ''+''), (T_Minus, lit ''-''), (T_Star, lit ''*''),
      (T_Slash, lit ''/''), (T_Percent, lit ''%''), (T_Bang, lit ''!''), (T_Eq, lit ''==''),
      (T_Neq, lit ''!=''), (T_Gt, lit ''>''), (T_Gte, lit ''>=''), (T_Lt, lit ''<''),
      (T_Lte, lit ''<=''), (T_And, lit ''&&''), (T_Or, lit ''||''), (T_Arrow, lit ''->''),
      (T_DotDot, lit ''..''), (T_DotDotDot, lit ''...''), (T_Elvis, lit ''?:''),
      (T_BangElvis, lit ''!:''), (T_SafeDot, lit ''?.''), (T_ChanSend, lit ''<-''),
      (T_PlusAssign, lit ''+=''), (T_MinusAssign, lit ''-=''), (T_StarAssign, lit ''*=''),
      (T_SlashAssign, lit ''/=''), (T_PercentAssign, lit ''%=''), (T_Model, lit ''model''),
      (T_Interface, lit ''interface''), (T_Enum, lit ''enum''), (T_Sealed, lit ''sealed''),
      (T_KwType, lit ''type''), (T_Fn, lit ''fn''), (T_Api, lit ''api''),
      (T_Error, lit ''error''), (T_Middleware, lit ''middleware''), (T_Event, lit ''event''),
      (T_Extend, lit ''extend''), (T_Override, lit ''override''), (T_Use, lit ''use''),
      (T_Val, lit ''val''), (T_Var, lit ''var''), (T_When, lit ''when''), (T_If, lit ''if''),
      (T_Else, lit ''else''), (T_For, lit ''for''), (T_In, lit ''in''),
      (T_Return, lit ''return''), (T_Break, lit ''break''), (T_Continue, lit ''continue''),
      (T_Is, lit ''is''), (T_On, lit ''on''), (T_My, lit ''my''), (T_Async, lit ''async''),
      (T_Await, lit ''await''), (T_Yield, lit ''yield''), (T_Throw, lit ''throw''),
      (T_Emit, lit ''emit''), (T_True, lit ''true''), (T_False, lit ''false''),
      (T_Null, lit ''null'')]"

definition Type_String :: "Type \<Rightarrow> bytes" where
  "Type_String t = (case map_of tokenNames t of Some s \<Rightarrow> s | None \<Rightarrow> lit ''UNKNOWN'')"

definition keyword_table :: "(bytes \<times> Type) list" where
  "keyword_table =
     [(lit ''model'', T_Model), (lit ''interface'', T_Interface), (lit ''enum'', T_Enum)
      , (lit ''sealed'', T_Sealed), (lit ''type'', T_KwType), (lit ''fn'', T_Fn)
      , (lit ''api'', T_Api), (lit ''error'', T_Error), (lit ''middleware'', T_Middleware)
      , (lit ''event'', T_Event), (lit ''extend'', T_Extend), (lit ''override'', T_Override)
      , (lit ''use'', T_Use), (lit ''val'', T_Val), (lit ''var'', T_Var), (lit ''when'', T_When)
      , (lit ''if'', T_If), (lit ''else'', T_Else), (lit ''for'', T_For), (lit ''in'', T_In)
      , (lit ''return'', T_Return), (lit ''break'', T_Break), (lit ''continue'', T_Continue)
      , (lit ''is'', T_Is), (lit ''on'', T_On), (lit ''my'', T_My), (lit ''async'', T_Async)
      , (lit ''await'', T_Await), (lit ''yield'', T_Yield), (lit ''throw'', T_Throw)
      , (lit ''emit'', T_Emit), (lit ''true'', T_True), (lit ''false'', T_False)
      , (lit ''null'', T_Null)]"

definition LookupKeyword :: "bytes \<Rightarrow> Type" where
  "LookupKeyword ident = (case map_of keyword_table ident of Some tok \<Rightarrow> tok | None \<Rightarrow> T_Ident)"

definition IsKeyword :: "Type \<Rightarrow> bool" where
  "IsKeyword t = (t > T_kwStart \<and> t < T_kwEnd)"

section \<open>Positions and tokens\<close>

record Position =
  File :: bytes
  Line :: nat
  Col :: nat
  Offset :: nat

text \<open>Line and column numbers are counted from 1, so itoa only meets positive numbers.\<close>

fun itoa :: "nat \<Rightarrow> bytes" where
  "itoa i = (if i < 10 then [0x30 + of_nat i] else itoa (i div 10) @ [0x30 + of_nat (i mod 10)])"

declare itoa.simps [simp del]

text \<open>Numbers as fmt prints them.\<close>

definition int_text :: "int \<Rightarrow> bytes" where
  "int_text i = (if i < 0 then lit ''-'' @ itoa (nat (- i)) else itoa (nat i))"

definition Position_String :: "Position \<Rightarrow> bytes" where
  "Position_String p =
     (if File p \<noteq> [] then File p @ lit '':'' @ itoa (Line p) @ lit '':'' @ itoa (Col p)
      else itoa (Line p) @ lit '':'' @ itoa (Col p))"

record Token =
  tokType :: Type
  tokVal :: bytes
  tokPos :: Position

definition Token_String :: "Token \<Rightarrow> bytes" where
  "Token_String t =
     (if tokVal t \<noteq> [] then Type_String (tokType t) @ lit ''('' @ tokVal t @ lit '')''
      else Type_String (tokType t))"

section \<open>Keywords\<close>

lemma lit_simps: "lit [] = []" "lit (c # s) = of_char c # lit s"
  by (simp_all add: lit_def)

lemma of_char_inject: "(of_char c :: byte) = of_char d \<longleftrightarrow> c = d"
proof
  assume e: "(of_char c :: byte) = of_char d"
  have "unat (of_char c :: byte) = of_char c" for c
    using unat_of_nat [of "of_char c :: nat", where 'a = 8] nat_of_char_less_256 [of c]
    by (simp add: of_nat_of_char take_bit_nat_eq_self)
  with e have "(of_char c :: nat) = of_char d" by metis
  then have "char_of (of_char c :: nat) = (char_of (of_char d :: nat) :: char)" by simp
  then show "c = d" by simp
qed simp

lemma lit_inject [simp]: "lit s = lit t \<longleftrightarrow> s = t"
  by (simp add: lit_def inj_map_eq_map inj_def of_char_inject)

lemma IsKeyword_index: "IsKeyword t \<longleftrightarrow> 51 < type_index t \<and> type_index t < 86"
  by (simp add: IsKeyword_def less_Type_def)

lemma keyword_names: "map prod.swap keyword_table = drop 50 tokenNames"
  by (simp add: keyword_table_def tokenNames_def)

lemma distinct_keywords: "distinct (map fst keyword_table)"
  by (simp add: keyword_table_def)

lemma distinct_tokenNames: "distinct (map fst tokenNames)"
  by (simp add: tokenNames_def)

lemma keyword_types: "list_all IsKeyword (map snd keyword_table)" "IsKeyword t \<Longrightarrow> t \<in> set (map snd keyword_table)"
  subgoal by (simp add: keyword_table_def IsKeyword_index)
  subgoal by (cases t) (simp_all add: keyword_table_def IsKeyword_index)
  done

lemma keyword_table_IsKeyword: "(s, t) \<in> set keyword_table \<Longrightarrow> IsKeyword t \<and> Type_String t = s"
proof
  assume st: "(s, t) \<in> set keyword_table"
  show "IsKeyword t" using st keyword_types(1) by (force simp: list_all_iff)
  have "(t, s) \<in> set (map prod.swap keyword_table)" using st by force
  then have "(t, s) \<in> set tokenNames" unfolding keyword_names by (rule in_set_dropD)
  then show "Type_String t = s" using distinct_tokenNames by (simp add: Type_String_def)
qed

lemma LookupKeyword_String: "IsKeyword t \<Longrightarrow> LookupKeyword (Type_String t) = t"
proof -
  assume "IsKeyword t"
  then obtain s where st: "(s, t) \<in> set keyword_table" using keyword_types(2) by force
  with keyword_table_IsKeyword have "Type_String t = s" by blast
  with st distinct_keywords show ?thesis by (simp add: LookupKeyword_def)
qed

lemma LookupKeyword_cases: "LookupKeyword s = T_Ident \<or> IsKeyword (LookupKeyword s) \<and> Type_String (LookupKeyword s) = s"
  using keyword_table_IsKeyword [of s] by (auto simp: LookupKeyword_def dest!: map_of_SomeD split: option.split)

end
