(* ===== verification/Utf8.thy ===== *)
theory Utf8
  imports Prelude
begin

text \<open>
  UTF-8 as the Go library decodes and encodes it: unicode/utf8.DecodeRuneInString and the
  conversion string(rune). A rune is a natural number. An ill-formed sequence decodes as
  RuneError with width 1, an empty string as RuneError with width 0.
\<close>

type_synonym rune = nat

definition RuneError :: rune where
  "RuneError = 0xFFFD"

text \<open>The width announced by a first byte; 0 for a byte that starts no rune.\<close>

definition rune_width :: "byte \<Rightarrow> nat" where
  "rune_width b =
     (if b < 0x80 then 1 else if b < 0xC2 then 0 else if b < 0xE0 then 2
      else if b < 0xF0 then 3 else if b < 0xF5 then 4 else 0)"

definition continuation :: "byte \<Rightarrow> bool" where
  "continuation b = (0x80 \<le> b \<and> b < 0xC0)"

text \<open>The second byte excludes overlong forms, surrogates and values above 0x10FFFF.\<close>

definition second_ok :: "byte \<Rightarrow> byte \<Rightarrow> bool" where
  "second_ok b0 b1 =
     (continuation b1 \<and> (b0 = 0xE0 \<longrightarrow> 0xA0 \<le> b1) \<and> (b0 = 0xED \<longrightarrow> b1 < 0xA0) \<and>
      (b0 = 0xF0 \<longrightarrow> 0x90 \<le> b1) \<and> (b0 = 0xF4 \<longrightarrow> b1 < 0x90))"

definition low6 :: "byte \<Rightarrow> nat" where
  "low6 b = unat b mod 64"

fun DecodeRune :: "bytes \<Rightarrow> rune \<times> nat" where
  "DecodeRune [] = (RuneError, 0)"
| "DecodeRune (b0 # bs) =
     (if b0 < 0x80 then (unat b0, 1)
      else if rune_width b0 = 2 then
        (case bs of b1 # _ \<Rightarrow>
           if second_ok b0 b1 then (unat b0 mod 32 * 64 + low6 b1, 2) else (RuneError, 1)
         | _ \<Rightarrow> (RuneError, 1))
      else if rune_width b0 = 3 then
        (case bs of b1 # b2 # _ \<Rightarrow>
           if second_ok b0 b1 \<and> continuation b2
           then (unat b0 mod 16 * 4096 + low6 b1 * 64 + low6 b2, 3) else (RuneError, 1)
         | _ \<Rightarrow> (RuneError, 1))
      else if rune_width b0 = 4 then
        (case bs of b1 # b2 # b3 # _ \<Rightarrow>
           if second_ok b0 b1 \<and> continuation b2 \<and> continuation b3
           then (unat b0 mod 8 * 262144 + low6 b1 * 4096 + low6 b2 * 64 + low6 b3, 4)
           else (RuneError, 1)
         | _ \<Rightarrow> (RuneError, 1))
      else (RuneError, 1))"

definition EncodeRune :: "rune \<Rightarrow> bytes" where
  "EncodeRune r =
     (if r < 0x80 then [of_nat r]
      else if r < 0x800 then [of_nat (0xC0 + r div 64), of_nat (0x80 + r mod 64)]
      else if 0xD800 \<le> r \<and> r < 0xE000 \<or> 0x10FFFF < r then [0xEF, 0xBF, 0xBD]
      else if r < 0x10000 then
        [of_nat (0xE0 + r div 4096), of_nat (0x80 + r div 64 mod 64), of_nat (0x80 + r mod 64)]
      else
        [of_nat (0xF0 + r div 262144), of_nat (0x80 + r div 4096 mod 64),
         of_nat (0x80 + r div 64 mod 64), of_nat (0x80 + r mod 64)])"

section \<open>What a decoded rune takes up\<close>

lemma byte_less: "(b :: byte) < w \<longleftrightarrow> unat b < unat w" "b \<le> w \<longleftrightarrow> unat b \<le> unat w"
  by (simp_all add: word_less_nat_alt word_le_nat_alt)

lemma byte_unat_less [simp]: "unat (b :: byte) < 256"
  using unsigned_less [of b, where ?'a = nat] by simp

lemma byte_eq_numeral: "(b :: byte) = numeral n \<longleftrightarrow> unat b = unat (numeral n :: byte)"
  by (rule word_unat_eq_iff)

lemmas rune_byte_defs = rune_width_def second_ok_def continuation_def byte_less byte_eq_numeral

lemma mod_between: "\<lbrakk>k * d + e \<le> n; n < Suc k * d\<rbrakk> \<Longrightarrow> e \<le> n mod (d :: nat)"
proof -
  assume n: "k * d + e \<le> n" "n < Suc k * d"
  then have "n div d = k" by (intro div_nat_eqI) (simp_all add: mult.commute)
  then show ?thesis using n(1) div_mult_mod_eq [of n d] by simp
qed

lemma three_bytes_not_ascii:
  assumes "224 \<le> n0" "n0 < (240 :: nat)" "n0 = 224 \<longrightarrow> 160 \<le> n1" "n1 < 192"
  shows "128 \<le> n0 mod 16 * 4096 + n1 mod 64 * 64 + x"
proof (cases "n0 = 224")
  case True
  then have "160 \<le> n1" using assms by simp
  with assms(4) have "32 \<le> n1 mod 64" by (intro mod_between [of 2]) simp_all
  then show ?thesis by simp
next
  case False
  with assms(1,2) have "1 \<le> n0 mod 16" by (intro mod_between [of 14]) simp_all
  then show ?thesis by linarith
qed

lemma four_bytes_not_ascii:
  assumes "240 \<le> n0" "n0 < (245 :: nat)" "n0 = 240 \<longrightarrow> 144 \<le> n1" "n1 < 192"
  shows "128 \<le> n0 mod 8 * 262144 + n1 mod 64 * 4096 + x * 64 + y"
proof (cases "n0 = 240")
  case True
  then have "144 \<le> n1" using assms by simp
  with assms(4) have "16 \<le> n1 mod 64" by (intro mod_between [of 2]) simp_all
  then show ?thesis by simp
next
  case False
  with assms(1,2) have "1 \<le> n0 mod 8" by (intro mod_between [of 30]) simp_all
  then show ?thesis by linarith
qed

lemma DecodeRune_multi:
  assumes nb: "\<not> b0 < 0x80" and ne: "DecodeRune (b0 # bs) \<noteq> (RuneError, 1)"
  obtains ks rest r where "bs = ks @ rest" "ks \<noteq> []" "list_all continuation ks"
      "length ks < 4" "DecodeRune (b0 # bs) = (r, Suc (length ks))" "0x80 \<le> r"
proof -
  consider (two) "rune_width b0 = 2" | (three) "rune_width b0 = 3" | (four) "rune_width b0 = 4"
    using ne nb by (auto split: if_splits)
  then show thesis
  proof cases
    case two
    with ne nb obtain b1 rest where b: "bs = b1 # rest" "second_ok b0 b1"
      by (auto split: list.splits if_splits)
    have "194 \<le> unat b0" "unat b0 < 224" using two nb by (auto simp: rune_byte_defs split: if_splits)
    then have "2 \<le> unat b0 mod 32" by (intro mod_between [of 6]) simp_all
    then have "128 \<le> unat b0 mod 32 * 64 + low6 b1" by linarith
    with b two nb show thesis by (intro that [of "[b1]"]) (simp_all add: second_ok_def)
  next
    case three
    with ne nb obtain b1 b2 rest where b: "bs = b1 # b2 # rest" "second_ok b0 b1" "continuation b2"
      by (auto split: list.splits if_splits)
    have "224 \<le> unat b0" "unat b0 < 240" "unat b0 = 224 \<longrightarrow> 160 \<le> unat b1" "unat b1 < 192"
      using three nb b(2) by (auto simp: rune_byte_defs split: if_splits)
    then have "128 \<le> unat b0 mod 16 * 4096 + low6 b1 * 64 + low6 b2"
      unfolding low6_def by (rule three_bytes_not_ascii)
    with b three nb show thesis by (intro that [of "[b1, b2]"]) (simp_all add: second_ok_def)
  next
    case four
    with ne nb obtain b1 b2 b3 rest where b: "bs = b1 # b2 # b3 # rest" "second_ok b0 b1" "continuation b2" "continuation b3"
      by (auto split: list.splits if_splits)
    have "240 \<le> unat b0" "unat b0 < 245" "unat b0 = 240 \<longrightarrow> 144 \<le> unat b1" "unat b1 < 192"
      using four nb b(2) by (auto simp: rune_byte_defs split: if_splits)
    then have "128 \<le> unat b0 mod 8 * 262144 + low6 b1 * 4096 + low6 b2 * 64 + low6 b3"
      unfolding low6_def by (rule four_bytes_not_ascii)
    with b four nb show thesis by (intro that [of "[b1, b2, b3]"]) (simp_all add: second_ok_def)
  qed
qed

text \<open>Every way DecodeRune can come out on a non-empty string.\<close>

lemma DecodeRune_cases:
  obtains (ascii) "b0 < 0x80" "DecodeRune (b0 # bs) = (unat b0, 1)"
  | (invalid) "\<not> b0 < 0x80" "DecodeRune (b0 # bs) = (RuneError, 1)"
  | (multi) ks rest r where "\<not> b0 < 0x80" "bs = ks @ rest" "ks \<noteq> []" "list_all continuation ks"
      "length ks < 4" "DecodeRune (b0 # bs) = (r, Suc (length ks))" "0x80 \<le> r"
proof -
  consider "b0 < 0x80" | "\<not> b0 < 0x80" "DecodeRune (b0 # bs) = (RuneError, 1)"
    | "\<not> b0 < 0x80" "DecodeRune (b0 # bs) \<noteq> (RuneError, 1)"
    by blast
  then show thesis
  proof cases
    case 1
    then show thesis by (intro ascii) simp_all
  next
    case 2
    then show thesis by (rule invalid)
  next
    case 3
    then show thesis using DecodeRune_multi [of b0 bs] multi by blast
  qed
qed

lemma DecodeRune_width: "bs \<noteq> [] \<Longrightarrow> 0 < snd (DecodeRune bs) \<and> snd (DecodeRune bs) \<le> length bs"
proof -
  assume "bs \<noteq> []"
  then obtain b0 r where "bs = b0 # r" by (cases bs) auto
  then show ?thesis by (simp only:) (rule DecodeRune_cases [of b0 r]; simp del: DecodeRune.simps)
qed

text \<open>A decoded ASCII rune is the first byte, and no other byte of a rune is below 0x80.\<close>

lemma DecodeRune_ascii: "fst (DecodeRune (b0 # bs)) < 0x80 \<Longrightarrow> DecodeRune (b0 # bs) = (unat b0, 1) \<and> b0 < 0x80"
  by (rule DecodeRune_cases [of b0 bs]) (simp_all del: DecodeRune.simps add: RuneError_def)

lemma DecodeRune_tail:
  assumes "b \<in> set (take (snd (DecodeRune (b0 # bs)) - 1) bs)"
  shows "0x80 \<le> b"
  using assms
  by (rule_tac DecodeRune_cases [of b0 bs]) (auto simp del: DecodeRune.simps simp: list_all_iff continuation_def)

lemma DecodeRune_Cons_ascii [simp]: "b < 0x80 \<Longrightarrow> DecodeRune (b # bs) = (unat b, 1)"
  by simp

declare DecodeRune.simps(2) [simp del]

end
