(* ===== verification/Lexer.thy ===== *)
theory Lexer
  imports Token Utf8
begin

text \<open>
  The lexer of .luxo sources, pkg/lexer/lexer.go: its state, one function per method, and
  Tokenize. A method that moves the lexer returns it updated; one that makes a token returns
  the token with it. The messages of lexer errors are a datatype.

  The argument letter stands for the Unicode table of unicode.IsLetter, which is false of the
  rune 0.
\<close>

section \<open>State\<close>

datatype lex_message =
    UnexpectedCharacter rune | UnexpectedAmpersand | UnexpectedPipe
  | UnterminatedString | UnterminatedComment

record LexError =
  ePos :: Position
  eMessage :: lex_message

record Lexer =
  lsource :: bytes
  lfile :: bytes
  lpos :: nat
  lline :: nat
  lcol :: nat
  ltokens :: "Token list"
  lerrors :: "LexError list"
  braceDepth :: int
  interpStack :: "int list"

definition New_Lexer :: "bytes \<Rightarrow> bytes \<Rightarrow> Lexer" where
  "New_Lexer src file =
     \<lparr>lsource = src, lfile = file, lpos = 0, lline = 1, lcol = 1, ltokens = [], lerrors = [],
      braceDepth = 0, interpStack = []\<rparr>"

text \<open>A character constant as a rune.\<close>

abbreviation rn :: "char \<Rightarrow> rune" where
  "rn c \<equiv> of_char c"

definition isDigit :: "rune \<Rightarrow> bool" where
  "isDigit ch = (rn CHR ''0'' \<le> ch \<and> ch \<le> rn CHR ''9'')"

definition isLetter :: "(rune \<Rightarrow> bool) \<Rightarrow> rune \<Rightarrow> bool" where
  "isLetter letter ch = (ch \<noteq> 0 \<and> letter ch)"

section \<open>Reading the source\<close>

definition peek :: "Lexer \<Rightarrow> rune" where
  "peek l = (if lpos l \<ge> length (lsource l) then 0 else fst (DecodeRune (drop (lpos l) (lsource l))))"

definition peekAt :: "nat \<Rightarrow> Lexer \<Rightarrow> rune" where
  "peekAt off l =
     (let p = lpos l + off in
      if p \<ge> length (lsource l) then 0 else fst (DecodeRune (drop p (lsource l))))"

definition advance :: "Lexer \<Rightarrow> Lexer" where
  "advance l =
     (if lpos l \<ge> length (lsource l) then l
      else case DecodeRune (drop (lpos l) (lsource l)) of (r, sz) \<Rightarrow>
        let l1 = (if r = 0x0A then l\<lparr>lline := lline l + 1, lcol := 1\<rparr> else l\<lparr>lcol := lcol l + 1\<rparr>)
        in l1\<lparr>lpos := lpos l + sz\<rparr>)"

lemma advance_pos: "lpos l < length (lsource l) \<Longrightarrow> lpos l < lpos (advance l) \<and> lpos (advance l) \<le> length (lsource l)"
  using DecodeRune_width [of "drop (lpos l) (lsource l)"]
  by (cases "DecodeRune (drop (lpos l) (lsource l))") (auto simp: advance_def Let_def)

text \<open>How much of the source is left.\<close>

definition lex_left :: "Lexer \<Rightarrow> nat" where
  "lex_left l = length (lsource l) - lpos l"

lemma advance_frame [simp]:
  "lsource (advance l) = lsource l" "lfile (advance l) = lfile l" "ltokens (advance l) = ltokens l"
  "lerrors (advance l) = lerrors l" "braceDepth (advance l) = braceDepth l" "interpStack (advance l) = interpStack l"
  by (simp_all add: advance_def Let_def split: prod.split)

lemma advance_pos_le: "lpos l \<le> lpos (advance l)"
  using advance_pos [of l] by (cases "lpos l < length (lsource l)") (simp_all add: advance_def)

lemma advance_left: "lpos l < length (lsource l) \<Longrightarrow> lex_left (advance l) < lex_left l"
  using advance_pos [of l] by (simp add: lex_left_def diff_less_mono2)

lemma advance_twice_left: "lpos l < length (lsource l) \<Longrightarrow> lex_left (advance (advance l)) < lex_left l"
  using advance_left [of l] advance_pos_le [of "advance l"] by (simp add: lex_left_def)

text \<open>The loops that advance while the next rune has a property. At the end of the source
  peek is 0, of which every property the code uses is false, so the loops end there.\<close>

function advance_while :: "(rune \<Rightarrow> bool) \<Rightarrow> Lexer \<Rightarrow> Lexer" where
  "advance_while P l =
     (if lpos l < length (lsource l) \<and> P (peek l) then advance_while P (advance l) else l)"
  by pat_completeness auto
termination
  by (relation "measure (\<lambda>(P, l). lex_left l)") (simp_all add: advance_left)

declare advance_while.simps [simp del]

definition skipWhitespace :: "Lexer \<Rightarrow> Lexer" where
  "skipWhitespace = advance_while (\<lambda>ch. ch = rn CHR '' '' \<or> ch = 0x09 \<or> ch = 0x0D \<or> ch = 0x0A)"

definition position :: "Lexer \<Rightarrow> Position" where
  "position l = \<lparr>File = lfile l, Line = lline l, Col = lcol l, Offset = lpos l\<rparr>"

definition makeToken :: "Type \<Rightarrow> bytes \<Rightarrow> Position \<Rightarrow> Token" where
  "makeToken typ val p = \<lparr>tokType = typ, tokVal = val, tokPos = p\<rparr>"

definition lex_error :: "Position \<Rightarrow> lex_message \<Rightarrow> Lexer \<Rightarrow> Lexer" where
  "lex_error p msg l = l\<lparr>lerrors := lerrors l @ [\<lparr>ePos = p, eMessage = msg\<rparr>]\<rparr>"

text \<open>The Go slice l.source[start:l.pos].\<close>

definition source_from :: "nat \<Rightarrow> Lexer \<Rightarrow> bytes" where
  "source_from start l = take (lpos l - start) (drop start (lsource l))"

section \<open>String interpolation\<close>

definition inInterpolation :: "Lexer \<Rightarrow> bool" where
  "inInterpolation l = (interpStack l \<noteq> [])"

definition interpTop :: "Lexer \<Rightarrow> int" where
  "interpTop l = last (interpStack l)"

definition pushInterp :: "Lexer \<Rightarrow> Lexer" where
  "pushInterp l = l\<lparr>interpStack := interpStack l @ [braceDepth l]\<rparr>"

definition popInterp :: "Lexer \<Rightarrow> Lexer" where
  "popInterp l = l\<lparr>interpStack := butlast (interpStack l)\<rparr>"

section \<open>Operators\<close>

definition readSingleChar :: "rune \<Rightarrow> Position \<Rightarrow> Lexer \<Rightarrow> (Token \<times> Lexer) option" where
  "readSingleChar ch p l =
     (let token = (\<lambda>typ l'. Some (makeToken typ (EncodeRune ch) p, advance l')) in
      if ch = rn CHR '':'' then token T_Colon l
      else if ch = rn CHR ''{'' then token T_LBrace (l\<lparr>braceDepth := braceDepth l + 1\<rparr>)
      else if ch = rn CHR ''}'' then token T_RBrace (l\<lparr>braceDepth := braceDepth l - 1\<rparr>)
      else if ch = rn CHR ''('' then token T_LParen l
      else if ch = rn CHR '')'' then token T_RParen l
      else if ch = rn CHR ''['' then token T_LBracket l
      else if ch = rn CHR '']'' then token T_RBracket l
      else if ch = rn CHR '','' then token T_Comma l
      else if ch = rn CHR ''@'' then token T_At l
      else None)"

definition readCompoundAssign ::
  "Position \<Rightarrow> Type \<Rightarrow> bytes \<Rightarrow> Type \<Rightarrow> bytes \<Rightarrow> Lexer \<Rightarrow> Token \<times> Lexer" where
  "readCompoundAssign p simpleType simpleLit assignType assignLit l =
     (let l1 = advance l in
      if peek l1 = rn CHR ''='' then (makeToken assignType assignLit p, advance l1)
      else (makeToken simpleType simpleLit p, l1))"

definition readDotOrRange :: "Position \<Rightarrow> Lexer \<Rightarrow> Token \<times> Lexer" where
  "readDotOrRange p l =
     (let l1 = advance l in
      if peek l1 = rn CHR ''.'' then
        (let l2 = advance l1 in
         if peek l2 = rn CHR ''.'' then (makeToken T_DotDotDot (lit ''...'') p, advance l2)
         else (makeToken T_DotDot (lit ''..'') p, l2))
      else (makeToken T_Dot (lit ''.'') p, l1))"

definition readQuestion :: "Position \<Rightarrow> Lexer \<Rightarrow> Token \<times> Lexer" where
  "readQuestion p l =
     (let l1 = advance l in
      if peek l1 = rn CHR '':'' then (makeToken T_Elvis (lit ''?:'') p, advance l1)
      else if peek l1 = rn CHR ''.'' then (makeToken T_SafeDot (lit ''?.'') p, advance l1)
      else (makeToken T_Question (lit ''?'') p, l1))"

definition readEquals :: "Position \<Rightarrow> Lexer \<Rightarrow> Token \<times> Lexer" where
  "readEquals p l =
     (let l1 = advance l in
      if peek l1 = rn CHR ''='' then (makeToken T_Eq (lit ''=='') p, advance l1)
      else (makeToken T_Assign (lit ''='') p, l1))"

definition readBang :: "Position \<Rightarrow> Lexer \<Rightarrow> Token \<times> Lexer" where
  "readBang p l =
     (let l1 = advance l in
      if peek l1 = rn CHR ''='' then (makeToken T_Neq (lit ''!='') p, advance l1)
      else if peek l1 = rn CHR '':'' then (makeToken T_BangElvis (lit ''!:'') p, advance l1)
      else (makeToken T_Bang (lit ''!'') p, l1))"

definition readGreater :: "Position \<Rightarrow> Lexer \<Rightarrow> Token \<times> Lexer" where
  "readGreater p l =
     (let l1 = advance l in
      if peek l1 = rn CHR ''='' then (makeToken T_Gte (lit ''>='') p, advance l1)
      else (makeToken T_Gt (lit ''>'') p, l1))"

definition readLess :: "Position \<Rightarrow> Lexer \<Rightarrow> Token \<times> Lexer" where
  "readLess p l =
     (let l1 = advance l in
      if peek l1 = rn CHR ''='' then (makeToken T_Lte (lit ''<='') p, advance l1)
      else if peek l1 = rn CHR ''-'' then (makeToken T_ChanSend (lit ''<-'') p, advance l1)
      else (makeToken T_Lt (lit ''<'') p, l1))"

definition readAmpersand :: "Position \<Rightarrow> Lexer \<Rightarrow> Token \<times> Lexer" where
  "readAmpersand p l =
     (let l1 = advance l in
      if peek l1 = rn CHR ''&'' then (makeToken T_And (lit ''&&'') p, advance l1)
      else (makeToken T_Illegal (lit ''&'') p, lex_error p UnexpectedAmpersand l1))"

definition readPipe :: "Position \<Rightarrow> Lexer \<Rightarrow> Token \<times> Lexer" where
  "readPipe p l =
     (let l1 = advance l in
      if peek l1 = rn CHR ''|'' then (makeToken T_Or (lit ''||'') p, advance l1)
      else (makeToken T_Illegal (lit ''|'') p, lex_error p UnexpectedPipe l1))"

definition readMinus :: "Position \<Rightarrow> Lexer \<Rightarrow> Token \<times> Lexer" where
  "readMinus p l =
     (let l1 = advance l in
      if peek l1 = rn CHR ''>'' then (makeToken T_Arrow (lit ''->'') p, advance l1)
      else if peek l1 = rn CHR ''='' then (makeToken T_MinusAssign (lit ''-='') p, advance l1)
      else (makeToken T_Minus (lit ''-'') p, l1))"

section \<open>Comments\<close>

definition comment_char :: "rune \<Rightarrow> bool" where
  "comment_char ch = (ch \<noteq> 0x0A \<and> ch \<noteq> 0)"

definition readLineComment :: "Position \<Rightarrow> Lexer \<Rightarrow> Token \<times> Lexer" where
  "readLineComment p l =
     (let l1 = skipWhitespace l; l2 = advance_while comment_char l1
      in (makeToken T_Comment (source_from (lpos l1) l2) p, l2))"

definition readDocComment :: "Position \<Rightarrow> Lexer \<Rightarrow> Token \<times> Lexer" where
  "readDocComment p l =
     (let l1 = skipWhitespace l; l2 = advance_while comment_char l1
      in (makeToken T_DocComment (source_from (lpos l1) l2) p, l2))"

text \<open>The loop of readBlockComment; the Go value l.source[start : l.pos-2] leaves out the closing
  mark. A rune other than 0 is never at the end of the source.\<close>

function readBlockComment_loop :: "Position \<Rightarrow> nat \<Rightarrow> nat \<Rightarrow> Lexer \<Rightarrow> Token \<times> Lexer" where
  "readBlockComment_loop p start depth l =
     (if depth = 0 then
        (makeToken T_Comment (take (lpos l - 2 - start) (drop start (lsource l))) p, l)
      else if lpos l \<ge> length (lsource l) \<or> peek l = 0 then
        (makeToken T_Illegal (source_from start l) p, lex_error p UnterminatedComment l)
      else if peek l = rn CHR ''/'' \<and> peekAt 1 l = rn CHR ''*'' then
        readBlockComment_loop p start (depth + 1) (advance (advance l))
      else if peek l = rn CHR ''*'' \<and> peekAt 1 l = rn CHR ''/'' then
        readBlockComment_loop p start (depth - 1) (advance (advance l))
      else readBlockComment_loop p start depth (advance l))"
  by pat_completeness auto

termination
  by (relation "measure (\<lambda>(p, start, depth, l). lex_left l)") (simp_all add: advance_left advance_twice_left)

declare readBlockComment_loop.simps [simp del]

definition readBlockComment :: "Position \<Rightarrow> Lexer \<Rightarrow> Token \<times> Lexer" where
  "readBlockComment p l = readBlockComment_loop p (lpos l) 1 l"

definition readSlashOrComment :: "Position \<Rightarrow> Lexer \<Rightarrow> Token \<times> Lexer" where
  "readSlashOrComment p l =
     (let l1 = advance l in
      if peek l1 = rn CHR ''/'' then
        (let l2 = advance l1 in
         if peek l2 = rn CHR ''/'' then readDocComment p (advance l2) else readLineComment p l2)
      else if peek l1 = rn CHR ''*'' then readBlockComment p (advance l1)
      else if peek l1 = rn CHR ''='' then (makeToken T_SlashAssign (lit ''/='') p, advance l1)
      else (makeToken T_Slash (lit ''/'') p, l1))"

definition readOperator :: "rune \<Rightarrow> Position \<Rightarrow> Lexer \<Rightarrow> (Token \<times> Lexer) option" where
  "readOperator ch p l =
     (if ch = rn CHR ''+'' then Some (readCompoundAssign p T_Plus (lit ''+'') T_PlusAssign (lit ''+='') l)
      else if ch = rn CHR ''*'' then Some (readCompoundAssign p T_Star (lit ''*'') T_StarAssign (lit ''*='') l)
      else if ch = rn CHR ''%'' then Some (readCompoundAssign p T_Percent (lit ''%'') T_PercentAssign (lit ''%='') l)
      else if ch = rn CHR ''.'' then Some (readDotOrRange p l)
      else if ch = rn CHR ''?'' then Some (readQuestion p l)
      else if ch = rn CHR ''='' then Some (readEquals p l)
      else if ch = rn CHR ''!'' then Some (readBang p l)
      else if ch = rn CHR ''>'' then Some (readGreater p l)
      else if ch = rn CHR ''<'' then Some (readLess p l)
      else if ch = rn CHR ''&'' then Some (readAmpersand p l)
      else if ch = rn CHR ''|'' then Some (readPipe p l)
      else if ch = rn CHR ''-'' then Some (readMinus p l)
      else if ch = rn CHR ''/'' then Some (readSlashOrComment p l)
      else None)"

section \<open>Words, numbers and strings\<close>

definition readIdent :: "(rune \<Rightarrow> bool) \<Rightarrow> Position \<Rightarrow> Lexer \<Rightarrow> Token \<times> Lexer" where
  "readIdent letter p l =
     (let l1 = advance_while (\<lambda>ch. isLetter letter ch \<or> isDigit ch \<or> ch = rn CHR ''_'') l;
          val = source_from (lpos l) l1
      in (makeToken (LookupKeyword val) val p, l1))"

definition readNumber :: "Position \<Rightarrow> Lexer \<Rightarrow> Token \<times> Lexer" where
  "readNumber p l =
     (let l1 = advance_while isDigit l; token = (\<lambda>typ l'. (makeToken typ (source_from (lpos l) l') p, l')) in
      if peek l1 = rn CHR ''.'' \<and> peekAt 1 l1 \<noteq> rn CHR ''.'' then
        token T_Float (advance_while isDigit (advance l1))
      else if peek l1 = rn CHR ''d'' \<or> peek l1 = rn CHR ''h'' \<or> peek l1 = rn CHR ''s'' then
        token T_Duration (advance l1)
      else if peek l1 = rn CHR ''m'' then
        (let l2 = advance l1 in token T_Duration (if peek l2 = rn CHR ''s'' then advance l2 else l2))
      else token T_Int l1)"

function readStringBody_loop :: "Position \<Rightarrow> nat \<Rightarrow> Type \<Rightarrow> Type \<Rightarrow> Lexer \<Rightarrow> Token \<times> Lexer" where
  "readStringBody_loop p start plainType interpType l =
     (if lpos l \<ge> length (lsource l) \<or> peek l = 0 then
        (makeToken T_Illegal (source_from start l) p, lex_error p UnterminatedString l)
      else if peek l = 0x5C then
        readStringBody_loop p start plainType interpType (advance (advance l))
      else if peek l = rn CHR ''$'' \<and> peekAt 1 l = rn CHR ''{'' then
        (let l1 = advance (advance l); l2 = pushInterp (l1\<lparr>braceDepth := braceDepth l1 + 1\<rparr>)
         in (makeToken interpType (source_from start l) p, l2))
      else if peek l = 0x22 then (makeToken plainType (source_from start l) p, advance l)
      else readStringBody_loop p start plainType interpType (advance l))"
  by pat_completeness auto
termination
  by (relation "measure (\<lambda>(p, start, pt, it, l). lex_left l)") (simp_all add: advance_left advance_twice_left)

declare readStringBody_loop.simps [simp del]

definition readStringBody :: "Position \<Rightarrow> Type \<Rightarrow> Type \<Rightarrow> Lexer \<Rightarrow> Token \<times> Lexer" where
  "readStringBody p plainType interpType l = readStringBody_loop p (lpos l) plainType interpType l"

definition readString :: "Position \<Rightarrow> Lexer \<Rightarrow> Token \<times> Lexer" where
  "readString p l = readStringBody p T_String T_StringStart (advance l)"

definition readStringContinuation :: "Position \<Rightarrow> Lexer \<Rightarrow> Token \<times> Lexer" where
  "readStringContinuation p l = readStringBody p T_StringEnd T_StringMid l"

section \<open>Tokens\<close>

definition nextToken :: "(rune \<Rightarrow> bool) \<Rightarrow> Lexer \<Rightarrow> Token \<times> Lexer" where
  "nextToken letter l0 =
     (let l = skipWhitespace l0; p = position l; ch = peek l in
      if ch = 0 then (makeToken T_EOF [] p, l)
      else if ch = rn CHR ''}'' \<and> inInterpolation l \<and> braceDepth l = interpTop l then
        (let l1 = popInterp (advance l)
         in readStringContinuation p (l1\<lparr>braceDepth := braceDepth l1 - 1\<rparr>))
      else case readSingleChar ch p l of Some r \<Rightarrow> r
      | None \<Rightarrow> (case readOperator ch p l of Some r \<Rightarrow> r
      | None \<Rightarrow>
          if ch = 0x22 then readString p l
          else if isDigit ch then readNumber p l
          else if isLetter letter ch \<or> ch = rn CHR ''_'' then readIdent letter p l
          else (makeToken T_Illegal (EncodeRune ch) p, lex_error p (UnexpectedCharacter ch) (advance l))))"

section \<open>Moving over the source\<close>

text \<open>The line is one more than the newlines before the position; in a source of ASCII characters
  the column counts the characters since the last of them.\<close>

definition place_ok :: "bytes \<Rightarrow> nat \<Rightarrow> nat \<Rightarrow> nat \<Rightarrow> bool" where
  "place_ok src off ln cl \<longleftrightarrow>
     off \<le> length src \<and> ln = 1 + count_list (take off src) 0x0A \<and>
     (list_all (\<lambda>b. b < 0x80) src \<longrightarrow> cl = 1 + length (takeWhile (\<lambda>b. b \<noteq> 0x0A) (rev (take off src))))"

definition lex_ok :: "Lexer \<Rightarrow> bool" where
  "lex_ok l = place_ok (lsource l) (lpos l) (lline l) (lcol l)"

text \<open>What every method keeps: the source, and the place of the position in it.\<close>

definition lex_moves :: "Lexer \<Rightarrow> Lexer \<Rightarrow> bool" where
  "lex_moves l l' \<longleftrightarrow>
     lsource l' = lsource l \<and> lfile l' = lfile l \<and> ltokens l' = ltokens l \<and> lpos l \<le> lpos l' \<and>
     (lex_ok l \<longrightarrow> lex_ok l')"

text \<open>What a method keeps that only moves.\<close>

definition lex_skips :: "Lexer \<Rightarrow> Lexer \<Rightarrow> bool" where
  "lex_skips l l' \<longleftrightarrow>
     lex_moves l l' \<and> lerrors l' = lerrors l \<and> braceDepth l' = braceDepth l \<and> interpStack l' = interpStack l"

lemma lex_skips_refl [simp]: "lex_skips l l"
  by (simp add: lex_skips_def lex_moves_def)

lemma lex_skips_trans: "lex_skips l l1 \<Longrightarrow> lex_skips l1 l2 \<Longrightarrow> lex_skips l l2"
  by (auto simp: lex_skips_def lex_moves_def)

text \<open>The bytes one advance consumes: only a newline rune holds a newline byte.\<close>

lemma advance_bytes:
  assumes "lpos l < length (lsource l)"
  obtains b ks rest r where "drop (lpos l) (lsource l) = b # ks @ rest" "lpos (advance l) = lpos l + Suc (length ks)"
    "\<forall>k\<in>set ks. 0x80 \<le> k" "peek l = r" "r = 0x0A \<longleftrightarrow> b = 0x0A" "r < 0x80 \<longrightarrow> ks = [] \<and> b < 0x80 \<and> r = unat b"
    "lline (advance l) = (if r = 0x0A then lline l + 1 else lline l)"
    "lcol (advance l) = (if r = 0x0A then 1 else lcol l + 1)"
proof -
  obtain b bs where d: "drop (lpos l) (lsource l) = b # bs" using assms by (cases "drop (lpos l) (lsource l)") auto
  define r where "r = fst (DecodeRune (b # bs))"
  define w where "w = snd (DecodeRune (b # bs))"
  have rw: "DecodeRune (b # bs) = (r, w)" by (simp add: r_def w_def)
  have w: "0 < w" "w \<le> Suc (length bs)" using DecodeRune_width [of "b # bs"] by (simp_all add: w_def)
  have asc: "r < 0x80 \<longrightarrow> w = 1 \<and> b < 0x80 \<and> r = unat b" using DecodeRune_ascii [of b bs] rw by auto
  have nl: "r = 0x0A \<longleftrightarrow> b = 0x0A"
  proof
    assume "r = 0x0A"
    with asc have "unat b = 0x0A" by simp
    then show "b = 0x0A" by (simp add: byte_eq_numeral)
  next
    assume "b = 0x0A"
    then show "r = 0x0A" by (simp add: r_def)
  qed
  have tl: "\<forall>k\<in>set (take (w - 1) bs). 0x80 \<le> k" using DecodeRune_tail [of _ b bs] by (simp add: w_def)
  have adv: "advance l = (if r = 0x0A then l\<lparr>lline := lline l + 1, lcol := 1\<rparr> else l\<lparr>lcol := lcol l + 1\<rparr>)\<lparr>lpos := lpos l + w\<rparr>"
    using assms by (simp add: advance_def d rw Let_def)
  have len: "Suc (length (take (w - 1) bs)) = w" using w by simp
  show thesis
  proof (rule that [of b "take (w - 1) bs" "drop (w - 1) bs" r])
    show "lpos (advance l) = lpos l + Suc (length (take (w - 1) bs))" unfolding len by (simp add: adv)
    show "peek l = r" using assms by (simp add: peek_def d r_def)
    show "r < 0x80 \<longrightarrow> take (w - 1) bs = [] \<and> b < 0x80 \<and> r = unat b" using asc by simp
  qed (use d nl tl in \<open>simp_all add: adv\<close>)
qed

lemma advance_skips: "lex_skips l (advance l)"
proof (cases "lpos l < length (lsource l)")
  case False
  then show ?thesis by (simp add: advance_def)
next
  case True
  show ?thesis
  proof (rule advance_bytes [OF True])
    fix b ks rest r
    assume d: "drop (lpos l) (lsource l) = b # ks @ rest" and p: "lpos (advance l) = lpos l + Suc (length ks)"
      and ks: "\<forall>k\<in>set ks. 0x80 \<le> k" and nl: "r = 0x0A \<longleftrightarrow> b = 0x0A"
      and asc: "r < 0x80 \<longrightarrow> ks = [] \<and> b < 0x80 \<and> r = unat b"
      and ln: "lline (advance l) = (if r = 0x0A then lline l + 1 else lline l)"
      and cl: "lcol (advance l) = (if r = 0x0A then 1 else lcol l + 1)"
    have t: "take (lpos l + Suc (length ks)) (lsource l) = take (lpos l) (lsource l) @ b # ks"
      unfolding take_add d by simp
    have "0x0A \<notin> set ks" using ks by (auto simp: byte_less)
    then have c: "count_list (take (lpos l + Suc (length ks)) (lsource l)) 0x0A =
        count_list (take (lpos l) (lsource l)) 0x0A + (if b = 0x0A then 1 else 0)"
      by (simp only: t) (simp add: count_list_0_iff)
    have "ks = []" if "list_all (\<lambda>b. b < 0x80) (lsource l)"
    proof -
      have "set ks \<subseteq> set (lsource l)" using d by (metis set_drop_subset set_subset_Cons set_append sup.boundedE sup_ge1 subset_trans)
      then show ?thesis using that ks by (cases ks) (auto simp: list_all_iff byte_less)
    qed
    then have "lex_ok (advance l)" if "lex_ok l"
      using that advance_pos [OF True] c t nl by (auto simp: lex_ok_def place_ok_def p ln cl)
    then show ?thesis by (simp add: lex_skips_def lex_moves_def advance_pos_le)
  qed
qed

lemma advance_while_skips: "lex_skips l (advance_while P l)"
proof (induction P l rule: advance_while.induct)
  case (1 P l)
  then show ?case using lex_skips_trans [OF advance_skips] by (subst advance_while.simps) simp
qed

lemma skipWhitespace_skips: "lex_skips l (skipWhitespace l)"
  by (simp add: skipWhitespace_def advance_while_skips)

lemma peek_nonzero: "peek l \<noteq> 0 \<Longrightarrow> lpos l < length (lsource l)"
  by (simp add: peek_def split: if_splits)

section \<open>What a method that makes a token does\<close>

text \<open>The types of the tokens whose value is the text they were read from.\<close>

definition value_is_text :: "Type \<Rightarrow> bool" where
  "value_is_text t \<longleftrightarrow>
     t \<notin> {T_Illegal, T_EOF, T_Comment, T_DocComment, T_String, T_StringStart, T_StringMid, T_StringEnd}"

text \<open>A token that began at start is read from state l: its position is p, an error is recorded
  for it exactly when it is illegal, and its value is the text consumed when its type says so.\<close>

definition scans :: "Position \<Rightarrow> nat \<Rightarrow> Lexer \<Rightarrow> Token \<times> Lexer \<Rightarrow> bool" where
  "scans p start l r \<longleftrightarrow>
     (case r of (t, l') \<Rightarrow>
        tokPos t = p \<and> tokType t \<noteq> T_EOF \<and> lex_moves l l' \<and> start < lpos l' \<and>
        map ePos (lerrors l') = map ePos (lerrors l) @ (if tokType t = T_Illegal then [p] else []) \<and>
        (value_is_text (tokType t) \<longrightarrow> tokVal t = source_from start l'))"

text \<open>The token leaves the interpolation state alone.\<close>

definition level :: "Lexer \<Rightarrow> Token \<times> Lexer \<Rightarrow> bool" where
  "level l r \<longleftrightarrow> braceDepth (snd r) = braceDepth l \<and> interpStack (snd r) = interpStack l \<and>
     tokType (fst r) \<notin> {T_StringStart, T_StringMid, T_StringEnd}"

lemma Type_eq_iff: "t = u \<longleftrightarrow> type_index t = type_index u"
  by (simp add: type_index_inject)

lemma makeToken_simps [simp]: "tokType (makeToken t v p) = t" "tokVal (makeToken t v p) = v" "tokPos (makeToken t v p) = p"
  by (simp_all add: makeToken_def)

lemma lex_error_simps [simp]:
  "lpos (lex_error p m l) = lpos l" "lsource (lex_error p m l) = lsource l"
  "braceDepth (lex_error p m l) = braceDepth l" "interpStack (lex_error p m l) = interpStack l"
  "map ePos (lerrors (lex_error p m l)) = map ePos (lerrors l) @ [p]" "lex_moves l0 (lex_error p m l) = lex_moves l0 l"
  "source_from a (lex_error p m l) = source_from a l"
  by (simp_all add: lex_error_def lex_moves_def lex_ok_def source_from_def)

lemma lex_skipsD:
  assumes "lex_skips l l'"
  shows "lex_moves l l'" "lerrors l' = lerrors l" "braceDepth l' = braceDepth l" "interpStack l' = interpStack l"
    "lpos l \<le> lpos l'" "lsource l' = lsource l"
  using assms by (simp_all add: lex_skips_def lex_moves_def)

lemma scans_token:
  assumes "lex_skips l l'" "start < lpos l'" "typ \<notin> {T_EOF, T_Illegal}" "value_is_text typ \<Longrightarrow> v = source_from start l'"
  shows "scans p start l (makeToken typ v p, l')"
  using assms by (simp add: scans_def lex_skips_def)

lemma scans_illegal:
  assumes "lex_skips l l'" "start < lpos l'"
  shows "scans p start l (makeToken T_Illegal v p, lex_error p m l')"
  using assms by (simp add: scans_def lex_skips_def value_is_text_def)

lemma level_token: "lex_skips l l' \<Longrightarrow> typ \<notin> {T_StringStart, T_StringMid, T_StringEnd} \<Longrightarrow> level l (makeToken typ v p, l')"
  by (simp add: level_def lex_skips_def)

lemma level_illegal: "lex_skips l l' \<Longrightarrow> level l (makeToken T_Illegal v p, lex_error p m l')"
  by (simp add: level_def lex_skips_def)

text \<open>A method that first moves to l1.\<close>

lemma scans_after: "lex_skips l l1 \<Longrightarrow> scans p start l1 r \<Longrightarrow> scans p start l r"
  by (auto simp: scans_def lex_skips_def lex_moves_def split: prod.splits)

lemma level_after: "lex_skips l l1 \<Longrightarrow> level l1 r \<Longrightarrow> level l r"
  by (simp add: level_def lex_skips_def)

lemma source_from_self [simp]: "source_from (lpos l) l = []"
  by (simp add: source_from_def)

text \<open>Consuming an ASCII character.\<close>

lemma take_Suc_drop: "drop k xs = b # rest \<Longrightarrow> take (Suc k) xs = take k xs @ [b]"
  using take_add [of k 1 xs] by simp

lemma source_from_advance:
  assumes "0 < peek l" "peek l < 0x80" "start \<le> lpos l"
  shows "source_from start (advance l) = source_from start l @ [of_nat (peek l)] \<and> lpos (advance l) = Suc (lpos l)"
proof -
  have "lpos l < length (lsource l)" using assms(1) by (intro peek_nonzero) simp
  then show ?thesis
  proof (rule advance_bytes)
    fix b ks rest r
    assume d: "drop (lpos l) (lsource l) = b # ks @ rest" and p: "lpos (advance l) = lpos l + Suc (length ks)"
      and r: "peek l = r" "r < 0x80 \<longrightarrow> ks = [] \<and> b < 0x80 \<and> r = unat b"
    have ks: "ks = []" and b: "b = of_nat (peek l)" using r assms(2) by simp_all
    have "drop (lpos l - start) (drop start (lsource l)) = b # rest" using d ks assms(3) by simp
    then have "take (Suc (lpos l) - start) (drop start (lsource l)) = take (lpos l - start) (drop start (lsource l)) @ [b]"
      using assms(3) by (simp only: Suc_diff_le take_Suc_drop)
    then show ?thesis using p ks b by (simp add: source_from_def)
  qed
qed

lemmas source_from_ascii = source_from_advance [THEN conjunct1]
  source_from_advance [OF _ _ order_refl, THEN conjunct2]

lemma advance_after: "lex_skips l l' \<Longrightarrow> lex_skips l (advance l')"
  by (rule lex_skips_trans [OF _ advance_skips])

lemma advance_while_after: "lex_skips l l' \<Longrightarrow> lex_skips l (advance_while P l')"
  by (rule lex_skips_trans [OF _ advance_while_skips])

lemma skipWhitespace_after: "lex_skips l l' \<Longrightarrow> lex_skips l (skipWhitespace l')"
  by (rule lex_skips_trans [OF _ skipWhitespace_skips])

lemma rune_of_char: "of_nat (of_char c :: rune) = (of_char c :: byte)"
  by (simp add: of_nat_of_char)

lemmas skips_intros = scans_token scans_illegal level_token level_illegal advance_after advance_while_after
  skipWhitespace_after lex_skips_refl
lemmas scan_simps = source_from_ascii value_is_text_def lit_simps

lemma readDotOrRange_scans: "peek l = rn CHR ''.'' \<Longrightarrow> scans p (lpos l) l (readDotOrRange p l) \<and> level l (readDotOrRange p l)"
  by (auto simp: readDotOrRange_def Let_def scan_simps intro!: skips_intros)

lemma readCompoundAssign_scans:
  assumes "peek l = of_char c" "of_char c < (0x80 :: rune)" "0 < (of_char c :: rune)"
    "typ \<notin> {T_EOF, T_Illegal, T_StringStart, T_StringMid, T_StringEnd}" "typ' \<notin> {T_EOF, T_Illegal, T_StringStart, T_StringMid, T_StringEnd}"
  shows "scans p (lpos l) l (readCompoundAssign p typ (lit [c]) typ' (lit [c, CHR ''='']) l) \<and>
    level l (readCompoundAssign p typ (lit [c]) typ' (lit [c, CHR ''='']) l)"
  using assms
  by (auto simp: readCompoundAssign_def Let_def scan_simps rune_of_char intro!: skips_intros)

lemma readQuestion_scans: "peek l = rn CHR ''?'' \<Longrightarrow> scans p (lpos l) l (readQuestion p l) \<and> level l (readQuestion p l)"
  by (auto simp: readQuestion_def Let_def scan_simps intro!: skips_intros)

lemma readEquals_scans: "peek l = rn CHR ''='' \<Longrightarrow> scans p (lpos l) l (readEquals p l) \<and> level l (readEquals p l)"
  by (auto simp: readEquals_def Let_def scan_simps intro!: skips_intros)

lemma readBang_scans: "peek l = rn CHR ''!'' \<Longrightarrow> scans p (lpos l) l (readBang p l) \<and> level l (readBang p l)"
  by (auto simp: readBang_def Let_def scan_simps intro!: skips_intros)

lemma readGreater_scans: "peek l = rn CHR ''>'' \<Longrightarrow> scans p (lpos l) l (readGreater p l) \<and> level l (readGreater p l)"
  by (auto simp: readGreater_def Let_def scan_simps intro!: skips_intros)

lemma readLess_scans: "peek l = rn CHR ''<'' \<Longrightarrow> scans p (lpos l) l (readLess p l) \<and> level l (readLess p l)"
  by (auto simp: readLess_def Let_def scan_simps intro!: skips_intros)

lemma readAmpersand_scans: "peek l = rn CHR ''&'' \<Longrightarrow> scans p (lpos l) l (readAmpersand p l) \<and> level l (readAmpersand p l)"
  by (auto simp: readAmpersand_def Let_def scan_simps intro!: skips_intros)

lemma readPipe_scans: "peek l = rn CHR ''|'' \<Longrightarrow> scans p (lpos l) l (readPipe p l) \<and> level l (readPipe p l)"
  by (auto simp: readPipe_def Let_def scan_simps intro!: skips_intros)

lemma readMinus_scans: "peek l = rn CHR ''-'' \<Longrightarrow> scans p (lpos l) l (readMinus p l) \<and> level l (readMinus p l)"
  by (auto simp: readMinus_def Let_def scan_simps intro!: skips_intros)

lemma skipWhitespace_pos: "start < lpos l \<Longrightarrow> start < lpos (skipWhitespace l)"
  using lex_skipsD(5) [OF skipWhitespace_skips, of l] by simp

lemma advance_while_pos: "start < lpos l \<Longrightarrow> start < lpos (advance_while P l)"
  using lex_skipsD(5) [OF advance_while_skips, of l P] by simp

lemma advance_pos_less: "start < lpos l \<Longrightarrow> start < lpos (advance l)"
  using advance_pos_le [of l] by simp

lemma readLineComment_scans: "start < lpos l \<Longrightarrow> scans p start l (readLineComment p l) \<and> level l (readLineComment p l)"
  by (auto simp: readLineComment_def Let_def scan_simps advance_while_pos skipWhitespace_pos intro!: skips_intros)

lemma readDocComment_scans: "start < lpos l \<Longrightarrow> scans p start l (readDocComment p l) \<and> level l (readDocComment p l)"
  by (auto simp: readDocComment_def Let_def scan_simps advance_while_pos skipWhitespace_pos intro!: skips_intros)

lemma readBlockComment_loop_scans:
  "start < lpos l \<Longrightarrow> scans p start l (readBlockComment_loop p s0 depth l) \<and> level l (readBlockComment_loop p s0 depth l)"
proof (induction p s0 depth l rule: readBlockComment_loop.induct)
  case (1 p s0 depth l)
  let ?a1 = "advance l" and ?a2 = "advance (advance l)"
  have moved: "lex_skips l ?a1" "lex_skips l ?a2" "start < lpos ?a1" "start < lpos ?a2"
    using 1(4) by (auto intro!: skips_intros advance_pos_less)
  note next1 = scans_after [OF moved(1)] level_after [OF moved(1)] and next2 = scans_after [OF moved(2)] level_after [OF moved(2)]
  show ?case
    using 1 moved
    by (subst (1 2) readBlockComment_loop.simps)
       (auto simp: value_is_text_def intro!: skips_intros intro: next1 next2)
qed

lemma readSlashOrComment_scans:
  assumes "peek l = rn CHR ''/''"
  shows "scans p (lpos l) l (readSlashOrComment p l) \<and> level l (readSlashOrComment p l)"
proof -
  have l1: "lpos l < lpos (advance l)" using assms source_from_advance [of l "lpos l"] by simp
  have l2: "lex_skips l (advance (advance l))" "lpos l < lpos (advance (advance l))"
    using l1 by (auto intro: skips_intros advance_pos_less)
  have l3: "lex_skips l (advance (advance (advance l)))" "lpos l < lpos (advance (advance (advance l)))"
    using l2 by (auto intro: skips_intros advance_pos_less)
  note comments = readDocComment_scans [OF l3(2)] readLineComment_scans [OF l2(2)]
    readBlockComment_loop_scans [OF l2(2)]
  show ?thesis
    using assms comments scans_after [OF l2(1)] scans_after [OF l3(1)] level_after [OF l2(1)] level_after [OF l3(1)]
    by (auto simp: readSlashOrComment_def readBlockComment_def Let_def scan_simps intro!: skips_intros)
qed

lemma readOperator_scans:
  assumes "readOperator (peek l) p l = Some r"
  shows "scans p (lpos l) l r \<and> level l r"
proof -
  have compound: "peek l = of_char c \<Longrightarrow> of_char c < (0x80 :: rune) \<Longrightarrow> 0 < (of_char c :: rune) \<Longrightarrow>
      t1 \<notin> {T_EOF, T_Illegal, T_StringStart, T_StringMid, T_StringEnd} \<Longrightarrow>
      t2 \<notin> {T_EOF, T_Illegal, T_StringStart, T_StringMid, T_StringEnd} \<Longrightarrow>
      s1 = lit [c] \<Longrightarrow> s2 = lit [c, CHR ''=''] \<Longrightarrow>
      scans p (lpos l) l (readCompoundAssign p t1 s1 t2 s2 l) \<and> level l (readCompoundAssign p t1 s1 t2 s2 l)" for c t1 t2 s1 s2
    using readCompoundAssign_scans [of l c t1 t2 p] by simp
  note direct = readDotOrRange_scans readQuestion_scans readEquals_scans readBang_scans readGreater_scans readLess_scans
    readAmpersand_scans readPipe_scans readMinus_scans readSlashOrComment_scans
  show ?thesis
    using assms unfolding readOperator_def
    apply (simp split: if_splits)
                apply (hypsubst, ((rule compound; simp; fail) | (rule direct; simp; fail)))+
    done
qed

section \<open>Words, numbers and strings\<close>

lemma readIdent_scans:
  assumes "lpos l < length (lsource l)" "isLetter letter (peek l) \<or> peek l = rn CHR ''_''"
  shows "scans p (lpos l) l (readIdent letter p l) \<and> level l (readIdent letter p l)"
proof -
  let ?P = "\<lambda>ch. isLetter letter ch \<or> isDigit ch \<or> ch = rn CHR ''_''"
  have w: "advance_while ?P l = advance_while ?P (advance l)" using assms by (subst advance_while.simps) auto
  have "lpos l < lpos (advance_while ?P l)"
    unfolding w by (rule advance_while_pos) (use advance_pos [OF assms(1)] in simp)
  moreover have "LookupKeyword v \<notin> {T_EOF, T_Illegal, T_StringStart, T_StringMid, T_StringEnd}" for v
    using LookupKeyword_cases [of v] by (auto simp: IsKeyword_index)
  ultimately show ?thesis
    by (auto simp: readIdent_def Let_def intro!: skips_intros)
qed

lemma readNumber_scans:
  assumes "isDigit (peek l)"
  shows "scans p (lpos l) l (readNumber p l) \<and> level l (readNumber p l)"
proof -
  have l: "lpos l < length (lsource l)" using assms by (intro peek_nonzero) (auto simp: isDigit_def)
  have w: "advance_while isDigit l = advance_while isDigit (advance l)" using assms l by (subst advance_while.simps) auto
  have pos: "lpos l < lpos (advance_while isDigit l)"
    unfolding w by (rule advance_while_pos) (use advance_pos [OF l] in simp)
  show ?thesis
    using pos by (auto simp: readNumber_def Let_def intro!: skips_intros advance_pos_less advance_while_pos)
qed

text \<open>What making a token does to the interpolation: the stack of brace depths grows from bottom to
  top and its top is at most the current depth; a string token that opens or closes an interpolation
  changes its height by one.\<close>

definition interp_ok :: "Lexer \<Rightarrow> bool" where
  "interp_ok l \<longleftrightarrow> sorted_wrt (<) (interpStack l) \<and> (interpStack l \<noteq> [] \<longrightarrow> last (interpStack l) \<le> braceDepth l)"

definition interp_step :: "Lexer \<Rightarrow> Token \<times> Lexer \<Rightarrow> bool" where
  "interp_step l r \<longleftrightarrow>
     (case r of (t, l') \<Rightarrow>
        (interp_ok l \<longrightarrow> interp_ok l') \<and>
        (if tokType t = T_StringStart then length (interpStack l') = Suc (length (interpStack l))
         else if tokType t = T_StringMid then length (interpStack l') = length (interpStack l) \<and> interpStack l \<noteq> []
         else if tokType t = T_StringEnd then Suc (length (interpStack l')) = length (interpStack l)
         else length (interpStack l') \<le> length (interpStack l)))"

lemma level_interp_step: "level l r \<Longrightarrow> interp_step l r"
  by (auto simp: level_def interp_step_def interp_ok_def split: prod.split)

text \<open>A string body either leaves the interpolation alone, or opens one, one brace deeper.\<close>

definition string_body :: "Position \<Rightarrow> nat \<Rightarrow> Type \<Rightarrow> Type \<Rightarrow> Lexer \<Rightarrow> Token \<times> Lexer \<Rightarrow> bool" where
  "string_body p start plainType interpType l r \<longleftrightarrow> scans p start l r \<and>
     (tokType (fst r) \<in> {plainType, T_Illegal} \<and> braceDepth (snd r) = braceDepth l \<and> interpStack (snd r) = interpStack l \<or>
      tokType (fst r) = interpType \<and> braceDepth (snd r) = braceDepth l + 1 \<and> interpStack (snd r) = interpStack l @ [braceDepth l + 1])"

lemma string_body_after:
  "lex_skips l l1 \<Longrightarrow> string_body p start pt it l1 r \<Longrightarrow> string_body p start pt it l r"
  using scans_after [of l l1 p start r] by (auto simp: string_body_def lex_skips_def)

lemma scans_no_text:
  assumes "lex_moves l l'" "lerrors l' = lerrors l" "start < lpos l'" "typ \<in> {T_String, T_StringStart, T_StringMid, T_StringEnd}"
  shows "scans p start l (makeToken typ v p, l')"
  using assms by (auto simp: scans_def value_is_text_def)

lemma readStringBody_loop_body:
  assumes "start < lpos l" "{plainType, interpType} \<subseteq> {T_String, T_StringStart, T_StringMid, T_StringEnd}"
  shows "string_body p start plainType interpType l (readStringBody_loop p s0 plainType interpType l)"
  using assms
proof (induction p s0 plainType interpType l rule: readStringBody_loop.induct)
  case (1 p s0 plainType interpType l)
  let ?a1 = "advance l" and ?a2 = "advance (advance l)"
  have moved: "lex_skips l ?a1" "lex_skips l ?a2" "start < lpos ?a1" "start < lpos ?a2"
    using 1(3) by (auto intro!: skips_intros advance_pos_less)
  consider (stop) "lpos l \<ge> length (lsource l) \<or> peek l = 0"
    | (escape) "\<not> (lpos l \<ge> length (lsource l) \<or> peek l = 0)" "peek l = 0x5C"
    | (interp) "\<not> (lpos l \<ge> length (lsource l) \<or> peek l = 0)" "peek l \<noteq> 0x5C" "peek l = rn CHR ''$'' \<and> peekAt 1 l = rn CHR ''{''"
    | (quote) "\<not> (lpos l \<ge> length (lsource l) \<or> peek l = 0)" "peek l \<noteq> 0x5C" "\<not> (peek l = rn CHR ''$'' \<and> peekAt 1 l = rn CHR ''{'')" "peek l = 0x22"
    | (other) "\<not> (lpos l \<ge> length (lsource l) \<or> peek l = 0)" "peek l \<noteq> 0x5C" "\<not> (peek l = rn CHR ''$'' \<and> peekAt 1 l = rn CHR ''{'')" "peek l \<noteq> 0x22"
    by argo
  then show ?case
  proof cases
    case stop
    then have "readStringBody_loop p s0 plainType interpType l =
        (makeToken T_Illegal (source_from s0 l) p, lex_error p UnterminatedString l)"
      by (subst readStringBody_loop.simps) (simp only: if_True)
    then show ?thesis using scans_illegal [OF lex_skips_refl 1(3)] by (simp add: string_body_def)
  next
    case escape
    then show ?thesis using string_body_after [OF moved(2) 1(1) [OF escape moved(4) 1(4)]]
      by (subst readStringBody_loop.simps) (simp only: if_True if_False simp_thms)
  next
    case interp
    let ?l2 = "pushInterp (?a2\<lparr>braceDepth := braceDepth ?a2 + 1\<rparr>)"
    have "readStringBody_loop p s0 plainType interpType l = (makeToken interpType (source_from s0 l) p, ?l2)"
      using interp by (subst readStringBody_loop.simps) (simp only: if_True if_False simp_thms Let_def)
    moreover have "lex_moves l ?l2" "lerrors ?l2 = lerrors l" "start < lpos ?l2" "braceDepth ?l2 = braceDepth l + 1"
        "interpStack ?l2 = interpStack l @ [braceDepth l + 1]"
      using lex_skipsD [OF moved(2)] moved(4) by (simp_all add: lex_moves_def pushInterp_def lex_ok_def)
    ultimately show ?thesis using scans_no_text [of l ?l2 start interpType p] 1(4) by (simp add: string_body_def)
  next
    case quote
    have "readStringBody_loop p s0 plainType interpType l = (makeToken plainType (source_from s0 l) p, ?a1)"
      using quote by (subst readStringBody_loop.simps) (simp only: if_True if_False simp_thms)
    then show ?thesis using scans_no_text [of l ?a1 start plainType p] lex_skipsD [OF moved(1)] moved(3) 1(4)
      by (simp add: string_body_def)
  next
    case other
    then show ?thesis using string_body_after [OF moved(1) 1(2) [OF other moved(3) 1(4)]]
      by (subst readStringBody_loop.simps) (simp only: if_True if_False simp_thms)
  qed
qed

lemma last_snoc_sorted: "sorted_wrt (<) (xs @ [x]) \<longleftrightarrow> sorted_wrt (<) xs \<and> (xs \<noteq> [] \<longrightarrow> last xs < (x :: int))"
  by (induction xs) (auto intro: order.strict_trans [OF _ _] dest: last_in_set)

lemma string_start:
  assumes "string_body p start T_String T_StringStart l r"
  shows "scans p start l r \<and> interp_step l r"
  using assms by (cases r) (auto simp: string_body_def interp_step_def interp_ok_def last_snoc_sorted)

text \<open>The quote brace of an interpolation: the stack is popped before the rest of the string is read.\<close>

lemma string_continuation:
  assumes l: "interpStack l \<noteq> []" "braceDepth l = interpTop l"
    and l1: "lex_skips l l1"
    and r: "string_body p start T_StringEnd T_StringMid (l1\<lparr>interpStack := butlast (interpStack l1), braceDepth := braceDepth l1 - 1\<rparr>) r"
  shows "scans p start l r \<and> interp_step l r"
proof -
  obtain xs x where xs: "interpStack l = xs @ [x]" using l(1) by (cases "interpStack l" rule: rev_cases) auto
  have "scans p start l r"
    using r lex_skipsD [OF l1] by (auto simp: string_body_def scans_def lex_moves_def lex_ok_def split: prod.splits)
  moreover have "interp_step l r"
    using r xs l lex_skipsD [OF l1]
    by (cases r) (auto simp: string_body_def interp_step_def interp_ok_def last_snoc_sorted interpTop_def)
  ultimately show ?thesis by simp
qed

section \<open>Making the next token\<close>

lemma peek_brace: "peek l = 0x7D \<Longrightarrow> lpos l < lpos (advance l)"
  using source_from_advance [of l "lpos l"] by simp

lemma brace_update [simp]:
  "lsource (l\<lparr>braceDepth := b\<rparr>) = lsource l" "lex_moves (l\<lparr>braceDepth := b\<rparr>) l' = lex_moves l l'"
  "peek (l\<lparr>braceDepth := b\<rparr>) = peek l" "source_from a (l\<lparr>braceDepth := b\<rparr>) = source_from a l"
  "lex_ok (l\<lparr>braceDepth := b\<rparr>) = lex_ok l"
  by (simp_all add: lex_moves_def lex_ok_def peek_def source_from_def)

lemma readSingleChar_scans:
  assumes "readSingleChar (peek l) p l = Some r"
    and "\<not> (peek l = rn CHR ''}'' \<and> inInterpolation l \<and> braceDepth l = interpTop l)"
  shows "scans p (lpos l) l r \<and> interp_step l r"
proof -
  let ?n = "if peek l = rn CHR ''{'' then l\<lparr>braceDepth := braceDepth l + 1\<rparr>
    else if peek l = rn CHR ''}'' then l\<lparr>braceDepth := braceDepth l - 1\<rparr> else l"
  obtain ty where r: "r = (makeToken ty (EncodeRune (peek l)) p, advance ?n)" and a: "0 < peek l" "peek l < 0x80"
    and ty: "ty \<notin> {T_EOF, T_Illegal, T_StringStart, T_StringMid, T_StringEnd}"
    using assms(1) by (auto simp: readSingleChar_def Let_def split: if_splits)
  have "source_from (lpos l) (advance ?n) = [of_nat (peek l)]" "lpos l < lpos (advance ?n)"
    using a source_from_advance [of ?n "lpos l"] source_from_self [of ?n] by (auto split: if_splits)
  moreover have "EncodeRune (peek l) = [of_nat (peek l)]" using a by (simp add: EncodeRune_def)
  moreover have "lex_moves l (advance ?n)" using lex_skipsD(1) [OF advance_skips, of ?n] by (auto split: if_splits)
  ultimately have "scans p (lpos l) l r" using ty by (simp add: r scans_def)
  moreover have "interp_ok l \<Longrightarrow> interp_ok (advance ?n)"
    using assms(2) by (auto simp: interp_ok_def inInterpolation_def interpTop_def)
  ultimately show ?thesis using ty by (simp add: r interp_step_def)
qed

lemma readString_scans:
  assumes "lpos l < length (lsource l)"
  shows "scans p (lpos l) l (readString p l) \<and> interp_step l (readString p l)"
  unfolding readString_def readStringBody_def
  by (rule string_start, rule string_body_after [OF advance_skips], rule readStringBody_loop_body)
     (use advance_pos [OF assms] in simp_all)

lemma nextToken_cases:
  assumes "nextToken letter l0 = (t, l')"
  shows "lex_skips l0 (skipWhitespace l0) \<and>
    (tokType t = T_EOF \<and> l' = skipWhitespace l0 \<and> t = makeToken T_EOF [] (position l') \<and> peek l' = 0 \<or>
     scans (position (skipWhitespace l0)) (lpos (skipWhitespace l0)) (skipWhitespace l0) (t, l') \<and>
     interp_step (skipWhitespace l0) (t, l') \<and> lpos l0 < length (lsource l0))"
proof -
  define l where "l = skipWhitespace l0"
  let ?p = "position l" and ?r = "(t, l')"
  let ?good = "scans ?p (lpos l) l ?r \<and> interp_step l ?r \<and> lpos l0 < length (lsource l0)"
  have start: "lpos l < length (lsource l) \<Longrightarrow> lpos l0 < length (lsource l0)"
    using lex_skipsD(5,6) [OF skipWhitespace_skips, of l0] by (simp add: l_def)
  consider (eof) "peek l = 0" | (cont) "peek l = rn CHR ''}''" "inInterpolation l" "braceDepth l = interpTop l"
    | (tok) "peek l \<noteq> 0" "\<not> (peek l = rn CHR ''}'' \<and> inInterpolation l \<and> braceDepth l = interpTop l)"
    by fastforce
  then have "tokType t = T_EOF \<and> l' = l \<and> t = makeToken T_EOF [] (position l') \<and> peek l' = 0 \<or> ?good"
  proof cases
    case eof
    then show ?thesis using assms by (auto simp: nextToken_def Let_def simp flip: l_def)
  next
    case cont
    let ?l2 = "(advance l)\<lparr>interpStack := butlast (interpStack (advance l)), braceDepth := braceDepth (advance l) - 1\<rparr>"
    have "string_body ?p (lpos l) T_StringEnd T_StringMid ?l2 (readStringContinuation ?p ?l2)"
      unfolding readStringContinuation_def readStringBody_def
      by (rule readStringBody_loop_body) (use peek_brace [of l] cont(1) in simp_all)
    moreover have "readStringContinuation ?p ?l2 = ?r"
      using assms cont by (simp add: nextToken_def Let_def popInterp_def flip: l_def)
    ultimately have "string_body ?p (lpos l) T_StringEnd T_StringMid ?l2 ?r" by metis
    then show ?thesis
      using string_continuation [OF _ cont(3) advance_skips] cont(1,2) start peek_nonzero [of l] by (simp add: inInterpolation_def)
  next
    case tok
    have len: "lpos l < length (lsource l)" using tok(1) by (rule peek_nonzero)
    note lev = level_interp_step [of l ?r] start [OF len]
    have "?good"
    proof (cases "readSingleChar (peek l) ?p l")
      case (Some r)
      then show ?thesis using readSingleChar_scans [OF Some tok(2)] assms tok lev by (simp add: nextToken_def Let_def flip: l_def split: if_splits)
    next
      case single: None
      show ?thesis
      proof (cases "readOperator (peek l) ?p l")
        case (Some r)
        then show ?thesis using readOperator_scans [OF Some] lev assms tok single
          by (simp add: nextToken_def Let_def flip: l_def split: if_splits)
      next
        case None
        have ill: "scans ?p (lpos l) l (makeToken T_Illegal v ?p, lex_error ?p m (advance l)) \<and>
            level l (makeToken T_Illegal v ?p, lex_error ?p m (advance l))" for v m
          using advance_pos [OF len] by (auto intro!: skips_intros)
        have "?r = (if peek l = 0x22 then readString ?p l else if isDigit (peek l) then readNumber ?p l
            else if isLetter letter (peek l) \<or> peek l = rn CHR ''_'' then readIdent letter ?p l
            else (makeToken T_Illegal (EncodeRune (peek l)) ?p, lex_error ?p (UnexpectedCharacter (peek l)) (advance l)))"
          by (simp only: assms [symmetric] nextToken_def Let_def l_def [symmetric] if_not_P [OF tok(1)] if_not_P [OF tok(2)]
              single None option.case)
        also have "scans ?p (lpos l) l \<dots> \<and> interp_step l \<dots>"
          using readString_scans [OF len, of ?p] readNumber_scans [of l ?p] readIdent_scans [OF len, of letter ?p] ill
            level_interp_step by (simp split: if_split)
        finally show ?thesis using start [OF len] by blast
      qed
    qed
    then show ?thesis ..
  qed
  then show ?thesis using skipWhitespace_skips [of l0] by (simp add: l_def)
qed

section \<open>Tokenize\<close>

lemma nextToken_left:
  assumes "nextToken letter l = (tok, l1)" "tokType tok \<noteq> T_EOF"
  shows "lex_left (l1\<lparr>ltokens := ts\<rparr>) < lex_left l"
proof -
  have "lpos l < length (lsource l)" "lsource l1 = lsource l" "lpos l < lpos l1"
    using nextToken_cases [OF assms(1)] assms(2)
    by (auto simp: scans_def lex_skips_def lex_moves_def)
  then show ?thesis by (simp add: lex_left_def diff_less_mono2)
qed

function Tokenize_loop :: "(rune \<Rightarrow> bool) \<Rightarrow> Lexer \<Rightarrow> Lexer" where
  "Tokenize_loop letter l =
     (case nextToken letter l of (tok, l1) \<Rightarrow>
        let l2 = l1\<lparr>ltokens := ltokens l1 @ [tok]\<rparr> in
        if tokType tok = T_Comment \<or> tokType tok = T_DocComment then Tokenize_loop letter l2
        else if tokType tok = T_EOF then l2
        else Tokenize_loop letter l2)"
  by pat_completeness auto

termination
  by (relation "measure (\<lambda>(letter, l). lex_left l)") (auto dest!: sym [of _ "nextToken _ _"] intro: nextToken_left)

declare Tokenize_loop.simps [simp del]

definition Tokenize :: "(rune \<Rightarrow> bool) \<Rightarrow> Lexer \<Rightarrow> Token list \<times> LexError list" where
  "Tokenize letter l =
     (let l1 = Tokenize_loop letter (l\<lparr>ltokens := []\<rparr>) in (ltokens l1, lerrors l1))"

section \<open>The tokens cover the source\<close>

definition space_byte :: "byte \<Rightarrow> bool" where
  "space_byte b \<longleftrightarrow> b \<in> {0x20, 0x09, 0x0D, 0x0A}"

text \<open>The text is the texts of the tokens in order, with white space in between; the value of a
  token is its text where value_is_text holds of its type.\<close>

inductive tiled :: "Token list \<Rightarrow> bytes \<Rightarrow> bool" where
  tiled_Nil: "tiled [] []"
| tiled_snoc: "\<lbrakk>tiled ts src; list_all space_byte ws; x \<noteq> []; value_is_text (tokType t) \<longrightarrow> tokVal t = x;
     Offset (tokPos t) = length (src @ ws)\<rbrakk> \<Longrightarrow> tiled (ts @ [t]) (src @ ws @ x)"

lemma source_from_split:
  "lpos l \<le> lpos l' \<Longrightarrow> start \<le> lpos l \<Longrightarrow> lsource l' = lsource l \<Longrightarrow>
     source_from start l' = source_from start l @ source_from (lpos l) l'"
  using take_add [of "lpos l - start" "lpos l' - lpos l" "drop start (lsource l)"]
  by (simp add: source_from_def)

lemma source_from_0: "source_from 0 l = take (lpos l) (lsource l)"
  by (simp add: source_from_def)

lemma skipWhitespace_spaces: "list_all space_byte (source_from (lpos l) (skipWhitespace l))"
proof -
  let ?P = "\<lambda>ch. ch = rn CHR '' '' \<or> ch = 0x09 \<or> ch = 0x0D \<or> ch = 0x0A"
  have "P = ?P \<Longrightarrow> list_all space_byte (source_from (lpos l) (advance_while P l))" for P
  proof (induction P l rule: advance_while.induct)
    case (1 P l)
    let ?a = "advance l" and ?b = "advance_while P (advance l)"
    show ?case
    proof (cases "lpos l < length (lsource l) \<and> P (peek l)")
      case True
      then have p: "0 < peek l" "peek l < 0x80" "space_byte (of_nat (peek l))"
        using 1(2) by (auto simp: space_byte_def)
      have "source_from (lpos l) ?b = source_from (lpos l) ?a @ source_from (lpos ?a) ?b"
        by (rule source_from_split) (use advance_while_skips [of ?a P, THEN lex_skipsD(5)] advance_while_skips [of ?a P, THEN lex_skipsD(6)] advance_pos_le [of l] in simp_all)
      then show ?thesis
        using 1 True p source_from_advance [OF p(1,2) order_refl] by (subst advance_while.simps) simp
    next
      case False
      then have "advance_while P l = l" by (subst advance_while.simps) (simp only: if_False)
      then show ?thesis by simp
    qed
  qed
  then show ?thesis by (simp add: skipWhitespace_def)
qed

definition count_type :: "Type \<Rightarrow> Token list \<Rightarrow> nat" where
  "count_type ty ts = length (filter (\<lambda>t. tokType t = ty) ts)"

lemma count_type_simps [simp]:
  "count_type ty [] = 0" "count_type ty (ts @ [t]) = count_type ty ts + (if tokType t = ty then 1 else 0)"
  by (simp_all add: count_type_def)

text \<open>What holds of the tokens read so far, and of the state they leave.\<close>

definition tokens_ok :: "Lexer \<Rightarrow> bool" where
  "tokens_ok l \<longleftrightarrow>
     lex_ok l \<and> interp_ok l \<and> tiled (ltokens l) (take (lpos l) (lsource l)) \<and>
     (\<forall>t\<in>set (ltokens l). tokType t \<noteq> T_EOF \<and> File (tokPos t) = lfile l \<and>
        place_ok (lsource l) (Offset (tokPos t)) (Line (tokPos t)) (Col (tokPos t))) \<and>
     map ePos (lerrors l) = map tokPos (filter (\<lambda>t. tokType t = T_Illegal) (ltokens l)) \<and>
     length (interpStack l) + count_type T_StringEnd (ltokens l) \<le> count_type T_StringStart (ltokens l) \<and>
     (\<forall>i < length (ltokens l). tokType (ltokens l ! i) \<in> {T_StringMid, T_StringEnd} \<longrightarrow>
        count_type T_StringEnd (take i (ltokens l)) < count_type T_StringStart (take i (ltokens l)))"

lemma tokens_ok_start: "tokens_ok (New_Lexer src file)"
  by (simp add: tokens_ok_def New_Lexer_def lex_ok_def place_ok_def interp_ok_def tiled.intros)

lemma tokens_ok_skip: "tokens_ok l \<Longrightarrow> lex_skips l l' \<Longrightarrow> lex_ok l' \<and> interp_ok l'"
  by (auto simp: tokens_ok_def lex_skips_def lex_moves_def interp_ok_def)

lemma tokens_ok_next:
  assumes "tokens_ok l0" "nextToken letter l0 = (t, l1)" "tokType t \<noteq> T_EOF"
  shows "tokens_ok (l1\<lparr>ltokens := ltokens l1 @ [t]\<rparr>)"
proof -
  define l where "l = skipWhitespace l0"
  have sk: "lex_skips l0 l" and sc: "scans (position l) (lpos l) l (t, l1)" and ip: "interp_step l (t, l1)"
    using nextToken_cases [OF assms(2)] assms(3) by (auto simp: l_def)
  have l: "lex_ok l" "interp_ok l" using tokens_ok_skip [OF assms(1) sk] by simp_all
  note s = lex_skipsD [OF sk] sk [unfolded lex_skips_def lex_moves_def]
  have m: "lsource l1 = lsource l0" "lfile l1 = lfile l0" "ltokens l1 = ltokens l0" "lpos l < lpos l1" "lpos l0 \<le> lpos l" "lex_ok l1"
    "interp_ok l1" "tokPos t = position l"
    using sc s l ip by (auto simp: scans_def lex_moves_def interp_step_def)
  have len: "lpos l1 \<le> length (lsource l0)" using m(1,6) by (simp add: lex_ok_def place_ok_def)
  have "tiled (ltokens l0 @ [t]) (take (lpos l0) (lsource l0) @ source_from (lpos l0) l @ source_from (lpos l) l1)"
  proof (rule tiled_snoc)
    show "tiled (ltokens l0) (take (lpos l0) (lsource l0))" using assms(1) by (simp add: tokens_ok_def)
    show "list_all space_byte (source_from (lpos l0) l)" unfolding l_def by (rule skipWhitespace_spaces)
    show "source_from (lpos l) l1 \<noteq> []" using m(1,4) len by (simp add: source_from_def)
    show "value_is_text (tokType t) \<longrightarrow> tokVal t = source_from (lpos l) l1" using sc by (simp add: scans_def)
    show "Offset (tokPos t) = length (take (lpos l0) (lsource l0) @ source_from (lpos l0) l)"
      using m(4,5,8) s len by (simp add: position_def source_from_def)
  qed
  also have "take (lpos l0) (lsource l0) @ source_from (lpos l0) l @ source_from (lpos l) l1 = take (lpos l1) (lsource l1)"
    using source_from_split [of l0 l 0] source_from_split [of l l1 0] m s by (simp add: source_from_0)
  finally have tl: "tiled (ltokens l1 @ [t]) (take (lpos l1) (lsource l1))" using m(3) by simp
  have pl: "place_ok (lsource l0) (Offset (tokPos t)) (Line (tokPos t)) (Col (tokPos t))" "File (tokPos t) = lfile l0"
    using l(1) m(8) s by (simp_all add: lex_ok_def position_def)
  have er: "map ePos (lerrors l1) = map ePos (lerrors l0) @ (if tokType t = T_Illegal then [tokPos t] else [])"
    using sc s m(8) by (simp add: scans_def)
  have st: "interpStack l = interpStack l0" using s by simp
  have cnt: "tokType t \<in> {T_StringMid, T_StringEnd} \<Longrightarrow> count_type T_StringEnd (ltokens l0) < count_type T_StringStart (ltokens l0)"
    using ip st assms(1) length_greater_0_conv [of "interpStack l0"]
    by (auto simp: interp_step_def tokens_ok_def split: if_splits simp del: length_greater_0_conv)
  have hi: "length (interpStack l1) + count_type T_StringEnd (ltokens l1 @ [t]) \<le> count_type T_StringStart (ltokens l1 @ [t])"
    using ip st assms(1) m(3) by (auto simp: interp_step_def tokens_ok_def split: if_splits)
  show ?thesis
    using assms(1,3) m tl pl er hi cnt
    by (auto simp: tokens_ok_def lex_ok_def interp_ok_def nth_append less_Suc_eq)
qed

end
