(* ===== verification/Lexing.thy ===== *)
theory Lexing
  imports Lexer
begin

text \<open>
  What Tokenize of pkg/lexer/lexer.go does with a whole source: it ends, its tokens cover the source,
  their positions are right, its errors are those of the illegal tokens, the parts of template
  strings nest, and the tokens printed with white space in between are read back.
\<close>

section \<open>Tokenizing a whole source\<close>

lemma Tokenize_loop_result:
  assumes "tokens_ok l"
  shows "\<exists>l1. tokens_ok l1 \<and> lsource l1 = lsource l \<and> lfile l1 = lfile l \<and> peek (skipWhitespace l1) = 0 \<and>
    Tokenize_loop letter l = (skipWhitespace l1)\<lparr>ltokens := ltokens l1 @ [makeToken T_EOF [] (position (skipWhitespace l1))]\<rparr>"
  using assms
proof (induction letter l rule: Tokenize_loop.induct)
  case (1 letter l)
  obtain t l' where n: "nextToken letter l = (t, l')" by (cases "nextToken letter l")
  let ?l2 = "l'\<lparr>ltokens := ltokens l' @ [t]\<rparr>"
  show ?case
  proof (cases "tokType t = T_EOF")
    case True
    then have t: "l' = skipWhitespace l" "t = makeToken T_EOF [] (position l')" "peek l' = 0"
      using nextToken_cases [OF n] by (auto simp: scans_def)
    have "Tokenize_loop letter l = ?l2" using n True by (subst Tokenize_loop.simps) simp
    moreover have "ltokens l' = ltokens l" using t(1) skipWhitespace_skips [of l] by (simp add: lex_skips_def lex_moves_def)
    ultimately show ?thesis using 1(3) t by auto
  next
    case False
    have "Tokenize_loop letter l = Tokenize_loop letter ?l2" using n False by (subst Tokenize_loop.simps) (simp add: Let_def)
    moreover have "lsource ?l2 = lsource l" "lfile ?l2 = lfile l"
      using nextToken_cases [OF n] False by (auto simp: scans_def lex_skips_def lex_moves_def)
    moreover have "\<exists>l1. tokens_ok l1 \<and> lsource l1 = lsource ?l2 \<and> lfile l1 = lfile ?l2 \<and> peek (skipWhitespace l1) = 0 \<and>
        Tokenize_loop letter ?l2 =
          (skipWhitespace l1)\<lparr>ltokens := ltokens l1 @ [makeToken T_EOF [] (position (skipWhitespace l1))]\<rparr>"
      using 1(1) [OF n [symmetric] refl] 1(2) [OF n [symmetric] refl _ False] tokens_ok_next [OF 1(3) n False] by blast
    ultimately show ?thesis by simp
  qed
qed

lemma Tokenize_New:
  obtains l where "tokens_ok l" "lsource l = src" "lfile l = file" "peek (skipWhitespace l) = 0"
    "Tokenize letter (New_Lexer src file) =
       (ltokens l @ [makeToken T_EOF [] (position (skipWhitespace l))], lerrors l)"
proof -
  have "New_Lexer src file\<lparr>ltokens := []\<rparr> = New_Lexer src file" by (simp add: New_Lexer_def)
  moreover obtain l where "tokens_ok l" "lsource l = src" "lfile l = file" "peek (skipWhitespace l) = 0"
    "Tokenize_loop letter (New_Lexer src file) =
       (skipWhitespace l)\<lparr>ltokens := ltokens l @ [makeToken T_EOF [] (position (skipWhitespace l))]\<rparr>"
    using Tokenize_loop_result [OF tokens_ok_start, where letter = letter] by (auto simp: New_Lexer_def)
  moreover have "lerrors (skipWhitespace l) = lerrors l" for l
    using skipWhitespace_skips [of l] by (simp add: lex_skips_def)
  ultimately show thesis using that by (simp add: Tokenize_def Let_def)
qed

definition positions_ok :: "bytes \<Rightarrow> bytes \<Rightarrow> Token list \<Rightarrow> bool" where
  "positions_ok src file ts \<longleftrightarrow>
     list_all (\<lambda>t. File (tokPos t) = file \<and> place_ok src (Offset (tokPos t)) (Line (tokPos t)) (Col (tokPos t))) ts"

text \<open>Each part of a template string that follows an interpolation has an open one before it.\<close>

definition interpolations_ok :: "Token list \<Rightarrow> bool" where
  "interpolations_ok ts \<longleftrightarrow>
     (\<forall>i < length ts. tokType (ts ! i) \<in> {T_StringMid, T_StringEnd} \<longrightarrow>
        count_type T_StringEnd (take i ts) < count_type T_StringStart (take i ts))"

text \<open>C28: Tokenize reads the whole source up to its end or a NUL byte: its last token, and no other, is
  EOF, and the source is the texts of the tokens in order with only white space in between, where
  the value of an identifier, keyword, number, duration or operator token is its text.\<close>

theorem Tokenize_covers:
  "\<exists>body eof text ws rest.
     fst (Tokenize letter (New_Lexer src file)) = body @ [eof] \<and> tokType eof = T_EOF \<and>
     list_all (\<lambda>t. tokType t \<noteq> T_EOF) body \<and> tiled body text \<and> list_all space_byte ws \<and>
     src = text @ ws @ rest \<and> Offset (tokPos eof) = length (text @ ws) \<and> (rest = [] \<or> hd rest = 0)"
proof -
  obtain l where l: "tokens_ok l" "lsource l = src" "peek (skipWhitespace l) = 0"
    and tk: "Tokenize letter (New_Lexer src file) = (ltokens l @ [makeToken T_EOF [] (position (skipWhitespace l))], lerrors l)"
    by (rule Tokenize_New)
  define l' where "l' = skipWhitespace l"
  let ?text = "take (lpos l) src" and ?ws = "source_from (lpos l) l'" and ?rest = "drop (lpos l') src"
  note s = lex_skipsD [OF skipWhitespace_skips, of l, folded l'_def]
  have ok: "lex_ok l'" using tokens_ok_skip [OF l(1) skipWhitespace_skips] by (simp add: l'_def)
  have tx: "?text @ ?ws = take (lpos l') src"
    using source_from_split [of l l' 0] s l(2) by (simp add: source_from_0)
  have "?rest = [] \<or> hd ?rest = 0"
  proof (cases ?rest)
    case (Cons b bs)
    then have "fst (DecodeRune (b # bs)) = 0" using l(3) s l(2) by (auto simp: peek_def l'_def [symmetric] split: if_splits)
    then have "unat b = 0" using DecodeRune_ascii [of b bs] by simp
    then show ?thesis using Cons by (simp add: unat_eq_0)
  qed simp
  moreover have "src = ?text @ ?ws @ ?rest" using tx by (metis append.assoc append_take_drop_id)
  moreover have "Offset (tokPos (makeToken T_EOF [] (position l'))) = length (?text @ ?ws)"
    unfolding tx using ok s l(2) by (simp add: position_def lex_ok_def place_ok_def)
  moreover have "list_all space_byte ?ws" unfolding l'_def by (rule skipWhitespace_spaces)
  moreover have "list_all (\<lambda>t. tokType t \<noteq> T_EOF) (ltokens l)" "tiled (ltokens l) ?text"
    using l by (auto simp: tokens_ok_def list_all_iff)
  ultimately show ?thesis
    unfolding tk l'_def [symmetric]
    by (intro exI [of _ "ltokens l"] exI [of _ "makeToken T_EOF [] (position l')"] exI [of _ ?text] exI [of _ ?ws] exI [of _ ?rest])
       simp
qed


text \<open>The errors are reported exactly at the illegal tokens, in order.\<close>

theorem Tokenize_errors:
  "map ePos (snd (Tokenize letter (New_Lexer src file))) =
   map tokPos (filter (\<lambda>t. tokType t = T_Illegal) (fst (Tokenize letter (New_Lexer src file))))"
proof -
  obtain l where "tokens_ok l"
    and "Tokenize letter (New_Lexer src file) = (ltokens l @ [makeToken T_EOF [] (position (skipWhitespace l))], lerrors l)"
    by (rule Tokenize_New)
  then show ?thesis by (simp add: tokens_ok_def)
qed

text \<open>The middle and end parts of template strings follow an interpolation that is still open: before
  each of them there are more string starts than string ends.\<close>

theorem Tokenize_interpolations: "interpolations_ok (fst (Tokenize letter (New_Lexer src file)))"
proof -
  obtain l where "tokens_ok l"
    and "Tokenize letter (New_Lexer src file) = (ltokens l @ [makeToken T_EOF [] (position (skipWhitespace l))], lerrors l)"
    by (rule Tokenize_New)
  then show ?thesis by (auto simp: interpolations_ok_def tokens_ok_def nth_append less_Suc_eq)
qed

section \<open>Reading a known text\<close>

text \<open>What is left of the source.\<close>

definition lrest :: "Lexer \<Rightarrow> bytes" where
  "lrest l = drop (lpos l) (lsource l)"

lemma peek_lrest: "lrest l = b # r \<Longrightarrow> b < 0x80 \<Longrightarrow> peek l = unat b"
  by (auto simp: lrest_def peek_def)

lemma peek_end: "lrest l = [] \<Longrightarrow> peek l = 0"
  by (simp add: lrest_def peek_def)

lemma advance_lrest: "lrest l = b # r \<Longrightarrow> b < 0x80 \<Longrightarrow> lrest (advance l) = r \<and> lpos (advance l) = Suc (lpos l)"
proof -
  assume l: "lrest l = b # r" "b < 0x80"
  then have len: "lpos l < length (lsource l)" using drop_eq_Cons_nth [of "lpos l" "lsource l"] by (simp add: lrest_def)
  have "lpos (advance l) = Suc (lpos l)" using l len by (simp add: lrest_def advance_def Let_def)
  moreover have "drop (Suc (lpos l)) (lsource l) = r" using l(1) by (metis lrest_def drop_Suc tl_drop list.sel(3))
  ultimately show ?thesis by (simp add: lrest_def)
qed

lemmas known_text = peek_lrest peek_end advance_lrest [THEN conjunct1]

lemma advance_while_text:
  assumes "lrest l = xs @ rest" "list_all (\<lambda>b. b < 0x80 \<and> P (unat b)) xs" "rest = [] \<or> hd rest < 0x80 \<and> \<not> P (unat (hd rest))"
  shows "lrest (advance_while P l) = rest \<and> lpos (advance_while P l) = lpos l + length xs"
  using assms
proof (induction xs arbitrary: l)
  case Nil
  have "lpos l < length (lsource l) \<longrightarrow> \<not> P (peek l)"
    using Nil(1,3) peek_lrest [of l "hd rest" "tl rest"] by (auto simp: lrest_def)
  then have "advance_while P l = l" by (subst advance_while.simps) auto
  then show ?case using Nil(1) by simp
next
  case (Cons b xs)
  have b: "b < 0x80" "P (unat b)" "lrest l = b # (xs @ rest)" using Cons(2,3) by simp_all
  have "lpos l < length (lsource l)" using drop_eq_Cons_nth [of "lpos l" "lsource l"] b(3) by (simp add: lrest_def)
  then have "advance_while P l = advance_while P (advance l)"
    using b peek_lrest [OF b(3,1)] by (subst advance_while.simps) simp
  moreover have "lrest (advance l) = xs @ rest" "lpos (advance l) = Suc (lpos l)"
    using advance_lrest [OF b(3,1)] by simp_all
  ultimately show ?case using Cons(1) [of "advance l"] Cons(3,4) by simp
qed

section \<open>Tokens with white space in between\<close>

text \<open>The types of operators and punctuation.\<close>

definition is_symbol :: "Type \<Rightarrow> bool" where
  "is_symbol ty \<longleftrightarrow> T_Colon \<le> ty \<and> ty \<le> T_PercentAssign \<and> ty \<noteq> T_LParen2"

definition ascii_letter :: "rune \<Rightarrow> bool" where
  "ascii_letter r \<longleftrightarrow> (0x41 \<le> r \<and> r \<le> 0x5A) \<or> (0x61 \<le> r \<and> r \<le> 0x7A)"

definition digit_byte :: "byte \<Rightarrow> bool" where
  "digit_byte b \<longleftrightarrow> b < 0x80 \<and> isDigit (unat b)"

definition word_byte :: "byte \<Rightarrow> bool" where
  "word_byte b \<longleftrightarrow> b < 0x80 \<and> (ascii_letter (unat b) \<or> isDigit (unat b) \<or> b = 0x5F)"

text \<open>A token text of ASCII characters: an operator, an integer, or a word, which is a keyword or an
  identifier.\<close>

definition lexeme :: "Type \<times> bytes \<Rightarrow> bool" where
  "lexeme tx \<longleftrightarrow>
     (case tx of (ty, x) \<Rightarrow>
        is_symbol ty \<and> x = Type_String ty \<or>
        ty = T_Int \<and> x \<noteq> [] \<and> list_all digit_byte x \<or>
        ty = LookupKeyword x \<and> x \<noteq> [] \<and> list_all word_byte x \<and> \<not> digit_byte (hd x))"

definition print_tokens :: "(Type \<times> bytes) list \<Rightarrow> bytes" where
  "print_tokens ps = concat (map (\<lambda>(ty, x). 0x20 # x) ps)"

definition letter_table :: "(rune \<Rightarrow> bool) \<Rightarrow> bool" where
  "letter_table letter \<longleftrightarrow> (\<forall>r < 0x80. letter r \<longleftrightarrow> ascii_letter r)"

lemma print_tokens_head: "print_tokens ps = [] \<or> (\<exists>r. print_tokens ps = 0x20 # r)"
  by (cases ps) (auto simp: print_tokens_def)

lemma lrest_frame [simp]: "lrest (l\<lparr>braceDepth := b\<rparr>) = lrest l" "lrest (l\<lparr>ltokens := ts\<rparr>) = lrest l"
  by (simp_all add: lrest_def)

lemma skip_text:
  assumes "lrest l = 0x20 # b # r" "b < 0x80" "\<not> space_byte b"
  shows "lrest (skipWhitespace l) = b # r"
  using advance_while_text [of l "[0x20]" "b # r"] assms
  by (simp add: skipWhitespace_def space_byte_def byte_eq_numeral)




lemmas token_readers = readSingleChar_def readOperator_def readCompoundAssign_def readDotOrRange_def readQuestion_def
  readEquals_def readBang_def readGreater_def readLess_def readAmpersand_def readPipe_def readMinus_def readSlashOrComment_def

definition good_token :: "Type \<Rightarrow> bytes \<Rightarrow> Lexer \<Rightarrow> bytes \<Rightarrow> Token \<times> Lexer \<Rightarrow> bool" where
  "good_token ty x l rest r \<longleftrightarrow>
     tokType (fst r) = ty \<and> tokVal (fst r) = x \<and> lrest (snd r) = rest \<and> interpStack (snd r) = interpStack l \<and>
     lerrors (snd r) = lerrors l \<and> ltokens (snd r) = ltokens l"

definition operator_reads :: "Type \<Rightarrow> bytes \<Rightarrow> bool" where
  "operator_reads ty x \<longleftrightarrow>
     (\<forall>l p rest. lrest l = x @ rest \<longrightarrow> rest = [] \<or> (\<exists>r. rest = 0x20 # r) \<longrightarrow>
        peek l \<noteq> 0 \<and>
        (case readSingleChar (peek l) p l of Some r \<Rightarrow> good_token ty x l rest r
         | None \<Rightarrow> (case readOperator (peek l) p l of Some r \<Rightarrow> good_token ty x l rest r | None \<Rightarrow> False)))"

definition symbol_texts :: "(Type \<times> bytes) list" where
  "symbol_texts = filter (\<lambda>(ty, x). is_symbol ty) tokenNames"

lemma operator_readsI:
  assumes "\<And>l p. lrest l = x \<Longrightarrow> peek l \<noteq> 0 \<and> (case readSingleChar (peek l) p l of Some r \<Rightarrow> good_token ty x l [] r
         | None \<Rightarrow> (case readOperator (peek l) p l of Some r \<Rightarrow> good_token ty x l [] r | None \<Rightarrow> False))"
    "\<And>l p r. lrest l = x @ 0x20 # r \<Longrightarrow> peek l \<noteq> 0 \<and> (case readSingleChar (peek l) p l of Some t \<Rightarrow> good_token ty x l (0x20 # r) t
         | None \<Rightarrow> (case readOperator (peek l) p l of Some t \<Rightarrow> good_token ty x l (0x20 # r) t | None \<Rightarrow> False))"
  shows "operator_reads ty x"
  unfolding operator_reads_def
proof (intro allI impI)
  fix l p rest
  assume l: "lrest l = x @ rest" and r: "rest = [] \<or> (\<exists>r. rest = 0x20 # r)"
  show "peek l \<noteq> 0 \<and>
        (case readSingleChar (peek l) p l of Some r \<Rightarrow> good_token ty x l rest r
         | None \<Rightarrow> (case readOperator (peek l) p l of Some r \<Rightarrow> good_token ty x l rest r | None \<Rightarrow> False))"
  proof (cases "rest = []")
    case True
    show ?thesis using assms(1) [of l p] l unfolding True append_Nil2 by blast
  next
    case False
    then obtain r' where "rest = 0x20 # r'" using r by blast
    then show ?thesis using assms(2) [of l r' p] l by blast
  qed
qed

lemma symbol_texts_read: "list_all (\<lambda>(ty, x). operator_reads ty x) symbol_texts"
  apply (simp add: symbol_texts_def tokenNames_def is_symbol_def less_eq_Type_def)
  apply (intro conjI; rule operator_readsI; simp add: token_readers known_text Let_def lit_simps good_token_def EncodeRune_def)
  done

lemma type_in_types: "ty \<in> set types"
proof -
  have "type_index ty < length types" by (cases ty) (simp_all add: types_def)
  then show ?thesis by (metis nth_mem types_type_index)
qed

lemma symbol_types: "map fst symbol_texts = filter is_symbol types"
  by (simp add: symbol_texts_def tokenNames_def types_def is_symbol_def less_eq_Type_def)

lemma symbol_text: "is_symbol ty \<Longrightarrow> (ty, Type_String ty) \<in> set symbol_texts"
proof -
  assume "is_symbol ty"
  then have "ty \<in> set (map fst symbol_texts)" using type_in_types by (simp add: symbol_types)
  then obtain x where x: "(ty, x) \<in> set symbol_texts" by auto
  then have "(ty, x) \<in> set tokenNames" by (simp add: symbol_texts_def)
  then have "Type_String ty = x" using distinct_tokenNames by (simp add: Type_String_def)
  with x show ?thesis by simp
qed

lemma symbol_reads: "is_symbol ty \<Longrightarrow> operator_reads ty (Type_String ty)"
  using symbol_texts_read symbol_text [of ty] by (auto simp: list_all_iff)

lemma symbol_start: "is_symbol ty \<Longrightarrow> \<exists>b r. Type_String ty = b # r \<and> b < 0x80 \<and> \<not> space_byte b"
proof -
  assume ty: "is_symbol ty"
  have "list_all (\<lambda>(ty, x). x \<noteq> [] \<and> hd x < 0x80 \<and> \<not> space_byte (hd x)) symbol_texts"
    by (simp add: symbol_texts_def tokenNames_def is_symbol_def less_eq_Type_def) (simp add: lit_simps space_byte_def)
  with symbol_text [OF ty] show ?thesis by (cases "Type_String ty") (auto simp: list_all_iff)
qed

text \<open>A word or a number is read after its first character was found to start no operator.\<close>

lemma no_operator:
  "isDigit ch \<or> ascii_letter ch \<or> ch = rn CHR ''_'' \<Longrightarrow>
     ch \<noteq> 0 \<and> ch \<noteq> rn CHR ''}'' \<and> ch \<noteq> 0x22 \<and> readSingleChar ch p l = None \<and> readOperator ch p l = None"
  by (auto simp: isDigit_def ascii_letter_def readSingleChar_def readOperator_def Let_def)

lemma digit_not_letter: "isDigit ch \<Longrightarrow> \<not> ascii_letter ch \<and> ch \<noteq> rn CHR ''_''"
  by (auto simp: isDigit_def ascii_letter_def)

lemma word_byte_rune: "word_byte b \<Longrightarrow> b < 0x80 \<and> (isDigit (unat b) \<or> ascii_letter (unat b) \<or> unat b = rn CHR ''_'')"
  by (auto simp: word_byte_def byte_eq_numeral)

lemma nextToken_read:
  assumes "skipWhitespace l0 = l" "peek l \<noteq> 0" "\<not> (peek l = rn CHR ''}'' \<and> inInterpolation l \<and> braceDepth l = interpTop l)"
  shows "nextToken letter l0 =
    (case readSingleChar (peek l) (position l) l of Some r \<Rightarrow> r
     | None \<Rightarrow> (case readOperator (peek l) (position l) l of Some r \<Rightarrow> r
     | None \<Rightarrow>
         if peek l = 0x22 then readString (position l) l
         else if isDigit (peek l) then readNumber (position l) l
         else if isLetter letter (peek l) \<or> peek l = rn CHR ''_'' then readIdent letter (position l) l
         else (makeToken T_Illegal (EncodeRune (peek l)) (position l),
           lex_error (position l) (UnexpectedCharacter (peek l)) (advance l))))"
  by (simp only: nextToken_def Let_def assms(1) if_not_P [OF assms(2)] if_not_P [OF assms(3)])

lemma nextToken_word:
  assumes "lrest l = x @ rest" "rest = [] \<or> (\<exists>r. rest = 0x20 # r)" "x \<noteq> []" "list_all word_byte x" "\<not> digit_byte (hd x)"
    "letter_table letter" "skipWhitespace l0 = l"
  shows "good_token (LookupKeyword x) x l rest (nextToken letter l0)"
proof -
  obtain b x' where x: "x = b # x'" using assms(3) by (cases x) auto
  let ?P = "\<lambda>ch. isLetter letter ch \<or> isDigit ch \<or> ch = rn CHR ''_''"
  have lt: "isLetter letter (unat b) = ascii_letter (unat b)" if "b < 0x80" for b :: byte
  proof -
    have "unat b < 128" using that unfolding word_less_nat_alt by simp
    then show ?thesis using assms(6) by (auto simp: isLetter_def letter_table_def ascii_letter_def)
  qed
  have w: "lrest (advance_while ?P l) = rest \<and> lpos (advance_while ?P l) = lpos l + length x"
  proof (rule advance_while_text [OF assms(1)])
    show "list_all (\<lambda>b. b < 0x80 \<and> ?P (unat b)) x"
      using assms(4) lt by (auto simp: list_all_iff dest!: word_byte_rune)
    show "rest = [] \<or> hd rest < 0x80 \<and> \<not> ?P (unat (hd rest))"
      using assms(2) lt [of "0x20"] by (auto simp: isDigit_def ascii_letter_def)
  qed
  have b: "b < 0x80" "ascii_letter (unat b) \<or> unat b = rn CHR ''_''" "\<not> isDigit (unat b)"
    using assms(4,5) x word_byte_rune [of b] by (auto simp: digit_byte_def)
  have pk: "peek l = unat b" using peek_lrest assms(1) x b(1) by simp
  have "lrest l = x @ rest" by (rule assms(1))
  then have sf: "source_from (lpos l) (advance_while ?P l) = x"
    using w lex_skipsD(6) [OF advance_while_skips, of ?P l] by (simp add: source_from_def lrest_def)
  have "nextToken letter l0 = readIdent letter (position l) l"
    using no_operator [of "unat b" "position l" l] b lt [OF b(1)] nextToken_read [OF assms(7), of letter] by (auto simp: pk)
  also have "\<dots> = (makeToken (LookupKeyword x) x (position l), advance_while ?P l)"
    unfolding readIdent_def Let_def sf ..
  finally show ?thesis using w lex_skips_def lex_moves_def advance_while_skips [of l ?P] by (simp add: good_token_def)
qed

lemma nextToken_int:
  assumes "lrest l = x @ rest" "rest = [] \<or> (\<exists>r. rest = 0x20 # r)" "x \<noteq> []" "list_all digit_byte x" "skipWhitespace l0 = l"
  shows "good_token T_Int x l rest (nextToken letter l0)"
proof -
  obtain b x' where x: "x = b # x'" using assms(3) by (cases x) auto
  let ?l1 = "advance_while isDigit l"
  have w: "lrest ?l1 = rest \<and> lpos ?l1 = lpos l + length x"
  proof (rule advance_while_text [OF assms(1)])
    show "list_all (\<lambda>b. b < 0x80 \<and> isDigit (unat b)) x" using assms(4) by (simp add: digit_byte_def [abs_def])
    show "rest = [] \<or> hd rest < 0x80 \<and> \<not> isDigit (unat (hd rest))" using assms(2) by (auto simp: isDigit_def)
  qed
  have b: "b < 0x80" "isDigit (unat b)" using assms(4) x by (simp_all add: digit_byte_def)
  have pk: "peek l = unat b" using peek_lrest assms(1) x b(1) by simp
  have sf: "source_from (lpos l) ?l1 = x"
    using w assms(1) lex_skipsD(6) [OF advance_while_skips, of isDigit l] by (simp add: source_from_def lrest_def)
  have p1: "peek ?l1 = 0 \<or> peek ?l1 = 0x20" using w assms(2) by (auto simp: peek_end peek_lrest)
  have "nextToken letter l0 = readNumber (position l) l"
    using no_operator [of "unat b" "position l" l] b nextToken_read [OF assms(5), of letter] by (auto simp: pk)
  also have "\<dots> = (makeToken T_Int x (position l), ?l1)"
    using p1 by (auto simp: readNumber_def Let_def sf)
  finally show ?thesis using w lex_skips_def lex_moves_def advance_while_skips [of l isDigit] by (simp add: good_token_def)
qed

lemma nextToken_symbol:
  assumes "lrest l = Type_String ty @ rest" "rest = [] \<or> (\<exists>r. rest = 0x20 # r)" "is_symbol ty" "skipWhitespace l0 = l" "interpStack l = []"
  shows "good_token ty (Type_String ty) l rest (nextToken letter l0)"
proof -
  have r: "peek l \<noteq> 0" "case readSingleChar (peek l) (position l) l of Some r \<Rightarrow> good_token ty (Type_String ty) l rest r
     | None \<Rightarrow> (case readOperator (peek l) (position l) l of Some r \<Rightarrow> good_token ty (Type_String ty) l rest r | None \<Rightarrow> False)"
    using symbol_reads [OF assms(3)] assms(1,2) unfolding operator_reads_def by blast+
  have n: "\<not> (peek l = rn CHR ''}'' \<and> inInterpolation l \<and> braceDepth l = interpTop l)"
    using assms(5) by (simp add: inInterpolation_def)
  note read = nextToken_read [OF assms(4) r(1) n, of letter]
  show ?thesis
  proof (cases "readSingleChar (peek l) (position l) l")
    case single: None
    then show ?thesis
    proof (cases "readOperator (peek l) (position l) l")
      case None
      then show ?thesis using r(2) single by (simp only: option.case)
    next
      case (Some y)
      then show ?thesis using r(2) single read by (simp only: option.case)
    qed
  next
    case (Some y)
    then show ?thesis using r(2) read by (simp only: option.case)
  qed
qed

lemma lexeme_start: "lexeme (ty, x) \<Longrightarrow> \<exists>b r. x = b # r \<and> b < 0x80 \<and> \<not> space_byte b"
  using symbol_start [of ty]
  by (cases x) (auto simp: lexeme_def space_byte_def digit_byte_def isDigit_def word_byte_def ascii_letter_def)

lemma nextToken_lexeme:
  assumes "lexeme (ty, x)" "lrest l0 = 0x20 # x @ rest" "rest = [] \<or> (\<exists>r. rest = 0x20 # r)" "interpStack l0 = []" "letter_table letter"
  shows "good_token ty x l0 rest (nextToken letter l0)"
proof -
  define l where "l = skipWhitespace l0"
  have lr: "lrest l = x @ rest" unfolding l_def using lexeme_start [OF assms(1)] skip_text [of l0] assms(2) by force
  have sk: "interpStack l = []" "lerrors l = lerrors l0" "ltokens l = ltokens l0" "skipWhitespace l0 = l" "interpStack l0 = []"
    using skipWhitespace_skips [of l0] assms(4) by (simp_all add: lex_skips_def lex_moves_def l_def)
  have "good_token ty x l rest (nextToken letter l0)"
    using assms(1) nextToken_word [OF lr assms(3) _ _ _ assms(5) sk(4)] nextToken_int [OF lr assms(3) _ _ sk(4)]
      nextToken_symbol [of l ty rest l0] lr assms(3) sk
    by (auto simp: lexeme_def)
  then show ?thesis using sk by (simp add: good_token_def)
qed

lemma lexeme_type: "lexeme (ty, x) \<Longrightarrow> ty \<notin> {T_EOF, T_Comment, T_DocComment}"
  using LookupKeyword_cases [of x]
  by (auto simp: lexeme_def is_symbol_def less_eq_Type_def IsKeyword_index)

lemma Tokenize_loop_lexemes:
  assumes "list_all lexeme ps" "lrest l = print_tokens ps" "interpStack l = []" "letter_table letter"
  shows "map (\<lambda>t. (tokType t, tokVal t)) (ltokens (Tokenize_loop letter l)) =
      map (\<lambda>t. (tokType t, tokVal t)) (ltokens l) @ ps @ [(T_EOF, [])] \<and>
    lerrors (Tokenize_loop letter l) = lerrors l"
  using assms
proof (induction ps arbitrary: l)
  case Nil
  then have "lrest l = []" by (simp add: print_tokens_def)
  then have "skipWhitespace l = l" unfolding skipWhitespace_def by (subst advance_while.simps) (simp add: lrest_def)
  then have "nextToken letter l = (makeToken T_EOF [] (position l), l)"
    using peek_end [OF \<open>lrest l = []\<close>] by (simp add: nextToken_def Let_def)
  then show ?case by (subst (1 2) Tokenize_loop.simps) (simp add: Let_def)
next
  case (Cons p ps)
  obtain ty x where p: "p = (ty, x)" by (cases p)
  obtain t l1 where n: "nextToken letter l = (t, l1)" by (cases "nextToken letter l")
  have "good_token ty x l (print_tokens ps) (nextToken letter l)"
    by (rule nextToken_lexeme) (use Cons p print_tokens_head [of ps] in \<open>simp_all add: print_tokens_def\<close>)
  then have g: "tokType t = ty" "tokVal t = x" "lrest l1 = print_tokens ps" "interpStack l1 = []" "lerrors l1 = lerrors l" "ltokens l1 = ltokens l"
    using Cons(4) by (simp_all add: n good_token_def)
  let ?l2 = "l1\<lparr>ltokens := ltokens l1 @ [t]\<rparr>"
  have "ty \<notin> {T_EOF, T_Comment, T_DocComment}" using Cons(2) p lexeme_type [of ty x] by simp
  then have "Tokenize_loop letter l = Tokenize_loop letter ?l2"
    using g n by (subst Tokenize_loop.simps) (simp add: Let_def)
  moreover have "map (\<lambda>t. (tokType t, tokVal t)) (ltokens (Tokenize_loop letter ?l2)) =
      map (\<lambda>t. (tokType t, tokVal t)) (ltokens ?l2) @ ps @ [(T_EOF, [])] \<and>
      lerrors (Tokenize_loop letter ?l2) = lerrors ?l2"
    by (rule Cons(1)) (use Cons g in simp_all)
  ultimately show ?case using g p by simp
qed

text \<open>C30: Operators, integers, keywords and identifiers of ASCII letters, printed with a space in front of
  each, are read back as the same tokens with the same texts, and without an error.\<close>

theorem Tokenize_print:
  assumes "letter_table letter" "list_all lexeme ps"
  shows "map (\<lambda>t. (tokType t, tokVal t)) (fst (Tokenize letter (New_Lexer (print_tokens ps) file))) = ps @ [(T_EOF, [])] \<and>
    snd (Tokenize letter (New_Lexer (print_tokens ps) file)) = []"
  using Tokenize_loop_lexemes [OF assms(2), of "New_Lexer (print_tokens ps) file" letter] assms(1)
  by (simp add: Tokenize_def Let_def New_Lexer_def lrest_def)

lemma Tokenize_print_witness:
  "map (\<lambda>t. (tokType t, tokVal t)) (fst (Tokenize ascii_letter (New_Lexer
      (print_tokens [(T_Val, lit ''val''), (T_Ident, lit ''x1''), (T_Assign, lit ''=''), (T_Int, lit ''42'')]) []))) =
     [(T_Val, lit ''val''), (T_Ident, lit ''x1''), (T_Assign, lit ''=''), (T_Int, lit ''42'')] @ [(T_EOF, [])] \<and>
   snd (Tokenize ascii_letter (New_Lexer
      (print_tokens [(T_Val, lit ''val''), (T_Ident, lit ''x1''), (T_Assign, lit ''=''), (T_Int, lit ''42'')]) [])) = []"
proof (rule Tokenize_print)
  show "letter_table ascii_letter" by (simp add: letter_table_def)
  have "LookupKeyword (lit ''val'') = T_Val" "LookupKeyword (lit ''x1'') = T_Ident"
    by (simp_all add: LookupKeyword_def keyword_table_def)
  moreover have "Type_String T_Assign = lit ''=''" by (simp add: Type_String_def tokenNames_def)
  ultimately show "list_all lexeme [(T_Val, lit ''val''), (T_Ident, lit ''x1''), (T_Assign, lit ''=''), (T_Int, lit ''42'')]"
    by (simp add: lexeme_def is_symbol_def less_eq_Type_def) (simp add: lit_simps word_byte_def digit_byte_def ascii_letter_def isDigit_def)
qed

text \<open>A word is a keyword exactly when it is the name of a keyword type, and that type is the one
  the lexer gives it.\<close>

theorem LookupKeyword_iff: "(LookupKeyword s = t \<and> t \<noteq> T_Ident) = (IsKeyword t \<and> Type_String t = s)"
proof
  assume "LookupKeyword s = t \<and> t \<noteq> T_Ident"
  then show "IsKeyword t \<and> Type_String t = s" using LookupKeyword_cases [of s] by auto
next
  assume "IsKeyword t \<and> Type_String t = s"
  then show "LookupKeyword s = t \<and> t \<noteq> T_Ident" using LookupKeyword_String [of t] by (auto simp: IsKeyword_index)
qed

section \<open>Empty line comments\<close>

lemma known_rest: "lrest l = x @ rest \<Longrightarrow> lrest l' = rest \<Longrightarrow> lpos l' = lpos l + length x \<Longrightarrow> lsource l' = lsource l \<Longrightarrow>
    source_from (lpos l) l' = x"
  by (simp add: source_from_def lrest_def)

lemma readLineComment_empty:
  assumes "lrest l = 0x0A # x @ rest" "x \<noteq> []" "list_all (\<lambda>b. 0 < b \<and> b < 0x80 \<and> b \<noteq> 0x0A) x" "\<not> space_byte (hd x)"
    "rest = [] \<or> hd rest = 0x0A"
  shows "tokType (fst (readLineComment p l)) = T_Comment \<and> tokVal (fst (readLineComment p l)) = x \<and>
    lrest (snd (readLineComment p l)) = rest"
proof -
  define l1 where "l1 = skipWhitespace l"
  obtain b y where x: "x = b # y" using assms(2) by (cases x) auto
  then have b: "b < 0x80" "\<not> space_byte b" using assms(3,4) by simp_all
  have l1: "lrest l1 = x @ rest"
    using advance_while_text [of l "[0x0A]" "x @ rest"] assms(1) b
    by (simp add: l1_def skipWhitespace_def x space_byte_def byte_eq_numeral)
  have ne: "unat c \<noteq> 0" "unat c \<noteq> 10" if "0 < c" "c \<noteq> 0x0A" for c :: byte
    using that by (auto simp: byte_eq_numeral unat_eq_0)
  have w: "lrest (advance_while comment_char l1) = rest \<and> lpos (advance_while comment_char l1) = lpos l1 + length x"
    by (rule advance_while_text [OF l1]) (use assms(3,5) ne in \<open>auto simp: comment_char_def list_all_iff\<close>)
  have "source_from (lpos l1) (advance_while comment_char l1) = x"
    using known_rest [OF l1] w lex_skipsD(6) [OF advance_while_skips, of comment_char l1] by simp
  then show ?thesis using w by (simp add: readLineComment_def Let_def flip: l1_def)
qed

text \<open>An empty line comment swallows the line after it: the white space skipped after the slashes
  takes the newline too, so the next line becomes the text of the comment.\<close>

theorem empty_comment_swallows_line:
  assumes "x \<noteq> []" "list_all (\<lambda>b. 0 < b \<and> b < 0x80 \<and> b \<noteq> 0x0A) x" "\<not> space_byte (hd x)" "rest = [] \<or> hd rest = 0x0A"
  shows "tokType (fst (nextToken letter (New_Lexer (lit [CHR ''/'', CHR ''/''] @ 0x0A # x @ rest) file))) = T_Comment \<and>
    tokVal (fst (nextToken letter (New_Lexer (lit [CHR ''/'', CHR ''/''] @ 0x0A # x @ rest) file))) = x \<and>
    lrest (snd (nextToken letter (New_Lexer (lit [CHR ''/'', CHR ''/''] @ 0x0A # x @ rest) file))) = rest"
proof -
  define l where "l = New_Lexer (lit [CHR ''/'', CHR ''/''] @ 0x0A # x @ rest) file"
  have l: "lrest l = 0x2F # 0x2F # 0x0A # x @ rest" "interpStack l = []"
    by (simp_all add: l_def New_Lexer_def lrest_def lit_simps)
  have pk: "peek l = 0x2F" "peek (advance l) = 0x2F" "peek (advance (advance l)) = 0x0A"
    "lrest (advance (advance l)) = 0x0A # x @ rest"
    using l(1) by (simp_all add: known_text)
  have "skipWhitespace l = l" unfolding skipWhitespace_def by (subst advance_while.simps) (simp add: pk)
  moreover have "readOperator (peek l) (position l) l = Some (readLineComment (position l) (advance (advance l)))"
    using pk by (simp add: readOperator_def readSlashOrComment_def Let_def)
  moreover have "readSingleChar (peek l) (position l) l = None"
    using pk by (simp add: readSingleChar_def Let_def)
  ultimately have "nextToken letter l = readLineComment (position l) (advance (advance l))"
    using nextToken_read [of l l letter] pk by simp
  then show ?thesis using readLineComment_empty [OF pk(4) assms] by (simp flip: l_def)
qed

lemma empty_comment_swallows_line_witness:
  "tokType (fst (nextToken ascii_letter (New_Lexer (lit [CHR ''/'', CHR ''/''] @ 0x0A # lit ''use http'' @ []) []))) = T_Comment \<and>
   tokVal (fst (nextToken ascii_letter (New_Lexer (lit [CHR ''/'', CHR ''/''] @ 0x0A # lit ''use http'' @ []) []))) = lit ''use http'' \<and>
   lrest (snd (nextToken ascii_letter (New_Lexer (lit [CHR ''/'', CHR ''/''] @ 0x0A # lit ''use http'' @ []) []))) = []"
  by (rule empty_comment_swallows_line) (simp_all add: lit_simps space_byte_def)

end
