(* ===== verification/Frame.thy ===== *)
theory Frame
  imports Message
begin

text \<open>
  The transport of internal RPC, pkg/lux/rpc/frame.go: frames with a four-byte length in front,
  and the request envelope with its bearer token and, in version 4, its trace. A connection
  is the bytes still to be read from it; a writer is any function from bytes and its state to
  an error or none and its next state.
\<close>

section \<open>The request envelope\<close>

definition statusOK :: byte where "statusOK = 0x00"
definition statusError :: byte where "statusError = 0x01"
definition statusStream :: byte where "statusStream = 0x02"
definition statusTraceOK :: byte where "statusTraceOK = 0x03"
definition statusTraceError :: byte where "statusTraceError = 0x04"
definition maxFrameSize :: nat where "maxFrameSize = 4 * 2 ^ 20"
definition requestEnvelopeMarker :: byte where "requestEnvelopeMarker = 0x00"
definition requestEnvelopeVersion :: byte where "requestEnvelopeVersion = 0x01"
definition legacyTraceEnvelopeVersion :: byte where "legacyTraceEnvelopeVersion = 0x02"
definition fieldTraceEnvelopeVersion :: byte where "fieldTraceEnvelopeVersion = 0x03"
definition tracedRequestEnvelopeVersion :: byte where "tracedRequestEnvelopeVersion = 0x04"
definition requestKindCall :: byte where "requestKindCall = 0x01"
definition requestKindStream :: byte where "requestKindStream = 0x02"
definition maxBearerTokenSize :: u64 where "maxBearerTokenSize = 0x4000"
definition maxTraceIDSize :: u64 where "maxTraceIDSize = 256"
definition maxTraceFieldPathSize :: u64 where "maxTraceFieldPathSize = 0x1000"

lemmas frame_constants = statusOK_def statusError_def statusStream_def statusTraceOK_def statusTraceError_def
  requestEnvelopeMarker_def requestEnvelopeVersion_def legacyTraceEnvelopeVersion_def
  fieldTraceEnvelopeVersion_def tracedRequestEnvelopeVersion_def requestKindCall_def requestKindStream_def

record requestEnvelope =
  envKind :: byte
  envToken :: bytes
  envTraceID :: bytes
  envFieldPath :: bytes
  envDatabaseDetails :: bool
  envBody :: bytes

datatype envelope_error =
    MissingEnvelope | TruncatedEnvelope | UnsupportedVersion byte | UnknownKind byte
  | InvalidTokenLength | TokenTooLong | TokenExceedsRequest | EnvelopeWithoutBody
  | InvalidPathLength | PathTooLong | PathExceedsRequest
  | InvalidTraceIDLength | TraceIDOutOfRange | TraceIDExceedsRequest | InvalidDetailFlag

definition encodeRequestEnvelope :: "byte \<Rightarrow> bytes \<Rightarrow> bytes \<Rightarrow> bytes" where
  "encodeRequestEnvelope kind token body =
     (let payload = [requestEnvelopeMarker, requestEnvelopeVersion, kind];
          payload = AppendVarint payload (of_nat (length token));
          payload = payload @ token
      in payload @ body)"

definition encodeTracedRequestEnvelope :: "byte \<Rightarrow> bytes \<Rightarrow> bytes \<Rightarrow> bytes \<Rightarrow> bool \<Rightarrow> bytes \<Rightarrow> bytes" where
  "encodeTracedRequestEnvelope kind token traceID fieldPath databaseDetails body =
     (let payload = [requestEnvelopeMarker, tracedRequestEnvelopeVersion, kind];
          payload = AppendVarint payload (of_nat (length token));
          payload = payload @ token;
          payload = AppendVarint payload (of_nat (length traceID));
          payload = payload @ traceID;
          payload = AppendVarint payload (of_nat (length fieldPath));
          payload = payload @ fieldPath;
          payload = payload @ [if databaseDetails then 1 else 0]
      in payload @ body)"

text \<open>The Go slice s[a:b].\<close>

definition slice :: "nat \<Rightarrow> nat \<Rightarrow> bytes \<Rightarrow> bytes" where
  "slice a b s = take (b - a) (drop a s)"

definition decodeTraceFieldPath :: "bytes \<Rightarrow> nat \<Rightarrow> envelope_error + bytes \<times> nat" where
  "decodeTraceFieldPath payload offset =
     (case ReadVarint payload offset of (pathLength, consumed) \<Rightarrow>
        if consumed \<le> 0 then Inl InvalidPathLength
        else if pathLength > maxTraceFieldPathSize then Inl PathTooLong
        else let start = offset + nat consumed in
          if pathLength > of_nat (length payload - start) then Inl PathExceedsRequest
          else let stop = start + unat pathLength in Inr (slice start stop payload, stop))"

definition decodeTraceID :: "bytes \<Rightarrow> nat \<Rightarrow> envelope_error + bytes \<times> nat" where
  "decodeTraceID payload offset =
     (case ReadVarint payload offset of (traceLength, consumed) \<Rightarrow>
        if consumed \<le> 0 then Inl InvalidTraceIDLength
        else if traceLength = 0 \<or> traceLength > maxTraceIDSize then Inl TraceIDOutOfRange
        else let start = offset + nat consumed in
          if traceLength \<ge> of_nat (length payload - start) then Inl TraceIDExceedsRequest
          else let stop = start + unat traceLength in Inr (slice start stop payload, stop))"

text \<open>The part of decodeRequestEnvelope after the token: the trace and the body.\<close>

definition decode_after_token :: "bytes \<Rightarrow> byte \<Rightarrow> requestEnvelope \<Rightarrow> nat \<Rightarrow> envelope_error + requestEnvelope" where
  "decode_after_token payload version envelope tokenEnd =
     (if version = legacyTraceEnvelopeVersion \<or> version = fieldTraceEnvelopeVersion \<or>
         version = tracedRequestEnvelopeVersion then
        (case decodeTraceID payload tokenEnd of
           Inl e \<Rightarrow> Inl e
         | Inr (traceID, bodyStart) \<Rightarrow>
             let envelope = envelope\<lparr>envTraceID := traceID\<rparr> in
             (case (if version = fieldTraceEnvelopeVersion \<or> version = tracedRequestEnvelopeVersion
                    then (case decodeTraceFieldPath payload bodyStart of
                        Inl e \<Rightarrow> Inl e
                      | Inr (fieldPath, next) \<Rightarrow> Inr (envelope\<lparr>envFieldPath := fieldPath\<rparr>, next))
                    else Inr (envelope, bodyStart)) of
                Inl e \<Rightarrow> Inl e
              | Inr (envelope, bodyStart) \<Rightarrow>
                  (case (if version = tracedRequestEnvelopeVersion
                         then if bodyStart \<ge> length payload \<or> payload ! bodyStart > 1 then Inl InvalidDetailFlag
                           else Inr (envelope\<lparr>envDatabaseDetails := (payload ! bodyStart = 1)\<rparr>, bodyStart + 1)
                         else Inr (envelope, bodyStart)) of
                     Inl e \<Rightarrow> Inl e
                   | Inr (envelope, bodyStart) \<Rightarrow>
                       if bodyStart \<ge> length payload then Inl EnvelopeWithoutBody
                       else Inr (envelope\<lparr>envBody := drop bodyStart payload\<rparr>))))
      else Inr (envelope\<lparr>envBody := drop tokenEnd payload\<rparr>))"

definition decodeRequestEnvelope :: "bytes \<Rightarrow> envelope_error + requestEnvelope" where
  "decodeRequestEnvelope payload =
     (if payload = [] \<or> hd payload \<noteq> requestEnvelopeMarker then Inl MissingEnvelope
      else if length payload < 4 then Inl TruncatedEnvelope
      else let version = payload ! 1; kind = payload ! 2 in
        if version \<noteq> requestEnvelopeVersion \<and> version \<noteq> legacyTraceEnvelopeVersion \<and>
           version \<noteq> fieldTraceEnvelopeVersion \<and> version \<noteq> tracedRequestEnvelopeVersion
        then Inl (UnsupportedVersion version)
        else if kind \<noteq> requestKindCall \<and> kind \<noteq> requestKindStream then Inl (UnknownKind kind)
        else (case ReadVarint payload 3 of (tokenLength, consumed) \<Rightarrow>
          if consumed \<le> 0 then Inl InvalidTokenLength
          else if tokenLength > maxBearerTokenSize then Inl TokenTooLong
          else let start = 3 + nat consumed in
            if tokenLength > of_nat (length payload - start) then Inl TokenExceedsRequest
            else let tokenEnd = start + unat tokenLength in
              if tokenEnd = length payload then Inl EnvelopeWithoutBody
              else decode_after_token payload version
                \<lparr>envKind = kind, envToken = slice start tokenEnd payload, envTraceID = [], envFieldPath = [],
                 envDatabaseDetails = False, envBody = []\<rparr> tokenEnd))"

section \<open>Frames\<close>

text \<open>encoding/binary's BigEndian.PutUint32 and Uint32, on the number they carry.\<close>

definition PutUint32BE :: "nat \<Rightarrow> bytes" where
  "PutUint32BE n = [of_nat (n div 2 ^ 24), of_nat (n div 2 ^ 16), of_nat (n div 2 ^ 8), of_nat n]"

fun Uint32BE :: "bytes \<Rightarrow> nat" where
  "Uint32BE [a, b, c, d] = unat a * 2 ^ 24 + unat b * 2 ^ 16 + unat c * 2 ^ 8 + unat d"
| "Uint32BE _ = 0"

datatype 'e frame_error = FrameTooLarge nat | IOError 'e

definition WriteFrame ::
  "(bytes \<Rightarrow> 'w \<Rightarrow> 'e option \<times> 'w) \<Rightarrow> 'w \<Rightarrow> bytes \<Rightarrow> 'e frame_error option \<times> 'w" where
  "WriteFrame write w payload =
     (if length payload > maxFrameSize then (Some (FrameTooLarge (length payload)), w)
      else case write (PutUint32BE (length payload)) w of
          (Some e, w1) \<Rightarrow> (Some (IOError e), w1)
        | (None, w1) \<Rightarrow> (case write payload w1 of (e, w2) \<Rightarrow> (map_option IOError e, w2)))"

text \<open>net.Buffers.WriteTo writes its slices in order.\<close>

definition writeStatusFrame ::
  "(bytes \<Rightarrow> 'w \<Rightarrow> 'e option \<times> 'w) \<Rightarrow> 'w \<Rightarrow> byte \<Rightarrow> bytes \<Rightarrow> 'e frame_error option \<times> 'w" where
  "writeStatusFrame write w status payload =
     (if length payload \<ge> maxFrameSize then (Some (FrameTooLarge (length payload + 1)), w)
      else case write (PutUint32BE (length payload + 1) @ [status]) w of
          (Some e, w1) \<Rightarrow> (Some (IOError e), w1)
        | (None, w1) \<Rightarrow> (case write payload w1 of (e, w2) \<Rightarrow> (map_option IOError e, w2)))"

text \<open>io.ReadFull on the bytes of a connection whose other end has closed after them.\<close>

datatype read_error = EOF | UnexpectedEOF

definition ReadFull :: "nat \<Rightarrow> bytes \<Rightarrow> read_error + bytes \<times> bytes" where
  "ReadFull n conn =
     (if n \<le> length conn then Inr (take n conn, drop n conn)
      else if conn = [] then Inl EOF else Inl UnexpectedEOF)"

text \<open>The buffer to reuse does not change what is read, only where it is stored.\<close>

definition ReadFrame :: "bytes \<Rightarrow> read_error frame_error + bytes \<times> bytes" where
  "ReadFrame conn =
     (case ReadFull 4 conn of
        Inl e \<Rightarrow> Inl (IOError e)
      | Inr (hdr, conn1) \<Rightarrow>
          let sz = Uint32BE hdr in
          if sz > maxFrameSize then Inl (FrameTooLarge sz)
          else (case ReadFull sz conn1 of Inl e \<Rightarrow> Inl (IOError e) | Inr (payload, conn2) \<Rightarrow> Inr (payload, conn2)))"

section \<open>The envelope is read back\<close>

text \<open>What the peer sends within its limits.\<close>

definition token_ok :: "bytes \<Rightarrow> bool" where
  "token_ok t = (length t \<le> 0x4000)"

definition trace_ok :: "bytes \<Rightarrow> bytes \<Rightarrow> bool" where
  "trace_ok t path = (t \<noteq> [] \<and> length t \<le> 256 \<and> length path \<le> 0x1000)"

lemma small_length: "length xs \<le> 0x4000 \<Longrightarrow> unat (of_nat (length xs) :: u64) = length xs"
  by (rule unat_le_max_len) (simp add: max_len_def)

lemma of_nat_le_word: "length xs \<le> k \<Longrightarrow> k \<le> 0x4000 \<Longrightarrow> (of_nat (length xs) :: u64) \<le> of_nat k"
  by (simp add: word_le_nat_alt unat_of_nat take_bit_nat_eq_self)

text \<open>A length-prefixed part of a payload.\<close>

lemma prefixed_part:
  assumes "drop off payload = AppendVarint [] (of_nat (length x)) @ x @ rest" "length x \<le> 0x4000" "length payload < max_len"
  shows "ReadVarint payload off = (of_nat (length x), int (length (AppendVarint [] (of_nat (length x)))))"
    and "slice (off + length (AppendVarint [] (of_nat (length x) :: u64)))
      (off + length (AppendVarint [] (of_nat (length x) :: u64)) + length x) payload = x"
    and "drop (off + length (AppendVarint [] (of_nat (length x) :: u64)) + length x) payload = rest"
    and "off + length (AppendVarint [] (of_nat (length x) :: u64)) + length x + length rest = length payload"
    and "(of_nat (length x) :: u64) \<le> of_nat (length payload - (off + length (AppendVarint [] (of_nat (length x) :: u64))))"
    and "rest \<noteq> [] \<Longrightarrow> (of_nat (length x) :: u64) < of_nat (length payload - (off + length (AppendVarint [] (of_nat (length x) :: u64))))"
proof -
  let ?h = "AppendVarint [] (of_nat (length x) :: u64)"
  have d: "drop off payload = ?h @ (x @ rest)" using assms(1) by simp
  show "ReadVarint payload off = (of_nat (length x), int (length ?h))" by (rule ReadVarint_app [OF d])
  have d2: "drop (off + length ?h) payload = x @ rest" by (rule drop_eq_appendD [OF d])
  then show "slice (off + length ?h) (off + length ?h + length x) payload = x" by (simp add: slice_def)
  show "drop (off + length ?h + length x) payload = rest" by (rule drop_eq_appendD [OF d2])
  have len: "off + length ?h + length x + length rest = length payload"
    using drop_eq_append_length [OF d] by simp
  then show "off + length ?h + length x + length rest = length payload" .
  have le: "length payload - (off + length ?h) = length x + length rest" using len by simp
  have u: "unat (of_nat (length x + length rest) :: u64) = length x + length rest"
    by (rule unat_le_max_len) (use len assms(3) in simp)
  have ux: "unat (of_nat (length x) :: u64) = length x" by (rule small_length [OF assms(2)])
  show "(of_nat (length x) :: u64) \<le> of_nat (length payload - (off + length ?h))"
    unfolding le word_le_nat_alt u ux by simp
  show "rest \<noteq> [] \<Longrightarrow> (of_nat (length x) :: u64) < of_nat (length payload - (off + length ?h))"
    unfolding le word_less_nat_alt u ux by simp
qed

lemma decode_encode_envelope:
  assumes "token_ok token" "body \<noteq> []" "kind = requestKindCall \<or> kind = requestKindStream"
    "length (encodeRequestEnvelope kind token body) < max_len"
  shows "decodeRequestEnvelope (encodeRequestEnvelope kind token body) =
    Inr \<lparr>envKind = kind, envToken = token, envTraceID = [], envFieldPath = [], envDatabaseDetails = False, envBody = body\<rparr>"
proof -
  define payload where "payload = encodeRequestEnvelope kind token body"
  have p: "payload = [0, 1, kind] @ AppendVarint [] (of_nat (length token)) @ token @ body"
    using AppendVarint_app [of "[0, 1, kind]"] by (simp add: payload_def encodeRequestEnvelope_def Let_def frame_constants)
  then have d: "drop 3 payload = AppendVarint [] (of_nat (length token)) @ token @ body" by simp
  have l: "length payload < max_len" using assms(4) by (simp add: payload_def)
  note t = prefixed_part [OF d _ l, folded token_ok_def, OF assms(1)]
  have len: "4 \<le> length payload" using p assms(2) by (cases "AppendVarint [] (of_nat (length token) :: u64)") simp_all
  have hd: "hd payload = 0" "payload ! 1 = 1" "payload ! 2 = kind" using p by simp_all
  have "(of_nat (length token) :: u64) \<le> maxBearerTokenSize"
    using of_nat_le_word [of token "0x4000"] assms(1) by (simp add: token_ok_def maxBearerTokenSize_def)
  then show ?thesis
    unfolding payload_def [symmetric]
    using assms(2,3) t len hd small_length [of token] assms(1)
    by (auto simp: decodeRequestEnvelope_def decode_after_token_def frame_constants token_ok_def Let_def)
qed

lemma decodeTraceID_enc:
  assumes "drop off payload = AppendVarint [] (of_nat (length x)) @ x @ rest" "x \<noteq> []" "length x \<le> 256" "rest \<noteq> []" "length payload < max_len"
  shows "decodeTraceID payload off = Inr (x, off + length (AppendVarint [] (of_nat (length x) :: u64)) + length x)"
proof -
  have x: "length x \<le> 0x4000" using assms(3) by simp
  note t = prefixed_part [OF assms(1) x assms(5)]
  have "(of_nat (length x) :: u64) \<noteq> 0" using small_length [OF x] assms(2) by (metis length_0_conv unat_0)
  moreover have "(of_nat (length x) :: u64) \<le> maxTraceIDSize"
    using of_nat_le_word [OF assms(3)] by (simp add: maxTraceIDSize_def)
  ultimately show ?thesis using t(1,2) t(6) [OF assms(4)] small_length [OF x] by (simp add: decodeTraceID_def Let_def not_le not_less)
qed

lemma decodeTraceFieldPath_enc:
  assumes "drop off payload = AppendVarint [] (of_nat (length x)) @ x @ rest" "length x \<le> 0x1000" "length payload < max_len"
  shows "decodeTraceFieldPath payload off = Inr (x, off + length (AppendVarint [] (of_nat (length x) :: u64)) + length x)"
proof -
  have x: "length x \<le> 0x4000" using assms(2) by simp
  note t = prefixed_part [OF assms(1) x assms(3)]
  have "(of_nat (length x) :: u64) \<le> maxTraceFieldPathSize"
    using of_nat_le_word [OF assms(2)] by (simp add: maxTraceFieldPathSize_def)
  then show ?thesis using t(1,2,5) small_length [OF x] by (simp add: decodeTraceFieldPath_def Let_def not_le not_less)
qed

lemma decode_encode_traced:
  assumes "token_ok token" "trace_ok trace path" "body \<noteq> []" "kind = requestKindCall \<or> kind = requestKindStream"
    "length (encodeTracedRequestEnvelope kind token trace path details body) < max_len"
  shows "decodeRequestEnvelope (encodeTracedRequestEnvelope kind token trace path details body) =
    Inr \<lparr>envKind = kind, envToken = token, envTraceID = trace, envFieldPath = path, envDatabaseDetails = details, envBody = body\<rparr>"
proof -
  define payload where "payload = encodeTracedRequestEnvelope kind token trace path details body"
  let ?v = "\<lambda>x. AppendVarint [] (of_nat (length x) :: u64)" and ?flag = "if details then 1 else 0 :: byte"
  have app: "AppendVarint dst w = dst @ AppendVarint [] w" for dst w by (rule AppendVarint_app)
  have p: "payload = [0, 4, kind] @ ?v token @ token @ ?v trace @ trace @ ?v path @ path @ ?flag # body"
    unfolding payload_def encodeTracedRequestEnvelope_def Let_def
    by (subst app, subst (2) app, subst (3) app) (simp add: frame_constants)
  then have d: "drop 3 payload = ?v token @ token @ (?v trace @ trace @ ?v path @ path @ ?flag # body)" by simp
  have l: "length payload < max_len" using assms(5) by (simp add: payload_def)
  note t = prefixed_part [OF d _ l, folded token_ok_def, OF assms(1)]
  let ?o1 = "3 + length (?v token) + length token"
  let ?o2 = "?o1 + length (?v trace) + length trace"
  let ?o3 = "?o2 + length (?v path) + length path"
  have tr: "decodeTraceID payload ?o1 = Inr (trace, ?o2)"
    by (rule decodeTraceID_enc [OF t(3)]) (use assms(2) l in \<open>simp_all add: trace_ok_def\<close>)
  have d2: "drop ?o2 payload = ?v path @ path @ ?flag # body"
    by (rule prefixed_part(3) [OF t(3) _ l]) (use assms(2) in \<open>simp add: trace_ok_def\<close>)
  have pa: "decodeTraceFieldPath payload ?o2 = Inr (path, ?o3)"
    by (rule decodeTraceFieldPath_enc [OF d2 _ l]) (use assms(2) in \<open>simp add: trace_ok_def\<close>)
  have d3: "drop ?o3 payload = ?flag # body"
    by (rule prefixed_part(3) [OF d2 _ l]) (use assms(2) in \<open>simp add: trace_ok_def\<close>)
  then have o3: "?o3 < length payload" "payload ! ?o3 = ?flag" using drop_eq_Cons_nth [OF d3] by simp_all
  have d4: "drop (Suc ?o3) payload = body" using d3 by (metis drop_Suc tl_drop list.sel(3))
  then have o4: "Suc ?o3 < length payload" using assms(3) by (metis drop_all not_le)
  have hd: "hd payload = 0" "payload ! 1 = 4" "payload ! 2 = kind" "payload \<noteq> []" using p by simp_all
  have "(of_nat (length token) :: u64) \<le> maxBearerTokenSize"
    using of_nat_le_word [of token "0x4000"] assms(1) by (simp add: token_ok_def maxBearerTokenSize_def)
  moreover have "decode_after_token payload 4 env ?o1 =
      Inr (env\<lparr>envTraceID := trace, envFieldPath := path, envDatabaseDetails := details, envBody := body\<rparr>)" for env
    unfolding decode_after_token_def tr frame_constants using pa o3 o4 d4 by (simp add: Let_def)
  moreover have "4 \<le> length payload" using o4 by simp
  moreover have "?o1 \<noteq> length payload" using o3(1) by simp
  ultimately show ?thesis
    unfolding payload_def [symmetric]
    using assms(4) t(1,2,5) hd small_length [of token] assms(1)
    by (auto simp: decodeRequestEnvelope_def frame_constants(6-12) token_ok_def Let_def)
qed

section \<open>What a decoded envelope is\<close>

lemma slice_length: "b \<le> length s \<Longrightarrow> length (slice a b s) = b - a"
  by (simp add: slice_def)

lemma le_of_nat_unat: "w \<le> of_nat n \<Longrightarrow> unat (w :: u64) \<le> n"
  using unat_of_nat [of n, where 'a = 64] take_bit_nat_less_eq_self [of 64 n] by (simp add: word_le_nat_alt)

lemma decodeTraceID_bounds:
  assumes "decodeTraceID payload off = Inr (t, next)" "off \<le> length payload"
  shows "t \<noteq> [] \<and> length t \<le> 256 \<and> next \<le> length payload"
proof -
  obtain w c where r: "ReadVarint payload off = (w, c)" by (cases "ReadVarint payload off")
  have c: "off + nat c \<le> length payload" using ReadVarint_bound [of payload off] r assms(2) by (cases "0 < c") auto
  have a: "0 < c" "w \<noteq> 0" "w \<le> 256" "w < of_nat (length payload - (off + nat c))" "t = slice (off + nat c) (off + nat c + unat w) payload"
    "next = off + nat c + unat w"
    using assms(1) r by (auto simp: decodeTraceID_def Let_def maxTraceIDSize_def not_le split: if_splits)
  have "unat w \<le> length payload - (off + nat c)" using le_of_nat_unat [OF less_imp_le [OF a(4)]] .
  then have le: "off + nat c + unat w \<le> length payload" using c by simp
  then have "length t = unat w" using slice_length [OF le, of "off + nat c"] a(5) by simp
  moreover have "unat w \<le> 256" using a(3) by (simp add: word_le_nat_alt)
  moreover have "0 < unat w" using a(2) by (simp add: unat_gt_0)
  ultimately show ?thesis using a(6) le by auto
qed

lemma decodeTraceFieldPath_bounds:
  assumes "decodeTraceFieldPath payload off = Inr (t, next)" "off \<le> length payload"
  shows "length t \<le> 0x1000 \<and> next \<le> length payload"
proof -
  obtain w c where r: "ReadVarint payload off = (w, c)" by (cases "ReadVarint payload off")
  have c: "off + nat c \<le> length payload" using ReadVarint_bound [of payload off] r assms(2) by (cases "0 < c") auto
  have a: "0 < c" "w \<le> 0x1000" "w \<le> of_nat (length payload - (off + nat c))" "t = slice (off + nat c) (off + nat c + unat w) payload"
    "next = off + nat c + unat w"
    using assms(1) r by (auto simp: decodeTraceFieldPath_def Let_def maxTraceFieldPathSize_def not_less split: if_splits)
  have "unat w \<le> length payload - (off + nat c)" using le_of_nat_unat [OF a(3)] .
  moreover have "unat w \<le> 0x1000" using a(2) by (simp add: word_le_nat_alt)
  ultimately show ?thesis using a(4,5) c slice_length [of "off + nat c + unat w" payload "off + nat c"] by auto
qed

text \<open>An envelope within the limits, whose body is a non-empty end of the payload.\<close>

definition envelope_ok :: "bytes \<Rightarrow> requestEnvelope \<Rightarrow> bool" where
  "envelope_ok payload env \<longleftrightarrow>
     (envKind env = requestKindCall \<or> envKind env = requestKindStream) \<and> length (envToken env) \<le> 0x4000 \<and>
     length (envTraceID env) \<le> 256 \<and> length (envFieldPath env) \<le> 0x1000 \<and> envBody env \<noteq> [] \<and>
     (\<exists>n. envBody env = drop n payload)"

lemma decode_after_token_ok:
  assumes "decode_after_token payload v env off = Inr env'" "off < length payload"
    "envKind env = requestKindCall \<or> envKind env = requestKindStream" "length (envToken env) \<le> 0x4000"
    "envTraceID env = []" "envFieldPath env = []"
  shows "envelope_ok payload env'"
proof (cases "v = legacyTraceEnvelopeVersion \<or> v = fieldTraceEnvelopeVersion \<or> v = tracedRequestEnvelopeVersion")
  case False
  then show ?thesis using assms by (auto simp: decode_after_token_def envelope_ok_def)
next
  case True
  obtain tr b1 where tr: "decodeTraceID payload off = Inr (tr, b1)" and trb: "length tr \<le> 256" "b1 \<le> length payload"
    using assms(1,2) True decodeTraceID_bounds [of payload off]
    by (auto simp: decode_after_token_def Let_def split: sum.splits)
  have pb: "decodeTraceFieldPath payload b1 = Inr (p, b2) \<Longrightarrow> length p \<le> 0x1000" for p b2
    using decodeTraceFieldPath_bounds [OF _ trb(2)] by blast
  show ?thesis
    using assms True tr trb pb
    by (auto simp: decode_after_token_def Let_def envelope_ok_def not_le split: sum.splits if_splits prod.splits)
qed

lemma decodeRequestEnvelope_ok:
  assumes "decodeRequestEnvelope payload = Inr env"
  shows "envelope_ok payload env"
proof -
  obtain w c where r: "ReadVarint payload 3 = (w, c)" by (cases "ReadVarint payload 3")
  let ?s = "3 + nat c" and ?k = "payload ! 2"
  have a: "4 \<le> length payload" "0 < c" "w \<le> 0x4000" "w \<le> of_nat (length payload - ?s)" "?s + unat w \<noteq> length payload"
    "?k = requestKindCall \<or> ?k = requestKindStream"
    and d: "decode_after_token payload (payload ! 1) \<lparr>envKind = ?k, envToken = slice ?s (?s + unat w) payload, envTraceID = [],
       envFieldPath = [], envDatabaseDetails = False, envBody = []\<rparr> (?s + unat w) = Inr env"
    using assms r
    by (auto simp: decodeRequestEnvelope_def Let_def maxBearerTokenSize_def not_less split: if_splits)
  have c: "?s \<le> length payload" using ReadVarint_bound [of payload 3] r a(1) by (cases "0 < c") auto
  have "unat w \<le> length payload - ?s" using le_of_nat_unat [OF a(4)] .
  then have lt: "?s + unat w < length payload" using c a(5) by simp
  have w: "unat w \<le> 0x4000" using a(3) by (simp add: word_le_nat_alt)
  show ?thesis
    by (rule decode_after_token_ok [OF d]) (use lt w a(6) slice_length [of "?s + unat w" payload ?s] in simp_all)
qed

section \<open>Frames are read back\<close>

text \<open>A connection in memory: what is written is read at the other end.\<close>

definition pipe_write :: "bytes \<Rightarrow> bytes \<Rightarrow> read_error option \<times> bytes" where
  "pipe_write b w = (None, w @ b)"

definition frame :: "bytes \<Rightarrow> bytes" where
  "frame payload = PutUint32BE (length payload) @ payload"

lemma Uint32BE_PutUint32BE: "n < 2 ^ 32 \<Longrightarrow> Uint32BE (PutUint32BE n) = n"
proof -
  assume n: "n < 2 ^ 32"
  have b: "unat (of_nat k :: byte) = k mod 256" for k by (simp add: unat_of_nat take_bit_eq_mod)
  have "n div 16777216 < 256" using n by (simp add: div_less_iff_less_mult)
  then have top: "n div 16777216 mod 256 = n div 16777216" by simp
  have "n div 65536 = n div 16777216 * 256 + n div 65536 mod 256"
    using div_mult_mod_eq [of "n div 65536" 256] div_mult2_eq [of n 65536 256] by simp
  moreover have "n div 256 = n div 65536 * 256 + n div 256 mod 256"
    using div_mult_mod_eq [of "n div 256" 256] div_mult2_eq [of n 256 256] by simp
  moreover have "n = n div 256 * 256 + n mod 256" by simp
  ultimately have "n div 16777216 * 16777216 + n div 65536 mod 256 * 65536 + n div 256 mod 256 * 256 + n mod 256 = n"
    by linarith
  then show ?thesis by (simp add: PutUint32BE_def b top)
qed

lemma length_PutUint32BE [simp]: "length (PutUint32BE n) = 4"
  by (simp add: PutUint32BE_def)

lemma WriteFrame_pipe: "length payload \<le> maxFrameSize \<Longrightarrow> WriteFrame pipe_write w payload = (None, w @ frame payload)"
  by (simp add: WriteFrame_def pipe_write_def frame_def)

lemma writeStatusFrame_pipe:
  "length payload < maxFrameSize \<Longrightarrow> writeStatusFrame pipe_write w status payload = (None, w @ frame (status # payload))"
  by (simp add: writeStatusFrame_def pipe_write_def frame_def)

lemma ReadFrame_frame: "length payload \<le> maxFrameSize \<Longrightarrow> ReadFrame (frame payload @ rest) = Inr (payload, rest)"
  by (simp add: ReadFrame_def ReadFull_def frame_def Uint32BE_PutUint32BE maxFrameSize_def Let_def)

lemma ReadFrame_cut:
  assumes "length payload \<le> maxFrameSize" "k < length (frame payload)"
  shows "ReadFrame (take k (frame payload)) = Inl (IOError (if k = 0 \<or> k = 4 then EOF else UnexpectedEOF))"
proof (cases "k < 4")
  case True
  then show ?thesis using assms(2) by (cases k) (auto simp: ReadFrame_def ReadFull_def frame_def PutUint32BE_def)
next
  case False
  have "Uint32BE (PutUint32BE (length payload)) = length payload"
    using assms(1) by (intro Uint32BE_PutUint32BE) (simp add: maxFrameSize_def)
  moreover have "length payload \<noteq> 0" using False assms(2) by (cases payload) (auto simp: frame_def)
  ultimately show ?thesis
    using False assms by (auto simp: ReadFrame_def ReadFull_def frame_def Let_def min_def)
qed

text \<open>Reading frames until the connection fails.\<close>

lemma ReadFrame_shorter: "ReadFrame conn = Inr (p, conn') \<Longrightarrow> length conn' < length conn"
  by (auto simp: ReadFrame_def ReadFull_def Let_def split: if_splits sum.splits prod.splits)

end
