(* ===== verification/Rpc.thy ===== *)
theory Rpc
  imports Frame Token
begin

text \<open>
  The two ends of internal RPC, pkg/lux/rpc/client.go and server.go: how a call is encoded, served
  and answered, how errors travel, and the loop of a server connection.

  The server's router is a record of what the RPC code uses of it: the verification of bearer
  tokens, the decoding of a request body, the handlers, and the encoded trace snapshot of a traced
  request. The decoding of trace snapshots at the client is a parameter too. Error texts are byte
  lists. Deadlines, cancellation and metrics are left out.
\<close>

section \<open>Errors on the wire\<close>

definition encodeError :: "goint \<Rightarrow> bytes \<Rightarrow> bytes \<Rightarrow> bytes" where
  "encodeError code name message =
     (let enc = \<lparr>ebuf = []\<rparr>;
          enc = WriteFieldInt 1 code enc;
          enc = WriteFieldString 2 name enc;
          enc = WriteFieldString 3 message enc;
          enc = WriteEnd enc
      in [statusError] @ Encoder_Bytes enc)"

text \<open>AppError of pkg/lux/errors, as far as the client fills it in; the cause keeps what the text
  "rpc error code name: message" is made of.\<close>

record AppError =
  aeName :: bytes
  aeCode :: goint
  aeMessage :: bytes
  aeInternal :: bool
  aeCause :: "(goint \<times> bytes \<times> bytes) option"

datatype rpc_error =
    RemoteError AppError
  | UnknownErrorField goint | BadErrorEnvelope codec_error | ErrorEndMissing | ErrorTrailingBytes | ErrorFieldsMissing
  | EmptyResponse | InvalidStatus byte
  | EmptyTracedResponse | InvalidTracedStatus byte | InvalidTracedLength | TracedLengthExceedsFrame | BadTrace
  | EmptyStreamAck | InvalidStreamAck | EmptyStreamFrame | InvalidStreamStatus byte

text \<open>The field loop of decodeError; an unknown field returns at once.\<close>

record error_fields =
  efCode :: goint
  efName :: bytes
  efMessage :: bytes
  efSeen :: byte

function decodeError_loop :: "Decoder \<Rightarrow> error_fields \<Rightarrow> rpc_error + Decoder \<times> error_fields" where
  "decodeError_loop d ef =
     (case NextField d of (found, d1) \<Rightarrow>
        if \<not> found then Inr (d1, ef)
        else if FieldID d1 = 1 then
          (case dec_ReadInt d1 of (v, d2) \<Rightarrow> decodeError_loop d2 (ef\<lparr>efCode := v, efSeen := efSeen ef OR 1\<rparr>))
        else if FieldID d1 = 2 then
          (case dec_ReadString d1 of (v, d2) \<Rightarrow> decodeError_loop d2 (ef\<lparr>efName := v, efSeen := efSeen ef OR 2\<rparr>))
        else if FieldID d1 = 3 then
          (case dec_ReadString d1 of (v, d2) \<Rightarrow> decodeError_loop d2 (ef\<lparr>efMessage := v, efSeen := efSeen ef OR 4\<rparr>))
        else Inl (UnknownErrorField (FieldID d1)))"
  by pat_completeness auto
termination
proof (relation "measure (\<lambda>(d, ef). remaining d)", goal_cases)
  case (2 d ef x d1 v d2)
  then have n: "NextField d = (True, d1)" and r: "dec_ReadInt d1 = (v, d2)" by simp_all
  show ?case using remaining_NextField [OF n] remaining_steps [OF int_reader.read_steps [of d1]] by (simp add: r)
next
  case (3 d ef x d1 v d2)
  then have n: "NextField d = (True, d1)" and r: "dec_ReadString d1 = (v, d2)" by simp_all
  show ?case using remaining_NextField [OF n] remaining_steps [OF string_reader.read_steps [of d1]] by (simp add: r)
next
  case (4 d ef x d1 v d2)
  then have n: "NextField d = (True, d1)" and r: "dec_ReadString d1 = (v, d2)" by simp_all
  show ?case using remaining_NextField [OF n] remaining_steps [OF string_reader.read_steps [of d1]] by (simp add: r)
qed simp

declare decodeError_loop.simps [simp del]

definition decodeError :: "bytes \<Rightarrow> rpc_error" where
  "decodeError data =
     (case decodeError_loop (NewDecoder data) \<lparr>efCode = 0, efName = [], efMessage = [], efSeen = 0\<rparr> of
        Inl e \<Rightarrow> e
      | Inr (d, ef) \<Rightarrow>
          (case Decoder_Err d of
             Some e \<Rightarrow> BadErrorEnvelope e
           | None \<Rightarrow>
               if FieldID d \<noteq> 0 then ErrorEndMissing
               else if Decoder_Offset d \<noteq> length data then ErrorTrailingBytes
               else if efSeen ef \<noteq> 7 then ErrorFieldsMissing
               else let appErr = \<lparr>aeName = efName ef, aeCode = efCode ef, aeMessage = efMessage ef,
                      aeInternal = False, aeCause = None\<rparr> in
                 RemoteError
                   (if sint (efCode ef) \<ge> 500
                    then appErr\<lparr>aeMessage := lit ''error.internal'', aeInternal := True,
                      aeCause := Some (efCode ef, efName ef, efMessage ef)\<rparr>
                    else appErr)))"

section \<open>The client\<close>

definition encodeCallRequest :: "goint \<Rightarrow> bytes \<Rightarrow> bytes \<Rightarrow> bytes" where
  "encodeCallRequest apiID fieldMask params =
     (let payload = AppendVarint [] apiID;
          payload = AppendVarint payload (of_nat (length fieldMask));
          payload = (if length fieldMask > 0 then payload @ fieldMask else payload)
      in if length params > 0 then payload @ params else payload @ [0x00])"

text \<open>What callPayload makes of the response frame that exchange returns.\<close>

definition unary_response :: "bytes \<Rightarrow> rpc_error + bytes" where
  "unary_response resp =
     (if resp = [] then Inl EmptyResponse
      else let status = hd resp; body = tl resp in
        if status = statusError then Inl (decodeError body)
        else if status \<noteq> statusOK then Inl (InvalidStatus status)
        else Inr body)"

text \<open>The result of a traced call: the trace, when the response carried one, and the outcome.\<close>

definition decodeTracedResponse :: "(bytes \<Rightarrow> 't option) \<Rightarrow> bytes \<Rightarrow> 't option \<times> (rpc_error + bytes)" where
  "decodeTracedResponse decodeTrace resp =
     (if resp = [] then (None, Inl EmptyTracedResponse)
      else let status = hd resp in
        if status \<noteq> statusTraceOK \<and> status \<noteq> statusTraceError then
          (None, Inl (if status = statusError then decodeError (tl resp) else InvalidTracedStatus status))
        else (case ReadVarint resp 1 of (traceLength, consumed) \<Rightarrow>
          if consumed \<le> 0 then (None, Inl InvalidTracedLength)
          else let start = 1 + nat consumed in
            if traceLength > of_nat (length resp - start) then (None, Inl TracedLengthExceedsFrame)
            else let stop = start + unat traceLength in
              (case decodeTrace (slice start stop resp) of
                 None \<Rightarrow> (None, Inl BadTrace)
               | Some trace \<Rightarrow>
                   (Some trace, if status = statusTraceError then Inl (decodeError (drop stop resp))
                      else Inr (drop stop resp)))))"

definition validateStreamAck :: "bytes \<Rightarrow> rpc_error option" where
  "validateStreamAck frm =
     (if frm = [] then Some EmptyStreamAck
      else if hd frm = statusError then Some (decodeError (tl frm))
      else if hd frm \<noteq> statusOK \<or> length frm \<noteq> 1 then Some InvalidStreamAck
      else None)"

text \<open>One frame of readLoop: a message to deliver, or the error the subscription finishes with.\<close>

definition stream_frame :: "bytes \<Rightarrow> rpc_error + bytes" where
  "stream_frame frm =
     (if frm = [] then Inl EmptyStreamFrame
      else if hd frm = statusStream then Inr (tl frm)
      else if hd frm = statusError then Inl (decodeError (tl frm))
      else Inl (InvalidStreamStatus (hd frm)))"

section \<open>The server\<close>

datatype handler_result =
    HandlerOK bytes | HandlerAppError goint bytes bytes | HandlerError bytes | HandlerPanic bytes

record ('ctx, 'req) server =
  srvBackground :: 'ctx
  srvInternalContext :: "(bytes \<Rightarrow> bytes + 'ctx) option"
  srvParse :: "bytes \<Rightarrow> bytes + bytes \<times> 'req"
  srvHandlers :: "bytes \<rightharpoonup> ('ctx \<Rightarrow> 'req \<Rightarrow> handler_result)"
  srvTrace :: "requestEnvelope \<Rightarrow> bytes"

text \<open>The text of an error of decodeRequestEnvelope.\<close>

fun envelope_text :: "envelope_error \<Rightarrow> bytes" where
  "envelope_text MissingEnvelope = lit ''rpc: missing canonical request envelope''"
| "envelope_text TruncatedEnvelope = lit ''rpc: truncated request envelope''"
| "envelope_text (UnsupportedVersion v) = lit ''rpc: unsupported request envelope version '' @ itoa (unat v)"
| "envelope_text (UnknownKind k) = lit ''rpc: unknown request kind '' @ itoa (unat k)"
| "envelope_text InvalidTokenLength = lit ''rpc: invalid bearer token length''"
| "envelope_text TokenTooLong = lit ''rpc: bearer token exceeds 16384 bytes''"
| "envelope_text TokenExceedsRequest = lit ''rpc: bearer token length exceeds request''"
| "envelope_text EnvelopeWithoutBody = lit ''rpc: request envelope has no body''"
| "envelope_text InvalidPathLength = lit ''rpc: invalid trace field path length''"
| "envelope_text PathTooLong = lit ''rpc: trace field path exceeds 4096 bytes''"
| "envelope_text PathExceedsRequest = lit ''rpc: trace field path length exceeds request''"
| "envelope_text InvalidTraceIDLength = lit ''rpc: invalid trace ID length''"
| "envelope_text TraceIDOutOfRange = lit ''rpc: trace ID length must be between 1 and 256 bytes''"
| "envelope_text TraceIDExceedsRequest = lit ''rpc: trace ID length exceeds request''"
| "envelope_text InvalidDetailFlag = lit ''rpc: invalid database trace detail flag''"

definition requestContext :: "('ctx, 'req) server \<Rightarrow> bytes \<Rightarrow> bytes + 'ctx" where
  "requestContext s token =
     (if token = [] then Inr (srvBackground s)
      else case srvInternalContext s of
          None \<Rightarrow> Inl (lit ''RPC bearer verification is not configured'')
        | Some verify \<Rightarrow> verify token)"

text \<open>A panicking handler is recovered and becomes an error.\<close>

definition callHandler :: "('ctx \<Rightarrow> 'req \<Rightarrow> handler_result) \<Rightarrow> 'ctx \<Rightarrow> 'req \<Rightarrow> handler_result" where
  "callHandler fn ctx req =
     (case fn ctx req of HandlerPanic p \<Rightarrow> HandlerError (lit ''panic: '' @ p) | r \<Rightarrow> r)"

definition writeTracedFrame ::
  "(bytes \<Rightarrow> 'w \<Rightarrow> 'e option \<times> 'w) \<Rightarrow> 'w \<Rightarrow> byte \<Rightarrow> bytes \<Rightarrow> bytes \<Rightarrow> 'e frame_error option \<times> 'w" where
  "writeTracedFrame write w status body encodedTrace =
     (let payload = [status];
          payload = AppendVarint payload (of_nat (length encodedTrace));
          payload = payload @ encodedTrace;
          payload = payload @ body
      in WriteFrame write w payload)"

text \<open>The trace is nil when the envelope carries no trace ID.\<close>

definition writeCallError ::
  "(bytes \<Rightarrow> 'w \<Rightarrow> 'e option \<times> 'w) \<Rightarrow> 'w \<Rightarrow> goint \<Rightarrow> bytes \<Rightarrow> bytes \<Rightarrow> bytes option \<Rightarrow> 'e frame_error option \<times> 'w" where
  "writeCallError write w code name message trace =
     (let encoded = encodeError code name message in
      case trace of
        None \<Rightarrow> WriteFrame write w encoded
      | Some encodedTrace \<Rightarrow> writeTracedFrame write w statusTraceError (tl encoded) encodedTrace)"

definition processCall ::
  "('ctx, 'req) server \<Rightarrow> (bytes \<Rightarrow> 'w \<Rightarrow> 'e option \<times> 'w) \<Rightarrow> 'w \<Rightarrow> requestEnvelope \<Rightarrow> 'e frame_error option \<times> 'w" where
  "processCall s write w envelope =
     (let trace = (if envTraceID envelope \<noteq> [] then Some (srvTrace s envelope) else None) in
      case requestContext s (envToken envelope) of
        Inl msg \<Rightarrow> writeCallError write w 401 (lit ''Unauthorized'') msg trace
      | Inr ctx \<Rightarrow>
          (case srvParse s (envBody envelope) of
             Inl msg \<Rightarrow> writeCallError write w 400 (lit ''BadRequest'') msg trace
           | Inr (api, req) \<Rightarrow>
               (case srvHandlers s api of
                  None \<Rightarrow> writeCallError write w 404 (lit ''NotFound'') (lit ''handler not found: '' @ api) trace
                | Some fn \<Rightarrow>
                    (case callHandler fn ctx req of
                       HandlerAppError code name message \<Rightarrow> writeCallError write w code name message trace
                     | HandlerError msg \<Rightarrow> writeCallError write w 500 (lit ''Internal'') msg trace
                     | HandlerPanic msg \<Rightarrow> writeCallError write w 500 (lit ''Internal'') msg trace
                     | HandlerOK body \<Rightarrow>
                         (case trace of
                            None \<Rightarrow> WriteFrame write w (statusOK # body)
                          | Some encodedTrace \<Rightarrow> writeTracedFrame write w statusTraceOK body encodedTrace)))))"

definition processRequest ::
  "('ctx, 'req) server \<Rightarrow> (bytes \<Rightarrow> 'w \<Rightarrow> 'e option \<times> 'w) \<Rightarrow> 'w \<Rightarrow> bytes \<Rightarrow> 'e frame_error option \<times> 'w" where
  "processRequest s write w payload =
     (case decodeRequestEnvelope payload of
        Inl err \<Rightarrow> WriteFrame write w (encodeError 400 (lit ''BadRequest'') (envelope_text err))
      | Inr envelope \<Rightarrow>
          if envKind envelope \<noteq> requestKindCall
          then WriteFrame write w (encodeError 400 (lit ''BadRequest'') (lit ''stream request sent to unary dispatcher''))
          else processCall s write w envelope)"

text \<open>handleConn reads frames until reading or answering one fails; a stream request hands the
  connection over to processStream, which is the argument stream.\<close>

function handleConn ::
  "('ctx, 'req) server \<Rightarrow> (requestEnvelope \<Rightarrow> 'w \<Rightarrow> 'w) \<Rightarrow> (bytes \<Rightarrow> 'w \<Rightarrow> 'e option \<times> 'w) \<Rightarrow> bytes \<Rightarrow> 'w \<Rightarrow> 'w" where
  "handleConn s stream write conn w =
     (case ReadFrame conn of
        Inl e \<Rightarrow> w
      | Inr (payload, conn1) \<Rightarrow>
          (case decodeRequestEnvelope payload of
             Inl err \<Rightarrow>
               (case WriteFrame write w (encodeError 400 (lit ''BadRequest'') (envelope_text err)) of
                  (Some e, w1) \<Rightarrow> w1
                | (None, w1) \<Rightarrow> handleConn s stream write conn1 w1)
           | Inr envelope \<Rightarrow>
               if envKind envelope = requestKindStream then stream envelope w
               else (case processCall s write w envelope of
                   (Some e, w1) \<Rightarrow> w1
                 | (None, w1) \<Rightarrow> handleConn s stream write conn1 w1)))"
  by pat_completeness auto
termination
  by (relation "measure (\<lambda>(s, stream, write, conn, w). length conn)") (auto dest: ReadFrame_shorter)

declare handleConn.simps [simp del]

section \<open>Streams\<close>

text \<open>The server's side of a stream. The messages are those the opened stream delivers before it
  closes; a failed write ends the loop. The other two ways out of the loop, a disconnected client and a
  stopping server, end it after a prefix of the messages.\<close>

fun stream_loop :: "(bytes \<Rightarrow> 'w \<Rightarrow> 'e option \<times> 'w) \<Rightarrow> bytes list \<Rightarrow> 'w \<Rightarrow> 'w" where
  "stream_loop write [] w = w"
| "stream_loop write (data # msgs) w =
     (case writeStatusFrame write w statusStream data of
        (Some e, w1) \<Rightarrow> w1
      | (None, w1) \<Rightarrow> stream_loop write msgs w1)"

definition processStream ::
  "('ctx, 'req) server \<Rightarrow> ('ctx \<Rightarrow> 'req \<Rightarrow> bytes + bytes list) \<Rightarrow> (bytes \<Rightarrow> 'w \<Rightarrow> 'e option \<times> 'w) \<Rightarrow>
   requestEnvelope \<Rightarrow> 'w \<Rightarrow> 'w" where
  "processStream s open_stream write envelope w =
     (case requestContext s (envToken envelope) of
        Inl msg \<Rightarrow> snd (WriteFrame write w (encodeError 401 (lit ''Unauthorized'') msg))
      | Inr ctx \<Rightarrow>
          (case srvParse s (envBody envelope) of
             Inl msg \<Rightarrow> snd (WriteFrame write w (encodeError 400 (lit ''BadRequest'') msg))
           | Inr (api, req) \<Rightarrow>
               (case open_stream ctx req of
                  Inl msg \<Rightarrow> snd (WriteFrame write w (encodeError 400 (lit ''BadRequest'') msg))
                | Inr msgs \<Rightarrow>
                    (case writeStatusFrame write w statusOK [] of
                       (Some e, w1) \<Rightarrow> w1
                     | (None, w1) \<Rightarrow> stream_loop write msgs w1))))"

text \<open>The client's read loop: the messages it delivers and how it finishes, on a connection that is not
  cancelled.\<close>

datatype stream_end = ReadFailed "read_error frame_error" | StreamFailed rpc_error

function readLoop :: "bytes \<Rightarrow> bytes list \<times> stream_end" where
  "readLoop conn =
     (case ReadFrame conn of
        Inl e \<Rightarrow> ([], ReadFailed e)
      | Inr (frm, conn1) \<Rightarrow>
          (case stream_frame frm of
             Inl e \<Rightarrow> ([], StreamFailed e)
           | Inr msg \<Rightarrow> (case readLoop conn1 of (msgs, fin) \<Rightarrow> (msg # msgs, fin))))"
  by pat_completeness auto
termination
  by (relation "measure length") (auto dest: ReadFrame_shorter)

declare readLoop.simps [simp del]

text \<open>SubscribeContext after its request is written: the acknowledgment, then the loop.\<close>

definition subscribe_replies :: "bytes \<Rightarrow> stream_end + bytes list \<times> stream_end" where
  "subscribe_replies conn =
     (case ReadFrame conn of
        Inl e \<Rightarrow> Inl (ReadFailed e)
      | Inr (ack, conn1) \<Rightarrow>
          (case validateStreamAck ack of Some e \<Rightarrow> Inl (StreamFailed e) | None \<Rightarrow> Inr (readLoop conn1)))"

end
