(* ===== verification/Calls.thy ===== *)
theory Calls
  imports Rpc
begin

text \<open>
  What a remote call and a subscription come to, over the definitions of Frame and Rpc: the
  errors a server encodes are the errors its client reports, a call over a pair of pipes is the
  call the server would make locally, a connection answers its requests in order, and a
  subscription delivers the messages of the server's stream.
\<close>

section \<open>Errors survive the wire\<close>

text \<open>The error the client reports for an error the server sent: internal errors are masked.\<close>

definition remote_error :: "goint \<Rightarrow> bytes \<Rightarrow> bytes \<Rightarrow> AppError" where
  "remote_error code name message =
     (if sint code \<ge> 500
      then \<lparr>aeName = name, aeCode = code, aeMessage = lit ''error.internal'', aeInternal = True, aeCause = Some (code, name, message)\<rparr>
      else \<lparr>aeName = name, aeCode = code, aeMessage = message, aeInternal = False, aeCause = None\<rparr>)"

lemma encodeError_message:
  "encodeError code name message = statusError # encode_message [(1, VInt code), (2, VString name), (3, VString message)]"
  by (simp add: encodeError_def encode_message_def Let_def)

lemma field_steps:
  assumes "derr d = None" "drop (doff d) (dbuf d) = field_enc (f, v) @ rest" "f \<noteq> 0"
  shows "NextField d = (True, (dec_skip (int (length (AppendVarint [] f))) d)\<lparr>dfieldID := f\<rparr>)"
    and "drop (doff ((dec_skip (int (length (AppendVarint [] f))) d)\<lparr>dfieldID := f\<rparr>))
      (dbuf ((dec_skip (int (length (AppendVarint [] f))) d)\<lparr>dfieldID := f\<rparr>)) = val_enc v @ rest"
    and "dec_skip (int (length (val_enc v))) ((dec_skip (int (length (AppendVarint [] f))) d)\<lparr>dfieldID := f\<rparr>) =
      (dec_skip (int (length (field_enc (f, v)))) d)\<lparr>dfieldID := f\<rparr>"
    and "drop (doff ((dec_skip (int (length (field_enc (f, v)))) d)\<lparr>dfieldID := f\<rparr>))
      (dbuf ((dec_skip (int (length (field_enc (f, v)))) d)\<lparr>dfieldID := f\<rparr>)) = rest"
proof -
  have d0: "drop (doff d) (dbuf d) = AppendVarint [] f @ val_enc v @ rest" using assms(2) by (simp add: field_enc_def)
  show "NextField d = (True, (dec_skip (int (length (AppendVarint [] f))) d)\<lparr>dfieldID := f\<rparr>)"
    using NextField_enc [OF assms(1) d0] assms(3) by simp
  show "drop (doff ((dec_skip (int (length (AppendVarint [] f))) d)\<lparr>dfieldID := f\<rparr>))
      (dbuf ((dec_skip (int (length (AppendVarint [] f))) d)\<lparr>dfieldID := f\<rparr>)) = val_enc v @ rest"
    using drop_dec_skip [OF d0] by simp
  show "dec_skip (int (length (val_enc v))) ((dec_skip (int (length (AppendVarint [] f))) d)\<lparr>dfieldID := f\<rparr>) =
      (dec_skip (int (length (field_enc (f, v)))) d)\<lparr>dfieldID := f\<rparr>"
    by (simp add: dec_skip_def field_enc_def nat_add_distrib)
  show "drop (doff ((dec_skip (int (length (field_enc (f, v)))) d)\<lparr>dfieldID := f\<rparr>))
      (dbuf ((dec_skip (int (length (field_enc (f, v)))) d)\<lparr>dfieldID := f\<rparr>)) = rest"
    using drop_dec_skip [OF assms(2)] by simp
qed

lemma decodeError_code:
  assumes "derr d = None" "drop (doff d) (dbuf d) = field_enc (1, VInt v) @ rest"
  shows "decodeError_loop d ef =
    decodeError_loop ((dec_skip (int (length (field_enc (1, VInt v)))) d)\<lparr>dfieldID := 1\<rparr>) (ef\<lparr>efCode := v, efSeen := efSeen ef OR 1\<rparr>)"
  using field_steps [OF assms(1,2)] int_reader.read_enc
  by (subst decodeError_loop.simps) (simp add: FieldID_def)

lemma decodeError_name:
  assumes "derr d = None" "drop (doff d) (dbuf d) = field_enc (2, VString v) @ rest" "len_ok v"
  shows "decodeError_loop d ef =
    decodeError_loop ((dec_skip (int (length (field_enc (2, VString v)))) d)\<lparr>dfieldID := 2\<rparr>) (ef\<lparr>efName := v, efSeen := efSeen ef OR 2\<rparr>)"
  using field_steps [OF assms(1,2)] string_reader.read_enc [OF assms(3)]
  by (subst decodeError_loop.simps) (simp add: FieldID_def)

lemma decodeError_text:
  assumes "derr d = None" "drop (doff d) (dbuf d) = field_enc (3, VString v) @ rest" "len_ok v"
  shows "decodeError_loop d ef =
    decodeError_loop ((dec_skip (int (length (field_enc (3, VString v)))) d)\<lparr>dfieldID := 3\<rparr>) (ef\<lparr>efMessage := v, efSeen := efSeen ef OR 4\<rparr>)"
  using field_steps [OF assms(1,2)] string_reader.read_enc [OF assms(3)]
  by (subst decodeError_loop.simps) (simp add: FieldID_def)

lemma decodeError_end:
  assumes "derr d = None" "drop (doff d) (dbuf d) = 0 # rest"
  shows "decodeError_loop d ef = Inr ((dec_skip 1 d)\<lparr>dfieldID := 0\<rparr>, ef)"
  using NextField_enc [of d 0 rest] assms
  by (subst decodeError_loop.simps) (simp add: AppendVarint_unfold)

lemma decodeError_encodeError:
  assumes "len_ok name" "len_ok message"
  shows "decodeError (tl (encodeError code name message)) = RemoteError (remote_error code name message)"
proof -
  let ?f1 = "field_enc (1, VInt code)" and ?f2 = "field_enc (2, VString name)" and ?f3 = "field_enc (3, VString message)"
  define data where "data = ?f1 @ ?f2 @ ?f3 @ [0]"
  have data: "tl (encodeError code name message) = data"
    by (simp add: encodeError_message encode_message_bytes data_def)
  let ?d = "NewDecoder data"
  let ?d1 = "(dec_skip (int (length ?f1)) ?d)\<lparr>dfieldID := 1\<rparr>"
  let ?d2 = "(dec_skip (int (length ?f2)) ?d1)\<lparr>dfieldID := 2\<rparr>"
  let ?d3 = "(dec_skip (int (length ?f3)) ?d2)\<lparr>dfieldID := 3\<rparr>"
  have e: "derr ?d = None" "drop (doff ?d) (dbuf ?d) = ?f1 @ ?f2 @ ?f3 @ [0]" by (simp_all add: NewDecoder_def data_def)
  have e1: "drop (doff ?d1) (dbuf ?d1) = ?f2 @ ?f3 @ [0]" by (rule field_steps(4) [OF e]) simp
  have e2: "drop (doff ?d2) (dbuf ?d2) = ?f3 @ [0]" by (rule field_steps(4) [OF _ e1]) (use e in simp_all)
  have e3: "drop (doff ?d3) (dbuf ?d3) = [0]" by (rule field_steps(4) [OF _ e2]) (use e in simp_all)
  have n: "derr ?d1 = None" "derr ?d2 = None" "derr ?d3 = None" using e by simp_all
  have off: "doff ((dec_skip 1 ?d3)\<lparr>dfieldID := 0\<rparr>) = length data"
    by (simp add: NewDecoder_def data_def)
  have seen: "((0 OR 1) OR 2) OR 4 = (7 :: byte)" by simp
  show ?thesis
    unfolding data decodeError_def
    apply (subst decodeError_code [OF e])
    apply (subst decodeError_name [OF n(1) e1 assms(1)])
    apply (subst decodeError_text [OF n(2) e2 assms(2)])
    apply (subst decodeError_end [OF n(3) e3])
    using off n(3) seen by (simp add: Decoder_Err_def FieldID_def Decoder_Offset_def remote_error_def Let_def)
qed

section \<open>A remote call is a local one\<close>

text \<open>What serving a request comes to, seen from the server: an error with its code, name and
  message, or the bytes of the handler.\<close>

definition local_call :: "('ctx, 'req) server \<Rightarrow> bytes \<Rightarrow> bytes \<Rightarrow> goint \<times> bytes \<times> bytes + bytes" where
  "local_call s token body =
     (case requestContext s token of
        Inl msg \<Rightarrow> Inl (401, lit ''Unauthorized'', msg)
      | Inr ctx \<Rightarrow>
          (case srvParse s body of
             Inl msg \<Rightarrow> Inl (400, lit ''BadRequest'', msg)
           | Inr (api, req) \<Rightarrow>
               (case srvHandlers s api of
                  None \<Rightarrow> Inl (404, lit ''NotFound'', lit ''handler not found: '' @ api)
                | Some fn \<Rightarrow>
                    (case fn ctx req of
                       HandlerOK out \<Rightarrow> Inr out
                     | HandlerAppError code name message \<Rightarrow> Inl (code, name, message)
                     | HandlerError msg \<Rightarrow> Inl (500, lit ''Internal'', msg)
                     | HandlerPanic p \<Rightarrow> Inl (500, lit ''Internal'', lit ''panic: '' @ p)))))"

text \<open>What the client is told of it.\<close>

definition client_outcome :: "goint \<times> bytes \<times> bytes + bytes \<Rightarrow> rpc_error + bytes" where
  "client_outcome r = map_sum (\<lambda>(code, name, message). RemoteError (remote_error code name message)) (\<lambda>out. out) r"

definition outcome_ok :: "goint \<times> bytes \<times> bytes + bytes \<Rightarrow> bool" where
  "outcome_ok r = (case r of Inl (code, name, message) \<Rightarrow> len_ok name \<and> len_ok message | Inr out \<Rightarrow> True)"

text \<open>The payload of the response to a call, with the trace the server encoded.\<close>

definition response_payload :: "bytes option \<Rightarrow> goint \<times> bytes \<times> bytes + bytes \<Rightarrow> bytes" where
  "response_payload trace r =
     (let plain = (case r of Inl (code, name, message) \<Rightarrow> encodeError code name message | Inr out \<Rightarrow> statusOK # out) in
      case trace of
        None \<Rightarrow> plain
      | Some encodedTrace \<Rightarrow>
          (case r of Inl _ \<Rightarrow> statusTraceError | Inr _ \<Rightarrow> statusTraceOK) #
            AppendVarint [] (of_nat (length encodedTrace)) @ encodedTrace @ tl plain)"

definition envelope_trace :: "('ctx, 'req) server \<Rightarrow> requestEnvelope \<Rightarrow> bytes option" where
  "envelope_trace s env = (if envTraceID env \<noteq> [] then Some (srvTrace s env) else None)"

lemma writeTracedFrame_payload:
  "writeTracedFrame write w status body tr =
     WriteFrame write w (status # AppendVarint [] (of_nat (length tr)) @ tr @ body)"
  using AppendVarint_app [of "[status]"] by (simp add: writeTracedFrame_def Let_def)

lemma writeCallError_payload:
  "writeCallError write w code name message trace = WriteFrame write w (response_payload trace (Inl (code, name, message)))"
  by (simp add: writeCallError_def response_payload_def writeTracedFrame_payload Let_def split: option.split)

lemma processCall_payload:
  "processCall s write w env =
     WriteFrame write w (response_payload (envelope_trace s env) (local_call s (envToken env) (envBody env)))"
  by (auto simp: processCall_def local_call_def envelope_trace_def writeCallError_payload callHandler_def
      response_payload_def writeTracedFrame_payload Let_def split: sum.split option.split handler_result.split)

lemma unary_response_payload:
  "outcome_ok r \<Longrightarrow> unary_response (response_payload None r) = client_outcome r"
  by (auto simp: response_payload_def unary_response_def client_outcome_def outcome_ok_def encodeError_message
      frame_constants Let_def decodeError_encodeError [unfolded encodeError_message list.sel] split: sum.split)

lemma decodeTracedResponse_payload:
  assumes "outcome_ok r" "decodeTrace tr = Some t" "length (response_payload (Some tr) r) < max_len"
  shows "decodeTracedResponse decodeTrace (response_payload (Some tr) r) = (Some t, client_outcome r)"
proof -
  define plain where "plain = (case r of Inl (code, name, message) \<Rightarrow> encodeError code name message | Inr out \<Rightarrow> statusOK # out)"
  define st where "st = (case r of Inl _ \<Rightarrow> statusTraceError | Inr _ \<Rightarrow> statusTraceOK)"
  define resp where "resp = response_payload (Some tr) r"
  let ?h = "AppendVarint [] (of_nat (length tr) :: u64)"
  have resp: "resp = st # ?h @ tr @ tl plain"
    by (simp add: resp_def response_payload_def Let_def plain_def st_def)
  then have d: "drop 1 resp = ?h @ (tr @ tl plain)" by simp
  have len: "length tr + length (tl plain) < max_len" using assms(3) resp by (simp add: resp_def [symmetric])
  have u: "unat (of_nat (length tr) :: u64) = length tr" by (rule unat_le_max_len) (use len in simp)
  have rv: "ReadVarint resp 1 = (of_nat (length tr), int (length ?h))" by (rule ReadVarint_app [OF d])
  have "length resp - (1 + length ?h) = length tr + length (tl plain)" by (simp add: resp)
  then have le: "\<not> of_nat (length tr) > (of_nat (length resp - (1 + length ?h)) :: u64)"
    using u unat_le_max_len [OF len] by (simp only: not_less word_le_nat_alt)
  have sl: "slice (1 + length ?h) (1 + length ?h + length tr) resp = tr" "drop (1 + length ?h + length tr) resp = tl plain"
    by (simp_all add: resp slice_def)
  have "st = statusTraceOK \<or> st = statusTraceError" "st = statusTraceError \<longleftrightarrow> isl r"
    by (auto simp: st_def frame_constants split: sum.split)
  moreover have "(if isl r then Inl (decodeError (tl plain)) else Inr (tl plain)) = client_outcome r"
    using assms(1) by (auto simp: plain_def client_outcome_def outcome_ok_def decodeError_encodeError split: sum.splits)
  moreover have "hd resp = st" "resp \<noteq> []" by (simp_all add: resp)
  ultimately show ?thesis
    using rv le sl u assms(2)
    by (auto simp: decodeTracedResponse_def Let_def simp flip: resp_def)
qed

text \<open>One exchange over a pair of pipes: the client frames its payload, the server reads, serves and
  answers it, the client reads the answer. None when a frame was refused or could not be read.\<close>

definition exchange :: "('ctx, 'req) server \<Rightarrow> bytes \<Rightarrow> bytes option" where
  "exchange s payload =
     (case WriteFrame pipe_write [] payload of
        (Some _, _) \<Rightarrow> None
      | (None, conn) \<Rightarrow>
          (case ReadFrame conn of
             Inl _ \<Rightarrow> None
           | Inr (request, _) \<Rightarrow>
               (case processRequest s pipe_write [] request of
                  (Some _, _) \<Rightarrow> None
                | (None, back) \<Rightarrow> (case ReadFrame back of Inl _ \<Rightarrow> None | Inr (resp, _) \<Rightarrow> Some resp))))"

text \<open>The envelope of a traced call, as the server decodes it.\<close>

definition traced_call :: "bytes \<Rightarrow> bytes \<Rightarrow> bytes \<Rightarrow> bool \<Rightarrow> bytes \<Rightarrow> requestEnvelope" where
  "traced_call token trace path details body =
     \<lparr>envKind = requestKindCall, envToken = token, envTraceID = trace, envFieldPath = path,
      envDatabaseDetails = details, envBody = body\<rparr>"

lemma exchange_call:
  assumes "decodeRequestEnvelope payload = Inr env" "envKind env = requestKindCall" "length payload \<le> maxFrameSize"
    "length (response_payload (envelope_trace s env) (local_call s (envToken env) (envBody env))) \<le> maxFrameSize"
  shows "exchange s payload = Some (response_payload (envelope_trace s env) (local_call s (envToken env) (envBody env)))"
  using assms ReadFrame_frame [where rest = "[]"]
  by (simp add: exchange_def WriteFrame_pipe processRequest_def processCall_payload)

text \<open>A server for the witnesses: one handler, which echoes its request and fails on an empty one.\<close>

definition echo_server :: "(unit, bytes) server" where
  "echo_server =
     \<lparr>srvBackground = (), srvInternalContext = None, srvParse = (\<lambda>b. Inr ([7], drop 2 b)),
      srvHandlers = [[7] \<mapsto> (\<lambda>_ r. if r = [0] then HandlerError [5] else HandlerOK r)], srvTrace = (\<lambda>_. [9, 9])\<rparr>"

definition echo_body :: "bytes \<Rightarrow> bytes" where
  "echo_body params = encodeCallRequest 3 [] params"

lemma echo_body_bytes: "echo_body [5, 6] = [3, 0, 5, 6]" "echo_body [] = [3, 0, 0]"
  by (simp_all add: echo_body_def encodeCallRequest_def AppendVarint.simps)

lemma echo_call:
  "local_call echo_server [] [3, 0, 5, 6] = Inr [5, 6]"
  "local_call echo_server [] [3, 0, 0] = Inl (500, lit ''Internal'', [5])"
  by (simp_all add: local_call_def echo_server_def requestContext_def)

text \<open>C36: A unary call over the wire gives the client what serving it locally gives, with internal errors
  masked: the request and the response survive their encodings whenever they fit their limits.\<close>

theorem call_refines_local_call:
  assumes "token_ok token"
    "length (encodeRequestEnvelope requestKindCall token (encodeCallRequest apiID msk params)) \<le> maxFrameSize"
    "outcome_ok (local_call s token (encodeCallRequest apiID msk params))"
    "length (response_payload None (local_call s token (encodeCallRequest apiID msk params))) \<le> maxFrameSize"
  shows "map_option unary_response
      (exchange s (encodeRequestEnvelope requestKindCall token (encodeCallRequest apiID msk params))) =
    Some (client_outcome (local_call s token (encodeCallRequest apiID msk params)))"
proof -
  let ?body = "encodeCallRequest apiID msk params"
  let ?env = "\<lparr>envKind = requestKindCall, envToken = token, envTraceID = [], envFieldPath = [], envDatabaseDetails = False, envBody = ?body\<rparr>"
  have ne: "?body \<noteq> []" by (simp add: encodeCallRequest_def Let_def)
  have "length (encodeRequestEnvelope requestKindCall token ?body) < max_len"
    using assms(2) by (simp add: maxFrameSize_def max_len_def)
  then have d: "decodeRequestEnvelope (encodeRequestEnvelope requestKindCall token ?body) = Inr ?env"
    by (intro decode_encode_envelope [OF assms(1) ne]) simp_all
  have "exchange s (encodeRequestEnvelope requestKindCall token ?body) = Some (response_payload None (local_call s token ?body))"
    using exchange_call [OF d _ assms(2), of s] assms(4) by (simp add: envelope_trace_def)
  then show ?thesis using unary_response_payload [OF assms(3)] by simp
qed

lemma call_refines_local_call_witness:
  "map_option unary_response (exchange echo_server (encodeRequestEnvelope requestKindCall [] (encodeCallRequest 3 [] []))) =
     Some (client_outcome (Inl (500, lit ''Internal'', [5])))"
proof -
  have b: "encodeCallRequest 3 [] [] = [3, 0, 0]" using echo_body_bytes by (simp add: echo_body_def)
  have e: "length (encodeRequestEnvelope requestKindCall [] [3, 0, 0]) \<le> maxFrameSize"
    by (simp add: encodeRequestEnvelope_def AppendVarint.simps maxFrameSize_def Let_def)
  have o: "outcome_ok (Inl (500, lit ''Internal'', [5]))"
    by (simp add: outcome_ok_def len_ok_def lit_def max_len_def)
  have l: "length (response_payload None (Inl (500, lit ''Internal'', [5]))) \<le> maxFrameSize"
    by (simp add: response_payload_def encodeError_message encode_message_bytes field_enc_def lit_def AppendVarint.simps
        AppendString_def AppendSvarint_def zigzag_def maxFrameSize_def Let_def)
  show ?thesis
    using call_refines_local_call [of "[]" 3 "[]" "[]" echo_server] b e o l echo_call by (simp add: token_ok_def)
qed

text \<open>A traced call gives the same outcome, and the trace the server recorded.\<close>

theorem traced_call_refines_local_call:
  assumes "token_ok token" "trace_ok trace path" "decodeTrace (srvTrace s (traced_call token trace path details body)) = Some t"
    "body \<noteq> []" "length (encodeTracedRequestEnvelope requestKindCall token trace path details body) \<le> maxFrameSize"
    "outcome_ok (local_call s token body)"
    "length (response_payload (Some (srvTrace s (traced_call token trace path details body))) (local_call s token body)) \<le> maxFrameSize"
  shows "map_option (decodeTracedResponse decodeTrace)
      (exchange s (encodeTracedRequestEnvelope requestKindCall token trace path details body)) =
    Some (Some t, client_outcome (local_call s token body))"
proof -
  let ?env = "traced_call token trace path details body"
  have "length (encodeTracedRequestEnvelope requestKindCall token trace path details body) < max_len"
    using assms(5) by (simp add: maxFrameSize_def max_len_def)
  then have d: "decodeRequestEnvelope (encodeTracedRequestEnvelope requestKindCall token trace path details body) = Inr ?env"
    unfolding traced_call_def by (intro decode_encode_traced [OF assms(1,2,4)]) simp_all
  have env: "envKind ?env = requestKindCall" "envToken ?env = token" "envBody ?env = body"
    "envelope_trace s ?env = Some (srvTrace s ?env)"
    using assms(2) by (simp_all add: traced_call_def envelope_trace_def trace_ok_def)
  have "exchange s (encodeTracedRequestEnvelope requestKindCall token trace path details body) =
      Some (response_payload (Some (srvTrace s ?env)) (local_call s token body))"
    using exchange_call [OF d env(1) assms(5), of s] assms(7) env by simp
  moreover have "length (response_payload (Some (srvTrace s ?env)) (local_call s token body)) < max_len"
    using assms(7) by (simp add: maxFrameSize_def max_len_def)
  ultimately show ?thesis
    using decodeTracedResponse_payload [of "local_call s token body" decodeTrace "srvTrace s ?env" t] assms(3,6) by simp
qed

lemma traced_call_refines_local_call_witness:
  "map_option (decodeTracedResponse Some)
      (exchange echo_server (encodeTracedRequestEnvelope requestKindCall [] [1] [] True [3, 0, 5, 6])) =
    Some (Some [9, 9], client_outcome (Inr [5, 6]))"
proof -
  have e: "length (encodeTracedRequestEnvelope requestKindCall [] [1] [] True [3, 0, 5, 6]) \<le> maxFrameSize"
    by (simp add: encodeTracedRequestEnvelope_def AppendVarint.simps maxFrameSize_def Let_def)
  have l: "length (response_payload (Some [9, 9]) (Inr [5, 6])) \<le> maxFrameSize"
    by (simp add: response_payload_def AppendVarint.simps maxFrameSize_def Let_def)
  have tr: "srvTrace echo_server env = [9, 9]" for env by (simp add: echo_server_def)
  show ?thesis
    using traced_call_refines_local_call [of "[]" "[1]" "[]" Some echo_server True "[3, 0, 5, 6]" "[9, 9]"] e l echo_call tr
    by (simp add: token_ok_def trace_ok_def outcome_ok_def)
qed

text \<open>The answer to a unary request, malformed ones included.\<close>

definition answer :: "('ctx, 'req) server \<Rightarrow> bytes \<Rightarrow> bytes" where
  "answer s payload =
     (case decodeRequestEnvelope payload of
        Inl err \<Rightarrow> encodeError 400 (lit ''BadRequest'') (envelope_text err)
      | Inr env \<Rightarrow> response_payload (envelope_trace s env) (local_call s (envToken env) (envBody env)))"

definition unary_ok :: "('ctx, 'req) server \<Rightarrow> bytes \<Rightarrow> bool" where
  "unary_ok s payload \<longleftrightarrow>
     (case decodeRequestEnvelope payload of Inl _ \<Rightarrow> True | Inr env \<Rightarrow> envKind env = requestKindCall) \<and>
     length payload \<le> maxFrameSize \<and> length (answer s payload) \<le> maxFrameSize"

text \<open>C37: A connection answers the requests sent on it one after the other, in order, each with its own
  response; a malformed request is answered too and does not end the connection.\<close>

theorem handleConn_in_order:
  assumes "list_all (unary_ok s) payloads"
  shows "handleConn s stream pipe_write (concat (map frame payloads)) w = w @ concat (map (\<lambda>p. frame (answer s p)) payloads)"
  using assms
proof (induction payloads arbitrary: w)
  case Nil
  then show ?case by (subst handleConn.simps) (simp add: ReadFrame_def ReadFull_def)
next
  case (Cons p payloads)
  have "handleConn s stream pipe_write (concat (map frame (p # payloads))) w =
      handleConn s stream pipe_write (concat (map frame payloads)) (w @ frame (answer s p))"
    using Cons(2) by (subst handleConn.simps)
      (auto simp: ReadFrame_frame processCall_payload WriteFrame_pipe requestKindCall_def requestKindStream_def
        unary_ok_def answer_def split: sum.splits)
  also have "\<dots> = (w @ frame (answer s p)) @ concat (map (\<lambda>p. frame (answer s p)) payloads)"
    by (rule Cons(1)) (use Cons(2) in simp)
  finally show ?case by simp
qed

lemma handleConn_in_order_witness:
  "handleConn echo_server (\<lambda>_ w. w) pipe_write (frame [0, 1, 1, 0, 3, 0, 5, 6] @ frame [9] @ frame [0, 1, 1, 0, 3, 0, 8]) [] =
     frame [0, 5, 6] @ frame (encodeError 400 (lit ''BadRequest'') (envelope_text MissingEnvelope)) @ frame [0, 8]"
proof -
  define e where "e b = \<lparr>envKind = 1, envToken = [], envTraceID = [], envFieldPath = [], envDatabaseDetails = False, envBody = b\<rparr>"
    for b :: bytes
  have d: "decodeRequestEnvelope [0, 1, 1, 0, 3, 0, 5, 6] = Inr (e [3, 0, 5, 6])"
    "decodeRequestEnvelope [0, 1, 1, 0, 3, 0, 8] = Inr (e [3, 0, 8])" "decodeRequestEnvelope [9] = Inl MissingEnvelope"
    by (simp_all add: decodeRequestEnvelope_def decode_after_token_def frame_constants ReadVarint_def ReadVarint_loop.simps
        Let_def slice_def e_def maxBearerTokenSize_def)
  have r: "response_payload (envelope_trace echo_server (e b)) (local_call echo_server (envToken (e b)) (envBody (e b))) = 0 # drop 2 b"
    if "drop 2 b \<noteq> [0]" for b
    using that by (simp add: e_def envelope_trace_def response_payload_def local_call_def echo_server_def requestContext_def statusOK_def)
  have l: "length (encodeError 400 (lit ''BadRequest'') (envelope_text MissingEnvelope)) \<le> maxFrameSize"
    by (simp add: encodeError_message encode_message_bytes field_enc_def lit_def AppendVarint.simps AppendString_def
        AppendSvarint_def zigzag_def maxFrameSize_def)
  have k: "envKind (e b) = requestKindCall" for b by (simp add: e_def requestKindCall_def)
  show ?thesis
    using handleConn_in_order [where s = echo_server and stream = "\<lambda>_ w. w" and w = "[]" and
        payloads = "[[0, 1, 1, 0, 3, 0, 5, 6], [9], [0, 1, 1, 0, 3, 0, 8]]"] l
    by (simp add: d r k unary_ok_def answer_def) (simp add: maxFrameSize_def)
qed

section \<open>Streams\<close>

text \<open>What a stream comes to, seen from the server.\<close>

definition local_stream ::
  "('ctx, 'req) server \<Rightarrow> ('ctx \<Rightarrow> 'req \<Rightarrow> bytes + bytes list) \<Rightarrow> bytes \<Rightarrow> bytes \<Rightarrow> goint \<times> bytes \<times> bytes + bytes list" where
  "local_stream s open_stream token body =
     (case requestContext s token of
        Inl msg \<Rightarrow> Inl (401, lit ''Unauthorized'', msg)
      | Inr ctx \<Rightarrow>
          (case srvParse s body of
             Inl msg \<Rightarrow> Inl (400, lit ''BadRequest'', msg)
           | Inr (api, req) \<Rightarrow>
               (case open_stream ctx req of
                  Inl msg \<Rightarrow> Inl (400, lit ''BadRequest'', msg)
                | Inr msgs \<Rightarrow> Inr msgs)))"

definition stream_bytes :: "goint \<times> bytes \<times> bytes + bytes list \<Rightarrow> bytes" where
  "stream_bytes r =
     (case r of
        Inl (code, name, message) \<Rightarrow> frame (encodeError code name message)
      | Inr msgs \<Rightarrow> frame [statusOK] @ concat (map (\<lambda>m. frame (statusStream # m)) msgs))"

text \<open>A stream whose frames fit.\<close>

definition stream_ok :: "goint \<times> bytes \<times> bytes + bytes list \<Rightarrow> bool" where
  "stream_ok r =
     (case r of
        Inl (code, name, message) \<Rightarrow>
          len_ok name \<and> len_ok message \<and> length (encodeError code name message) \<le> maxFrameSize
      | Inr msgs \<Rightarrow> list_all (\<lambda>m. length m < maxFrameSize) msgs)"

lemma stream_loop_pipe:
  "list_all (\<lambda>m. length m < maxFrameSize) msgs \<Longrightarrow>
   stream_loop pipe_write msgs w = w @ concat (map (\<lambda>m. frame (statusStream # m)) msgs)"
  by (induction msgs arbitrary: w) (simp_all add: writeStatusFrame_pipe)

lemma processStream_pipe:
  assumes "stream_ok (local_stream s open_stream (envToken env) (envBody env))"
  shows "processStream s open_stream pipe_write env w = w @ stream_bytes (local_stream s open_stream (envToken env) (envBody env))"
proof -
  have "writeStatusFrame pipe_write w statusOK [] = (None, w @ frame [statusOK])"
    by (rule writeStatusFrame_pipe) (simp add: maxFrameSize_def)
  then show ?thesis
    using assms by (auto simp: processStream_def local_stream_def stream_ok_def stream_bytes_def WriteFrame_pipe
        stream_loop_pipe split: sum.splits)
qed

lemma readLoop_messages:
  "list_all (\<lambda>m. length m < maxFrameSize) msgs \<Longrightarrow>
   readLoop (concat (map (\<lambda>m. frame (statusStream # m)) msgs) @ rest) = apfst ((@) msgs) (readLoop rest)"
proof (induction msgs)
  case (Cons m msgs)
  have "ReadFrame (frame (statusStream # m) @ x) = Inr (statusStream # m, x)" for x
    by (rule ReadFrame_frame) (use Cons(2) in simp)
  then show ?case
    using Cons by (cases "readLoop rest") (subst readLoop.simps, simp add: stream_frame_def)
qed (cases "readLoop rest", simp)

text \<open>What the subscriber is told of it: the error, or the messages and that the connection ended.\<close>

definition stream_outcome :: "goint \<times> bytes \<times> bytes + bytes list \<Rightarrow> stream_end + bytes list \<times> stream_end" where
  "stream_outcome r = map_sum (\<lambda>(code, name, message). StreamFailed (RemoteError (remote_error code name message)))
     (\<lambda>msgs. (msgs, ReadFailed (IOError EOF))) r"

lemma subscribe_replies_stream:
  assumes "stream_ok r"
  shows "subscribe_replies (stream_bytes r) = stream_outcome r"
proof (cases r)
  case (Inl e)
  obtain code name message where e: "e = (code, name, message)" by (cases e)
  have "ReadFrame (frame (encodeError code name message) @ []) = Inr (encodeError code name message, [])"
    by (rule ReadFrame_frame) (use assms Inl e in \<open>simp add: stream_ok_def\<close>)
  then show ?thesis
    using assms Inl e decodeError_encodeError [of name message code]
    by (simp add: subscribe_replies_def stream_bytes_def stream_outcome_def stream_ok_def validateStreamAck_def encodeError_message)
next
  case (Inr msgs)
  have "ReadFrame (frame [statusOK] @ x) = Inr ([statusOK], x)" for x
    by (rule ReadFrame_frame) (simp add: maxFrameSize_def)
  moreover have "readLoop [] = ([], ReadFailed (IOError EOF))"
    by (subst readLoop.simps) (simp add: ReadFrame_def ReadFull_def)
  ultimately show ?thesis
    using assms Inr readLoop_messages [of msgs "[]"]
    by (simp add: subscribe_replies_def stream_bytes_def stream_outcome_def stream_ok_def validateStreamAck_def frame_constants)
qed

text \<open>C38: A subscription over the wire delivers the server's messages, all of them and in order, and then
  reports the end; a refused one reports the server's error.\<close>

theorem subscription_refines_local_stream:
  assumes "stream_ok (local_stream s open_stream token body)" "token_ok token" "body \<noteq> []"
    "length (encodeRequestEnvelope requestKindStream token body) \<le> maxFrameSize"
  shows "subscribe_replies
      (handleConn s (processStream s open_stream pipe_write) pipe_write
        (frame (encodeRequestEnvelope requestKindStream token body)) []) =
    stream_outcome (local_stream s open_stream token body)"
proof -
  let ?env = "\<lparr>envKind = requestKindStream, envToken = token, envTraceID = [], envFieldPath = [],
    envDatabaseDetails = False, envBody = body\<rparr>"
  have "length (encodeRequestEnvelope requestKindStream token body) < max_len"
    using assms(4) by (simp add: maxFrameSize_def max_len_def)
  then have d: "decodeRequestEnvelope (encodeRequestEnvelope requestKindStream token body) = Inr ?env"
    by (intro decode_encode_envelope [OF assms(2,3)]) simp_all
  have "handleConn s (processStream s open_stream pipe_write) pipe_write
      (frame (encodeRequestEnvelope requestKindStream token body)) [] = stream_bytes (local_stream s open_stream token body)"
    using ReadFrame_frame [OF assms(4), of "[]"] d processStream_pipe [of s open_stream ?env] assms(1)
    by (subst handleConn.simps) simp
  then show ?thesis using subscribe_replies_stream [OF assms(1)] by simp
qed

lemma subscription_refines_local_stream_witness:
  "subscribe_replies
      (handleConn echo_server (processStream echo_server (\<lambda>_ r. Inr [r, [], r]) pipe_write) pipe_write
        (frame (encodeRequestEnvelope requestKindStream [] [3, 0, 5])) []) =
    Inr ([[5], [], [5]], ReadFailed (IOError EOF))"
proof -
  have l: "local_stream echo_server (\<lambda>_ r. Inr [r, [], r]) [] [3, 0, 5] = Inr [[5], [], [5]]"
    by (simp add: local_stream_def echo_server_def requestContext_def)
  show ?thesis
    using subscription_refines_local_stream [of echo_server "\<lambda>_ r. Inr [r, [], r]" "[]" "[3, 0, 5]"]
    by (simp add: l stream_ok_def stream_outcome_def token_ok_def encodeRequestEnvelope_def AppendVarint.simps
        maxFrameSize_def Let_def)
qed

section \<open>Requests and frames that are not whole\<close>

text \<open>A request envelope that is accepted is within its limits: a known kind, a token of at most
  16384 bytes, a trace ID of at most 256 and a field path of at most 4096, and a non-empty body that is an
  end of the payload.\<close>

theorem request_envelope_within_limits:
  "decodeRequestEnvelope payload = Inr env \<Longrightarrow> envelope_ok payload env"
  by (rule decodeRequestEnvelope_ok)

lemma request_envelope_within_limits_witness:
  "envelope_ok [0, 1, 1, 1, 9, 3, 0]
     \<lparr>envKind = 1, envToken = [9], envTraceID = [], envFieldPath = [], envDatabaseDetails = False, envBody = [3, 0]\<rparr>"
  by (rule request_envelope_within_limits)
    (simp add: decodeRequestEnvelope_def decode_after_token_def frame_constants ReadVarint_def ReadVarint_loop.simps
      Let_def slice_def maxBearerTokenSize_def)

text \<open>C39: A frame cut anywhere is an error, never a shorter frame: the end of the input when nothing of the
  header or nothing of the payload came, an unexpected end otherwise.\<close>

theorem cut_frame_is_an_error:
  assumes "length payload \<le> maxFrameSize" "k < length (frame payload)"
  shows "ReadFrame (take k (frame payload)) = Inl (IOError (if k = 0 \<or> k = 4 then EOF else UnexpectedEOF))"
  by (rule ReadFrame_cut [OF assms])

lemma cut_frame_is_an_error_witness:
  "ReadFrame [0, 0, 0, 2, 7] = Inl (IOError UnexpectedEOF) \<and> length (frame [7, 8]) = 6"
  using cut_frame_is_an_error [of "[7, 8]" 5] by (simp add: frame_def PutUint32BE_def maxFrameSize_def)

end
