(* ===== verification/Pool.thy ===== *)
theory Pool
  imports Prelude
begin

text \<open>
  The pool of idle connections, pkg/lux/rpc/pool.go, as a state machine: threads stand at the
  statements of GetContext, Put and Close, and any of them may take the next step. Connections
  are numbers. The channel is the list of what it holds, first in front; sync.Once is a state
  that a second Close waits for. The dialing of a connection succeeds or fails by choice.
\<close>


section \<open>The pool and its callers\<close>

text \<open>Connections are numbers, given out in the order they are dialed. A thread stands at a statement of one
  of the pool's methods, or at none. \<close>

datatype pool_pc =
    Outside
  | GetLoad | GetSelect | GetDial
  | PutLoad nat | PutSelect nat
  | CloseStore | CloseChan | CloseDrain
  | PanicSendOnClosed

datatype once_state = OnceFree | OnceRunning | OnceDone

record Pool =
  maxIdle :: nat
  conns :: "nat list"
  conns_closed :: bool
  closed_flag :: bool
  once :: once_state

text \<open>The world around it: where each thread stands, the connections the callers hold, those that were
  closed, and the next to be dialed.\<close>

record pool_world =
  pool :: Pool
  pcs :: "nat \<Rightarrow> pool_pc"
  held :: "nat set"
  shut :: "nat set"
  next_conn :: nat

definition NewPool :: "int \<Rightarrow> Pool" where
  "NewPool n =
     \<lparr>maxIdle = (if n \<le> 0 then 32 else nat n), conns = [], conns_closed = False, closed_flag = False, once = OnceFree\<rparr>"

definition init_world :: "int \<Rightarrow> pool_world" where
  "init_world n = \<lparr>pool = NewPool n, pcs = (\<lambda>_. Outside), held = {}, shut = {}, next_conn = 0\<rparr>"

abbreviation goto :: "nat \<Rightarrow> pool_pc \<Rightarrow> pool_world \<Rightarrow> pool_world" where
  "goto t pc w \<equiv> w\<lparr>pcs := (pcs w)(t := pc)\<rparr>"

definition close_conn :: "nat \<Rightarrow> pool_world \<Rightarrow> pool_world" where
  "close_conn c w = w\<lparr>shut := insert c (shut w)\<rparr>"

definition give :: "nat \<Rightarrow> pool_world \<Rightarrow> pool_world" where
  "give c w = w\<lparr>held := insert c (held w)\<rparr>"

text \<open>One step of thread t inside GetContext: the load of closed, the select on the channel, the dial.
  A closed and empty channel delivers nil, which is the error "pool closed".\<close>

definition GetContext_step :: "nat \<Rightarrow> pool_world \<Rightarrow> pool_world option" where
  "GetContext_step t w =
     (let p = pool w in
      case pcs w t of
        GetLoad \<Rightarrow> Some (goto t (if closed_flag p then Outside else GetSelect) w)
      | GetSelect \<Rightarrow>
          (case conns p of
             c # cs \<Rightarrow> Some (goto t Outside (give c (w\<lparr>pool := p\<lparr>conns := cs\<rparr>\<rparr>)))
           | [] \<Rightarrow> Some (goto t (if conns_closed p then Outside else GetDial) w))
      | GetDial \<Rightarrow> Some (goto t Outside (give (next_conn w) (w\<lparr>next_conn := next_conn w + 1\<rparr>)))
      | _ \<Rightarrow> None)"

text \<open>One step inside Put. A send on a closed channel panics, also when it has a default.\<close>

definition Put_step :: "nat \<Rightarrow> pool_world \<Rightarrow> pool_world option" where
  "Put_step t w =
     (let p = pool w in
      case pcs w t of
        PutLoad c \<Rightarrow> Some (if closed_flag p then goto t Outside (close_conn c w) else goto t (PutSelect c) w)
      | PutSelect c \<Rightarrow>
          Some (if conns_closed p then goto t PanicSendOnClosed w
            else if length (conns p) < maxIdle p then goto t Outside (w\<lparr>pool := p\<lparr>conns := conns p @ [c]\<rparr>\<rparr>)
            else goto t Outside (close_conn c w))
      | _ \<Rightarrow> None)"

text \<open>One step inside the function that Close runs once.\<close>

definition Close_step :: "nat \<Rightarrow> pool_world \<Rightarrow> pool_world option" where
  "Close_step t w =
     (let p = pool w in
      case pcs w t of
        CloseStore \<Rightarrow> Some (goto t CloseChan (w\<lparr>pool := p\<lparr>closed_flag := True\<rparr>\<rparr>))
      | CloseChan \<Rightarrow> Some (goto t CloseDrain (w\<lparr>pool := p\<lparr>conns_closed := True\<rparr>\<rparr>))
      | CloseDrain \<Rightarrow>
          (case conns p of
             c # cs \<Rightarrow> Some (close_conn c (w\<lparr>pool := p\<lparr>conns := cs\<rparr>\<rparr>))
           | [] \<Rightarrow> Some (goto t Outside (w\<lparr>pool := p\<lparr>once := OnceDone\<rparr>\<rparr>)))
      | _ \<Rightarrow> None)"

text \<open>What a thread can do: call a method, take its next step, fail to dial, or close a connection it
  holds. A caller puts only connections it holds, as exchange does. A second Close waits until the first is done.\<close>

datatype pool_action = CallGet | CallPut "nat option" | CallClose | Advance | DialFails | CloseHeld nat

definition pool_do :: "nat \<Rightarrow> pool_action \<Rightarrow> pool_world \<Rightarrow> pool_world option" where
  "pool_do t a w =
     (case a of
        CallGet \<Rightarrow> if pcs w t = Outside then Some (goto t GetLoad w) else None
      | CallPut None \<Rightarrow> if pcs w t = Outside then Some w else None
      | CallPut (Some c) \<Rightarrow>
          if pcs w t = Outside \<and> c \<in> held w then Some (goto t (PutLoad c) (w\<lparr>held := held w - {c}\<rparr>)) else None
      | CallClose \<Rightarrow>
          if pcs w t \<noteq> Outside \<or> once (pool w) = OnceRunning then None
          else if once (pool w) = OnceDone then Some w
          else Some (goto t CloseStore (w\<lparr>pool := (pool w)\<lparr>once := OnceRunning\<rparr>\<rparr>))
      | Advance \<Rightarrow>
          (case GetContext_step t w of Some w1 \<Rightarrow> Some w1
           | None \<Rightarrow> (case Put_step t w of Some w1 \<Rightarrow> Some w1 | None \<Rightarrow> Close_step t w))
      | DialFails \<Rightarrow> if pcs w t = GetDial then Some (goto t Outside w) else None
      | CloseHeld c \<Rightarrow>
          if pcs w t = Outside \<and> c \<in> held w then Some (close_conn c (w\<lparr>held := held w - {c}\<rparr>)) else None)"

fun pool_run :: "(nat \<times> pool_action) list \<Rightarrow> pool_world \<Rightarrow> pool_world option" where
  "pool_run [] w = Some w"
| "pool_run ((t, a) # acts) w = (case pool_do t a w of None \<Rightarrow> None | Some w1 \<Rightarrow> pool_run acts w1)"

text \<open>The interleavings: any thread may take the next step.\<close>

inductive pool_step :: "pool_world \<Rightarrow> pool_world \<Rightarrow> bool" where
  pool_stepI: "pool_do t a w = Some w' \<Longrightarrow> pool_step w w'"

inductive pool_reachable :: "int \<Rightarrow> pool_world \<Rightarrow> bool" for n where
  start: "pool_reachable n (init_world n)"
| step: "pool_reachable n w \<Longrightarrow> pool_step w w' \<Longrightarrow> pool_reachable n w'"

inductive_cases pool_stepE: "pool_step w w'"

lemma pool_run_reachable:
  "pool_run acts w = Some w' \<Longrightarrow> pool_reachable n w \<Longrightarrow> pool_reachable n w'"
proof (induction acts arbitrary: w)
  case (Cons a acts)
  obtain t b where a: "a = (t, b)" by (cases a)
  obtain w1 where "pool_do t b w = Some w1" "pool_run acts w1 = Some w'"
    using Cons(2) by (auto simp: a split: option.splits)
  then show ?case using Cons(1,3) by (blast intro: pool_reachable.step pool_stepI)
qed simp

section \<open>The invariant\<close>

text \<open>At most one thread is where P says.\<close>

definition at_most_one :: "(pool_pc \<Rightarrow> bool) \<Rightarrow> (nat \<Rightarrow> pool_pc) \<Rightarrow> bool" where
  "at_most_one P f \<longleftrightarrow> (\<forall>t u. P (f t) \<and> P (f u) \<longrightarrow> t = u)"

lemma at_most_one_goto:
  "at_most_one P f \<Longrightarrow> (P pc \<Longrightarrow> P (f t) \<or> (\<forall>u. \<not> P (f u))) \<Longrightarrow> at_most_one P (f(t := pc))"
  by (auto simp: at_most_one_def)

fun putting :: "pool_pc \<Rightarrow> nat option" where
  "putting (PutLoad c) = Some c"
| "putting (PutSelect c) = Some c"
| "putting _ = None"

text \<open>Every open connection has one owner: the channel, the callers, or one thread inside Put.\<close>

definition puts :: "(nat \<Rightarrow> pool_pc) \<Rightarrow> nat set" where
  "puts f = {c. \<exists>t. putting (f t) = Some c}"

definition puts_once :: "(nat \<Rightarrow> pool_pc) \<Rightarrow> bool" where
  "puts_once f \<longleftrightarrow> (\<forall>c. at_most_one (\<lambda>pc. putting pc = Some c) f)"

definition live_conns :: "pool_world \<Rightarrow> nat set" where
  "live_conns w = set (conns (pool w)) \<union> held w \<union> puts (pcs w)"

definition owned_once :: "pool_world \<Rightarrow> bool" where
  "owned_once w \<longleftrightarrow>
     distinct (conns (pool w)) \<and> set (conns (pool w)) \<inter> held w = {} \<and> set (conns (pool w)) \<inter> puts (pcs w) = {} \<and>
     held w \<inter> puts (pcs w) = {} \<and> puts_once (pcs w) \<and>
     live_conns w \<inter> shut w = {} \<and> live_conns w \<union> shut w \<subseteq> {..<next_conn w}"

lemma puts_goto: "puts_once f \<Longrightarrow> puts (f(t := pc)) = puts f - set_option (putting (f t)) \<union> set_option (putting pc)"
  by (auto simp: puts_def puts_once_def at_most_one_def split: if_splits)

lemma puts_once_goto:
  assumes "puts_once f" "set_option (putting pc) \<inter> puts f \<subseteq> set_option (putting (f t))"
  shows "puts_once (f(t := pc))"
  unfolding puts_once_def
proof
  fix c
  show "at_most_one (\<lambda>pc. putting pc = Some c) (f(t := pc))"
    by (rule at_most_one_goto) (use assms in \<open>auto simp: puts_once_def puts_def\<close>)
qed

lemma puts_thread: "putting (f t) = Some c \<Longrightarrow> c \<in> puts f"
  by (auto simp: puts_def)

text \<open>The close protocol: the flag, then the channel, then the drain, once.\<close>

definition closing_pc :: "pool_pc \<Rightarrow> bool" where
  "closing_pc pc \<longleftrightarrow> pc = CloseStore \<or> pc = CloseChan \<or> pc = CloseDrain"

definition pc_ok :: "Pool \<Rightarrow> pool_pc \<Rightarrow> bool" where
  "pc_ok p pc =
     (case pc of
        CloseStore \<Rightarrow> once p = OnceRunning \<and> \<not> closed_flag p \<and> \<not> conns_closed p
      | CloseChan \<Rightarrow> once p = OnceRunning \<and> closed_flag p \<and> \<not> conns_closed p
      | CloseDrain \<Rightarrow> once p = OnceRunning \<and> closed_flag p \<and> conns_closed p
      | PanicSendOnClosed \<Rightarrow> conns_closed p
      | _ \<Rightarrow> True)"

definition flags_ok :: "Pool \<Rightarrow> bool" where
  "flags_ok p \<longleftrightarrow>
     (conns_closed p \<longrightarrow> closed_flag p) \<and> (closed_flag p \<longrightarrow> once p \<noteq> OnceFree) \<and>
     (once p = OnceDone \<longrightarrow> conns_closed p \<and> conns p = [])"

definition close_ok :: "pool_world \<Rightarrow> bool" where
  "close_ok w \<longleftrightarrow> flags_ok (pool w) \<and> (\<forall>t. pc_ok (pool w) (pcs w t)) \<and> at_most_one closing_pc (pcs w)"

definition size_ok :: "pool_world \<Rightarrow> bool" where
  "size_ok w \<longleftrightarrow> 0 < maxIdle (pool w) \<and> length (conns (pool w)) \<le> maxIdle (pool w)"

lemmas pool_defs = GetContext_step_def Put_step_def Close_step_def pool_do_def close_conn_def give_def Let_def

text \<open>The transitions, one for each way through the code.\<close>

lemma pool_do_cases:
  assumes "pool_do t a w = Some w'"
  obtains
    (stay) "w' = w"
  | (neutral) pc' where "w' = goto t pc' w" "pcs w t \<in> {Outside, GetLoad, GetSelect, GetDial}"
      "pc' \<in> {Outside, GetLoad, GetSelect, GetDial}"
  | (take) c cs where "pcs w t = GetSelect" "conns (pool w) = c # cs"
      "w' = goto t Outside (give c (w\<lparr>pool := (pool w)\<lparr>conns := cs\<rparr>\<rparr>))"
  | (dial) "pcs w t = GetDial" "w' = goto t Outside (give (next_conn w) (w\<lparr>next_conn := next_conn w + 1\<rparr>))"
  | (put) c where "pcs w t = Outside" "c \<in> held w" "w' = goto t (PutLoad c) (w\<lparr>held := held w - {c}\<rparr>)"
  | (put_open) c where "pcs w t = PutLoad c" "\<not> closed_flag (pool w)" "w' = goto t (PutSelect c) w"
  | (put_shut) c where "putting (pcs w t) = Some c" "w' = goto t Outside (close_conn c w)"
  | (send) c where "pcs w t = PutSelect c" "\<not> conns_closed (pool w)" "length (conns (pool w)) < maxIdle (pool w)"
      "w' = goto t Outside (w\<lparr>pool := (pool w)\<lparr>conns := conns (pool w) @ [c]\<rparr>\<rparr>)"
  | (panic) c where "pcs w t = PutSelect c" "conns_closed (pool w)" "w' = goto t PanicSendOnClosed w"
  | (close) "pcs w t = Outside" "once (pool w) = OnceFree"
      "w' = goto t CloseStore (w\<lparr>pool := (pool w)\<lparr>once := OnceRunning\<rparr>\<rparr>)"
  | (close_store) "pcs w t = CloseStore" "w' = goto t CloseChan (w\<lparr>pool := (pool w)\<lparr>closed_flag := True\<rparr>\<rparr>)"
  | (close_chan) "pcs w t = CloseChan" "w' = goto t CloseDrain (w\<lparr>pool := (pool w)\<lparr>conns_closed := True\<rparr>\<rparr>)"
  | (drain) c cs where "pcs w t = CloseDrain" "conns (pool w) = c # cs"
      "w' = close_conn c (w\<lparr>pool := (pool w)\<lparr>conns := cs\<rparr>\<rparr>)"
  | (drained) "pcs w t = CloseDrain" "conns (pool w) = []" "w' = goto t Outside (w\<lparr>pool := (pool w)\<lparr>once := OnceDone\<rparr>\<rparr>)"
  | (close_held) c where "pcs w t = Outside" "c \<in> held w" "w' = close_conn c (w\<lparr>held := held w - {c}\<rparr>)"
proof (cases a)
  case CallGet
  then show thesis using assms neutral [of GetLoad] by (auto simp: pool_do_def split: if_splits)
next
  case (CallPut oc)
  show thesis
  proof (cases oc)
    case None
    show thesis by (rule stay) (use assms CallPut None in \<open>simp add: pool_do_def split: if_splits\<close>)
  next
    case (Some c)
    show thesis by (rule put [of c]) (use assms CallPut Some in \<open>simp_all add: pool_do_def split: if_splits\<close>)
  qed
next
  case CallClose
  show thesis
  proof (cases "once (pool w)")
    case OnceFree
    show thesis by (rule close) (use assms CallClose OnceFree in \<open>simp_all add: pool_do_def split: if_splits\<close>)
  next
    case OnceRunning
    then show thesis using assms CallClose by (simp add: pool_do_def split: if_splits)
  next
    case OnceDone
    show thesis by (rule stay) (use assms CallClose OnceDone in \<open>simp add: pool_do_def split: if_splits\<close>)
  qed
next
  case DialFails
  then show thesis using assms neutral [of Outside] by (auto simp: pool_do_def split: if_splits)
next
  case (CloseHeld c)
  then show thesis using assms close_held by (auto simp: pool_do_def split: if_splits)
next
  case Advance
  note steps = pool_do_def GetContext_step_def Put_step_def Close_step_def Let_def
  show thesis
  proof (cases "pcs w t")
    case GetLoad
    show thesis
      by (rule neutral [of "if closed_flag (pool w) then Outside else GetSelect"]) (use assms Advance GetLoad in \<open>simp_all add: steps\<close>)
  next
    case GetSelect
    show thesis
    proof (cases "conns (pool w)")
      case Nil
      show thesis
        by (rule neutral [of "if conns_closed (pool w) then Outside else GetDial"])
          (use assms Advance GetSelect Nil in \<open>simp_all add: steps\<close>)
    next
      case (Cons c cs)
      show thesis by (rule take [OF GetSelect Cons]) (use assms Advance GetSelect Cons in \<open>simp add: steps\<close>)
    qed
  next
    case (PutLoad c)
    show thesis
    proof (cases "closed_flag (pool w)")
      case True
      show thesis by (rule put_shut [of c]) (use assms Advance PutLoad True in \<open>simp_all add: steps\<close>)
    next
      case False
      show thesis by (rule put_open [OF PutLoad False]) (use assms Advance PutLoad False in \<open>simp add: steps\<close>)
    qed
  next
    case (PutSelect c)
    consider (a) "conns_closed (pool w)" | (b) "\<not> conns_closed (pool w)" "length (conns (pool w)) < maxIdle (pool w)"
      | (c) "\<not> conns_closed (pool w)" "\<not> length (conns (pool w)) < maxIdle (pool w)" by blast
    then show thesis
    proof cases
      case a
      show thesis by (rule panic [OF PutSelect a]) (use assms Advance PutSelect a in \<open>simp add: steps\<close>)
    next
      case b
      show thesis by (rule send [OF PutSelect b]) (use assms Advance PutSelect b in \<open>simp add: steps\<close>)
    next
      case c
      show thesis by (rule put_shut [of c]) (use assms Advance PutSelect c in \<open>simp_all add: steps\<close>)
    qed
  next
    case CloseDrain
    show thesis
    proof (cases "conns (pool w)")
      case Nil
      show thesis by (rule drained [OF CloseDrain Nil]) (use assms Advance CloseDrain Nil in \<open>simp add: steps\<close>)
    next
      case (Cons c cs)
      show thesis by (rule drain [OF CloseDrain Cons]) (use assms Advance CloseDrain Cons in \<open>simp add: steps\<close>)
    qed
  next
    case GetDial
    show thesis by (rule dial [OF GetDial]) (use assms Advance GetDial in \<open>simp add: steps\<close>)
  next
    case CloseStore
    show thesis by (rule close_store [OF CloseStore]) (use assms Advance CloseStore in \<open>simp add: steps\<close>)
  next
    case CloseChan
    show thesis by (rule close_chan [OF CloseChan]) (use assms Advance CloseChan in \<open>simp add: steps\<close>)
  qed (use assms Advance in \<open>simp_all add: steps\<close>)
qed

lemma pool_do_size:
  assumes "pool_do t a w = Some w'" "size_ok w"
  shows "size_ok w'"
  using assms(1) by (cases rule: pool_do_cases) (use assms(2) in \<open>simp_all add: size_ok_def give_def close_conn_def\<close>)

definition same_flags :: "Pool \<Rightarrow> Pool \<Rightarrow> bool" where
  "same_flags p q \<longleftrightarrow> once p = once q \<and> closed_flag p = closed_flag q \<and> conns_closed p = conns_closed q"

lemma pc_ok_same: "same_flags p q \<Longrightarrow> pc_ok p pc = pc_ok q pc"
  by (cases pc) (simp_all add: pc_ok_def same_flags_def)

lemma pc_ok_not_closing:
  "pc_ok p pc \<Longrightarrow> \<not> closing_pc pc \<Longrightarrow> (conns_closed p \<longrightarrow> conns_closed q) \<Longrightarrow> pc_ok q pc"
  by (cases pc) (simp_all add: pc_ok_def closing_pc_def)

lemma pc_ok_free: "pc_ok p pc \<Longrightarrow> once p = OnceFree \<Longrightarrow> \<not> closing_pc pc"
  by (auto simp: pc_ok_def closing_pc_def)

lemma close_ok_step:
  assumes ok: "close_ok w" and w': "pcs w' = (pcs w)(t := pc)"
    and p: "flags_ok (pool w')" "pc_ok (pool w') pc" "conns_closed (pool w) \<longrightarrow> conns_closed (pool w')"
    and own: "closing_pc pc \<or> \<not> same_flags (pool w) (pool w') \<Longrightarrow> closing_pc (pcs w t) \<or> once (pool w) = OnceFree"
  shows "close_ok w'"
proof -
  have one: "at_most_one closing_pc (pcs w)" and pcs: "pc_ok (pool w) (pcs w u)" for u using ok by (auto simp: close_ok_def)
  have "at_most_one closing_pc (pcs w')"
    unfolding w' by (rule at_most_one_goto [OF one]) (use own pc_ok_free [OF pcs] in blast)
  moreover have "pc_ok (pool w') (pcs w u)" if "u \<noteq> t" for u
  proof (cases "same_flags (pool w) (pool w')")
    case True
    then show ?thesis using pc_ok_same pcs by blast
  next
    case False
    then have "\<not> closing_pc (pcs w u)" using own one that pc_ok_free [OF pcs] by (auto simp: at_most_one_def)
    then show ?thesis using pc_ok_not_closing [OF pcs _ p(3)] by blast
  qed
  ultimately show ?thesis using p by (simp add: close_ok_def w')
qed

lemmas close_simps = same_flags_def pc_ok_def closing_pc_def flags_ok_def give_def close_conn_def

lemma pool_do_close:
  assumes "pool_do t a w = Some w'" "close_ok w"
  shows "close_ok w'"
proof -
  have f: "flags_ok (pool w)" and pc: "pc_ok (pool w) (pcs w t)" using assms(2) by (auto simp: close_ok_def)
  note go = close_ok_step [OF assms(2), of w' t]
  show ?thesis
    using assms(1)
  proof (cases rule: pool_do_cases)
    case stay
    then show ?thesis using assms(2) by simp
  next
    case (neutral pc')
    then show ?thesis by (intro go [of pc']) (use f pc in \<open>auto simp: close_simps\<close>)
  next
    case (take c cs)
    then show ?thesis by (intro go [of Outside]) (use f pc in \<open>auto simp: close_simps\<close>)
  next
    case dial
    then show ?thesis by (intro go [of Outside]) (use f pc in \<open>auto simp: close_simps\<close>)
  next
    case (put c)
    then show ?thesis by (intro go [of "PutLoad c"]) (use f pc in \<open>auto simp: close_simps\<close>)
  next
    case (put_open c)
    then show ?thesis by (intro go [of "PutSelect c"]) (use f pc in \<open>auto simp: close_simps\<close>)
  next
    case (put_shut c)
    then show ?thesis by (intro go [of Outside]) (use f pc in \<open>auto simp: close_simps\<close>)
  next
    case (send c)
    then show ?thesis by (intro go [of Outside]) (use f pc in \<open>auto simp: close_simps\<close>)
  next
    case (panic c)
    then show ?thesis by (intro go [of PanicSendOnClosed]) (use f pc in \<open>auto simp: close_simps\<close>)
  next
    case (close)
    then show ?thesis by (intro go [of CloseStore]) (use f pc in \<open>auto simp: close_simps\<close>)
  next
    case close_store
    then show ?thesis by (intro go [of CloseChan]) (use f pc in \<open>auto simp: close_simps\<close>)
  next
    case close_chan
    then show ?thesis by (intro go [of CloseDrain]) (use f pc in \<open>auto simp: close_simps\<close>)
  next
    case (drain c cs)
    then show ?thesis by (intro go [of CloseDrain]) (use f pc in \<open>auto simp: close_simps\<close>)
  next
    case drained
    then show ?thesis by (intro go [of Outside]) (use f pc in \<open>auto simp: close_simps\<close>)
  next
    case (close_held c)
    then show ?thesis by (intro go [of Outside]) (use f pc in \<open>auto simp: close_simps\<close>)
  qed
qed

lemmas own_simps = owned_once_def live_conns_def give_def close_conn_def

lemma owned_once_step:
  assumes "owned_once w" "pcs w' = (pcs w)(t := pc)"
    and "set_option (putting pc) \<inter> puts (pcs w) \<subseteq> set_option (putting (pcs w t))"
    and "puts_once (pcs w') \<Longrightarrow> puts (pcs w') = puts (pcs w) - set_option (putting (pcs w t)) \<union> set_option (putting pc) \<Longrightarrow> owned_once w'"
  shows "owned_once w'"
  by (rule assms(4)) (use assms(1,2,3) puts_goto puts_once_goto in \<open>auto simp: owned_once_def\<close>)

lemma pool_do_owned:
  assumes "pool_do t a w = Some w'" "owned_once w"
  shows "owned_once w'"
proof -
  note go = owned_once_step [OF assms(2), of w' t]
  have pt: "putting (pcs w t) = Some c \<Longrightarrow> c \<in> puts (pcs w)" for c by (rule puts_thread)
  show ?thesis
    using assms(1)
  proof (cases rule: pool_do_cases)
    case stay
    then show ?thesis using assms(2) by simp
  next
    case (neutral pc')
    then have np: "putting pc' = None" "putting (pcs w t) = None" by auto
    show ?thesis by (rule go [of pc']) (use np assms(2) neutral(1) in \<open>simp_all add: own_simps\<close>)
  next
    case (take c cs)
    show ?thesis by (rule go [of Outside]) (use take assms(2) pt in \<open>auto simp: own_simps\<close>)
  next
    case dial
    show ?thesis by (rule go [of Outside]) (use dial assms(2) pt in \<open>auto simp: own_simps\<close>)
  next
    case (put c)
    show ?thesis by (rule go [of "PutLoad c"]) (use put assms(2) pt in \<open>auto simp: own_simps\<close>)
  next
    case (put_open c)
    show ?thesis by (rule go [of "PutSelect c"]) (use put_open assms(2) pt in \<open>auto simp: own_simps\<close>)
  next
    case (put_shut c)
    show ?thesis by (rule go [of Outside]) (use put_shut assms(2) pt in \<open>auto simp: own_simps\<close>)
  next
    case (send c)
    show ?thesis by (rule go [of Outside]) (use send assms(2) pt in \<open>auto simp: own_simps\<close>)
  next
    case (panic c)
    show ?thesis by (rule go [of PanicSendOnClosed]) (use panic assms(2) pt in \<open>auto simp: own_simps\<close>)
  next
    case (close)
    show ?thesis by (rule go [of CloseStore]) (use close assms(2) pt in \<open>auto simp: own_simps\<close>)
  next
    case close_store
    show ?thesis by (rule go [of CloseChan]) (use close_store assms(2) pt in \<open>auto simp: own_simps\<close>)
  next
    case close_chan
    show ?thesis by (rule go [of CloseDrain]) (use close_chan assms(2) pt in \<open>auto simp: own_simps\<close>)
  next
    case (drain c cs)
    show ?thesis by (rule go [of CloseDrain]) (use drain assms(2) pt in \<open>auto simp: own_simps\<close>)
  next
    case drained
    show ?thesis by (rule go [of Outside]) (use drained assms(2) pt in \<open>auto simp: own_simps\<close>)
  next
    case (close_held c)
    show ?thesis by (rule go [of Outside]) (use close_held assms(2) pt in \<open>auto simp: own_simps\<close>)
  qed
qed

section \<open>What holds of every interleaving\<close>

lemma reachable_invariant:
  "pool_reachable n w \<Longrightarrow> owned_once w \<and> size_ok w \<and> close_ok w"
proof (induction rule: pool_reachable.induct)
  case start
  show ?case
    by (auto simp: own_simps size_ok_def close_ok_def flags_ok_def pc_ok_def closing_pc_def at_most_one_def init_world_def
        NewPool_def puts_def puts_once_def)
next
  case (step w w')
  then obtain t a where "pool_do t a w = Some w'" by (auto elim: pool_stepE)
  then show ?case using step pool_do_owned pool_do_size pool_do_close by blast
qed

lemma drain_run:
  assumes "pcs w t = CloseDrain"
  shows "\<exists>w'. pool_run (replicate (length (conns (pool w)) + 1) (t, Advance)) w = Some w' \<and> once (pool w') = OnceDone \<and>
    conns (pool w') = [] \<and> shut w' = shut w \<union> set (conns (pool w)) \<and> pcs w' t = Outside"
  using assms
proof (induction "conns (pool w)" arbitrary: w)
  case Nil
  then show ?case by (simp add: pool_defs Nil(1) [symmetric])
next
  case (Cons c cs)
  let ?w1 = "close_conn c (w\<lparr>pool := (pool w)\<lparr>conns := cs\<rparr>\<rparr>)"
  have "pool_do t Advance w = Some ?w1" using Cons(2,3) by (simp add: pool_defs flip: Cons(2))
  moreover have "\<exists>w'. pool_run (replicate (length (conns (pool ?w1)) + 1) (t, Advance)) ?w1 = Some w' \<and> once (pool w') = OnceDone \<and>
    conns (pool w') = [] \<and> shut w' = shut ?w1 \<union> set (conns (pool ?w1)) \<and> pcs w' t = Outside"
    by (rule Cons(1)) (use Cons(3) in \<open>simp_all add: close_conn_def\<close>)
  ultimately show ?case by (auto simp: close_conn_def simp flip: Cons(2))
qed



text \<open>Close, once it runs, finishes in as many of its own steps as there are idle connections and three
  more, and has then closed every connection that was idle and left the pool empty.\<close>

theorem Close_finishes:
  assumes "pool_reachable n w" "pcs w t = CloseStore"
  shows "\<exists>w'. pool_run (replicate (length (conns (pool w)) + 3) (t, Advance)) w = Some w' \<and>
    once (pool w') = OnceDone \<and> conns (pool w') = [] \<and> set (conns (pool w)) \<subseteq> shut w' \<and> pcs w' t = Outside"
proof -
  let ?w2 = "goto t CloseDrain (w\<lparr>pool := (pool w)\<lparr>closed_flag := True, conns_closed := True\<rparr>\<rparr>)"
  have "length (conns (pool w)) + 3 = Suc (Suc (length (conns (pool w)) + 1))" by simp
  then have "pool_run (replicate (length (conns (pool w)) + 3) (t, Advance)) w =
      pool_run (replicate (length (conns (pool ?w2)) + 1) (t, Advance)) ?w2"
    using assms(2) by (simp only: replicate_Suc pool_run.simps) (simp add: pool_defs)
  moreover have "pcs ?w2 t = CloseDrain" by simp
  ultimately show ?thesis using drain_run [of ?w2 t] by auto
qed

lemma Close_finishes_witness:
  "\<exists>w w'. pool_run [(0, CallGet), (0, Advance), (0, Advance), (0, Advance), (1, CallPut (Some 0)), (1, Advance), (1, Advance), (2, CallClose)]
     (init_world 4) = Some w \<and> pool_run (replicate 4 (2, Advance)) w = Some w' \<and> conns (pool w') = [] \<and> 0 \<in> shut w'"
proof -
  obtain w where w: "pool_run [(0, CallGet), (0, Advance), (0, Advance), (0, Advance), (1, CallPut (Some 0)), (1, Advance), (1, Advance), (2, CallClose)]
     (init_world 4) = Some w" and c: "conns (pool w) = [0]" "pcs w 2 = CloseStore"
    by (simp add: pool_defs init_world_def NewPool_def)
  have r: "pool_reachable 4 w" by (rule pool_run_reachable [OF w pool_reachable.start])
  obtain w' where w': "pool_run (replicate 4 (2, Advance)) w = Some w'" "conns (pool w') = []" "0 \<in> shut w'"
    using Close_finishes [OF r c(2)] c(1) by auto
  show ?thesis using w w' by blast
qed

text \<open>A closed pool stays empty: no later call, whatever it overlaps with, leaves a connection in it.\<close>

theorem closed_pool_stays_empty:
  "pool_reachable n w \<Longrightarrow> once (pool w) = OnceDone \<Longrightarrow> pool_run acts w = Some w' \<Longrightarrow>
   once (pool w') = OnceDone \<and> conns (pool w') = []"
proof (induction acts arbitrary: w)
  case Nil
  then show ?case using reachable_invariant [of n w] by (auto simp: close_ok_def flags_ok_def)
next
  case (Cons x acts)
  obtain t a where x: "x = (t, a)" by (cases x)
  obtain w1 where d: "pool_do t a w = Some w1" and r: "pool_run acts w1 = Some w'"
    using Cons.prems(3) by (auto simp: x split: option.splits)
  have "close_ok w" using reachable_invariant [OF Cons.prems(1)] by blast
  then have nc: "\<not> closing_pc (pcs w t)" using Cons.prems(2) by (auto simp: close_ok_def pc_ok_def closing_pc_def split: pool_pc.splits)
  have "once (pool w1) = OnceDone"
    using d by (cases rule: pool_do_cases) (use nc Cons.prems(2) in \<open>auto simp: closing_pc_def give_def close_conn_def\<close>)
  then show ?case using Cons.IH [OF _ _ r] Cons.prems(1) d by (blast intro: pool_reachable.step pool_stepI)
qed

lemma closed_pool_stays_empty_witness:
  "\<exists>w w'. pool_run [(0, CallGet), (0, Advance), (0, Advance), (0, Advance), (1, CallPut (Some 0)), (1, Advance), (1, Advance), (2, CallClose), (2, Advance), (2, Advance), (2, Advance), (2, Advance)]
     (init_world 4) = Some w \<and> pool_run [(0, CallGet), (0, Advance)] w = Some w' \<and> conns (pool w') = []"
proof -
  obtain w w' where w: "pool_run [(0, CallGet), (0, Advance), (0, Advance), (0, Advance), (1, CallPut (Some 0)), (1, Advance), (1, Advance), (2, CallClose), (2, Advance), (2, Advance), (2, Advance), (2, Advance)]
     (init_world 4) = Some w" and d: "once (pool w) = OnceDone" and w': "pool_run [(0, CallGet), (0, Advance)] w = Some w'"
    by (simp add: pool_defs init_world_def NewPool_def)
  show ?thesis using closed_pool_stays_empty [OF pool_run_reachable [OF w pool_reachable.start] d w'] w w' by blast
qed

text \<open>Put can panic: a Put that has seen the pool open and is overtaken by Close sends on a closed channel.
  Without a Close it cannot.\<close>

theorem Put_panics_when_overtaken:
  "(\<exists>w. pool_run [(0, CallGet), (0, Advance), (0, Advance), (0, Advance), (0, CallPut (Some 0)), (0, Advance),
      (1, CallClose), (1, Advance), (1, Advance), (0, Advance)] (init_world 4) = Some w \<and> pcs w 0 = PanicSendOnClosed) \<and>
   (\<nexists>w t. pool_reachable n w \<and> once (pool w) = OnceFree \<and> pcs w t = PanicSendOnClosed)"
proof
  show "\<exists>w. pool_run [(0, CallGet), (0, Advance), (0, Advance), (0, Advance), (0, CallPut (Some 0)), (0, Advance),
      (1, CallClose), (1, Advance), (1, Advance), (0, Advance)] (init_world 4) = Some w \<and> pcs w 0 = PanicSendOnClosed"
    by (simp add: pool_defs init_world_def NewPool_def)
  have "conns_closed (pool w)" if "pool_reachable n w" "pcs w t = PanicSendOnClosed" for w t
    using reachable_invariant [OF that(1)] that(2) by (auto simp: close_ok_def pc_ok_def dest!: spec [of _ t])
  moreover have "once (pool w) \<noteq> OnceFree" if "pool_reachable n w" "conns_closed (pool w)" for w
    using reachable_invariant [OF that(1)] that(2) by (auto simp: close_ok_def flags_ok_def)
  ultimately show "\<nexists>w t. pool_reachable n w \<and> once (pool w) = OnceFree \<and> pcs w t = PanicSendOnClosed" by blast
qed

end
