(* ===== verification/Ast.thy ===== *)
theory Ast
  imports Token
begin

text \<open>
  The syntax tree of .luxo files, from pkg/ast/ast.go. An interface value that may be nil is an
  option; the nil slice is the empty list. The type tags that the semantic analysis stores in
  expressions are not part of the tree the parser builds and are left out, as is the Atomic mark
  of assignments. Go's ForStmt implements both interfaces, so it is a constructor of both types.
  NilExprStmt is the typed nil that parseExprStmt can return.
\<close>

datatype (plugins only: size) TypeRef =
  TypeRef (refPos: Position) (refName: bytes) (refNullable: bool) (refIsList: bool)
    (refTypeArgs: "TypeRef list") (refTuple: "TypeRef list") (refFKField: bytes)

datatype (plugins only: size) Expr =
    Literal Position Type bytes
  | Ident Position bytes
  | MemberExpr Position Expr bytes bool
  | CallExpr Position Expr "NamedArg list"
  | BinaryExpr Position "Expr option" bytes "Expr option"
  | UnaryExpr Position bytes "Expr option"
  | ElvisExpr Position Expr "Expr option"
  | BangElvisExpr Position Expr "Expr option"
  | WhenExpr Position "Expr option" "WhenBranch list" "Expr option"
  | LambdaExpr Position "bytes list" Block
  | ListExpr Position "Expr option list"
  | ObjectExpr Position bytes "NamedArg list"
  | TemplateString Position "Expr option list"
  | RangeExpr Position Expr "Expr option"
  | YieldExpr Position "Expr option"
  | AsyncExpr Position Block
  | AwaitExpr Position Block
  | ForExpr Position bytes "Expr option" Block
and NamedArg = NamedArg (argName: bytes) (argValue: "Expr option")
and WhenBranch = WhenBranch (branchCondition: "Expr option") (branchIsType: bytes) (branchBody: "Expr option")
and Stmt =
    ValStmt Position Position bytes "bytes list" "TypeRef option" "Expr option" bool
  | IfStmt Position "Expr option" Block
  | ForStmt Position bytes "Expr option" Block
  | ReturnStmt Position "Expr option"
  | ThrowStmt Position "Expr option"
  | EmitStmt Position bytes "NamedArg list"
  | AssignStmt Position "Expr option" bytes "Expr option"
  | BreakStmt Position
  | ContinueStmt Position
  | ExprStmt Position "Expr option"
  | NilExprStmt
and Block = Block (blockPos: Position) (blockEndPos: Position) (blockStmts: "Stmt list")

datatype (plugins only: size) Directive =
  Directive (dirPos: Position) (dirName: bytes) (dirArgs: "NamedArg list") (dirBody: "Block option")

text \<open>GetPos of the expressions.\<close>

fun GetPos :: "Expr \<Rightarrow> Position" where
  "GetPos (Literal p _ _) = p"
| "GetPos (Ident p _) = p"
| "GetPos (MemberExpr p _ _ _) = p"
| "GetPos (CallExpr p _ _) = p"
| "GetPos (BinaryExpr p _ _ _) = p"
| "GetPos (UnaryExpr p _ _) = p"
| "GetPos (ElvisExpr p _ _) = p"
| "GetPos (BangElvisExpr p _ _) = p"
| "GetPos (WhenExpr p _ _ _) = p"
| "GetPos (LambdaExpr p _ _) = p"
| "GetPos (ListExpr p _) = p"
| "GetPos (ObjectExpr p _ _) = p"
| "GetPos (TemplateString p _) = p"
| "GetPos (RangeExpr p _ _) = p"
| "GetPos (YieldExpr p _) = p"
| "GetPos (AsyncExpr p _) = p"
| "GetPos (AwaitExpr p _) = p"
| "GetPos (ForExpr p _ _ _) = p"

section \<open>Declarations\<close>

record ParamDecl =
  parPos :: Position
  parDoc :: bytes
  parName :: bytes
  parType :: TypeRef
  parDefault :: "Expr option"
  parSpread :: bool

record ComputedField =
  compDirectives :: "Directive list"
  compBody :: "Block option"

record FieldDecl =
  fldPos :: Position
  fldDoc :: bytes
  fldName :: bytes
  fldType :: TypeRef
  fldDefault :: "Expr option"
  fldDirectives :: "Directive list"
  fldComputed :: "ComputedField option"

record ScopeDecl =
  scpPos :: Position
  scpName :: bytes
  scpParams :: "ParamDecl list"
  scpExpr :: "Expr option"

record ModelDecl =
  mdlPos :: Position
  mdlDoc :: bytes
  mdlName :: bytes
  mdlParents :: "bytes list"
  mdlFields :: "FieldDecl list"
  mdlScopes :: "ScopeDecl list"
  mdlDirectives :: "Directive list"

record FnDecl =
  fnPos :: Position
  fnDoc :: bytes
  fnName :: bytes
  fnParams :: "ParamDecl list"
  fnReturnType :: "TypeRef option"
  fnDirectives :: "Directive list"
  fnBody :: "Block option"

record InterfaceDecl =
  ifcPos :: Position
  ifcDoc :: bytes
  ifcName :: bytes
  ifcFields :: "FieldDecl list"
  ifcMethods :: "FnDecl list"

record EnumDecl =
  enmPos :: Position
  enmDoc :: bytes
  enmName :: bytes
  enmValues :: "bytes list"

record SealedVariant =
  varName :: bytes
  varFields :: "ParamDecl list"

record SealedDecl =
  sldPos :: Position
  sldDoc :: bytes
  sldName :: bytes
  sldVariants :: "SealedVariant list"

record ast_TypeDecl =
  tydPos :: Position
  tydDoc :: bytes
  tydName :: bytes
  tydTypeParams :: "bytes list"
  tydFields :: "FieldDecl list"

record ApiDecl =
  apiPos :: Position
  apiDoc :: bytes
  apiOverride :: bool
  apiName :: bytes
  apiParams :: "ParamDecl list"
  apiReturnType :: "TypeRef option"
  apiDirectives :: "Directive list"
  apiBody :: "Block option"

record ErrorDecl =
  errPos :: Position
  errDoc :: bytes
  errName :: bytes
  errFields :: "ParamDecl list"
  errCode :: int
  errMessage :: bytes
  errInternal :: bool

record ExtendDecl =
  extPos :: Position
  extName :: bytes
  extFields :: "FieldDecl list"

record UseDecl =
  usePos :: Position
  useModule :: bytes
  useNames :: "bytes list"

record ImportDecl =
  impPos :: Position
  impModule :: bytes

record MiddlewareDecl =
  mwPos :: Position
  mwDoc :: bytes
  mwName :: bytes
  mwDirectives :: "Directive list"
  mwBody :: "Block option"

record EventDecl =
  evtPos :: Position
  evtName :: bytes
  evtParams :: "ParamDecl list"

record OnDecl =
  onPos :: Position
  onEventName :: bytes
  onParams :: "bytes list"
  onBody :: "Block option"
  onNative :: bool
  onBroadcast :: bool

record ast_File =
  fileName :: bytes
  Models :: "ModelDecl list"
  Interfaces :: "InterfaceDecl list"
  Enums :: "EnumDecl list"
  Sealeds :: "SealedDecl list"
  Types :: "ast_TypeDecl list"
  APIs :: "ApiDecl list"
  Functions :: "FnDecl list"
  Errors :: "ErrorDecl list"
  Extends :: "ExtendDecl list"
  Uses :: "UseDecl list"
  Middlewares :: "MiddlewareDecl list"
  Events :: "EventDecl list"
  Listeners :: "OnDecl list"
  Imports :: "ImportDecl list"
  Globals :: "Stmt list"

end
