(* ===== verification/Parser.thy ===== *)
theory Parser
  imports Ast
begin

text \<open>
  The recursive descent parser of .luxo files, pkg/parser. Each function of the package is a
  definition of the same name over the state of the parser; a panic with bailout is an outcome
  beside the normal one, recovered at the top level. The functions that call each other in a
  cycle take the record parsers, whose fields are the functions entered again after a token was
  consumed; \<open>knot n\<close> ties the knot for n such entries, and a loop is allowed one round
  for each token left and one more. Running out of either is the third outcome; the theory of
  the parser's properties shows that it does not happen, so none of the limits restricts the code.
\<close>

section \<open>The state of the parser\<close>

record ParseError =
  pePos :: Position
  peMessage :: bytes

record Parser =
  toks :: "Token list"
  pos :: nat
  errs :: "ParseError list"
  lastDoc :: bytes
  noBraceLambda :: bool

definition New_Parser :: "Token list \<Rightarrow> Parser" where
  "New_Parser ts = \<lparr>toks = ts, pos = 0, errs = [], lastDoc = [], noBraceLambda = False\<rparr>"

datatype 'a outcome = Done 'a | Bailout | OutOfFuel

type_synonym 'a parser = "Parser \<Rightarrow> 'a outcome \<times> Parser"

definition ret :: "'a \<Rightarrow> 'a parser" where
  "ret x p = (Done x, p)"

definition bnd :: "'a parser \<Rightarrow> ('a \<Rightarrow> 'b parser) \<Rightarrow> 'b parser" where
  "bnd m f p =
     (case m p of (Done x, p1) \<Rightarrow> f x p1 | (Bailout, p1) \<Rightarrow> (Bailout, p1) | (OutOfFuel, p1) \<Rightarrow> (OutOfFuel, p1))"

definition asks :: "(Parser \<Rightarrow> 'a) \<Rightarrow> 'a parser" where
  "asks f p = (Done (f p), p)"

definition ifP :: "(Parser \<Rightarrow> bool) \<Rightarrow> 'a parser \<Rightarrow> 'a parser \<Rightarrow> 'a parser" where
  "ifP c m1 m2 p = (if c p then m1 p else m2 p)"

text \<open>The tokens left bound the rounds of a loop.\<close>

definition left :: "Parser \<Rightarrow> nat" where
  "left p = length (toks p) - pos p"

fun loop_n :: "nat \<Rightarrow> ('a \<Rightarrow> Parser \<Rightarrow> bool) \<Rightarrow> ('a \<Rightarrow> 'a parser) \<Rightarrow> 'a \<Rightarrow> 'a parser" where
  "loop_n 0 c b x = (\<lambda>p. (OutOfFuel, p))"
| "loop_n (Suc k) c b x = ifP (c x) (bnd (b x) (loop_n k c b)) (ret x)"

definition whileP :: "('a \<Rightarrow> Parser \<Rightarrow> bool) \<Rightarrow> ('a \<Rightarrow> 'a parser) \<Rightarrow> 'a \<Rightarrow> 'a parser" where
  "whileP c b x p = loop_n (left p + 2) c b x p"

section \<open>Token operations\<close>

definition zero_pos :: Position where
  "zero_pos = \<lparr>File = [], Line = 0, Col = 0, Offset = 0\<rparr>"

definition eof_token :: Token where
  "eof_token = \<lparr>tokType = T_EOF, tokVal = [], tokPos = zero_pos\<rparr>"

definition current :: "Parser \<Rightarrow> Token" where
  "current p = (if pos p \<ge> length (toks p) then eof_token else toks p ! pos p)"

definition parser_peek :: "Parser \<Rightarrow> Token" where
  "parser_peek p = (if pos p + 1 \<ge> length (toks p) then eof_token else toks p ! (pos p + 1))"

abbreviation cur_type :: "Parser \<Rightarrow> Type" where
  "cur_type p \<equiv> tokType (current p)"

definition peekType :: "Parser \<Rightarrow> Type" where
  "peekType p = tokType (parser_peek p)"

definition check :: "Type \<Rightarrow> Parser \<Rightarrow> bool" where
  "check t p = (cur_type p = t)"

definition isEOF :: "Parser \<Rightarrow> bool" where
  "isEOF p = (cur_type p = T_EOF)"

definition parser_advance :: "Token parser" where
  "parser_advance p = (Done (current p), if pos p < length (toks p) then p\<lparr>pos := pos p + 1\<rparr> else p)"

definition parser_match :: "Type \<Rightarrow> bool parser" where
  "parser_match t = ifP (check t) (bnd parser_advance (\<lambda>_. ret True)) (ret False)"

definition parser_error :: "(Parser \<Rightarrow> bytes) \<Rightarrow> unit parser" where
  "parser_error msg p = (Done (), p\<lparr>errs := errs p @ [\<lparr>pePos = tokPos (current p), peMessage = msg p\<rparr>]\<rparr>)"

definition bailout :: "'a parser" where
  "bailout p = (Bailout, p)"

definition expect :: "Type \<Rightarrow> Token parser" where
  "expect t =
     ifP (check t) parser_advance
       (bnd (parser_error (\<lambda>p. lit ''expected '' @ Type_String t @ lit '', got '' @ Type_String (cur_type p))) (\<lambda>_. bailout))"

text \<open>Only error may be used as a name.\<close>

definition isKeywordUsedAsIdent :: "Parser \<Rightarrow> bool" where
  "isKeywordUsedAsIdent p = (cur_type p = T_Error)"

definition expectIdent :: "bytes parser" where
  "expectIdent =
     ifP (\<lambda>p. check T_Ident p \<or> isKeywordUsedAsIdent p) (bnd parser_advance (\<lambda>tok. ret (tokVal tok)))
       (bnd (parser_error (\<lambda>p. lit ''expected identifier, got '' @ Type_String (cur_type p))) (\<lambda>_. bailout))"

definition expectIdentOrKeyword :: "bytes parser" where
  "expectIdentOrKeyword =
     ifP (\<lambda>p. check T_Ident p \<or> IsKeyword (cur_type p)) (bnd parser_advance (\<lambda>tok. ret (tokVal tok)))
       (bnd (parser_error (\<lambda>p. lit ''expected identifier, got '' @ Type_String (cur_type p)))
         (\<lambda>_. bnd parser_advance (\<lambda>_. ret [])))"

definition add_doc :: "unit parser" where
  "add_doc p = (Done (), p\<lparr>lastDoc := (if lastDoc p \<noteq> [] then lastDoc p @ [10] else lastDoc p) @ tokVal (current p)\<rparr>)"

definition consumeDoc :: "unit parser" where
  "consumeDoc = whileP (\<lambda>_. check T_DocComment) (\<lambda>_. bnd add_doc (\<lambda>_. bnd parser_advance (\<lambda>_. ret ()))) ()"

definition takeDoc :: "bytes parser" where
  "takeDoc p = (Done (lastDoc p), p\<lparr>lastDoc := []\<rparr>)"

definition pos_now :: "Position parser" where
  "pos_now = asks (\<lambda>p. tokPos (current p))"

text \<open>The common loops: until a closing token or the end, and items separated by commas.\<close>

definition until :: "Type \<Rightarrow> ('a \<Rightarrow> 'a parser) \<Rightarrow> 'a \<Rightarrow> 'a parser" where
  "until t = whileP (\<lambda>_ p. \<not> check t p \<and> \<not> isEOF p)"

definition items_until :: "Type \<Rightarrow> 'a parser \<Rightarrow> 'a list parser" where
  "items_until t item = until t (\<lambda>acc. bnd item (\<lambda>x. bnd (parser_match T_Comma) (\<lambda>_. ret (acc @ [x])))) []"

definition comma_list :: "'a parser \<Rightarrow> 'a list parser" where
  "comma_list item =
     bnd (whileP (\<lambda>(acc, again) _. again)
         (\<lambda>(acc, _). bnd item (\<lambda>x. bnd (parser_match T_Comma) (\<lambda>again. ret (acc @ [x], again)))) ([], True))
       (\<lambda>(acc, _). ret acc)"

definition parseQualifiedName :: "bytes parser" where
  "parseQualifiedName =
     bnd expectIdent (\<lambda>name.
     bnd (whileP (\<lambda>(name, again) _. again)
         (\<lambda>(name, _). bnd (parser_match T_Dot) (\<lambda>dot.
            if dot then bnd expectIdent (\<lambda>x. ret (name @ lit ''.'' @ x, True)) else ret (name, False))) (name, True))
       (\<lambda>(name, _). ret name))"

section \<open>Type references\<close>

fun parseTypeRef_n :: "nat \<Rightarrow> TypeRef parser" where
  "parseTypeRef_n 0 = (\<lambda>p. (OutOfFuel, p))"
| "parseTypeRef_n (Suc n) =
     bnd pos_now (\<lambda>ps.
     ifP (check T_LParen)
       (bnd (expect T_LParen) (\<lambda>_.
        bnd (comma_list (parseTypeRef_n n)) (\<lambda>ts.
        bnd (expect T_RParen) (\<lambda>_.
        ret (TypeRef ps [] False False [] ts [])))))
     (bnd (parser_match T_LBracket) (\<lambda>br.
      if br then
        bnd (parseTypeRef_n n) (\<lambda>inner.
        bnd (expect T_RBracket) (\<lambda>_.
        bnd (parser_match T_Question) (\<lambda>q.
        ret (TypeRef ps (refName inner) q True (refTypeArgs inner) [] []))))
      else
        bnd expectIdent (\<lambda>name.
        bnd (parser_match T_Lt) (\<lambda>lt.
        bnd (if lt then bnd (comma_list (parseTypeRef_n n)) (\<lambda>ts. bnd (expect T_Gt) (\<lambda>_. ret ts)) else ret []) (\<lambda>args.
        bnd (parser_match T_LParen) (\<lambda>lp.
        bnd (if lp then
               bnd (ifP (\<lambda>p. check T_Ident p \<and> tokVal (current p) = lit ''key'')
                 (bnd parser_advance (\<lambda>_. bnd (expect T_Colon) (\<lambda>_. expectIdent))) (ret [])) (\<lambda>fk.
               bnd (expect T_RParen) (\<lambda>_. ret fk))
             else ret []) (\<lambda>fk.
        bnd (parser_match T_Question) (\<lambda>q.
        ret (TypeRef ps name q False args [] fk)))))))))) "

definition parseTypeRef :: "TypeRef parser" where
  "parseTypeRef p = parseTypeRef_n (left p + 1) p"

section \<open>Expressions\<close>

text \<open>The functions entered again after a token.\<close>

record parsers =
  rExpr :: "nat \<Rightarrow> Expr option parser"
  rCondition :: "Expr option parser"
  rWhenCondition :: "Expr option parser"
  rForCondition :: "Expr option parser"
  rStmt :: "Stmt option parser"

definition precNone :: nat where "precNone = 0"
definition precOr :: nat where "precOr = 1"
definition precAnd :: nat where "precAnd = 2"
definition precElvis :: nat where "precElvis = 3"
definition precEquality :: nat where "precEquality = 4"
definition precComparison :: nat where "precComparison = 5"
definition precRange :: nat where "precRange = 6"
definition precAdd :: nat where "precAdd = 7"
definition precMul :: nat where "precMul = 8"
definition precUnary :: nat where "precUnary = 9"
definition precCall :: nat where "precCall = 10"

lemmas prec_defs = precNone_def precOr_def precAnd_def precElvis_def precEquality_def precComparison_def precRange_def
  precAdd_def precMul_def precUnary_def precCall_def

definition type_prec :: "Type \<Rightarrow> bool \<Rightarrow> nat" where
  "type_prec t noBrace =
     (case t of
        T_Or \<Rightarrow> precOr
      | T_And \<Rightarrow> precAnd
      | T_Elvis \<Rightarrow> precElvis | T_BangElvis \<Rightarrow> precElvis
      | T_Eq \<Rightarrow> precEquality | T_Neq \<Rightarrow> precEquality
      | T_Gt \<Rightarrow> precComparison | T_Gte \<Rightarrow> precComparison | T_Lt \<Rightarrow> precComparison | T_Lte \<Rightarrow> precComparison
      | T_In \<Rightarrow> precComparison | T_Is \<Rightarrow> precComparison
      | T_DotDot \<Rightarrow> precRange
      | T_ChanSend \<Rightarrow> precAdd
      | T_Plus \<Rightarrow> precAdd | T_Minus \<Rightarrow> precAdd
      | T_Star \<Rightarrow> precMul | T_Slash \<Rightarrow> precMul | T_Percent \<Rightarrow> precMul
      | T_Dot \<Rightarrow> precCall | T_SafeDot \<Rightarrow> precCall | T_LParen \<Rightarrow> precCall | T_Question \<Rightarrow> precCall
      | T_LBrace \<Rightarrow> (if noBrace then precNone else precCall)
      | _ \<Rightarrow> precNone)"

definition currentPrec :: "Parser \<Rightarrow> nat" where
  "currentPrec p = type_prec (cur_type p) (noBraceLambda p)"

definition isBinaryOp_type :: "Type \<Rightarrow> bool" where
  "isBinaryOp_type t \<longleftrightarrow> t \<in> {T_Plus, T_Minus, T_Star, T_Slash, T_Percent, T_Eq, T_Neq, T_Gt, T_Gte, T_Lt, T_Lte,
     T_And, T_Or, T_In, T_Is}"

definition isBinaryOp :: "Parser \<Rightarrow> bool" where
  "isBinaryOp p = isBinaryOp_type (cur_type p)"

fun isCallable :: "Expr \<Rightarrow> bool" where
  "isCallable (Ident _ _) = True"
| "isCallable (MemberExpr _ _ _ _) = True"
| "isCallable _ = False"

definition isTypeName :: "bytes \<Rightarrow> bool" where
  "isTypeName name = (case name of [] \<Rightarrow> False | c # _ \<Rightarrow> 0x41 \<le> c \<and> c \<le> 0x5A)"

definition isAssignOp :: "Type \<Rightarrow> bool" where
  "isAssignOp t \<longleftrightarrow> t \<in> {T_Assign, T_PlusAssign, T_MinusAssign, T_StarAssign, T_SlashAssign, T_PercentAssign}"

definition hasDirectiveBody :: "bytes \<Rightarrow> bool" where
  "hasDirectiveBody name \<longleftrightarrow> name \<in> {lit ''transform'', lit ''beforeSave'', lit ''visible'', lit ''apply''}"

text \<open>The names before an arrow; without one the position is put back.\<close>

definition set_pos :: "nat \<Rightarrow> unit parser" where
  "set_pos n p = (Done (), p\<lparr>pos := n\<rparr>)"

definition tryParseLambdaParams :: "bytes list parser" where
  "tryParseLambdaParams =
     bnd (asks pos) (\<lambda>save.
     ifP (\<lambda>p. \<not> check T_Ident p) (ret [])
     (bnd parser_advance (\<lambda>first.
      bnd (whileP (\<lambda>(names, bad) p. \<not> bad \<and> check T_Comma p)
            (\<lambda>(names, _). bnd parser_advance (\<lambda>_.
               ifP (\<lambda>p. \<not> check T_Ident p) (ret (names, True))
                 (bnd parser_advance (\<lambda>tok. ret (names @ [tokVal tok], False))))) ([tokVal first], False)) (\<lambda>(names, bad).
      if bad then bnd (set_pos save) (\<lambda>_. ret [])
      else ifP (\<lambda>p. \<not> check T_Arrow p) (bnd (set_pos save) (\<lambda>_. ret []))
        (bnd parser_advance (\<lambda>_. ret names))))))"

text \<open>The statements up to the closing brace; nil statements are not kept.\<close>

definition parse_stmts :: "parsers \<Rightarrow> Stmt list parser" where
  "parse_stmts P = until T_RBrace (\<lambda>acc. bnd (rStmt P) (\<lambda>st. ret (acc @ (case st of None \<Rightarrow> [] | Some x \<Rightarrow> [x])))) []"

definition parseLambdaExpr :: "parsers \<Rightarrow> Expr parser" where
  "parseLambdaExpr P =
     bnd pos_now (\<lambda>ps.
     bnd (expect T_LBrace) (\<lambda>_.
     bnd tryParseLambdaParams (\<lambda>params.
     bnd (parse_stmts P) (\<lambda>stmts.
     bnd pos_now (\<lambda>endps.
     bnd (expect T_RBrace) (\<lambda>_.
     ret (LambdaExpr ps params (Block ps endps stmts))))))))"

definition parseBlock :: "parsers \<Rightarrow> Block parser" where
  "parseBlock P =
     bnd pos_now (\<lambda>ps.
     bnd (expect T_LBrace) (\<lambda>_.
     bnd (parse_stmts P) (\<lambda>stmts.
     bnd pos_now (\<lambda>endps.
     bnd (expect T_RBrace) (\<lambda>_.
     ret (Block ps endps stmts))))))"

definition parseCallArgs :: "parsers \<Rightarrow> Position \<Rightarrow> Expr \<Rightarrow> Expr parser" where
  "parseCallArgs P ps fn =
     bnd (expect T_LParen) (\<lambda>_.
     bnd (whileP (\<lambda>(args, stop) p. \<not> stop \<and> \<not> check T_RParen p \<and> \<not> isEOF p)
           (\<lambda>(args, _).
              bnd (ifP (\<lambda>p. check T_Ident p \<and> peekType p = T_Colon)
                    (bnd expectIdent (\<lambda>name. bnd (expect T_Colon) (\<lambda>_. bnd (asks (check T_RParen)) (\<lambda>stop. ret (name, stop)))))
                    (ret ([], False))) (\<lambda>(name, stop).
              if stop then ret (args, True)
              else bnd (rExpr P precNone) (\<lambda>val.
                case val of
                  None \<Rightarrow> ret (args, True)
                | Some _ \<Rightarrow> bnd (parser_match T_Comma) (\<lambda>_. ret (args @ [NamedArg name val], False))))) ([], False)) (\<lambda>(args, _).
     bnd (expect T_RParen) (\<lambda>_.
     ifP (\<lambda>p. check T_LBrace p \<and> \<not> noBraceLambda p)
       (bnd (parseLambdaExpr P) (\<lambda>l. ret (CallExpr ps fn (args @ [NamedArg [] (Some l)]))))
       (ret (CallExpr ps fn args)))))"

definition parseObjectConstruction :: "parsers \<Rightarrow> Position \<Rightarrow> bytes \<Rightarrow> Expr parser" where
  "parseObjectConstruction P ps typeName =
     bnd (expect T_LBrace) (\<lambda>_.
     bnd (items_until T_RBrace
           (ifP (\<lambda>p. check T_Ident p \<and> peekType p = T_Colon)
             (bnd expectIdent (\<lambda>name. bnd (expect T_Colon) (\<lambda>_. bnd (rExpr P precNone) (\<lambda>val. ret (NamedArg name val)))))
             (bnd (rExpr P precNone) (\<lambda>val.
                ret (NamedArg (case val of Some (Ident _ name) \<Rightarrow> name | _ \<Rightarrow> []) val))))) (\<lambda>fields.
     bnd (expect T_RBrace) (\<lambda>_.
     ret (ObjectExpr ps typeName fields))))"

definition parseListExpr :: "parsers \<Rightarrow> Position \<Rightarrow> Expr parser" where
  "parseListExpr P ps =
     bnd (expect T_LBracket) (\<lambda>_.
     bnd (items_until T_RBracket (rExpr P precNone)) (\<lambda>items.
     bnd (expect T_RBracket) (\<lambda>_.
     ret (ListExpr ps items))))"

text \<open>The literal part of a template, when it is not empty.\<close>

definition template_text :: "Token \<Rightarrow> Expr option list" where
  "template_text tok = (if tokVal tok \<noteq> [] then [Some (Literal (tokPos tok) T_String (tokVal tok))] else [])"

definition parseTemplateString :: "parsers \<Rightarrow> Position \<Rightarrow> Expr parser" where
  "parseTemplateString P ps =
     bnd parser_advance (\<lambda>start.
     bnd (rExpr P 0) (\<lambda>e.
     bnd (whileP (\<lambda>_. check T_StringMid)
           (\<lambda>parts. bnd parser_advance (\<lambda>mid. bnd (rExpr P 0) (\<lambda>e. ret (parts @ template_text mid @ [e]))))
           (template_text start @ [e])) (\<lambda>parts.
     ifP (check T_StringEnd)
       (bnd parser_advance (\<lambda>fin. ret (TemplateString ps (parts @ template_text fin))))
       (bnd (parser_error (\<lambda>_. lit ''expected end of template string'')) (\<lambda>_. ret (TemplateString ps parts))))))"

definition parseLiteral :: "Position \<Rightarrow> Expr parser" where
  "parseLiteral ps =
     bnd (asks cur_type) (\<lambda>t.
     bnd parser_advance (\<lambda>tok.
     ret (if t = T_Int \<or> t = T_Float \<or> t = T_String \<or> t = T_Duration then Literal ps t (tokVal tok)
       else if t = T_True then Literal ps T_True (lit ''true'')
       else if t = T_False then Literal ps T_False (lit ''false'')
       else Literal ps T_Null (lit ''null''))))"

definition parseWhenBody :: "parsers \<Rightarrow> Expr option parser" where
  "parseWhenBody P =
     ifP (check T_LBrace) (bnd (parseLambdaExpr P) (\<lambda>l. ret (Some l))) (rWhenCondition P)"

definition parse_when_branch :: "parsers \<Rightarrow> WhenBranch parser" where
  "parse_when_branch P =
     bnd (parser_match T_Is) (\<lambda>is_type.
     bnd (if is_type then bnd expectIdent (\<lambda>name. ret (None, name))
          else bnd (parser_match T_In) (\<lambda>in_range.
            if in_range then bnd pos_now (\<lambda>ps. bnd (rWhenCondition P) (\<lambda>r. ret (Some (BinaryExpr ps None (lit ''in'') r), [])))
            else bnd (rWhenCondition P) (\<lambda>c. ret (c, [])))) (\<lambda>(condition, name).
     bnd (expect T_Arrow) (\<lambda>_.
     bnd (parseWhenBody P) (\<lambda>body.
     ret (WhenBranch condition name body)))))"

definition parseWhenExpr :: "parsers \<Rightarrow> Position \<Rightarrow> Expr parser" where
  "parseWhenExpr P ps =
     bnd (expect T_When) (\<lambda>_.
     bnd (parser_match T_LParen) (\<lambda>lp.
     bnd (if lp then bnd (rExpr P precNone) (\<lambda>e. bnd (expect T_RParen) (\<lambda>_. ret e))
          else ifP (\<lambda>p. \<not> check T_LBrace p) (rCondition P) (ret None)) (\<lambda>subject.
     bnd (expect T_LBrace) (\<lambda>_.
     bnd (until T_RBrace
           (\<lambda>(branches, els).
              bnd (parser_match T_Else) (\<lambda>is_else.
              if is_else then bnd (expect T_Arrow) (\<lambda>_. bnd (parseWhenBody P) (\<lambda>e. ret (branches, e)))
              else bnd (parse_when_branch P) (\<lambda>br. ret (branches @ [br], els)))) ([], None)) (\<lambda>(branches, els).
     bnd (expect T_RBrace) (\<lambda>_.
     ret (WhenExpr ps subject branches els)))))))"

definition parsePrefixUnary :: "parsers \<Rightarrow> Position \<Rightarrow> Expr parser" where
  "parsePrefixUnary P ps =
     bnd parser_advance (\<lambda>tok.
     if tokType tok = T_Bang then bnd (rExpr P precUnary) (\<lambda>v. ret (UnaryExpr ps (lit ''!'') v))
     else if tokType tok = T_Minus then bnd (rExpr P precUnary) (\<lambda>v. ret (UnaryExpr ps (lit ''-'') v))
     else if tokType tok = T_ChanSend then bnd (rExpr P precUnary) (\<lambda>v. ret (UnaryExpr ps (lit ''<-'') v))
     else bnd (rExpr P precNone) (\<lambda>v. ret (UnaryExpr ps (lit ''throw'') v)))"

definition parseParenExpr :: "parsers \<Rightarrow> Expr option parser" where
  "parseParenExpr P =
     bnd parser_advance (\<lambda>_.
     bnd (rExpr P precNone) (\<lambda>e.
     bnd (expect T_RParen) (\<lambda>_. ret e)))"

definition parseConcurrencyExpr :: "parsers \<Rightarrow> Position \<Rightarrow> Expr parser" where
  "parseConcurrencyExpr P ps =
     bnd parser_advance (\<lambda>tok.
     if tokType tok = T_Yield then bnd (rExpr P precNone) (\<lambda>v. ret (YieldExpr ps v))
     else if tokType tok = T_Async then bnd (parseBlock P) (\<lambda>b. ret (AsyncExpr ps b))
     else bnd (parseBlock P) (\<lambda>b. ret (AwaitExpr ps b)))"

definition parseIdentOrConstruction :: "parsers \<Rightarrow> Position \<Rightarrow> Expr parser" where
  "parseIdentOrConstruction P ps =
     bnd parser_advance (\<lambda>tok.
     ifP (\<lambda>p. check T_LBrace p \<and> isTypeName (tokVal tok)) (parseObjectConstruction P ps (tokVal tok))
       (ret (Ident ps (tokVal tok))))"

text \<open>The for statement and expression: the position, the variable or nothing, the collection or nil, the body.\<close>

definition parseForStmt :: "parsers \<Rightarrow> (Position \<times> bytes \<times> Expr option \<times> Block) parser" where
  "parseForStmt P =
     bnd pos_now (\<lambda>ps.
     bnd (expect T_For) (\<lambda>_.
     ifP (check T_LBrace) (bnd (parseBlock P) (\<lambda>body. ret (ps, [], None, body)))
     (bnd (ifP (\<lambda>p. check T_Ident p \<and> peekType p = T_In)
            (bnd expectIdent (\<lambda>name. bnd (expect T_In) (\<lambda>_. bnd (rForCondition P) (\<lambda>c. ret (name, c)))))
            (bnd (rForCondition P) (\<lambda>c. ret ([], c)))) (\<lambda>(name, c).
      bnd (parseBlock P) (\<lambda>body. ret (ps, name, c, body))))))"

definition someP :: "Expr parser \<Rightarrow> Expr option parser" where
  "someP m = bnd m (\<lambda>e. ret (Some e))"

definition parsePrefixExpr :: "parsers \<Rightarrow> Expr option parser" where
  "parsePrefixExpr P =
     bnd pos_now (\<lambda>ps.
     bnd (asks cur_type) (\<lambda>t.
     if t \<in> {T_Int, T_Float, T_String, T_Duration, T_True, T_False, T_Null} then someP (parseLiteral ps)
     else if t = T_StringStart then someP (parseTemplateString P ps)
     else if t = T_My then bnd parser_advance (\<lambda>tok. ret (Some (Ident ps (tokVal tok))))
     else if t = T_Ident \<or> t = T_Error then someP (parseIdentOrConstruction P ps)
     else if t \<in> {T_Bang, T_Minus, T_Throw, T_ChanSend} then someP (parsePrefixUnary P ps)
     else if t = T_LParen then parseParenExpr P
     else if t = T_LBracket then someP (parseListExpr P ps)
     else if t = T_When then someP (parseWhenExpr P ps)
     else if t \<in> {T_Yield, T_Async, T_Await} then someP (parseConcurrencyExpr P ps)
     else if t = T_For then bnd (parseForStmt P) (\<lambda>(fp, name, c, body). ret (Some (ForExpr fp name c body)))
     else bnd (parser_error (\<lambda>p. lit ''expected expression, got '' @ Type_String (cur_type p)))
       (\<lambda>_. bnd parser_advance (\<lambda>_. ret None))))"

definition parseInfixExpr :: "parsers \<Rightarrow> Expr \<Rightarrow> Expr parser" where
  "parseInfixExpr P lhs =
     bnd pos_now (\<lambda>ps.
     bnd (asks cur_type) (\<lambda>t.
     if t = T_Dot then
       bnd parser_advance (\<lambda>_.
       bnd expectIdent (\<lambda>field.
       let member = MemberExpr ps lhs field False in
       ifP (check T_LParen) (parseCallArgs P ps member)
       (ifP (\<lambda>p. check T_LBrace p \<and> \<not> noBraceLambda p)
         (bnd (parseLambdaExpr P) (\<lambda>l. ret (CallExpr ps member [NamedArg [] (Some l)])))
         (ret member))))
     else if t = T_SafeDot then
       bnd parser_advance (\<lambda>_. bnd expectIdent (\<lambda>field. ret (MemberExpr ps lhs field True)))
     else if t = T_Question then bnd parser_advance (\<lambda>_. ret (UnaryExpr ps (lit ''?'') (Some lhs)))
     else if t = T_LParen then parseCallArgs P ps lhs
     else if t = T_LBrace \<and> isCallable lhs then
       bnd (parseLambdaExpr P) (\<lambda>l. ret (CallExpr ps lhs [NamedArg [] (Some l)]))
     else if t = T_Elvis then bnd parser_advance (\<lambda>_. bnd (rExpr P precElvis) (\<lambda>r. ret (ElvisExpr ps lhs r)))
     else if t = T_BangElvis then bnd parser_advance (\<lambda>_. bnd (rExpr P precElvis) (\<lambda>r. ret (BangElvisExpr ps lhs r)))
     else if t = T_DotDot then bnd parser_advance (\<lambda>_. bnd (rExpr P precRange) (\<lambda>r. ret (RangeExpr ps lhs r)))
     else if t = T_ChanSend \<or> isBinaryOp_type t then
       bnd (asks currentPrec) (\<lambda>prec.
       bnd parser_advance (\<lambda>op.
       bnd (rExpr P prec) (\<lambda>r. ret (BinaryExpr ps (Some lhs) (tokVal op) r))))
     else ret lhs))"

text \<open>The loop of parseExpr; it also stops when an infix step consumes nothing.\<close>

definition infix_loop :: "parsers \<Rightarrow> nat \<Rightarrow> Expr \<Rightarrow> Expr parser" where
  "infix_loop P prec lhs =
     bnd (whileP (\<lambda>(lhs, stop) p. \<not> stop \<and> prec < currentPrec p \<and> \<not> isEOF p)
           (\<lambda>(lhs, _).
              bnd (asks pos) (\<lambda>startPos.
              bnd (parseInfixExpr P lhs) (\<lambda>lhs.
              bnd (asks pos) (\<lambda>p. ret (lhs, p = startPos))))) (lhs, False))
       (\<lambda>(lhs, _). ret lhs)"

definition parseExpr :: "parsers \<Rightarrow> nat \<Rightarrow> Expr option parser" where
  "parseExpr P prec =
     bnd (parsePrefixExpr P) (\<lambda>lhs.
     case lhs of None \<Rightarrow> ret None | Some lhs \<Rightarrow> someP (infix_loop P prec lhs))"

definition parseWhenCondition :: "parsers \<Rightarrow> Expr option parser" where
  "parseWhenCondition P =
     bnd (parsePrefixExpr P) (\<lambda>lhs.
     case lhs of
       None \<Rightarrow> ret None
     | Some lhs \<Rightarrow>
         someP (whileP (\<lambda>_ p. cur_type p \<notin> {T_Arrow, T_LBrace, T_RBrace, T_Else, T_In, T_Is} \<and> \<not> isEOF p \<and>
             precNone < currentPrec p) (parseInfixExpr P) lhs))"

definition set_noBraceLambda :: "bool \<Rightarrow> unit parser" where
  "set_noBraceLambda b p = (Done (), p\<lparr>noBraceLambda := b\<rparr>)"

text \<open>The deferred restore runs on every way out.\<close>

definition with_noBraceLambda :: "'a parser \<Rightarrow> 'a parser" where
  "with_noBraceLambda m p =
     (case m (p\<lparr>noBraceLambda := True\<rparr>) of (r, p1) \<Rightarrow> (r, p1\<lparr>noBraceLambda := noBraceLambda p\<rparr>))"

definition parseConditionExpr :: "parsers \<Rightarrow> Expr option parser" where
  "parseConditionExpr P =
     with_noBraceLambda
       (bnd (parsePrefixExpr P) (\<lambda>lhs.
        case lhs of
          None \<Rightarrow> ret None
        | Some lhs \<Rightarrow>
            someP (whileP (\<lambda>_ p. precNone < currentPrec p \<and> \<not> check T_LBrace p) (parseInfixExpr P) lhs)))"

text \<open>One round of the loop of parseForCondition; the flag says that it returned.\<close>

definition for_condition_step :: "parsers \<Rightarrow> Expr \<Rightarrow> (Expr \<times> bool) parser" where
  "for_condition_step P lhs =
     bnd (asks cur_type) (\<lambda>t.
     if t = T_Dot then
       bnd parser_advance (\<lambda>_. bnd expectIdent (\<lambda>field. ret (MemberExpr (GetPos lhs) lhs field False, False)))
     else if t = T_SafeDot then
       bnd parser_advance (\<lambda>_. bnd expectIdent (\<lambda>field. ret (MemberExpr (GetPos lhs) lhs field True, False)))
     else if t = T_LParen then bnd (parseCallArgs P (GetPos lhs) lhs) (\<lambda>e. ret (e, False))
     else if isBinaryOp_type t then
       bnd pos_now (\<lambda>ps. bnd parser_advance (\<lambda>op. bnd (rForCondition P) (\<lambda>r.
         ret (BinaryExpr ps (Some lhs) (tokVal op) r, False))))
     else if t = T_DotDot then
       bnd pos_now (\<lambda>ps. bnd parser_advance (\<lambda>_. bnd (rForCondition P) (\<lambda>r. ret (RangeExpr ps lhs r, False))))
     else if t = T_Elvis then
       bnd pos_now (\<lambda>ps. bnd parser_advance (\<lambda>_. bnd (rForCondition P) (\<lambda>r. ret (ElvisExpr ps lhs r, False))))
     else ret (lhs, True))"

definition parseForCondition :: "parsers \<Rightarrow> Expr option parser" where
  "parseForCondition P =
     bnd (parsePrefixExpr P) (\<lambda>lhs.
     case lhs of
       None \<Rightarrow> ret None
     | Some lhs \<Rightarrow>
         bnd (whileP (\<lambda>(_, stop) p. \<not> stop \<and> \<not> check T_LBrace p \<and> \<not> isEOF p)
               (\<lambda>(lhs, _). for_condition_step P lhs) (lhs, False))
           (\<lambda>(lhs, _). ret (Some lhs)))"

section \<open>Statements\<close>

definition parseAssignStmt :: "parsers \<Rightarrow> Stmt parser" where
  "parseAssignStmt P =
     bnd pos_now (\<lambda>ps.
     bnd parser_advance (\<lambda>name.
     bnd parser_advance (\<lambda>op.
     bnd (rExpr P precNone) (\<lambda>val.
     ret (AssignStmt ps (Some (Ident ps (tokVal name))) (tokVal op) val)))))"

definition parseExprOrAssignStmt :: "parsers \<Rightarrow> Stmt parser" where
  "parseExprOrAssignStmt P =
     bnd pos_now (\<lambda>ps.
     bnd (parseExpr P precNone) (\<lambda>e.
     ifP (\<lambda>p. isAssignOp (cur_type p))
       (bnd parser_advance (\<lambda>op. bnd (parseExpr P precNone) (\<lambda>val. ret (AssignStmt ps e (tokVal op) val))))
       (ret (ExprStmt ps e))))"

definition parseValStmt :: "parsers \<Rightarrow> Stmt parser" where
  "parseValStmt P =
     bnd pos_now (\<lambda>ps.
     bnd (asks (check T_Var)) (\<lambda>mutable.
     bnd (if mutable then expect T_Var else expect T_Val) (\<lambda>_.
     bnd (ifP (check T_LParen)
           (bnd parser_advance (\<lambda>_. bnd (items_until T_RParen expectIdent) (\<lambda>names. bnd (expect T_RParen) (\<lambda>_.
              ret (zero_pos, [], names)))))
           (bnd pos_now (\<lambda>namePos. bnd expectIdent (\<lambda>name. ret (namePos, name, []))))) (\<lambda>(namePos, name, names).
     bnd (parser_match T_Colon) (\<lambda>colon.
     bnd (if colon then bnd parseTypeRef (\<lambda>t. ret (Some t)) else ret None) (\<lambda>typ.
     bnd (expect T_Assign) (\<lambda>_.
     bnd (parseExpr P precNone) (\<lambda>val.
     ret (ValStmt ps namePos name names typ val mutable)))))))))"

definition parseIfStmt :: "parsers \<Rightarrow> Stmt parser" where
  "parseIfStmt P =
     bnd pos_now (\<lambda>ps.
     bnd (expect T_If) (\<lambda>_.
     bnd (parseConditionExpr P) (\<lambda>c.
     bnd (parseBlock P) (\<lambda>body.
     ret (IfStmt ps c body)))))"

definition parseReturnStmt :: "parsers \<Rightarrow> Stmt parser" where
  "parseReturnStmt P = bnd pos_now (\<lambda>ps. bnd (expect T_Return) (\<lambda>_. bnd (parseExpr P precNone) (\<lambda>e. ret (ReturnStmt ps e))))"

definition parseThrowStmt :: "parsers \<Rightarrow> Stmt parser" where
  "parseThrowStmt P = bnd pos_now (\<lambda>ps. bnd (expect T_Throw) (\<lambda>_. bnd (parseExpr P precNone) (\<lambda>e. ret (ThrowStmt ps e))))"

definition parseEmitStmt :: "parsers \<Rightarrow> Stmt parser" where
  "parseEmitStmt P =
     bnd pos_now (\<lambda>ps.
     bnd (expect T_Emit) (\<lambda>_.
     bnd expectIdent (\<lambda>event.
     bnd (parser_match T_LParen) (\<lambda>lp.
     bnd (if lp then
            bnd (until T_RParen
                  (\<lambda>args. bnd expectIdent (\<lambda>name. bnd (expect T_Colon) (\<lambda>_. bnd (parseExpr P precNone) (\<lambda>val.
                     bnd (parser_match T_Comma) (\<lambda>_.
                     ret (case val of None \<Rightarrow> args | Some _ \<Rightarrow> args @ [NamedArg name val])))))) []) (\<lambda>args.
            bnd (expect T_RParen) (\<lambda>_. ret args))
          else ret []) (\<lambda>args.
     ret (EmitStmt ps event args))))))"

definition parseExprStmt :: "parsers \<Rightarrow> Stmt parser" where
  "parseExprStmt P =
     bnd pos_now (\<lambda>ps.
     bnd (asks pos) (\<lambda>startPos.
     bnd (parseExpr P precNone) (\<lambda>e.
     ifP (\<lambda>p. pos p = startPos)
       (bnd (parser_error (\<lambda>p. lit ''unexpected token in statement: '' @ tokVal (current p)))
         (\<lambda>_. bnd parser_advance (\<lambda>_. ret NilExprStmt)))
       (ret (ExprStmt ps e)))))"

definition someS :: "Stmt parser \<Rightarrow> Stmt option parser" where
  "someS m = bnd m (\<lambda>st. ret (Some st))"

definition parseStmt :: "parsers \<Rightarrow> Stmt option parser" where
  "parseStmt P =
     bnd (asks (\<lambda>p. (cur_type p, peekType p))) (\<lambda>(t, next_type).
     if t = T_Val \<or> t = T_Var then someS (parseValStmt P)
     else if t = T_If then someS (parseIfStmt P)
     else if t = T_For then bnd (parseForStmt P) (\<lambda>(fp, name, c, body). ret (Some (ForStmt fp name c body)))
     else if t = T_Return then someS (parseReturnStmt P)
     else if t = T_Throw then someS (parseThrowStmt P)
     else if t = T_Break then bnd pos_now (\<lambda>ps. bnd parser_advance (\<lambda>_. ret (Some (BreakStmt ps))))
     else if t = T_Continue then bnd pos_now (\<lambda>ps. bnd parser_advance (\<lambda>_. ret (Some (ContinueStmt ps))))
     else if t = T_Emit then someS (parseEmitStmt P)
     else if t = T_Ident \<and> isAssignOp next_type then someS (parseAssignStmt P)
     else if t = T_Ident \<and> next_type = T_Dot then someS (parseExprOrAssignStmt P)
     else if t = T_Comment \<or> t = T_DocComment then bnd parser_advance (\<lambda>_. ret None)
     else someS (parseExprStmt P))"

text \<open>The knot.\<close>

fun knot :: "nat \<Rightarrow> parsers" where
  "knot 0 =
     \<lparr>rExpr = \<lambda>_ p. (OutOfFuel, p), rCondition = \<lambda>p. (OutOfFuel, p), rWhenCondition = \<lambda>p. (OutOfFuel, p),
      rForCondition = \<lambda>p. (OutOfFuel, p), rStmt = \<lambda>p. (OutOfFuel, p)\<rparr>"
| "knot (Suc n) =
     (let P = knot n in
      \<lparr>rExpr = parseExpr P, rCondition = parseConditionExpr P, rWhenCondition = parseWhenCondition P,
       rForCondition = parseForCondition P, rStmt = parseStmt P\<rparr>)"

section \<open>Directives, fields and parameters\<close>

definition parseDirective :: "parsers \<Rightarrow> Directive parser" where
  "parseDirective P =
     bnd pos_now (\<lambda>ps.
     bnd (expect T_At) (\<lambda>_.
     bnd expectIdent (\<lambda>name.
     bnd (parser_match T_LParen) (\<lambda>lp.
     bnd (if lp then
            bnd (items_until T_RParen
                  (bnd (ifP (\<lambda>p. check T_Ident p \<and> peekType p = T_Colon)
                         (bnd expectIdent (\<lambda>name. bnd (expect T_Colon) (\<lambda>_. ret name))) (ret [])) (\<lambda>name.
                   bnd (ifP (check T_LBrace) (someP (parseLambdaExpr P)) (parseExpr P precNone)) (\<lambda>val.
                   ret (NamedArg name val))))) (\<lambda>args.
            bnd (expect T_RParen) (\<lambda>_. ret args))
          else ret []) (\<lambda>args.
     ifP (\<lambda>p. check T_LBrace p \<and> hasDirectiveBody name)
       (bnd (parseBlock P) (\<lambda>body. ret (Directive ps name args (Some body))))
       (ret (Directive ps name args None)))))))"

definition parseDirectives :: "parsers \<Rightarrow> Directive list parser" where
  "parseDirectives P = whileP (\<lambda>_. check T_At) (\<lambda>acc. bnd (parseDirective P) (\<lambda>d. ret (acc @ [d]))) []"

definition parseParam :: "parsers \<Rightarrow> ParamDecl parser" where
  "parseParam P =
     bnd consumeDoc (\<lambda>_.
     bnd pos_now (\<lambda>ps.
     bnd takeDoc (\<lambda>doc.
     bnd (parser_match T_DotDotDot) (\<lambda>spread.
     bnd expectIdent (\<lambda>name.
     bnd (expect T_Colon) (\<lambda>_.
     bnd parseTypeRef (\<lambda>typ.
     bnd (parser_match T_Assign) (\<lambda>asg.
     bnd (if asg then parseExpr P precNone else ret None) (\<lambda>dflt.
     ret \<lparr>parPos = ps, parDoc = doc, parName = name, parType = typ, parDefault = dflt, parSpread = spread\<rparr>)))))))))"

text \<open>The parameters of a list that is open already.\<close>

definition param_list :: "parsers \<Rightarrow> ParamDecl list parser" where
  "param_list P = bnd (items_until T_RParen (parseParam P)) (\<lambda>ps. bnd (expect T_RParen) (\<lambda>_. ret ps))"

definition optional_params :: "parsers \<Rightarrow> ParamDecl list parser" where
  "optional_params P = bnd (parser_match T_LParen) (\<lambda>lp. if lp then param_list P else ret [])"

definition optional_type :: "TypeRef option parser" where
  "optional_type = bnd (parser_match T_Colon) (\<lambda>colon. if colon then bnd parseTypeRef (\<lambda>t. ret (Some t)) else ret None)"

definition optional_body :: "parsers \<Rightarrow> Block option parser" where
  "optional_body P = ifP (check T_LBrace) (bnd (parseBlock P) (\<lambda>b. ret (Some b))) (ret None)"

definition parseField :: "parsers \<Rightarrow> FieldDecl parser" where
  "parseField P =
     bnd takeDoc (\<lambda>doc.
     bnd pos_now (\<lambda>ps.
     bnd expectIdent (\<lambda>name.
     bnd (expect T_Colon) (\<lambda>_.
     bnd parseTypeRef (\<lambda>typ.
     bnd (parser_match T_Assign) (\<lambda>asg.
     bnd (if asg then parseExpr P precNone else ret None) (\<lambda>dflt.
     bnd (parseDirectives P) (\<lambda>dirs.
     ret \<lparr>fldPos = ps, fldDoc = doc, fldName = name, fldType = typ, fldDefault = dflt, fldDirectives = dirs,
       fldComputed = None\<rparr>))))))))"

definition parseComputedField :: "parsers \<Rightarrow> FieldDecl parser" where
  "parseComputedField P =
     bnd takeDoc (\<lambda>doc.
     bnd pos_now (\<lambda>ps.
     bnd (expect T_Val) (\<lambda>_.
     bnd expectIdent (\<lambda>name.
     bnd (expect T_Colon) (\<lambda>_.
     bnd parseTypeRef (\<lambda>typ.
     bnd (ifP (\<lambda>p. check T_Ident p \<and> tokVal (current p) = lit ''get'')
           (bnd parser_advance (\<lambda>_. bnd (parseDirectives P) (\<lambda>dirs. bnd (optional_body P) (\<lambda>body.
              ret (Some \<lparr>compDirectives = dirs, compBody = body\<rparr>)))))
           (ret None)) (\<lambda>computed.
     ret \<lparr>fldPos = ps, fldDoc = doc, fldName = name, fldType = typ, fldDefault = None, fldDirectives = [],
       fldComputed = computed\<rparr>)))))))"

definition parseScope :: "parsers \<Rightarrow> ScopeDecl parser" where
  "parseScope P =
     bnd pos_now (\<lambda>ps.
     bnd parser_advance (\<lambda>_.
     bnd expectIdent (\<lambda>name.
     bnd (optional_params P) (\<lambda>params.
     bnd (expect T_Assign) (\<lambda>_.
     bnd (parseExpr P precNone) (\<lambda>e.
     ret \<lparr>scpPos = ps, scpName = name, scpParams = params, scpExpr = e\<rparr>))))))"

section \<open>Declarations\<close>

text \<open>What each of them begins with: the position, the documentation and the keyword.\<close>

definition decl_head :: "Type \<Rightarrow> (Position \<times> bytes \<times> bytes) parser" where
  "decl_head kw =
     bnd pos_now (\<lambda>ps. bnd takeDoc (\<lambda>doc. bnd (expect kw) (\<lambda>_. bnd expectIdent (\<lambda>name. ret (ps, doc, name)))))"

text \<open>One member of a model, by the code's order of the tests.\<close>

definition model_member :: "parsers \<Rightarrow> ModelDecl \<Rightarrow> ModelDecl parser" where
  "model_member P m =
     bnd consumeDoc (\<lambda>_.
     ifP (check T_Comment) (bnd parser_advance (\<lambda>_. ret m))
     (ifP (\<lambda>p. check T_Ident p \<and> tokVal (current p) = lit ''scope'')
       (bnd (parseScope P) (\<lambda>sc. ret (m\<lparr>mdlScopes := mdlScopes m @ [sc]\<rparr>)))
     (ifP (check T_Val) (bnd (parseComputedField P) (\<lambda>f. ret (m\<lparr>mdlFields := mdlFields m @ [f]\<rparr>)))
     (ifP (check T_At) (bnd (parseDirective P) (\<lambda>d. ret (m\<lparr>mdlDirectives := mdlDirectives m @ [d]\<rparr>)))
       (bnd (parseField P) (\<lambda>f. ret (m\<lparr>mdlFields := mdlFields m @ [f]\<rparr>)))))))"

definition parseModel :: "parsers \<Rightarrow> ModelDecl parser" where
  "parseModel P =
     bnd (decl_head T_Model) (\<lambda>(ps, doc, name).
     bnd (parser_match T_Colon) (\<lambda>colon.
     bnd (if colon then comma_list expectIdent else ret []) (\<lambda>parents.
     bnd (parseDirectives P) (\<lambda>dirs.
     bnd (expect T_LBrace) (\<lambda>_.
     bnd (until T_RBrace (model_member P)
           \<lparr>mdlPos = ps, mdlDoc = doc, mdlName = name, mdlParents = parents, mdlFields = [], mdlScopes = [],
            mdlDirectives = dirs\<rparr>) (\<lambda>m.
     bnd (expect T_RBrace) (\<lambda>_. ret m)))))))"

definition parseFn :: "parsers \<Rightarrow> FnDecl parser" where
  "parseFn P =
     bnd (decl_head T_Fn) (\<lambda>(ps, doc, name).
     bnd (expect T_LParen) (\<lambda>_.
     bnd (param_list P) (\<lambda>params.
     bnd optional_type (\<lambda>rt.
     bnd (parseDirectives P) (\<lambda>dirs.
     bnd (optional_body P) (\<lambda>body.
     ret \<lparr>fnPos = ps, fnDoc = doc, fnName = name, fnParams = params, fnReturnType = rt, fnDirectives = dirs, fnBody = body\<rparr>))))))"

definition parseInterface :: "parsers \<Rightarrow> InterfaceDecl parser" where
  "parseInterface P =
     bnd (decl_head T_Interface) (\<lambda>(ps, doc, name).
     bnd (expect T_LBrace) (\<lambda>_.
     bnd (until T_RBrace
           (\<lambda>i. bnd consumeDoc (\<lambda>_.
              ifP (check T_Fn) (bnd (parseFn P) (\<lambda>f. ret (i\<lparr>ifcMethods := ifcMethods i @ [f]\<rparr>)))
              (ifP (check T_Val) (bnd (parseComputedField P) (\<lambda>f. ret (i\<lparr>ifcFields := ifcFields i @ [f]\<rparr>)))
                (bnd (parseField P) (\<lambda>f. ret (i\<lparr>ifcFields := ifcFields i @ [f]\<rparr>))))))
           \<lparr>ifcPos = ps, ifcDoc = doc, ifcName = name, ifcFields = [], ifcMethods = []\<rparr>) (\<lambda>i.
     bnd (expect T_RBrace) (\<lambda>_. ret i))))"

definition parseEnum :: "EnumDecl parser" where
  "parseEnum =
     bnd (decl_head T_Enum) (\<lambda>(ps, doc, name).
     bnd (expect T_LBrace) (\<lambda>_.
     bnd (until T_RBrace (\<lambda>acc. bnd expectIdent (\<lambda>x. ret (acc @ [x]))) []) (\<lambda>vals.
     bnd (expect T_RBrace) (\<lambda>_.
     ret \<lparr>enmPos = ps, enmDoc = doc, enmName = name, enmValues = vals\<rparr>))))"

definition parseSealed :: "parsers \<Rightarrow> SealedDecl parser" where
  "parseSealed P =
     bnd (decl_head T_Sealed) (\<lambda>(ps, doc, name).
     bnd (expect T_LBrace) (\<lambda>_.
     bnd (until T_RBrace
           (\<lambda>acc. bnd expectIdent (\<lambda>name. bnd (optional_params P) (\<lambda>fs. ret (acc @ [\<lparr>varName = name, varFields = fs\<rparr>])))) []) (\<lambda>vs.
     bnd (expect T_RBrace) (\<lambda>_.
     ret \<lparr>sldPos = ps, sldDoc = doc, sldName = name, sldVariants = vs\<rparr>))))"

definition parseType :: "parsers \<Rightarrow> ast_TypeDecl parser" where
  "parseType P =
     bnd (decl_head T_KwType) (\<lambda>(ps, doc, name).
     bnd (parser_match T_Lt) (\<lambda>lt.
     bnd (if lt then bnd (comma_list expectIdent) (\<lambda>xs. bnd (expect T_Gt) (\<lambda>_. ret xs)) else ret []) (\<lambda>params.
     bnd (expect T_LBrace) (\<lambda>_.
     bnd (whileP (\<lambda>(_, stop) p. \<not> stop \<and> \<not> check T_RBrace p \<and> \<not> isEOF p)
           (\<lambda>(fs, _). bnd consumeDoc (\<lambda>_.
              ifP (\<lambda>p. check T_RBrace p \<or> isEOF p) (ret (fs, True))
                (bnd (parseField P) (\<lambda>f. ret (fs @ [f], False))))) ([], False)) (\<lambda>(fs, _).
     bnd (expect T_RBrace) (\<lambda>_.
     ret \<lparr>tydPos = ps, tydDoc = doc, tydName = name, tydTypeParams = params, tydFields = fs\<rparr>))))))"

definition parseAPI :: "parsers \<Rightarrow> ApiDecl parser" where
  "parseAPI P =
     bnd (decl_head T_Api) (\<lambda>(ps, doc, name).
     bnd (optional_params P) (\<lambda>params.
     bnd optional_type (\<lambda>rt.
     bnd (parseDirectives P) (\<lambda>dirs.
     bnd (optional_body P) (\<lambda>body.
     ret \<lparr>apiPos = ps, apiDoc = doc, apiOverride = False, apiName = name, apiParams = params, apiReturnType = rt,
       apiDirectives = dirs, apiBody = body\<rparr>)))))"

definition empty_api :: ApiDecl where
  "empty_api =
     \<lparr>apiPos = zero_pos, apiDoc = [], apiOverride = False, apiName = [], apiParams = [], apiReturnType = None,
      apiDirectives = [], apiBody = None\<rparr>"

definition parseOverrideAPI :: "parsers \<Rightarrow> ApiDecl parser" where
  "parseOverrideAPI P =
     bnd parser_advance (\<lambda>_.
     ifP (\<lambda>p. \<not> check T_Api p)
       (bnd (parser_error (\<lambda>p. lit ''expected 'api' after 'override', got '' @ tokVal (current p))) (\<lambda>_. ret empty_api))
       (bnd (parseAPI P) (\<lambda>a. ret (a\<lparr>apiOverride := True\<rparr>))))"

text \<open>strconv.Atoi, on a 64-bit target: the digits with an optional sign, clamped to the range of int;
  anything else is 0, and the error is ignored by the caller.\<close>

definition is_digit :: "byte \<Rightarrow> bool" where
  "is_digit c \<longleftrightarrow> 0x30 \<le> c \<and> c \<le> 0x39"

definition Atoi :: "bytes \<Rightarrow> int" where
  "Atoi s =
     (let neg = (s \<noteq> [] \<and> hd s = 0x2D); ds = (if s \<noteq> [] \<and> (hd s = 0x2D \<or> hd s = 0x2B) then tl s else s);
          v = fold (\<lambda>c a. a * 10 + uint (c - 0x30)) ds 0
      in if ds = [] \<or> \<not> list_all is_digit ds then 0
         else if neg then max (- (2 ^ 63)) (- v) else min (2 ^ 63 - 1) v)"

text \<open>One entry of the body of an error declaration.\<close>

definition error_entry :: "ErrorDecl \<Rightarrow> ErrorDecl parser" where
  "error_entry e =
     bnd expectIdent (\<lambda>key.
     bnd (expect T_Colon) (\<lambda>_.
     if key = lit ''code'' then bnd (expect T_Int) (\<lambda>tok. ret (e\<lparr>errCode := Atoi (tokVal tok)\<rparr>))
     else if key = lit ''message'' then
       ifP (check T_String) (bnd parser_advance (\<lambda>tok. ret (e\<lparr>errMessage := tokVal tok\<rparr>)))
         (bnd parseQualifiedName (\<lambda>n. ret (e\<lparr>errMessage := n\<rparr>)))
     else if key = lit ''internal'' then
       bnd (asks (check T_True)) (\<lambda>b. bnd parser_advance (\<lambda>_. ret (e\<lparr>errInternal := b\<rparr>)))
     else ret e))"

definition parseError :: "parsers \<Rightarrow> ErrorDecl parser" where
  "parseError P =
     bnd (decl_head T_Error) (\<lambda>(ps, doc, name).
     bnd (optional_params P) (\<lambda>fs.
     bnd (expect T_LBrace) (\<lambda>_.
     bnd (until T_RBrace error_entry
           \<lparr>errPos = ps, errDoc = doc, errName = name, errFields = fs, errCode = 0, errMessage = [], errInternal = False\<rparr>) (\<lambda>e.
     bnd (expect T_RBrace) (\<lambda>_. ret e)))))"

definition parseExtend :: "parsers \<Rightarrow> ExtendDecl parser" where
  "parseExtend P =
     bnd pos_now (\<lambda>ps.
     bnd (expect T_Extend) (\<lambda>_.
     bnd expectIdent (\<lambda>name.
     bnd (expect T_LBrace) (\<lambda>_.
     bnd (until T_RBrace (\<lambda>acc. bnd (parseField P) (\<lambda>f. ret (acc @ [f]))) []) (\<lambda>fs.
     bnd (expect T_RBrace) (\<lambda>_.
     ret \<lparr>extPos = ps, extName = name, extFields = fs\<rparr>))))))"

definition parseMiddleware :: "parsers \<Rightarrow> MiddlewareDecl parser" where
  "parseMiddleware P =
     bnd (decl_head T_Middleware) (\<lambda>(ps, doc, name).
     bnd (parseDirectives P) (\<lambda>dirs.
     bnd (optional_body P) (\<lambda>body.
     ret \<lparr>mwPos = ps, mwDoc = doc, mwName = name, mwDirectives = dirs, mwBody = body\<rparr>)))"

definition parseEvent :: "parsers \<Rightarrow> EventDecl parser" where
  "parseEvent P =
     bnd pos_now (\<lambda>ps.
     bnd (expect T_Event) (\<lambda>_.
     bnd expectIdent (\<lambda>name.
     bnd (optional_params P) (\<lambda>params.
     ret \<lparr>evtPos = ps, evtName = name, evtParams = params\<rparr>))))"

definition parseOnBlock :: "parsers \<Rightarrow> (bytes list \<times> Block) parser" where
  "parseOnBlock P =
     bnd pos_now (\<lambda>ps.
     bnd (expect T_LBrace) (\<lambda>_.
     bnd tryParseLambdaParams (\<lambda>params.
     bnd (parse_stmts P) (\<lambda>stmts.
     bnd pos_now (\<lambda>endps.
     bnd (expect T_RBrace) (\<lambda>_.
     ret (params, Block ps endps stmts)))))))"

definition parseOn :: "parsers \<Rightarrow> OnDecl parser" where
  "parseOn P =
     bnd pos_now (\<lambda>ps.
     bnd (expect T_On) (\<lambda>_.
     bnd expectIdent (\<lambda>name.
     bnd (ifP (check T_At) (parseDirectives P) (ret [])) (\<lambda>dirs.
     bnd (ifP (check T_LBrace) (bnd (parseOnBlock P) (\<lambda>(params, body). ret (params, Some body))) (ret ([], None))) (\<lambda>(params, body).
     ret \<lparr>onPos = ps, onEventName = name, onParams = params, onBody = body,
       onNative = (lit ''native'' \<in> set (map dirName dirs)), onBroadcast = (lit ''broadcast'' \<in> set (map dirName dirs))\<rparr>)))))"

text \<open>The names of an import, which is a module import when there are braces.\<close>

definition use_names :: "bytes list parser" where
  "use_names =
     bnd (expect T_LBrace) (\<lambda>_. bnd (items_until T_RBrace expectIdent) (\<lambda>ns. bnd (expect T_RBrace) (\<lambda>_. ret ns)))"

definition parseUseDispatch :: "ast_File \<Rightarrow> ast_File parser" where
  "parseUseDispatch file =
     bnd pos_now (\<lambda>ps.
     bnd (expect T_Use) (\<lambda>_.
     bnd expectIdentOrKeyword (\<lambda>name.
     ifP (check T_Dot)
       (bnd (expect T_Dot) (\<lambda>_. bnd use_names (\<lambda>ns.
          ret (file\<lparr>Uses := Uses file @ [\<lparr>usePos = ps, useModule = name, useNames = ns\<rparr>]\<rparr>))))
     (ifP (check T_LBrace)
       (bnd use_names (\<lambda>ns. ret (file\<lparr>Uses := Uses file @ [\<lparr>usePos = ps, useModule = name, useNames = ns\<rparr>]\<rparr>)))
       (ret (file\<lparr>Imports := Imports file @ [\<lparr>impPos = ps, impModule = name\<rparr>]\<rparr>))))))"

section \<open>Files\<close>

definition parseAPIOrOverride :: "parsers \<Rightarrow> ApiDecl parser" where
  "parseAPIOrOverride P = ifP (check T_Override) (parseOverrideAPI P) (parseAPI P)"

definition handleNonDecl :: "unit parser" where
  "handleNonDecl = ifP (check T_Comment) (bnd parser_advance (\<lambda>_. ret ())) (ret ())"

definition parseTopLevelExtended :: "parsers \<Rightarrow> ast_File \<Rightarrow> ast_File parser" where
  "parseTopLevelExtended P file =
     bnd (asks cur_type) (\<lambda>t.
     if t = T_Error then bnd (parseError P) (\<lambda>d. ret (file\<lparr>Errors := Errors file @ [d]\<rparr>))
     else if t = T_Extend then bnd (parseExtend P) (\<lambda>d. ret (file\<lparr>Extends := Extends file @ [d]\<rparr>))
     else if t = T_Use then parseUseDispatch file
     else if t = T_Middleware then bnd (parseMiddleware P) (\<lambda>d. ret (file\<lparr>Middlewares := Middlewares file @ [d]\<rparr>))
     else if t = T_Event then bnd (parseEvent P) (\<lambda>d. ret (file\<lparr>Events := Events file @ [d]\<rparr>))
     else if t = T_On then bnd (parseOn P) (\<lambda>d. ret (file\<lparr>Listeners := Listeners file @ [d]\<rparr>))
     else if t = T_Val \<or> t = T_Var then bnd (parseValStmt P) (\<lambda>d. ret (file\<lparr>Globals := Globals file @ [d]\<rparr>))
     else if t = T_Comment \<or> t = T_EOF then bnd handleNonDecl (\<lambda>_. ret file)
     else bnd (parser_error (\<lambda>p. lit ''unexpected token: '' @ tokVal (current p)))
       (\<lambda>_. bnd parser_advance (\<lambda>_. ret file)))"

definition parseTopLevel :: "parsers \<Rightarrow> ast_File \<Rightarrow> ast_File parser" where
  "parseTopLevel P file =
     bnd consumeDoc (\<lambda>_.
     bnd (asks cur_type) (\<lambda>t.
     if t = T_Model then bnd (parseModel P) (\<lambda>d. ret (file\<lparr>Models := Models file @ [d]\<rparr>))
     else if t = T_Interface then bnd (parseInterface P) (\<lambda>d. ret (file\<lparr>Interfaces := Interfaces file @ [d]\<rparr>))
     else if t = T_Enum then bnd parseEnum (\<lambda>d. ret (file\<lparr>Enums := Enums file @ [d]\<rparr>))
     else if t = T_Sealed then bnd (parseSealed P) (\<lambda>d. ret (file\<lparr>Sealeds := Sealeds file @ [d]\<rparr>))
     else if t = T_KwType then bnd (parseType P) (\<lambda>d. ret (file\<lparr>Types := Types file @ [d]\<rparr>))
     else if t = T_Api \<or> t = T_Override then bnd (parseAPIOrOverride P) (\<lambda>d. ret (file\<lparr>APIs := APIs file @ [d]\<rparr>))
     else if t = T_Fn then bnd (parseFn P) (\<lambda>d. ret (file\<lparr>Functions := Functions file @ [d]\<rparr>))
     else parseTopLevelExtended P file))"

definition isTopLevelKeyword :: "Type \<Rightarrow> bool" where
  "isTopLevelKeyword t \<longleftrightarrow>
     t \<in> {T_Model, T_Interface, T_Enum, T_Sealed, T_KwType, T_Api, T_Fn, T_Error, T_Event, T_On, T_Middleware, T_Extend,
        T_Override, T_Use, T_Val, T_Var}"

definition synchronize :: "unit parser" where
  "synchronize =
     whileP (\<lambda>_ p. \<not> isEOF p \<and> \<not> isTopLevelKeyword (cur_type p) \<and> \<not> check T_DocComment p)
       (\<lambda>_. bnd parser_advance (\<lambda>_. ret ())) ()"

text \<open>The recovery at the top level: what the declaration had added to the file before it panicked is nothing,
  since the code appends only whole declarations.\<close>

definition parseTopLevelRecover :: "parsers \<Rightarrow> ast_File \<Rightarrow> ast_File parser" where
  "parseTopLevelRecover P file p =
     (case parseTopLevel P file p of
        (Bailout, p1) \<Rightarrow> bnd synchronize (\<lambda>_. ret file) p1
      | r \<Rightarrow> r)"

definition empty_file :: "bytes \<Rightarrow> ast_File" where
  "empty_file name =
     \<lparr>fileName = name, Models = [], Interfaces = [], Enums = [], Sealeds = [], Types = [], APIs = [], Functions = [],
      Errors = [], Extends = [], Uses = [], Middlewares = [], Events = [], Listeners = [], Imports = [], Globals = []\<rparr>"

definition parse_file :: "bytes \<Rightarrow> ast_File parser" where
  "parse_file name p =
     whileP (\<lambda>_ p. \<not> isEOF p) (parseTopLevelRecover (knot (length (toks p) + 1))) (empty_file name) p"

definition Parse :: "bytes \<Rightarrow> Token list \<Rightarrow> (ast_File \<times> ParseError list) option" where
  "Parse name ts =
     (case parse_file name (New_Parser ts) of
        (Done file, p) \<Rightarrow> Some (file, errs p)
      | _ \<Rightarrow> None)"

end
