(* ===== verification/Parsing.thy ===== *)
theory Parsing
  imports Parser Lexer
begin

text \<open>
  What holds of the parser. A weakest-precondition calculus over its outcomes carries one
  measure through every function: the tokens left and the errors reported. Each function either
  consumes a token or leaves what is left alone, and one that bails out has reported an error;
  so no loop and no recursive entry runs out of the rounds and depth the model gives it.
\<close>

section \<open>A calculus of outcomes\<close>

text \<open>wp m Q E p: from p, m does not run out of fuel, and its result satisfies Q or, when it bails out, E.\<close>

definition wp :: "'a parser \<Rightarrow> ('a \<Rightarrow> Parser \<Rightarrow> bool) \<Rightarrow> (Parser \<Rightarrow> bool) \<Rightarrow> Parser \<Rightarrow> bool" where
  "wp m Q E p = (case m p of (Done x, q) \<Rightarrow> Q x q | (Bailout, q) \<Rightarrow> E q | (OutOfFuel, q) \<Rightarrow> False)"

lemma wp_ret [simp]: "wp (ret x) Q E p = Q x p"
  by (simp add: wp_def ret_def)

lemma wp_bnd [simp]: "wp (bnd m f) Q E p = wp m (\<lambda>x q. wp (f x) Q E q) E p"
  by (auto simp: wp_def bnd_def split: prod.split outcome.split)

lemma wp_asks [simp]: "wp (asks f) Q E p = Q (f p) p"
  by (simp add: wp_def asks_def)

lemma wp_ifP [simp]: "wp (ifP c m1 m2) Q E p = (if c p then wp m1 Q E p else wp m2 Q E p)"
  by (simp add: wp_def ifP_def)

lemma wp_if [simp]: "wp (if b then m1 else m2) Q E p = (if b then wp m1 Q E p else wp m2 Q E p)"
  by simp

lemma wp_mono: "wp m Q E p \<Longrightarrow> (\<And>x q. Q x q \<Longrightarrow> Q' x q) \<Longrightarrow> (\<And>q. E q \<Longrightarrow> E' q) \<Longrightarrow> wp m Q' E' p"
  by (auto simp: wp_def split: prod.splits outcome.splits)

text \<open>What a step may do: leave the tokens alone, not go back, and only add errors; a step that bails
  out has added one.\<close>

definition nerr :: "Parser \<Rightarrow> nat" where
  "nerr p = length (errs p)"

definition on :: "Parser \<Rightarrow> Parser \<Rightarrow> bool" where
  "on p q \<longleftrightarrow> toks q = toks p \<and> left q \<le> left p \<and> nerr p \<le> nerr q"

definition stuck :: "Parser \<Rightarrow> Parser \<Rightarrow> bool" where
  "stuck p q \<longleftrightarrow> toks q = toks p \<and> left q \<le> left p \<and> nerr p < nerr q"

definition moved :: "Parser \<Rightarrow> Parser \<Rightarrow> bool" where
  "moved p q \<longleftrightarrow> on p q \<and> left q < left p"

text \<open>A step that always consumes, and one that does so unless it is at the end.\<close>

definition eats :: "'a parser \<Rightarrow> Parser \<Rightarrow> bool" where
  "eats m p = wp m (\<lambda>_. moved p) (stuck p) p"

definition good :: "'a parser \<Rightarrow> Parser \<Rightarrow> bool" where
  "good m p = wp m (\<lambda>_ q. on p q \<and> (cur_type p \<noteq> T_EOF \<longrightarrow> left q < left p)) (stuck p) p"

definition stays :: "'a parser \<Rightarrow> Parser \<Rightarrow> bool" where
  "stays m p = wp m (\<lambda>_. on p) (stuck p) p"

lemmas steps = on_def stuck_def moved_def

lemma eats_wp: "eats m p \<Longrightarrow> (\<And>x q. moved p q \<Longrightarrow> Q x q) \<Longrightarrow> (\<And>q. stuck p q \<Longrightarrow> E q) \<Longrightarrow> wp m Q E p"
  unfolding eats_def by (rule wp_mono)

lemma good_wp: "good m p \<Longrightarrow> (\<And>x q. on p q \<Longrightarrow> (cur_type p \<noteq> T_EOF \<longrightarrow> left q < left p) \<Longrightarrow> Q x q) \<Longrightarrow>
    (\<And>q. stuck p q \<Longrightarrow> E q) \<Longrightarrow> wp m Q E p"
  unfolding good_def by (erule wp_mono) auto

lemma stays_wp: "stays m p \<Longrightarrow> (\<And>x q. on p q \<Longrightarrow> Q x q) \<Longrightarrow> (\<And>q. stuck p q \<Longrightarrow> E q) \<Longrightarrow> wp m Q E p"
  unfolding stays_def by (rule wp_mono)

lemma eats_stays: "eats m p \<Longrightarrow> stays m p"
  unfolding eats_def stays_def by (erule wp_mono) (auto simp: moved_def)

lemma eats_good: "eats m p \<Longrightarrow> good m p"
  unfolding eats_def good_def by (erule wp_mono) (auto simp: moved_def)

lemma good_stays: "good m p \<Longrightarrow> stays m p"
  unfolding good_def stays_def by (erule wp_mono) auto

section \<open>Primitive steps\<close>

lemma cur_type_left: "cur_type p \<noteq> T_EOF \<Longrightarrow> 0 < left p"
  by (auto simp: current_def left_def eof_token_def split: if_splits)

definition adv :: "Parser \<Rightarrow> Parser" where
  "adv p = (if pos p < length (toks p) then p\<lparr>pos := pos p + 1\<rparr> else p)"

lemma adv_on: "on p (adv p)"
  by (auto simp: adv_def steps nerr_def left_def)

lemma adv_moved: "cur_type p \<noteq> T_EOF \<Longrightarrow> moved p (adv p)"
  using cur_type_left [of p] by (auto simp: adv_def steps nerr_def left_def)

lemma advance_adv: "parser_advance p = (Done (current p), adv p)"
  by (simp add: parser_advance_def adv_def)

lemma advance_wp:
  assumes "\<And>q. on p q \<Longrightarrow> (cur_type p \<noteq> T_EOF \<longrightarrow> left q < left p) \<Longrightarrow> Q (current p) q"
  shows "wp parser_advance Q E p"
  using assms [OF adv_on] adv_moved [of p] by (simp add: wp_def advance_adv moved_def)

definition add_error :: "bytes \<Rightarrow> Parser \<Rightarrow> Parser" where
  "add_error msg p = p\<lparr>errs := errs p @ [\<lparr>pePos = tokPos (current p), peMessage = msg\<rparr>]\<rparr>"

lemma error_add: "parser_error msg p = (Done (), add_error (msg p) p)"
  by (simp add: parser_error_def add_error_def)

lemma add_error_steps:
  "on p (add_error m p)" "stuck p (add_error m p)" "left (add_error m p) = left p" "current (add_error m p) = current p"
  "nerr p < nerr (add_error m p)"
  by (simp_all add: add_error_def steps nerr_def left_def current_def)

lemma expect_wp:
  assumes "t \<noteq> T_EOF" "\<And>q. moved p q \<Longrightarrow> Q (current p) q" "\<And>q. stuck p q \<Longrightarrow> E q"
  shows "wp (expect t) Q E p"
  using assms(1) assms(2) [OF adv_moved] assms(3) [OF add_error_steps(2)]
  by (auto simp: wp_def expect_def ifP_def bnd_def error_add bailout_def advance_adv check_def)

lemma expectIdent_wp:
  assumes "\<And>x q. moved p q \<Longrightarrow> Q x q" "\<And>q. stuck p q \<Longrightarrow> E q"
  shows "wp expectIdent Q E p"
  using assms(1) [OF adv_moved] assms(2) [OF add_error_steps(2)]
  by (auto simp: wp_def expectIdent_def ifP_def bnd_def ret_def error_add bailout_def advance_adv check_def isKeywordUsedAsIdent_def)

lemma match_wp:
  assumes "t \<noteq> T_EOF" "\<And>b q. on p q \<Longrightarrow> (b \<longrightarrow> left q < left p) \<Longrightarrow> Q b q"
  shows "wp (parser_match t) Q E p"
  using assms(1) assms(2) [OF adv_on, of True] adv_moved [of p] assms(2) [of p False]
  by (auto simp: wp_def parser_match_def ifP_def bnd_def ret_def advance_adv check_def moved_def on_def)

lemma error_wp:
  assumes "\<And>q. on p q \<Longrightarrow> left q = left p \<Longrightarrow> cur_type q = cur_type p \<Longrightarrow> nerr p < nerr q \<Longrightarrow> Q () q"
  shows "wp (parser_error msg) Q E p"
  using assms [OF add_error_steps(1)] by (simp add: wp_def error_add add_error_steps)

lemma pos_now_wp [simp]: "wp pos_now Q E p = Q (tokPos (current p)) p"
  by (simp add: pos_now_def)

lemma takeDoc_wp:
  assumes "\<And>x q. on p q \<Longrightarrow> left q = left p \<Longrightarrow> cur_type q = cur_type p \<Longrightarrow> Q x q"
  shows "wp takeDoc Q E p"
  using assms by (simp add: wp_def takeDoc_def steps nerr_def left_def current_def)

lemma add_doc_wp:
  assumes "\<And>x q. on p q \<Longrightarrow> left q = left p \<Longrightarrow> cur_type q = cur_type p \<Longrightarrow> Q x q"
  shows "wp add_doc Q E p"
  using assms by (simp add: wp_def add_doc_def steps nerr_def left_def current_def)

lemma bailout_wp [simp]: "wp bailout Q E p = E p"
  by (simp add: wp_def bailout_def)

section \<open>Loops\<close>

lemma loop_n_wp:
  assumes body: "\<And>x q. on p q \<Longrightarrow> c x q \<Longrightarrow> wp (b x) (\<lambda>x' q'. on q q' \<and> (left q' < left q \<or> \<not> c x' q')) (stuck q) q"
    and on: "on p q"
  shows "left q + 1 < k \<or> (0 < k \<and> \<not> c x q) \<Longrightarrow> wp (loop_n k c b x) (\<lambda>x' q'. on q q' \<and> \<not> c x' q') (stuck q) q"
  using on
proof (induction k arbitrary: x q)
  case 0
  then show ?case by simp
next
  case (Suc k)
  show ?case
  proof (cases "c x q")
    case False
    then show ?thesis by (simp add: on_def)
  next
    case True
    then have lt: "left q < k" using Suc.prems(1) by simp
    show ?thesis
      using True
      apply simp
      apply (rule wp_mono [OF body [OF Suc.prems(2) True]])
       apply (rule wp_mono [OF Suc.IH])
      using lt Suc.prems(2) by (auto simp: steps)
  qed
qed

lemma whileP_wp:
  assumes body: "\<And>x q. on p q \<Longrightarrow> c x q \<Longrightarrow> wp (b x) (\<lambda>x' q'. on q q' \<and> (left q' < left q \<or> \<not> c x' q')) (stuck q) q"
    and Q: "\<And>x q. on p q \<Longrightarrow> \<not> c x q \<Longrightarrow> Q x q" and E: "\<And>q. stuck p q \<Longrightarrow> E q"
  shows "wp (whileP c b x) Q E p"
proof -
  have on: "on p p" by (simp add: on_def)
  have "wp (loop_n (left p + 2) c b x) (\<lambda>x' q'. on p q' \<and> \<not> c x' q') (stuck p) p"
    by (rule loop_n_wp [OF body on]) auto
  then have "wp (loop_n (left p + 2) c b x) Q E p" by (rule wp_mono) (use Q E in auto)
  then show ?thesis by (simp add: whileP_def wp_def)
qed

text \<open>The derived loops.\<close>

lemma until_wp:
  assumes "\<And>x q. on p q \<Longrightarrow> cur_type q \<noteq> t \<Longrightarrow> cur_type q \<noteq> T_EOF \<Longrightarrow> good (b x) q"
    and "\<And>x q. on p q \<Longrightarrow> Q x q" "\<And>q. stuck p q \<Longrightarrow> E q"
  shows "wp (until t b x) Q E p"
  unfolding until_def
  by (rule whileP_wp) (use assms in \<open>auto simp: check_def isEOF_def intro!: good_wp simp del: wp_bnd\<close>)

lemma items_until_stays:
  assumes "\<And>q. on p q \<Longrightarrow> cur_type q \<noteq> T_EOF \<Longrightarrow> good item q"
  shows "stays (items_until t item) p"
  unfolding items_until_def stays_def
  by (rule until_wp) (auto simp: good_def steps intro!: good_wp [OF assms] match_wp)

lemma comma_list_stays:
  assumes "\<And>q. on p q \<Longrightarrow> eats item q"
  shows "stays (comma_list item) p"
  unfolding comma_list_def stays_def
  by (simp, rule whileP_wp) (auto simp: steps intro!: eats_wp [OF assms] match_wp)

lemmas plain_wp = advance_wp expect_wp expectIdent_wp match_wp error_wp takeDoc_wp add_doc_wp

lemma consumeDoc_stays: "stays consumeDoc p"
  unfolding consumeDoc_def stays_def
  by (rule whileP_wp) (auto simp: steps check_def intro!: plain_wp)

lemma parseQualifiedName_eats: "eats parseQualifiedName p"
  unfolding parseQualifiedName_def eats_def
  apply simp
  apply (rule expectIdent_wp)
   apply (rule whileP_wp)
  by (auto simp: steps intro!: plain_wp)

lemma expectIdentOrKeyword_good: "good expectIdentOrKeyword p"
  unfolding expectIdentOrKeyword_def good_def
  by (auto simp: steps intro!: plain_wp)

lemma eats_expect: "t \<noteq> T_EOF \<Longrightarrow> eats (expect t) p"
  unfolding eats_def by (rule expect_wp)

lemma eats_expectIdent: "eats expectIdent p"
  unfolding eats_def by (rule expectIdent_wp)


text \<open>The monad laws, to bring a step into the form the rules take apart.\<close>

lemma bnd_assoc: "bnd (bnd m g) f = bnd m (\<lambda>x. bnd (g x) f)"
  by (rule ext) (simp add: bnd_def split: prod.splits outcome.splits)

lemma bnd_ifP: "bnd (ifP c m1 m2) f = ifP c (bnd m1 f) (bnd m2 f)"
  by (rule ext) (simp add: bnd_def ifP_def)

lemma bnd_ret: "bnd (ret x) f = f x"
  by (rule ext) (simp add: bnd_def ret_def)

lemma bnd_if: "bnd (if b then m1 else m2) f = (if b then bnd m1 f else bnd m2 f)"
  by simp

lemma bnd_prod: "bnd (case x of (a, b) \<Rightarrow> g a b) f = (case x of (a, b) \<Rightarrow> bnd (g a b) f)"
  by (cases x) simp

lemmas monad_laws = bnd_assoc bnd_ifP bnd_ret bnd_if bnd_prod Let_def prod.case

section \<open>Composition\<close>

text \<open>The rules above bring arithmetic on the tokens left into every proof. A judgement relative to the start p hides it:
  from p, or from a state strictly after it when b holds, the step m leads to p or later, strictly later when b' holds.\<close>

definition run :: "Parser \<Rightarrow> bool \<Rightarrow> 'a parser \<Rightarrow> bool \<Rightarrow> bool" where
  "run p b m b' \<longleftrightarrow>
     (\<forall>q. on p q \<longrightarrow> (b \<longrightarrow> left q < left p) \<longrightarrow>
        wp m (\<lambda>_ r. on p r \<and> (b' \<longrightarrow> left r < left p)) (\<lambda>r. stuck p r \<and> (b \<longrightarrow> left r < left p)) q)"

lemma runI:
  assumes "\<And>q. on p q \<Longrightarrow> (b \<Longrightarrow> left q < left p) \<Longrightarrow>
     wp m (\<lambda>_ r. on p r \<and> (b' \<longrightarrow> left r < left p)) (\<lambda>r. stuck p r \<and> (b \<longrightarrow> left r < left p)) q"
  shows "run p b m b'"
  using assms by (simp add: run_def)

lemma run_wp:
  assumes "run p b m b'" "on p q" "b \<Longrightarrow> left q < left p" "\<And>x r. on p r \<Longrightarrow> b' \<longrightarrow> left r < left p \<Longrightarrow> Q x r"
    and "\<And>r. stuck p r \<Longrightarrow> b \<longrightarrow> left r < left p \<Longrightarrow> E r"
  shows "wp m Q E q"
  by (rule wp_mono [OF assms(1) [unfolded run_def, rule_format, OF assms(2)]]) (use assms(3-5) in auto)

lemma run_bnd:
  assumes "run p b m b1" "\<And>x. run p b1 (f x) b2" "b \<Longrightarrow> b1"
  shows "run p b (bnd m f) b2"
proof (rule runI)
  fix q
  assume q: "on p q" "b \<Longrightarrow> left q < left p"
  show "wp (bnd m f) (\<lambda>_ r. on p r \<and> (b2 \<longrightarrow> left r < left p)) (\<lambda>r. stuck p r \<and> (b \<longrightarrow> left r < left p)) q"
    unfolding wp_bnd
    by (rule wp_mono [OF assms(1) [unfolded run_def, rule_format, OF q(1)]])
      (use q assms(3) in \<open>auto intro!: wp_mono [OF assms(2) [unfolded run_def, rule_format]]\<close>)
qed

lemma run_ret: "(b' \<Longrightarrow> b) \<Longrightarrow> run p b (ret x) b'"
  by (auto simp: run_def)

lemma run_if: "(c \<Longrightarrow> run p b m1 b') \<Longrightarrow> (\<not> c \<Longrightarrow> run p b m2 b') \<Longrightarrow> run p b (if c then m1 else m2) b'"
  by simp

lemma run_ifP: "run p b m1 b' \<Longrightarrow> run p b m2 b' \<Longrightarrow> run p b (ifP c m1 m2) b'"
  by (simp add: run_def)

lemma run_option:
  "(x = None \<Longrightarrow> run p b m b') \<Longrightarrow> (\<And>y. x = Some y \<Longrightarrow> run p b (f y) b') \<Longrightarrow> run p b (case x of None \<Rightarrow> m | Some y \<Rightarrow> f y) b'"
  by (cases x) auto

lemma run_prod: "(\<And>x y. z = (x, y) \<Longrightarrow> run p b (f x y) b') \<Longrightarrow> run p b (case z of (x, y) \<Rightarrow> f x y) b'"
  by (cases z) auto

lemma run_eats: "(\<And>q. on p q \<Longrightarrow> eats m q) \<Longrightarrow> run p b m True"
  by (rule runI, rule eats_wp, blast) (auto simp: steps)

lemma run_stays: "(\<And>q. on p q \<Longrightarrow> stays m q) \<Longrightarrow> run p b m b"
  by (rule runI, rule stays_wp, blast) (auto simp: steps)

lemma run_good: "(\<And>q. on p q \<Longrightarrow> good m q) \<Longrightarrow> run p b m b"
  by (rule run_stays, rule good_stays) blast

text \<open>A recursive entry, which is good where fewer tokens are left than at p.\<close>

lemma run_later: "(\<And>q. on p q \<Longrightarrow> left q < left p \<Longrightarrow> good m q) \<Longrightarrow> run p True m True"
  by (rule runI, rule good_wp, blast) (auto simp: steps)

lemma run_match:
  assumes "t \<noteq> T_EOF" "run p True (f True) b'" "run p b (f False) b'"
  shows "run p b (bnd (parser_match t) f) b'"
proof (rule runI)
  fix q
  assume q: "on p q" "b \<Longrightarrow> left q < left p"
  show "wp (bnd (parser_match t) f) (\<lambda>_ r. on p r \<and> (b' \<longrightarrow> left r < left p)) (\<lambda>r. stuck p r \<and> (b \<longrightarrow> left r < left p)) q"
    unfolding wp_bnd
  proof (rule match_wp [OF assms(1)])
    fix c r
    assume r: "on q r" "c \<longrightarrow> left r < left q"
    show "wp (f c) (\<lambda>_ r. on p r \<and> (b' \<longrightarrow> left r < left p)) (\<lambda>r. stuck p r \<and> (b \<longrightarrow> left r < left p)) r"
    proof (cases c)
      case True
      have "on p r \<and> left r < left p" using q r True by (simp add: on_def)
      then show ?thesis using True by (auto intro!: wp_mono [OF assms(2) [unfolded run_def, rule_format]])
    next
      case False
      have "on p r \<and> (b \<longrightarrow> left r < left p)" using q r by (auto simp: on_def)
      then show ?thesis using False by (auto intro!: wp_mono [OF assms(3) [unfolded run_def, rule_format]])
    qed
  qed
qed

lemma run_expect: "t \<noteq> T_EOF \<Longrightarrow> run p b (expect t) True"
  by (rule run_eats) (rule eats_expect)

lemma run_expectIdent: "run p b expectIdent True"
  by (rule run_eats) (rule eats_expectIdent)

lemma run_pos_now: "run p b pos_now b"
  by (simp add: run_def)

lemma run_asks: "run p b (asks f) b"
  by (simp add: run_def)

lemma run_plain: "run p b parser_advance b" "run p b (parser_error msg) b" "run p b takeDoc b"
  by (auto simp: run_def steps intro!: plain_wp)

lemma eatsI: "run p False m True \<Longrightarrow> eats m p"
  unfolding run_def eats_def by (drule spec [of _ p]) (auto simp: steps elim!: wp_mono)

lemma staysI: "run p False m False \<Longrightarrow> stays m p"
  unfolding run_def stays_def by (drule spec [of _ p]) (auto simp: steps elim!: wp_mono)

lemma goodI: "run p False m True \<Longrightarrow> good m p"
  by (rule eats_good) (rule eatsI)

lemma on_left: "on p q \<Longrightarrow> left p \<le> n \<Longrightarrow> left q \<le> n"
  by (simp add: on_def)

lemma later_left: "left q < left p \<Longrightarrow> left p \<le> n \<Longrightarrow> left q < n"
  by simp

lemma later_n: "on p q \<Longrightarrow> left p < n \<Longrightarrow> left q < n"
  by (simp add: on_def)

lemma on_trans: "on p q \<Longrightarrow> on q r \<Longrightarrow> on p r"
  by (simp add: on_def)

lemma on_refl: "on p p"
  by (simp add: on_def)

lemma run_items: "(\<And>q. on p q \<Longrightarrow> good item q) \<Longrightarrow> run p b (items_until t item) b"
  by (rule run_stays, rule items_until_stays) (blast intro: on_trans)

lemma run_until: "(\<And>x q. on p q \<Longrightarrow> good (f x) q) \<Longrightarrow> run p b (until t f x) b"
  by (rule run_stays, unfold stays_def, rule until_wp) (auto intro: on_trans)

lemma run_comma: "(\<And>q. on p q \<Longrightarrow> eats item q) \<Longrightarrow> run p b (comma_list item) b"
  by (rule run_stays, rule comma_list_stays) (blast intro: on_trans)

lemma run_while:
  assumes "\<And>x q. on p q \<Longrightarrow> c x q \<Longrightarrow> wp (f x) (\<lambda>x' q'. on q q' \<and> (left q' < left q \<or> \<not> c x' q')) (stuck q) q"
  shows "run p b (whileP c f x) b"
  by (rule run_stays, unfold stays_def, rule whileP_wp) (auto intro: assms on_trans)

text \<open>Choices that look at the state are taken apart where it is known.\<close>

lemma good_pick:
  "good (f (tokPos (current p))) p \<Longrightarrow> good (bnd pos_now f) p"
  "good (k (g p)) p \<Longrightarrow> good (bnd (asks g) k) p"
  "(c \<Longrightarrow> good m1 p) \<Longrightarrow> (\<not> c \<Longrightarrow> good m2 p) \<Longrightarrow> good (if c then m1 else m2) p"
  "good (case x of (a, b) \<Rightarrow> h a b) p = good (h (fst x) (snd x)) p"
  by (simp_all add: good_def split: prod.split)

lemma good_eats_ret: "eats m p \<Longrightarrow> good (bnd m (\<lambda>x. ret (k x))) p"
  by (rule eats_good) (simp add: eats_def)

lemma good_advance: "good (bnd parser_advance (\<lambda>x. ret (k x))) p"
  by (simp add: good_def advance_wp)

lemma eats_advance: "cur_type p \<noteq> T_EOF \<Longrightarrow> (\<And>x. run p True (f x) True) \<Longrightarrow> eats (bnd parser_advance f) p"
  unfolding eats_def wp_bnd
  by (rule advance_wp, rule run_wp, assumption) (auto simp: steps)

lemma eats_ret: "eats m p \<Longrightarrow> eats (bnd m (\<lambda>x. ret (k x))) p"
  by (simp add: eats_def)

lemma run_known: "run p b m1 b' \<Longrightarrow> run p b (if True then m1 else m2) b'" "run p b m2 b' \<Longrightarrow> run p b (if False then m1 else m2) b'"
  by simp_all

lemmas run_rules = run_known run_match run_expect run_expectIdent run_pos_now run_asks run_plain run_ret run_if run_ifP run_option run_prod run_bnd

section \<open>Type references\<close>

lemma parseTypeRef_n_eats: "left p < n \<Longrightarrow> eats (parseTypeRef_n n) p"
proof (induction n arbitrary: p)
  case 0
  then show ?case by simp
next
  case (Suc n)
  have item: "eats (parseTypeRef_n n) q" if "left q < left p" for q
    by (rule Suc.IH) (use that Suc.prems in simp)
  have again: "run p True (parseTypeRef_n n) True"
    by (rule run_later) (rule eats_good, rule item)
  have list: "run p True (comma_list (parseTypeRef_n n)) True"
    by (rule runI, rule stays_wp, rule comma_list_stays, rule item) (auto simp: steps)
  show ?case
    unfolding parseTypeRef_n.simps
    by (rule eatsI) (rule again list run_rules | simp)+
qed

lemma parseTypeRef_eats: "eats parseTypeRef p"
  using parseTypeRef_n_eats [of p "left p + 1"] by (simp add: eats_def wp_def parseTypeRef_def)

section \<open>Expressions and statements\<close>

text \<open>The recursive entries are good on every state with fewer than n tokens left.\<close>

definition recs :: "parsers \<Rightarrow> nat \<Rightarrow> bool" where
  "recs P n \<longleftrightarrow>
     (\<forall>p. left p < n \<longrightarrow>
        (\<forall>prec. good (rExpr P prec) p) \<and> good (rCondition P) p \<and> good (rWhenCondition P) p \<and> good (rForCondition P) p \<and>
        good (rStmt P) p)"

lemma recsD:
  assumes "recs P n" "left p < n"
  shows "good (rExpr P prec) p" "good (rCondition P) p" "good (rWhenCondition P) p" "good (rForCondition P) p" "good (rStmt P) p"
  using assms by (auto simp: recs_def)

lemmas rec_wp = recsD [THEN good_wp]

lemma left_set_pos: "toks q = toks p \<Longrightarrow> left (q\<lparr>pos := pos p\<rparr>) = left p"
  by (simp add: left_def)

lemma set_pos_wp [simp]: "wp (set_pos n) Q E p = Q () (p\<lparr>pos := n\<rparr>)"
  by (simp add: wp_def set_pos_def)

lemma tryParseLambdaParams_stays: "stays tryParseLambdaParams p"
  unfolding tryParseLambdaParams_def stays_def
  apply simp
  apply (intro conjI impI)
   apply (simp add: on_def)
  apply (rule advance_wp)
  apply (rule whileP_wp)
  by (auto simp: steps check_def nerr_def left_set_pos intro!: plain_wp split: if_splits)

lemma parse_stmts_stays: "recs P n \<Longrightarrow> left p < n \<Longrightarrow> stays (parse_stmts P) p"
  unfolding parse_stmts_def stays_def
  by (rule until_wp) (auto simp: good_def steps intro!: rec_wp(5))

lemma parseLambdaExpr_eats: "recs P n \<Longrightarrow> left p \<le> n \<Longrightarrow> eats (parseLambdaExpr P) p"
  unfolding parseLambdaExpr_def eats_def
  by (auto simp: steps intro!: plain_wp stays_wp [OF tryParseLambdaParams_stays] stays_wp [OF parse_stmts_stays])

lemma parseBlock_eats: "recs P n \<Longrightarrow> left p \<le> n \<Longrightarrow> eats (parseBlock P) p"
  unfolding parseBlock_def eats_def
  by (auto simp: steps intro!: plain_wp stays_wp [OF parse_stmts_stays])

lemma wp_case_option [simp]:
  "wp (case x of None \<Rightarrow> m | Some y \<Rightarrow> f y) Q E p = (case x of None \<Rightarrow> wp m Q E p | Some y \<Rightarrow> wp (f y) Q E p)"
  by (cases x) simp_all

lemma wp_case_prod [simp]: "wp (case x of (a, b) \<Rightarrow> f a b) Q E p = (case x of (a, b) \<Rightarrow> wp (f a b) Q E p)"
  by (cases x) simp

lemma parseCallArgs_eats:
  assumes "recs P n" "left p \<le> n"
  shows "eats (parseCallArgs P ps fn) p"
  unfolding parseCallArgs_def eats_def
  apply simp
  apply (rule expect_wp)
    apply simp
   apply (rule whileP_wp)
  using assms
  by (auto simp: steps check_def isEOF_def intro!: plain_wp rec_wp(1) [OF assms(1)] eats_wp [OF parseLambdaExpr_eats [OF assms(1)]]
      split: option.split if_splits)

lemma parseObjectConstruction_eats:
  assumes "recs P n" "left p \<le> n"
  shows "eats (parseObjectConstruction P ps name) p"
proof -
  have "good (ifP (\<lambda>p. check T_Ident p \<and> peekType p = T_Colon)
             (bnd expectIdent (\<lambda>name. bnd (expect T_Colon) (\<lambda>_. bnd (rExpr P precNone) (\<lambda>val. ret (NamedArg name val)))))
             (bnd (rExpr P precNone) (\<lambda>val.
                ret (NamedArg (case val of Some (Ident _ name) \<Rightarrow> name | _ \<Rightarrow> []) val)))) q" if "left q < n" for q
    using that unfolding good_def by (auto simp: steps intro!: plain_wp rec_wp(1) [OF assms(1)])
  then show ?thesis
    using assms(2) unfolding parseObjectConstruction_def eats_def
    by (auto simp: steps intro!: plain_wp stays_wp [OF items_until_stays])
qed

lemma parseListExpr_eats:
  assumes "recs P n" "left p \<le> n"
  shows "eats (parseListExpr P ps) p"
  using assms(2) unfolding parseListExpr_def eats_def
  by (auto simp: steps intro!: plain_wp stays_wp [OF items_until_stays] recsD(1) [OF assms(1)])

lemma parseTemplateString_eats:
  assumes "recs P n" "left p \<le> n" "cur_type p \<noteq> T_EOF"
  shows "eats (parseTemplateString P ps) p"
proof -
  have w: "run p True (whileP (\<lambda>_. check T_StringMid)
      (\<lambda>parts. bnd parser_advance (\<lambda>mid. bnd (rExpr P 0) (\<lambda>e. ret (parts @ template_text mid @ [e])))) x) True" for x
  proof (rule runI, rule whileP_wp)
    fix q q1 x
    assume "on p q" "True \<Longrightarrow> left q < left p" "on q q1" "check T_StringMid q1"
    then have l: "left q1 < n" "cur_type q1 \<noteq> T_EOF" using assms(2) by (auto simp: on_def check_def)
    have "eats (bnd parser_advance (\<lambda>mid. bnd (rExpr P 0) (\<lambda>e. ret (x @ template_text mid @ [e])))) q1"
      unfolding eats_def wp_bnd using l
      by (intro advance_wp rec_wp(1) [OF assms(1)]) (auto simp: steps)
    then show "wp (bnd parser_advance (\<lambda>mid. bnd (rExpr P 0) (\<lambda>e. ret (x @ template_text mid @ [e]))))
        (\<lambda>x' q'. on q1 q' \<and> (left q' < left q1 \<or> \<not> check T_StringMid q')) (stuck q1) q1"
      by (rule eats_wp) (auto simp: steps)
  qed (auto simp: steps)
  have "run p True (bnd (rExpr P 0) (\<lambda>e. bnd (whileP (\<lambda>_. check T_StringMid)
           (\<lambda>parts. bnd parser_advance (\<lambda>mid. bnd (rExpr P 0) (\<lambda>e. ret (parts @ template_text mid @ [e]))))
           (template_text start @ [e])) (\<lambda>parts.
     ifP (check T_StringEnd)
       (bnd parser_advance (\<lambda>fin. ret (TemplateString ps (parts @ template_text fin))))
       (bnd (parser_error (\<lambda>_. lit ''expected end of template string'')) (\<lambda>_. ret (TemplateString ps parts)))))) True" for start
    by (rule w run_later recsD(1) [OF assms(1)] later_left [OF _ assms(2)] run_rules | assumption | simp)+
  then show ?thesis
    unfolding parseTemplateString_def by (rule eats_advance [OF assms(3)])
qed

lemma parseLiteral_eats: "cur_type p \<noteq> T_EOF \<Longrightarrow> eats (parseLiteral ps) p"
  unfolding parseLiteral_def eats_def
  by (auto simp: steps intro!: plain_wp)

lemma parseWhenBody_good:
  assumes "recs P n" "left p < n"
  shows "good (parseWhenBody P) p"
  unfolding parseWhenBody_def good_def
  using assms(2)
  by (auto simp: steps intro!: rec_wp(3) [OF assms(1)] eats_wp [OF parseLambdaExpr_eats [OF assms(1)]])

lemma parse_when_branch_good:
  assumes "recs P n" "left p < n"
  shows "eats (parse_when_branch P) p"
  unfolding parse_when_branch_def monad_laws
  by (rule eatsI) (rule run_good recsD(3) [OF assms(1)] later_n [OF _ assms(2)] parseWhenBody_good [OF assms(1)] run_rules | assumption | simp)+

lemma parseWhenExpr_eats:
  assumes "recs P n" "left p \<le> n"
  shows "eats (parseWhenExpr P ps) p"
proof -
  have br: "good (bnd (parser_match T_Else) (\<lambda>is_else.
              if is_else then bnd (expect T_Arrow) (\<lambda>_. bnd (parseWhenBody P) (\<lambda>e. ret (branches, e)))
              else bnd (parse_when_branch P) (\<lambda>br. ret (branches @ [br], els)))) q" if "left q < n" for q branches els
    by (rule goodI)
      (rule run_good parseWhenBody_good [OF assms(1)] run_eats parse_when_branch_good [OF assms(1)] later_n [OF _ that] run_rules | assumption | simp)+
  show ?thesis
    using assms(2) unfolding parseWhenExpr_def eats_def
    by (auto simp: steps intro!: plain_wp rec_wp(1,2) [OF assms(1)] until_wp br)
qed

lemma parsePrefixUnary_eats:
  assumes "recs P n" "left p \<le> n" "cur_type p \<noteq> T_EOF"
  shows "eats (parsePrefixUnary P ps) p"
  using assms(2,3) unfolding parsePrefixUnary_def eats_def
  by (auto simp: steps intro!: plain_wp rec_wp(1) [OF assms(1)])

lemma parseParenExpr_eats:
  assumes "recs P n" "left p \<le> n" "cur_type p \<noteq> T_EOF"
  shows "eats (parseParenExpr P) p"
  using assms(2,3) unfolding parseParenExpr_def eats_def
  by (auto simp: steps intro!: plain_wp rec_wp(1) [OF assms(1)])

lemma parseConcurrencyExpr_eats:
  assumes "recs P n" "left p \<le> n" "cur_type p \<noteq> T_EOF"
  shows "eats (parseConcurrencyExpr P ps) p"
  using assms(2,3) unfolding parseConcurrencyExpr_def eats_def
  by (auto simp: steps intro!: plain_wp rec_wp(1) [OF assms(1)] eats_wp [OF parseBlock_eats [OF assms(1)]])

lemma parseIdentOrConstruction_eats:
  assumes "recs P n" "left p \<le> n" "cur_type p \<noteq> T_EOF"
  shows "eats (parseIdentOrConstruction P ps) p"
  using assms(2,3) unfolding parseIdentOrConstruction_def eats_def
  by (auto simp: steps intro!: plain_wp eats_wp [OF parseObjectConstruction_eats [OF assms(1)]])

lemma parseForStmt_eats:
  assumes "recs P n" "left p \<le> n"
  shows "eats (parseForStmt P) p"
  using assms(2) unfolding parseForStmt_def eats_def
  by (auto simp: steps intro!: plain_wp rec_wp(4) [OF assms(1)] eats_wp [OF parseBlock_eats [OF assms(1)]])

lemma someP_wp [simp]: "wp (someP m) Q E p = wp m (\<lambda>x. Q (Some x)) E p"
  by (simp add: someP_def)

lemma parsePrefixExpr_good:
  assumes "recs P n" "left p \<le> n"
  shows "good (parsePrefixExpr P) p"
proof -
  note e = parseTemplateString_eats [OF assms] parseLiteral_eats [of p] parsePrefixUnary_eats [OF assms] parseParenExpr_eats [OF assms]
    parseConcurrencyExpr_eats [OF assms] parseIdentOrConstruction_eats [OF assms] parseForStmt_eats [OF assms]
    parseListExpr_eats [OF assms] parseWhenExpr_eats [OF assms]
  have err: "good (bnd (parser_error m) (\<lambda>_. bnd parser_advance (\<lambda>_. ret (None :: Expr option)))) p" for m :: "Parser \<Rightarrow> bytes"
    by (auto simp: good_def steps intro!: plain_wp)
  have for_ret: "good (bnd (parseForStmt P) (\<lambda>(fp, name, c, body). ret (Some (ForExpr fp name c body)))) p"
    using e(7) by (auto simp: good_def eats_def steps split_def elim!: wp_mono)
  show ?thesis
    unfolding parsePrefixExpr_def someP_def
    by (rule good_pick(1), rule good_pick(2), intro good_pick(3) err for_ret good_advance good_eats_ret e eats_good [OF e(4)]) auto
qed

lemma wp_Let [simp]: "wp (Let x f) Q E p = wp (f x) Q E p"
  by (simp add: Let_def)

text \<open>An infix step consumes unless no infix operator is there.\<close>

definition infix_type :: "Type \<Rightarrow> bool" where
  "infix_type t \<longleftrightarrow> t \<in> {T_Dot, T_SafeDot, T_Question, T_LParen, T_Elvis, T_BangElvis, T_DotDot, T_ChanSend} \<or> isBinaryOp_type t"

lemma infix_type_EOF: "infix_type t \<Longrightarrow> t \<noteq> T_EOF"
  by (auto simp: infix_type_def isBinaryOp_type_def)

lemma parseInfixExpr_eats:
  assumes "recs P n" "left p \<le> n" "infix_type (cur_type p)"
  shows "eats (parseInfixExpr P lhs) p"
proof -
  note e = parseCallArgs_eats [OF assms(1)] parseLambdaExpr_eats [OF assms(1)]
  have ne: "cur_type p \<noteq> T_EOF" by (rule infix_type_EOF [OF assms(3)])
  consider "cur_type p = T_Dot" | "cur_type p = T_SafeDot" | "cur_type p = T_Question" | "cur_type p = T_LParen"
    | "cur_type p = T_Elvis" | "cur_type p = T_BangElvis" | "cur_type p = T_DotDot"
    | "cur_type p = T_ChanSend \<or> isBinaryOp_type (cur_type p)" "cur_type p \<noteq> T_Dot" "cur_type p \<noteq> T_SafeDot"
        "cur_type p \<noteq> T_Question" "cur_type p \<noteq> T_LParen" "cur_type p \<noteq> T_LBrace" "cur_type p \<noteq> T_Elvis"
        "cur_type p \<noteq> T_BangElvis" "cur_type p \<noteq> T_DotDot"
    using assms(3) by (auto simp: infix_type_def isBinaryOp_type_def)
  then show ?thesis
  proof cases
    case 1
    then show ?thesis
      unfolding parseInfixExpr_def eats_def using assms(2) ne
      by (auto simp: steps intro!: plain_wp e [THEN eats_wp])
  next
    case 4
    then show ?thesis unfolding parseInfixExpr_def eats_def using assms(2) e(1) by (simp add: eats_def)
  qed (use assms(2) ne in \<open>simp_all add: parseInfixExpr_def eats_def\<close>,
      (auto simp: steps intro!: plain_wp rec_wp(1) [OF assms(1)]))
qed

lemma parseInfixExpr_stays:
  assumes "recs P n" "left p \<le> n"
  shows "stays (parseInfixExpr P lhs) p"
proof (cases "infix_type (cur_type p)")
  case True
  then show ?thesis by (rule eats_stays [OF parseInfixExpr_eats [OF assms]])
next
  case False
  then have "wp (parseInfixExpr P lhs) Q E p =
      (if cur_type p = T_LBrace \<and> isCallable lhs
       then wp (parseLambdaExpr P) (\<lambda>l. Q (CallExpr (tokPos (current p)) lhs [NamedArg [] (Some l)])) E p else Q lhs p)" for Q E
    by (simp add: parseInfixExpr_def infix_type_def)
  then show ?thesis
    unfolding stays_def using assms(2) by (auto simp: steps intro!: parseLambdaExpr_eats [OF assms(1), THEN eats_wp])
qed

lemma currentPrec_infix: "precNone < currentPrec p \<Longrightarrow> cur_type p \<noteq> T_LBrace \<Longrightarrow> infix_type (cur_type p)"
  by (cases "cur_type p") (auto simp: currentPrec_def type_prec_def infix_type_def isBinaryOp_type_def prec_defs)

lemma on_left_pos: "on p q \<Longrightarrow> pos q \<noteq> pos p \<Longrightarrow> pos p < length (toks p) \<Longrightarrow> left q < left p"
  by (auto simp: on_def left_def)

lemma infix_loop_stays:
  assumes "recs P n" "left p \<le> n"
  shows "stays (infix_loop P prec lhs) p"
proof -
  have lt: "cur_type q \<noteq> T_EOF \<Longrightarrow> on q r \<Longrightarrow> pos r \<noteq> pos q \<Longrightarrow> left r < left q" for q r
    using on_left_pos [of q r] cur_type_left [of q] by (simp add: left_def)
  show ?thesis
    unfolding infix_loop_def stays_def
    apply simp
    apply (rule whileP_wp)
    using assms(2) lt
    by (fastforce simp: steps isEOF_def intro!: stays_wp [OF parseInfixExpr_stays [OF assms(1)]])+
qed

lemma parseExpr_good:
  assumes "recs P n" "left p \<le> n"
  shows "good (parseExpr P prec) p"
  using assms(2) unfolding parseExpr_def good_def
  by (auto simp: steps intro!: good_wp [OF parsePrefixExpr_good [OF assms(1)]] stays_wp [OF infix_loop_stays [OF assms(1)]] split: option.split)

lemma parseWhenCondition_good:
  assumes "recs P n" "left p \<le> n"
  shows "good (parseWhenCondition P) p"
proof -
  have i: "precNone < currentPrec q \<Longrightarrow> cur_type q \<noteq> T_LBrace \<Longrightarrow> left q \<le> n \<Longrightarrow> eats (parseInfixExpr P l) q" for q l
    by (rule parseInfixExpr_eats [OF assms(1) _ currentPrec_infix])
  show ?thesis
    using assms(2) unfolding parseWhenCondition_def good_def
    by (auto simp: steps isEOF_def check_def intro!: good_wp [OF parsePrefixExpr_good [OF assms(1)]] whileP_wp eats_wp [OF i] split: option.split)
qed

lemma with_noBraceLambda_wp:
  assumes "wp m (\<lambda>x q. Q x (q\<lparr>noBraceLambda := noBraceLambda p\<rparr>)) (\<lambda>q. E (q\<lparr>noBraceLambda := noBraceLambda p\<rparr>)) (p\<lparr>noBraceLambda := True\<rparr>)"
  shows "wp (with_noBraceLambda m) Q E p"
  using assms by (auto simp: wp_def with_noBraceLambda_def split: prod.splits outcome.splits)

lemma noBrace_simps:
  "left (p\<lparr>noBraceLambda := b\<rparr>) = left p" "nerr (p\<lparr>noBraceLambda := b\<rparr>) = nerr p" "current (p\<lparr>noBraceLambda := b\<rparr>) = current p"
  by (simp_all add: left_def nerr_def current_def)

lemma parseConditionExpr_good:
  assumes "recs P n" "left p \<le> n"
  shows "good (parseConditionExpr P) p"
proof -
  have i: "precNone < currentPrec q \<Longrightarrow> cur_type q \<noteq> T_LBrace \<Longrightarrow> left q \<le> n \<Longrightarrow> eats (parseInfixExpr P l) q" for q l
    by (rule parseInfixExpr_eats [OF assms(1) _ currentPrec_infix])
  have g: "left q \<le> n \<Longrightarrow> good (bnd (parsePrefixExpr P) (\<lambda>lhs.
        case lhs of
          None \<Rightarrow> ret None
        | Some lhs \<Rightarrow>
            someP (whileP (\<lambda>_ p. precNone < currentPrec p \<and> \<not> check T_LBrace p) (parseInfixExpr P) lhs))) q" for q
    unfolding good_def
    by (auto simp: steps isEOF_def check_def intro!: good_wp [OF parsePrefixExpr_good [OF assms(1)]] whileP_wp eats_wp [OF i] split: option.split)
  show ?thesis
    unfolding parseConditionExpr_def good_def
    by (intro with_noBraceLambda_wp good_wp [OF g]) (use assms(2) in \<open>auto simp: steps noBrace_simps\<close>)
qed

lemma for_condition_step_wp:
  assumes "recs P n" "left p \<le> n"
  shows "wp (for_condition_step P lhs) (\<lambda>x q. on p q \<and> (snd x \<or> left q < left p)) (stuck p) p"
proof -
  have b: "isBinaryOp_type t \<Longrightarrow> t \<noteq> T_EOF" for t by (auto simp: isBinaryOp_type_def)
  have x: "wp m (\<lambda>x q. on p q \<and> (snd x \<or> left q < left p)) (stuck p) p" if "eats m p" for m :: "(Expr \<times> bool) parser"
    using that by (auto simp: eats_def moved_def elim: wp_mono)
  note ifs = if_split [where P = "\<lambda>m. wp m (\<lambda>x q. on p q \<and> (snd x \<or> left q < left p)) (stuck p) p", THEN iffD2]
  have stop: "wp (ret (lhs, True)) (\<lambda>x q. on p q \<and> (snd x \<or> left q < left p)) (stuck p) p"
    by (simp add: on_refl)
  have r: "eats (bnd pos_now (\<lambda>ps. bnd parser_advance (\<lambda>op. bnd (rForCondition P) (\<lambda>r. ret (k ps op r))))) p"
    if "cur_type p \<noteq> T_EOF" for k :: "Position \<Rightarrow> Token \<Rightarrow> Expr option \<Rightarrow> Expr \<times> bool"
    unfolding eats_def wp_bnd pos_now_wp using that
    by (intro advance_wp rec_wp(4) [OF assms(1)]) (use assms(2) in \<open>auto simp: steps\<close>)
  have f: "eats (bnd parser_advance (\<lambda>_. bnd expectIdent (\<lambda>field. ret (k field)))) p"
    if "cur_type p \<noteq> T_EOF" for k :: "bytes \<Rightarrow> Expr \<times> bool"
    by (rule eats_advance [OF that]) (rule run_rules | simp)+
  show ?thesis
    unfolding for_condition_step_def wp_bnd wp_asks
    by (intro stop ifs conjI impI x f r eats_ret parseCallArgs_eats [OF assms]) (auto simp: on_refl dest: b)
qed

lemma parseForCondition_good:
  assumes "recs P n" "left p \<le> n"
  shows "good (parseForCondition P) p"
  using assms(2) unfolding parseForCondition_def good_def
  by (auto simp: steps isEOF_def check_def intro!: good_wp [OF parsePrefixExpr_good [OF assms(1)]] whileP_wp
      wp_mono [OF for_condition_step_wp [OF assms(1)]] split: option.split)

section \<open>Statements\<close>

lemma someS_wp [simp]: "wp (someS m) Q E p = wp m (\<lambda>x. Q (Some x)) E p"
  by (simp add: someS_def)

lemma parseAssignStmt_eats:
  assumes "recs P n" "left p \<le> n" "cur_type p \<noteq> T_EOF"
  shows "eats (parseAssignStmt P) p"
  using assms(2,3) unfolding parseAssignStmt_def eats_def
  by (auto simp: steps intro!: plain_wp rec_wp(1) [OF assms(1)])

lemma parseExprOrAssignStmt_good:
  assumes "recs P n" "left p \<le> n"
  shows "good (parseExprOrAssignStmt P) p"
  using assms(2) unfolding parseExprOrAssignStmt_def good_def
  by (auto simp: steps intro!: plain_wp good_wp [OF parseExpr_good [OF assms(1)]])

lemma parseValStmt_eats:
  assumes "recs P n" "left p \<le> n"
  shows "eats (parseValStmt P) p"
  unfolding parseValStmt_def monad_laws
  by (rule eatsI) (rule run_items run_good eats_good eats_expectIdent run_eats parseTypeRef_eats parseExpr_good [OF assms(1)] on_left [OF _ assms(2)] run_rules
    | assumption | (simp; fail))+

lemma parseIfStmt_eats:
  assumes "recs P n" "left p \<le> n"
  shows "eats (parseIfStmt P) p"
  using assms(2) unfolding parseIfStmt_def eats_def
  by (auto simp: steps intro!: plain_wp good_wp [OF parseConditionExpr_good [OF assms(1)]] eats_wp [OF parseBlock_eats [OF assms(1)]])

lemma parseReturnStmt_eats:
  assumes "recs P n" "left p \<le> n"
  shows "eats (parseReturnStmt P) p"
  using assms(2) unfolding parseReturnStmt_def eats_def
  by (auto simp: steps intro!: plain_wp good_wp [OF parseExpr_good [OF assms(1)]])

lemma parseThrowStmt_eats:
  assumes "recs P n" "left p \<le> n"
  shows "eats (parseThrowStmt P) p"
  using assms(2) unfolding parseThrowStmt_def eats_def
  by (auto simp: steps intro!: plain_wp good_wp [OF parseExpr_good [OF assms(1)]])

lemma parseEmitStmt_eats:
  assumes "recs P n" "left p \<le> n"
  shows "eats (parseEmitStmt P) p"
proof -
  have b: "good (bnd expectIdent (\<lambda>name. bnd (expect T_Colon) (\<lambda>_. bnd (parseExpr P precNone) (\<lambda>val.
                     bnd (parser_match T_Comma) (\<lambda>_.
                     ret (case val of None \<Rightarrow> args | Some _ \<Rightarrow> args @ [NamedArg name val])))))) q" if "left q \<le> n" for q args
    using that unfolding good_def
    by (auto simp: steps intro!: plain_wp good_wp [OF parseExpr_good [OF assms(1)]])
  show ?thesis
    using assms(2) unfolding parseEmitStmt_def eats_def
    by (auto simp: steps intro!: plain_wp until_wp b)
qed

text \<open>At a token, an expression statement is never the typed nil.\<close>

lemma parseExprStmt_wp:
  assumes "recs P n" "left p \<le> n" "cur_type p \<noteq> T_EOF"
  shows "wp (parseExprStmt P) (\<lambda>st q. moved p q \<and> st \<noteq> NilExprStmt) (stuck p) p"
proof -
  have "pos q \<noteq> pos p" if "toks q = toks p" "left q < left p" for q using that by (auto simp: left_def)
  then show ?thesis
    using assms(2,3) unfolding parseExprStmt_def
    by (auto simp: steps intro!: good_wp [OF parseExpr_good [OF assms(1)]])
qed

lemma parseExprStmt_eats:
  assumes "recs P n" "left p \<le> n" "cur_type p \<noteq> T_EOF"
  shows "eats (parseExprStmt P) p"
  unfolding eats_def by (rule wp_mono [OF parseExprStmt_wp [OF assms]]) auto

lemma parseStmt_good:
  assumes "recs P n" "left p \<le> n"
  shows "good (parseStmt P) p"
proof (cases "cur_type p = T_EOF")
  case True
  then show ?thesis
    unfolding good_def parseStmt_def parseExprStmt_def
    using assms(2) by (auto simp: someS_def steps intro!: plain_wp good_wp [OF parseExpr_good [OF assms(1)]])
next
  case False
  note e = parseValStmt_eats [OF assms] parseIfStmt_eats [OF assms] parseReturnStmt_eats [OF assms]
    parseThrowStmt_eats [OF assms] parseEmitStmt_eats [OF assms] parseAssignStmt_eats [OF assms False] parseExprStmt_eats [OF assms False]
  have x: "eats (parseExprOrAssignStmt P) p"
    using parseExprOrAssignStmt_good [OF assms] False unfolding good_def eats_def by (elim wp_mono) (auto simp: moved_def)
  have for_ret: "good (bnd (parseForStmt P) (\<lambda>(fp, name, c, body). ret (Some (ForStmt fp name c body)))) p"
    using parseForStmt_eats [OF assms] by (auto simp: good_def eats_def steps split_def elim!: wp_mono)
  have ret_pos: "good (bnd pos_now (\<lambda>ps. bnd parser_advance (\<lambda>_. ret (k ps)))) p" for k :: "Position \<Rightarrow> Stmt option"
    by (auto simp: good_def steps intro!: plain_wp)
  show ?thesis
    unfolding parseStmt_def someS_def
    by (rule good_pick(2), subst good_pick(4), intro good_pick(3) for_ret ret_pos good_advance good_eats_ret e x)
qed

lemma recs_knot: "recs (knot n) n"
proof (induction n)
  case 0
  then show ?case by (simp add: recs_def)
next
  case (Suc n)
  show ?case
    unfolding recs_def
    using parseExpr_good [OF Suc] parseConditionExpr_good [OF Suc] parseWhenCondition_good [OF Suc] parseForCondition_good [OF Suc]
      parseStmt_good [OF Suc]
    by (simp add: Let_def less_Suc_eq_le)
qed

section \<open>Declarations\<close>

lemma parseDirective_eats:
  assumes "recs P n" "left p \<le> n"
  shows "eats (parseDirective P) p"
proof -
  have b: "good (bnd (ifP (\<lambda>p. check T_Ident p \<and> peekType p = T_Colon)
                         (bnd expectIdent (\<lambda>name. bnd (expect T_Colon) (\<lambda>_. ret name))) (ret [])) (\<lambda>name.
                   bnd (ifP (check T_LBrace) (someP (parseLambdaExpr P)) (parseExpr P precNone)) (\<lambda>val.
                   ret (NamedArg name val)))) q" if "left q \<le> n" for q
    using that unfolding good_def
    by (auto simp: steps intro!: plain_wp good_wp [OF parseExpr_good [OF assms(1)]] eats_wp [OF parseLambdaExpr_eats [OF assms(1)]])
  show ?thesis
    using assms(2) unfolding parseDirective_def eats_def
    by (auto simp: steps intro!: plain_wp stays_wp [OF items_until_stays] b eats_wp [OF parseBlock_eats [OF assms(1)]])
qed

lemma parseDirectives_stays:
  assumes "recs P n" "left p \<le> n"
  shows "stays (parseDirectives P) p"
  unfolding parseDirectives_def stays_def
  by (rule whileP_wp) (use assms(2) in \<open>auto simp: steps intro!: eats_wp [OF parseDirective_eats [OF assms(1)]]\<close>)

lemma parseParam_eats:
  assumes "recs P n" "left p \<le> n"
  shows "eats (parseParam P) p"
  unfolding parseParam_def monad_laws
  by (rule eatsI) (rule run_stays consumeDoc_stays run_good parseExpr_good [OF assms(1)] run_eats parseTypeRef_eats on_left [OF _ assms(2)] run_rules
    | assumption | (simp; fail))+

lemma param_list_stays:
  assumes "recs P n" "left p \<le> n"
  shows "stays (param_list P) p"
  using assms(2) unfolding param_list_def stays_def
  by (auto simp: steps intro!: plain_wp stays_wp [OF items_until_stays] eats_good parseParam_eats [OF assms(1)])

lemma optional_params_stays:
  assumes "recs P n" "left p \<le> n"
  shows "stays (optional_params P) p"
  using assms(2) unfolding optional_params_def stays_def
  by (auto simp: steps intro!: plain_wp stays_wp [OF param_list_stays [OF assms(1)]])

lemma optional_type_stays: "stays optional_type p"
  unfolding optional_type_def stays_def
  by (auto simp: steps intro!: plain_wp eats_wp [OF parseTypeRef_eats])

lemma optional_body_stays:
  assumes "recs P n" "left p \<le> n"
  shows "stays (optional_body P) p"
  using assms(2) unfolding optional_body_def stays_def
  by (auto simp: steps intro!: eats_wp [OF parseBlock_eats [OF assms(1)]])

text \<open>The steps that a declaration is made of.\<close>

lemmas free_wp = plain_wp optional_type_stays [THEN stays_wp] consumeDoc_stays [THEN stays_wp]
  parseTypeRef_eats [THEN eats_wp] parseQualifiedName_eats [THEN eats_wp] expectIdentOrKeyword_good [THEN good_wp]
  tryParseLambdaParams_stays [THEN stays_wp]
lemmas part_wp = parseDirectives_stays [THEN stays_wp] optional_params_stays [THEN stays_wp] param_list_stays [THEN stays_wp]
  optional_body_stays [THEN stays_wp] parseExpr_good [THEN good_wp] parseBlock_eats [THEN eats_wp]
  parseDirective_eats [THEN eats_wp]

lemma parseField_eats:
  assumes "recs P n" "left p \<le> n"
  shows "eats (parseField P) p"
  unfolding parseField_def monad_laws
  by (rule eatsI) (rule run_stays parseDirectives_stays [OF assms(1)] optional_body_stays [OF assms(1)] run_good parseExpr_good [OF assms(1)] run_eats parseTypeRef_eats on_left [OF _ assms(2)] run_rules | assumption | (simp; fail))+

lemma parseComputedField_eats:
  assumes "recs P n" "left p \<le> n"
  shows "eats (parseComputedField P) p"
  unfolding parseComputedField_def monad_laws
  by (rule eatsI) (rule run_stays parseDirectives_stays [OF assms(1)] optional_body_stays [OF assms(1)] run_good parseExpr_good [OF assms(1)] run_eats parseTypeRef_eats on_left [OF _ assms(2)] run_rules | assumption | (simp; fail))+

lemma parseScope_eats:
  assumes "recs P n" "left p \<le> n"
  shows "eats (parseScope P) p"
  using assms(2) unfolding parseScope_def eats_def
  by (auto simp: steps intro!: free_wp part_wp [OF assms(1)])

text \<open>The head of a declaration, and a declaration as a whole, which bails out only after its keyword when the
  keyword is there.\<close>

definition bites :: "'a parser \<Rightarrow> Parser \<Rightarrow> bool" where
  "bites m p = wp m (\<lambda>_. moved p) (\<lambda>q. stuck p q \<and> left q < left p) p"

lemma bites_wp: "bites m p \<Longrightarrow> (\<And>x q. moved p q \<Longrightarrow> Q x q) \<Longrightarrow> (\<And>q. stuck p q \<Longrightarrow> left q < left p \<Longrightarrow> E q) \<Longrightarrow> wp m Q E p"
  unfolding bites_def by (erule wp_mono) auto

lemma expect_there:
  assumes "cur_type p = t" "t \<noteq> T_EOF" "\<And>q. moved p q \<Longrightarrow> Q (current p) q"
  shows "wp (expect t) Q E p"
  using assms(1) assms(3) [OF adv_moved] assms(2)
  by (simp add: wp_def expect_def ifP_def advance_adv check_def)

text \<open>A choice of what to parse, by the current token.\<close>

lemma bites_pick:
  "bites (f (cur_type p)) p \<Longrightarrow> bites (bnd (asks cur_type) f) p"
  "(c \<Longrightarrow> bites m1 p) \<Longrightarrow> (\<not> c \<Longrightarrow> bites m2 p) \<Longrightarrow> bites (if c then m1 else m2) p"
  by (simp_all add: bites_def)

lemma bites_ret: "bites m p \<Longrightarrow> bites (bnd m (\<lambda>x. ret (k x))) p"
  by (simp add: bites_def)

lemma bites_advance: "cur_type p \<noteq> T_EOF \<Longrightarrow> bites (bnd parser_advance (\<lambda>x. ret (k x))) p"
  by (auto simp: bites_def steps intro!: advance_wp)

lemma decl_head_bites:
  assumes "cur_type p = kw" "kw \<noteq> T_EOF"
  shows "bites (decl_head kw) p"
  unfolding decl_head_def bites_def
  using assms by (auto simp: steps intro!: takeDoc_wp expect_there expectIdent_wp)

lemma decl_head_eats: "kw \<noteq> T_EOF \<Longrightarrow> eats (decl_head kw) p"
  unfolding decl_head_def eats_def by (auto simp: steps intro!: plain_wp)

lemma bites_head: "cur_type p = kw \<Longrightarrow> kw \<noteq> T_EOF \<Longrightarrow> (\<And>x. run p True (f x) True) \<Longrightarrow> bites (bnd (decl_head kw) f) p"
  unfolding bites_def wp_bnd
  by (rule bites_wp [OF decl_head_bites], assumption, assumption, rule run_wp, assumption) (auto simp: steps)

lemma bites_keyword:
  "cur_type p = kw \<Longrightarrow> kw \<noteq> T_EOF \<Longrightarrow> (\<And>x y. run p True (f y x) True) \<Longrightarrow> bites (bnd pos_now (\<lambda>y. bnd (expect kw) (f y))) p"
  unfolding bites_def wp_bnd pos_now_wp
  by (rule expect_there, assumption, assumption, rule run_wp, assumption) (auto simp: steps)

lemma member_eats:
  assumes "recs P n" "left p \<le> n"
  shows "eats (model_member P m) p"
  using assms(2) unfolding model_member_def eats_def
  by (auto simp: steps check_def intro!: free_wp part_wp [OF assms(1)] eats_wp [OF parseScope_eats [OF assms(1)]]
      eats_wp [OF parseComputedField_eats [OF assms(1)]] eats_wp [OF parseField_eats [OF assms(1)]])

lemma parseModel_bites:
  assumes "recs P n" "left p \<le> n" "cur_type p = T_Model"
  shows "bites (parseModel P) p"
  unfolding parseModel_def monad_laws
  by (rule bites_head [OF assms(3)], simp)
    (rule run_until eats_good member_eats [OF assms(1)] run_comma eats_expectIdent run_stays parseDirectives_stays [OF assms(1)] on_left [OF _ assms(2)] run_rules
      | assumption | (simp; fail))+

lemma parseFn_eats:
  assumes "recs P n" "left p \<le> n"
  shows "eats (parseFn P) p"
  using assms(2) unfolding parseFn_def eats_def
  by (auto simp: steps intro!: eats_wp [OF decl_head_eats] free_wp part_wp [OF assms(1)])

lemma parseFn_bites:
  assumes "recs P n" "left p \<le> n" "cur_type p = T_Fn"
  shows "bites (parseFn P) p"
  using assms(2,3) unfolding parseFn_def bites_def
  by (auto simp: steps intro!: bites_wp [OF decl_head_bites] free_wp part_wp [OF assms(1)])

lemma parseInterface_bites:
  assumes "recs P n" "left p \<le> n" "cur_type p = T_Interface"
  shows "bites (parseInterface P) p"
proof -
  have m: "good (bnd consumeDoc (\<lambda>_.
              ifP (check T_Fn) (bnd (parseFn P) (\<lambda>f. ret (i\<lparr>ifcMethods := ifcMethods i @ [f]\<rparr>)))
              (ifP (check T_Val) (bnd (parseComputedField P) (\<lambda>f. ret (i\<lparr>ifcFields := ifcFields i @ [f]\<rparr>)))
                (bnd (parseField P) (\<lambda>f. ret (i\<lparr>ifcFields := ifcFields i @ [f]\<rparr>)))))) q" if "left q \<le> n" for q i
    using that unfolding good_def
    by (auto simp: steps intro!: free_wp eats_wp [OF parseFn_eats [OF assms(1)]]
        eats_wp [OF parseComputedField_eats [OF assms(1)]] eats_wp [OF parseField_eats [OF assms(1)]])
  show ?thesis
    using assms(2,3) unfolding parseInterface_def bites_def
    by (auto simp: steps intro!: bites_wp [OF decl_head_bites] free_wp until_wp m)
qed

lemma parseEnum_bites:
  assumes "cur_type p = T_Enum"
  shows "bites parseEnum p"
proof -
  have m: "good (bnd expectIdent (\<lambda>x. ret (acc @ [x]))) q" for q acc
    unfolding good_def by (auto simp: steps intro!: free_wp)
  show ?thesis
    using assms unfolding parseEnum_def bites_def
    by (auto simp: steps intro!: bites_wp [OF decl_head_bites] free_wp until_wp m)
qed

lemma parseSealed_bites:
  assumes "recs P n" "left p \<le> n" "cur_type p = T_Sealed"
  shows "bites (parseSealed P) p"
proof -
  have m: "good (bnd expectIdent (\<lambda>name. bnd (optional_params P) (\<lambda>fs. ret (acc @ [\<lparr>varName = name, varFields = fs\<rparr>])))) q"
    if "left q \<le> n" for q acc
    using that unfolding good_def by (auto simp: steps intro!: free_wp part_wp [OF assms(1)])
  show ?thesis
    using assms(2,3) unfolding parseSealed_def bites_def
    by (auto simp: steps intro!: bites_wp [OF decl_head_bites] free_wp until_wp m)
qed

lemma parseType_bites:
  assumes "recs P n" "left p \<le> n" "cur_type p = T_KwType"
  shows "bites (parseType P) p"
proof -
  have w: "run p True (whileP (\<lambda>(_, stop) p. \<not> stop \<and> \<not> check T_RBrace p \<and> \<not> isEOF p)
           (\<lambda>(fs, _). bnd consumeDoc (\<lambda>_.
              ifP (\<lambda>p. check T_RBrace p \<or> isEOF p) (ret (fs, True))
                (bnd (parseField P) (\<lambda>f. ret (fs @ [f], False))))) ([], False)) True"
    by (rule run_while) (use assms(2) in \<open>auto simp: steps intro!: stays_wp [OF consumeDoc_stays] eats_wp [OF parseField_eats [OF assms(1)]]\<close>)
  show ?thesis
    unfolding parseType_def monad_laws
    by (rule bites_head [OF assms(3)], simp) (rule w run_comma eats_expectIdent run_rules | (simp; fail))+
qed

lemma parseAPI_bites:
  assumes "recs P n" "left p \<le> n" "cur_type p = T_Api"
  shows "bites (parseAPI P) p"
  using assms(2,3) unfolding parseAPI_def bites_def
  by (auto simp: steps intro!: bites_wp [OF decl_head_bites] free_wp part_wp [OF assms(1)])

lemma parseOverrideAPI_bites:
  assumes "recs P n" "left p \<le> n" "cur_type p = T_Override"
  shows "bites (parseOverrideAPI P) p"
  using assms(2,3) unfolding parseOverrideAPI_def bites_def
  by (auto simp: steps check_def intro!: free_wp bites_wp [OF parseAPI_bites [OF assms(1)]])

lemma error_entry_eats: "eats (error_entry e) p"
  unfolding error_entry_def eats_def by (auto simp: steps intro!: free_wp)

lemma parseError_bites:
  assumes "recs P n" "left p \<le> n" "cur_type p = T_Error"
  shows "bites (parseError P) p"
  using assms(2,3) unfolding parseError_def bites_def
  by (auto simp: steps intro!: bites_wp [OF decl_head_bites] free_wp part_wp [OF assms(1)] until_wp eats_good error_entry_eats)

lemma parseExtend_bites:
  assumes "recs P n" "left p \<le> n" "cur_type p = T_Extend"
  shows "bites (parseExtend P) p"
proof -
  have m: "good (bnd (parseField P) (\<lambda>f. ret (acc @ [f]))) q" if "left q \<le> n" for q acc
    using that unfolding good_def by (auto simp: steps intro!: eats_wp [OF parseField_eats [OF assms(1)]])
  show ?thesis
    using assms(2,3) unfolding parseExtend_def bites_def
    by (simp, intro expect_there) (auto simp: steps intro!: free_wp until_wp m)
qed

lemma parseMiddleware_bites:
  assumes "recs P n" "left p \<le> n" "cur_type p = T_Middleware"
  shows "bites (parseMiddleware P) p"
  using assms(2,3) unfolding parseMiddleware_def bites_def
  by (auto simp: steps intro!: bites_wp [OF decl_head_bites] free_wp part_wp [OF assms(1)])

lemma parseEvent_bites:
  assumes "recs P n" "left p \<le> n" "cur_type p = T_Event"
  shows "bites (parseEvent P) p"
  using assms(2,3) unfolding parseEvent_def bites_def
  by (simp, intro expect_there) (auto simp: steps intro!: free_wp part_wp [OF assms(1)])

lemma parseOnBlock_eats:
  assumes "recs P n" "left p \<le> n"
  shows "eats (parseOnBlock P) p"
  using assms(2) unfolding parseOnBlock_def eats_def
  by (auto simp: steps intro!: free_wp stays_wp [OF parse_stmts_stays [OF assms(1)]])

lemma parseOn_bites:
  assumes "recs P n" "left p \<le> n" "cur_type p = T_On"
  shows "bites (parseOn P) p"
  unfolding parseOn_def monad_laws
  by (rule bites_keyword [OF assms(3)])
    (rule run_stays on_left [OF _ assms(2)] parseDirectives_stays [OF assms(1)] run_eats parseOnBlock_eats [OF assms(1)] run_rules | assumption | (simp; fail))+

lemma use_names_eats: "eats use_names p"
  unfolding use_names_def eats_def
  by (auto simp: steps intro!: free_wp stays_wp [OF items_until_stays] eats_good eats_expectIdent)

lemma parseUseDispatch_bites:
  assumes "cur_type p = T_Use"
  shows "bites (parseUseDispatch file) p"
  unfolding parseUseDispatch_def
  by (rule bites_keyword [OF assms]) (rule run_good expectIdentOrKeyword_good run_eats use_names_eats run_rules | (simp; fail))+

lemma parseValStmt_bites:
  assumes "recs P n" "left p \<le> n" "cur_type p = T_Val \<or> cur_type p = T_Var"
  shows "bites (parseValStmt P) p"
proof -
  have kw: "wp (if check T_Var p then expect T_Var else expect T_Val) Q E p"
    if "\<And>q. moved p q \<Longrightarrow> Q (current p) q" for Q E
    using assms(3) that by (auto simp: check_def intro!: expect_there)
  have rest: "run p True (bnd (ifP (check T_LParen)
           (bnd parser_advance (\<lambda>_. bnd (items_until T_RParen expectIdent) (\<lambda>names. bnd (expect T_RParen) (\<lambda>_.
              ret (zero_pos, [], names)))))
           (bnd pos_now (\<lambda>namePos. bnd expectIdent (\<lambda>name. ret (namePos, name, []))))) (\<lambda>(namePos, name, names).
     bnd (parser_match T_Colon) (\<lambda>colon.
     bnd (if colon then bnd parseTypeRef (\<lambda>t. ret (Some t)) else ret None) (\<lambda>typ.
     bnd (expect T_Assign) (\<lambda>_.
     bnd (parseExpr P precNone) (\<lambda>val.
     ret (ValStmt ps namePos name names typ val mutable))))))) True" for ps mutable
    unfolding monad_laws
    by (rule run_items run_good eats_good eats_expectIdent run_eats parseTypeRef_eats parseExpr_good [OF assms(1)] on_left [OF _ assms(2)] run_rules
      | assumption | (simp; fail))+
  show ?thesis
    unfolding parseValStmt_def bites_def
    by (subst wp_bnd, subst pos_now_wp, subst wp_bnd, subst wp_asks, subst wp_bnd, rule kw, rule run_wp [OF rest]) (auto simp: steps)
qed

section \<open>Files\<close>

text \<open>At a token, the parsing of a declaration consumes it even when it bails out.\<close>

lemma parseTopLevelExtended_bites:
  assumes "recs P n" "left p \<le> n" "cur_type p \<noteq> T_EOF"
  shows "bites (parseTopLevelExtended P file) p"
proof -
  note d = parseError_bites [OF assms(1,2)] parseExtend_bites [OF assms(1,2)] parseUseDispatch_bites [of p]
    parseMiddleware_bites [OF assms(1,2)] parseEvent_bites [OF assms(1,2)] parseOn_bites [OF assms(1,2)]
    parseValStmt_bites [OF assms(1,2)]
  have comment: "bites (bnd handleNonDecl (\<lambda>_. ret file)) p" if "cur_type p = T_Comment \<or> cur_type p = T_EOF"
    using that assms(3) by (auto simp: handleNonDecl_def bites_def check_def steps intro!: advance_wp)
  have unexpected: "bites (bnd (parser_error m) (\<lambda>_. bnd parser_advance (\<lambda>_. ret file))) p" for m
    using assms(3) by (auto simp: bites_def steps intro!: plain_wp)
  show ?thesis
    unfolding parseTopLevelExtended_def
    by (rule bites_pick(1), intro bites_pick(2) comment unexpected bites_ret d)
qed

lemma consumeDoc_moves: "wp consumeDoc (\<lambda>_ q. q = p \<or> moved p q) (\<lambda>q. stuck p q \<and> left q < left p) p"
proof (cases "cur_type p = T_DocComment")
  case False
  then show ?thesis by (simp add: consumeDoc_def wp_def whileP_def ifP_def check_def ret_def)
next
  case True
  let ?b = "\<lambda>_ :: unit. bnd add_doc (\<lambda>_. bnd parser_advance (\<lambda>_. ret ()))"
  have body: "wp (?b x) (\<lambda>x' q'. on q q' \<and> (left q' < left q \<or> \<not> check T_DocComment q')) (stuck q) q"
    if "check T_DocComment q" for x q
    using that by (auto simp: steps check_def intro!: plain_wp)
  have rest: "wp (loop_n (Suc (left p)) (\<lambda>_. check T_DocComment) ?b ()) (\<lambda>x' q'. on q q' \<and> \<not> check T_DocComment q') (stuck q) q"
    if "left q < left p" for q
    by (rule loop_n_wp) (use body that in \<open>auto simp: on_def\<close>)
  have "wp (loop_n (Suc (Suc (left p))) (\<lambda>_. check T_DocComment) ?b ())
      (\<lambda>_ q. q = p \<or> moved p q) (\<lambda>q. stuck p q \<and> left q < left p) p"
    by (subst loop_n.simps(2))
      (use True in \<open>auto simp: steps check_def [of T_DocComment p] simp del: loop_n.simps
        intro!: add_doc_wp advance_wp wp_mono [OF rest]\<close>)
  then show ?thesis by (simp add: consumeDoc_def whileP_def wp_def)
qed

lemma parseTopLevel_bites:
  assumes "recs P n" "left p \<le> n" "cur_type p \<noteq> T_EOF"
  shows "bites (parseTopLevel P file) p"
proof -
  define D where "D = (\<lambda>t.
     if t = T_Model then bnd (parseModel P) (\<lambda>d. ret (file\<lparr>Models := Models file @ [d]\<rparr>))
     else if t = T_Interface then bnd (parseInterface P) (\<lambda>d. ret (file\<lparr>Interfaces := Interfaces file @ [d]\<rparr>))
     else if t = T_Enum then bnd parseEnum (\<lambda>d. ret (file\<lparr>Enums := Enums file @ [d]\<rparr>))
     else if t = T_Sealed then bnd (parseSealed P) (\<lambda>d. ret (file\<lparr>Sealeds := Sealeds file @ [d]\<rparr>))
     else if t = T_KwType then bnd (parseType P) (\<lambda>d. ret (file\<lparr>Types := Types file @ [d]\<rparr>))
     else if t = T_Api \<or> t = T_Override then bnd (parseAPIOrOverride P) (\<lambda>d. ret (file\<lparr>APIs := APIs file @ [d]\<rparr>))
     else if t = T_Fn then bnd (parseFn P) (\<lambda>d. ret (file\<lparr>Functions := Functions file @ [d]\<rparr>))
     else parseTopLevelExtended P file)"
  have top: "parseTopLevel P file = bnd consumeDoc (\<lambda>_. bnd (asks cur_type) D)"
    unfolding parseTopLevel_def D_def by (rule refl)
  have dispatch: "bites (D (cur_type q)) q" if q: "left q \<le> n" "cur_type q \<noteq> T_EOF" for q
  proof -
    note d = parseModel_bites [OF assms(1) q(1)] parseInterface_bites [OF assms(1) q(1)] parseEnum_bites [of q]
      parseSealed_bites [OF assms(1) q(1)] parseType_bites [OF assms(1) q(1)] parseAPI_bites [OF assms(1) q(1)]
      parseOverrideAPI_bites [OF assms(1) q(1)] parseFn_bites [OF assms(1) q(1)] parseTopLevelExtended_bites [OF assms(1) q]
    show ?thesis
      unfolding bites_def parseAPIOrOverride_def D_def
      by (simp add: check_def, intro conjI impI) (auto simp: steps intro!: d [THEN bites_wp])
  qed
  have fin: "wp (D (cur_type q)) Q E q" if "cur_type q = T_EOF" "\<And>x. Q x q" for q Q E
    using that by (simp add: D_def parseTopLevelExtended_def handleNonDecl_def check_def)
  have nxt: "wp (D (cur_type q)) (\<lambda>_. moved p) (\<lambda>q. stuck p q \<and> left q < left p) q" if "q = p \<or> moved p q" for q
  proof (cases "cur_type q = T_EOF")
    case True
    show ?thesis by (rule fin [OF True]) (use that assms(3) True in auto)
  next
    case False
    have "left q \<le> n" using that assms(2) by (auto simp: steps)
    then show ?thesis by (rule bites_wp [OF dispatch]) (use that False in \<open>auto simp: steps\<close>)
  qed
  show ?thesis
    unfolding bites_def top wp_bnd wp_asks
    apply (rule wp_mono [OF consumeDoc_moves])
     apply (erule nxt)
    by blast
qed

text \<open>Recovery ends the panic, and so does the whole file.\<close>

lemma loop_n_no_bail: "(\<And>x q. fst (b x q) \<noteq> Bailout) \<Longrightarrow> fst (loop_n k c b x p) \<noteq> Bailout"
proof (induction k arbitrary: x p)
  case (Suc k)
  then show ?case by (auto simp: ifP_def bnd_def ret_def split: prod.split outcome.split) (metis fst_conv)+
qed simp

lemma whileP_no_bail: "(\<And>x q. fst (b x q) \<noteq> Bailout) \<Longrightarrow> fst (whileP c b x p) \<noteq> Bailout"
  unfolding whileP_def by (rule loop_n_no_bail)

lemma synchronize_stays: "stays synchronize p"
  unfolding synchronize_def stays_def
  by (rule whileP_wp) (auto simp: steps isEOF_def intro!: plain_wp)

lemma synchronize_no_bail: "fst (synchronize p) \<noteq> Bailout"
  unfolding synchronize_def by (rule whileP_no_bail) (simp add: bnd_def advance_adv ret_def)

lemma parseTopLevelRecover_wp:
  assumes "recs P n" "left p \<le> n" "cur_type p \<noteq> T_EOF"
  shows "wp (parseTopLevelRecover P file) (\<lambda>_. moved p) (stuck p) p"
proof (cases "parseTopLevel P file p")
  case (Pair r q)
  then show ?thesis
    using parseTopLevel_bites [OF assms, of "file"] synchronize_stays [of q]
    by (cases r) (auto simp: bites_def wp_def parseTopLevelRecover_def bnd_def ret_def steps stays_def split: prod.splits outcome.splits)
qed

lemma parseTopLevelRecover_no_bail: "fst (parseTopLevelRecover P file p) \<noteq> Bailout"
  using synchronize_no_bail by (auto simp: parseTopLevelRecover_def bnd_def ret_def split: prod.splits outcome.splits) (metis fst_conv)

lemma parse_file_wp:
  "wp (parse_file name) (\<lambda>_ q. on p q \<and> isEOF q) (\<lambda>_. False) p"
proof -
  have w: "wp (parse_file name) (\<lambda>_ q. on p q \<and> isEOF q) (stuck p) p"
  proof -
    define P where "P = knot (length (toks p) + 1)"
    have P: "recs P (length (toks p) + 1)" unfolding P_def by (rule recs_knot)
    have "wp (whileP (\<lambda>_ p. \<not> isEOF p) (parseTopLevelRecover P) (empty_file name)) (\<lambda>_ q. on p q \<and> isEOF q) (stuck p) p"
      by (rule whileP_wp) (auto simp: isEOF_def on_def moved_def left_def intro!: wp_mono [OF parseTopLevelRecover_wp [OF P]])
    then show ?thesis by (simp add: wp_def parse_file_def P_def)
  qed
  moreover have "fst (parse_file name p) \<noteq> Bailout"
    unfolding parse_file_def by (rule whileP_no_bail [OF parseTopLevelRecover_no_bail])
  ultimately show ?thesis by (auto simp: wp_def split: prod.splits outcome.splits)
qed

end
