(* ===== verification/Complete.thy ===== *)
theory Complete
  imports Parsing
begin

text \<open>
  What the parser promises about a file it reports no error for: the tree is complete, that is, no
  child that the rest of the compiler dereferences is nil, and the recovery at the top level was not
  used. Both follow from one judgement on the steps of the parser, which is proved for every
  function by taking its definition apart with the monad laws.
\<close>


section \<open>Complete trees\<close>

text \<open>An optional child that must be there.\<close>

definition given :: "('a \<Rightarrow> bool) \<Rightarrow> 'a option \<Rightarrow> bool" where
  "given Q x = (case x of None \<Rightarrow> False | Some y \<Rightarrow> Q y)"

lemma given_simps [simp]: "given Q None = False" "given Q (Some y) = Q y"
  by (simp_all add: given_def)

lemma given_cong [fundef_cong]: "x = y \<Longrightarrow> (\<And>z. z \<in> set_option y \<Longrightarrow> Q z = R z) \<Longrightarrow> given Q x = given R y"
  by (cases y) auto

lemma pred_option_cong' [fundef_cong]: "x = y \<Longrightarrow> (\<And>z. z \<in> set_option y \<Longrightarrow> Q z = R z) \<Longrightarrow> pred_option Q x = pred_option R y"
  by (cases y) auto

fun complete :: "Expr \<Rightarrow> bool"
  and complete_arg :: "NamedArg \<Rightarrow> bool"
  and complete_branch :: "WhenBranch \<Rightarrow> bool"
  and complete_stmt :: "Stmt \<Rightarrow> bool"
  and complete_block :: "Block \<Rightarrow> bool"
where
  "complete (Literal _ _ _) = True"
| "complete (Ident _ _) = True"
| "complete (MemberExpr _ e _ _) = complete e"
| "complete (CallExpr _ f as) = (complete f \<and> list_all complete_arg as)"
| "complete (BinaryExpr _ l op r) = ((l = None \<and> op = lit ''in'' \<or> given complete l) \<and> given complete r)"
| "complete (UnaryExpr _ _ v) = given complete v"
| "complete (ElvisExpr _ l r) = (complete l \<and> given complete r)"
| "complete (BangElvisExpr _ l r) = (complete l \<and> given complete r)"
| "complete (WhenExpr _ s brs els) = (pred_option complete s \<and> list_all complete_branch brs \<and> pred_option complete els)"
| "complete (LambdaExpr _ _ b) = complete_block b"
| "complete (ListExpr _ es) = list_all (given complete) es"
| "complete (ObjectExpr _ _ as) = list_all complete_arg as"
| "complete (TemplateString _ es) = list_all (given complete) es"
| "complete (RangeExpr _ l r) = (complete l \<and> given complete r)"
| "complete (YieldExpr _ v) = given complete v"
| "complete (AsyncExpr _ b) = complete_block b"
| "complete (AwaitExpr _ b) = complete_block b"
| "complete (ForExpr _ _ c b) = (pred_option complete c \<and> complete_block b)"
| "complete_arg (NamedArg _ v) = given complete v"
| "complete_branch (WhenBranch c _ b) = (pred_option complete c \<and> given complete b)"
| "complete_stmt (ValStmt _ _ _ _ _ v _) = given complete v"
| "complete_stmt (IfStmt _ c b) = (given complete c \<and> complete_block b)"
| "complete_stmt (ForStmt _ _ c b) = (pred_option complete c \<and> complete_block b)"
| "complete_stmt (ReturnStmt _ v) = given complete v"
| "complete_stmt (ThrowStmt _ v) = given complete v"
| "complete_stmt (EmitStmt _ _ as) = list_all complete_arg as"
| "complete_stmt (AssignStmt _ l _ r) = (given complete l \<and> given complete r)"
| "complete_stmt (BreakStmt _) = True"
| "complete_stmt (ContinueStmt _) = True"
| "complete_stmt (ExprStmt _ v) = given complete v"
| "complete_stmt NilExprStmt = False"
| "complete_block (Block _ _ ss) = list_all complete_stmt ss"

fun complete_directive :: "Directive \<Rightarrow> bool" where
  "complete_directive (Directive _ _ as b) = (list_all complete_arg as \<and> pred_option complete_block b)"

definition complete_param :: "ParamDecl \<Rightarrow> bool" where
  "complete_param d = pred_option complete (parDefault d)"

definition complete_field :: "FieldDecl \<Rightarrow> bool" where
  "complete_field d \<longleftrightarrow> pred_option complete (fldDefault d) \<and> list_all complete_directive (fldDirectives d) \<and>
     pred_option (\<lambda>c. list_all complete_directive (compDirectives c) \<and> pred_option complete_block (compBody c)) (fldComputed d)"

definition complete_scope :: "ScopeDecl \<Rightarrow> bool" where
  "complete_scope d \<longleftrightarrow> list_all complete_param (scpParams d) \<and> given complete (scpExpr d)"

definition complete_model :: "ModelDecl \<Rightarrow> bool" where
  "complete_model d \<longleftrightarrow> list_all complete_field (mdlFields d) \<and> list_all complete_scope (mdlScopes d) \<and>
     list_all complete_directive (mdlDirectives d)"

definition complete_fn :: "FnDecl \<Rightarrow> bool" where
  "complete_fn d \<longleftrightarrow> list_all complete_param (fnParams d) \<and> list_all complete_directive (fnDirectives d) \<and>
     pred_option complete_block (fnBody d)"

definition complete_interface :: "InterfaceDecl \<Rightarrow> bool" where
  "complete_interface d \<longleftrightarrow> list_all complete_field (ifcFields d) \<and> list_all complete_fn (ifcMethods d)"

definition complete_api :: "ApiDecl \<Rightarrow> bool" where
  "complete_api d \<longleftrightarrow> list_all complete_param (apiParams d) \<and> list_all complete_directive (apiDirectives d) \<and>
     pred_option complete_block (apiBody d)"

definition complete_middleware :: "MiddlewareDecl \<Rightarrow> bool" where
  "complete_middleware d \<longleftrightarrow> list_all complete_directive (mwDirectives d) \<and> pred_option complete_block (mwBody d)"

definition complete_file :: "ast_File \<Rightarrow> bool" where
  "complete_file f \<longleftrightarrow>
     list_all complete_model (Models f) \<and> list_all complete_interface (Interfaces f) \<and>
     list_all (\<lambda>d. list_all (\<lambda>v. list_all complete_param (varFields v)) (sldVariants d)) (Sealeds f) \<and>
     list_all (\<lambda>d. list_all complete_field (tydFields d)) (Types f) \<and>
     list_all complete_api (APIs f) \<and> list_all complete_fn (Functions f) \<and>
     list_all (\<lambda>d. list_all complete_param (errFields d)) (Errors f) \<and>
     list_all (\<lambda>d. list_all complete_field (extFields d)) (Extends f) \<and>
     list_all complete_middleware (Middlewares f) \<and>
     list_all (\<lambda>d. list_all complete_param (evtParams d)) (Events f) \<and>
     list_all (\<lambda>d. pred_option complete_block (onBody d)) (Listeners f) \<and>
     list_all complete_stmt (Globals f)"

section \<open>Clean steps\<close>

text \<open>A step is clean when it never takes an error back, reports one before it panics, and, if it reports none and
  C holds, returns what Q describes.\<close>

definition clean :: "bool \<Rightarrow> ('a \<Rightarrow> bool) \<Rightarrow> 'a parser \<Rightarrow> bool" where
  "clean C Q m \<longleftrightarrow>
     (\<forall>p. case m p of
        (Done x, q) \<Rightarrow> length (errs p) \<le> length (errs q) \<and> (C \<and> length (errs q) = length (errs p) \<longrightarrow> Q x)
      | (Bailout, q) \<Rightarrow> length (errs p) < length (errs q)
      | (OutOfFuel, q) \<Rightarrow> True)"

abbreviation tidy :: "bool \<Rightarrow> 'a parser \<Rightarrow> bool" where
  "tidy C \<equiv> clean C (\<lambda>_. True)"

lemma clean_mono:
  assumes "clean C' R m" "C \<Longrightarrow> C'" "\<And>x. C \<Longrightarrow> R x \<Longrightarrow> Q x"
  shows "clean C Q m"
  unfolding clean_def
proof (intro allI)
  fix p
  show "case m p of (Done x, q) \<Rightarrow> length (errs p) \<le> length (errs q) \<and> (C \<and> length (errs q) = length (errs p) \<longrightarrow> Q x)
      | (Bailout, q) \<Rightarrow> length (errs p) < length (errs q) | (OutOfFuel, q) \<Rightarrow> True"
    using assms(1) [unfolded clean_def, rule_format, of p] assms(2,3)
    by (auto split: prod.splits outcome.splits)
qed

lemma clean_bnd:
  assumes "clean C R m" "\<And>x. clean (C \<and> R x) Q (f x)"
  shows "clean C Q (bnd m f)"
  unfolding clean_def
proof (intro allI)
  fix p
  obtain r q where m: "m p = (r, q)" by fastforce
  show "case bnd m f p of (Done x, q) \<Rightarrow> length (errs p) \<le> length (errs q) \<and> (C \<and> length (errs q) = length (errs p) \<longrightarrow> Q x)
      | (Bailout, q) \<Rightarrow> length (errs p) < length (errs q) | (OutOfFuel, q) \<Rightarrow> True"
  proof (cases r)
    case (Done x)
    then show ?thesis
      using assms(1) [unfolded clean_def, rule_format, of p] assms(2) [of x, unfolded clean_def, rule_format, of q] m
      by (auto simp: bnd_def split: prod.splits outcome.splits)
  qed (use assms(1) [unfolded clean_def, rule_format, of p] m in \<open>auto simp: bnd_def\<close>)
qed

lemma clean_ret: "(C \<Longrightarrow> Q x) \<Longrightarrow> clean C Q (ret x)"
  by (simp add: clean_def ret_def)

lemma clean_asks: "clean C (\<lambda>_. True) (asks f)"
  by (simp add: clean_def asks_def)

lemma clean_ifP: "clean C Q m1 \<Longrightarrow> clean C Q m2 \<Longrightarrow> clean C Q (ifP c m1 m2)"
  by (auto simp: clean_def ifP_def)

lemma clean_if: "(b \<Longrightarrow> clean C Q m1) \<Longrightarrow> (\<not> b \<Longrightarrow> clean C Q m2) \<Longrightarrow> clean C Q (if b then m1 else m2)"
  by simp

lemma clean_option:
  "(x = None \<Longrightarrow> clean C Q m) \<Longrightarrow> (\<And>y. x = Some y \<Longrightarrow> clean C Q (f y)) \<Longrightarrow> clean C Q (case x of None \<Rightarrow> m | Some y \<Rightarrow> f y)"
  by (cases x) auto

lemma clean_prod: "(\<And>a b. x = (a, b) \<Longrightarrow> clean C Q (f a b)) \<Longrightarrow> clean C Q (case x of (a, b) \<Rightarrow> f a b)"
  by (cases x) auto

lemma clean_error:
  assumes "clean False Q (f ())"
  shows "clean C Q (bnd (parser_error msg) f)"
  unfolding clean_def
proof (intro allI)
  fix p
  show "case bnd (parser_error msg) f p of (Done x, q) \<Rightarrow> length (errs p) \<le> length (errs q) \<and> (C \<and> length (errs q) = length (errs p) \<longrightarrow> Q x)
      | (Bailout, q) \<Rightarrow> length (errs p) < length (errs q) | (OutOfFuel, q) \<Rightarrow> True"
    using assms [unfolded clean_def, rule_format, of "snd (parser_error msg p)"]
    by (auto simp: bnd_def parser_error_def split: prod.splits outcome.splits)
qed

lemma clean_fail: "clean C Q (bnd (parser_error msg) (\<lambda>_. bailout))"
  by (simp add: clean_def bnd_def parser_error_def bailout_def)

lemma clean_advance: "clean C (\<lambda>_. True) parser_advance"
  by (simp add: clean_def parser_advance_def)

lemma clean_while:
  assumes "\<And>x. clean (I x) I (b x)" "C \<Longrightarrow> I x"
  shows "clean C I (whileP c b x)"
proof -
  have "clean C I (loop_n k c b x)" for k
    using assms(2)
  proof (induction k arbitrary: C x)
    case (Suc k)
    show ?case
      unfolding loop_n.simps
    proof (intro clean_ifP clean_ret)
      show "clean C I (bnd (b x) (loop_n k c b))"
        by (rule clean_bnd [OF clean_mono [OF assms(1) [of x], where Q = I]]) (auto intro: Suc.IH Suc.prems)
    qed (rule Suc.prems)
  qed (simp add: clean_def)
  then show ?thesis by (simp add: clean_def whileP_def del: loop_n.simps)
qed

lemmas clean_rules = clean_asks clean_advance clean_fail clean_error clean_ifP clean_if clean_option clean_prod clean_ret clean_bnd

lemma given_pred [simp]: "given Q x \<Longrightarrow> pred_option Q x"
  by (cases x) auto

text \<open>Token operations.\<close>

lemma clean_match: "tidy C (parser_match t)"
  unfolding parser_match_def monad_laws by (rule clean_rules | simp)+

lemma clean_expect: "tidy C (expect t)"
  unfolding expect_def monad_laws by (rule clean_rules | simp)+

lemma clean_expectIdent: "tidy C expectIdent"
  unfolding expectIdent_def monad_laws by (rule clean_rules | simp)+

lemma clean_expectIdentOrKeyword: "tidy C expectIdentOrKeyword"
  unfolding expectIdentOrKeyword_def monad_laws by (rule clean_rules | simp)+

lemma clean_pos_now: "tidy C pos_now"
  unfolding pos_now_def by (rule clean_asks)

lemma clean_add_doc: "tidy C add_doc"
  by (simp add: clean_def add_doc_def)

lemma clean_takeDoc: "tidy C takeDoc"
  by (simp add: clean_def takeDoc_def)

lemma clean_set_pos: "tidy C (set_pos n)"
  by (simp add: clean_def set_pos_def)

lemmas clean_tokens = clean_match clean_expect clean_expectIdent clean_expectIdentOrKeyword clean_pos_now clean_add_doc
  clean_takeDoc clean_set_pos

text \<open>Loops.\<close>

lemma clean_until: "(\<And>x. clean (I x) I (b x)) \<Longrightarrow> (C \<Longrightarrow> I x) \<Longrightarrow> clean C I (until t b x)"
  unfolding until_def by (rule clean_while)

lemma clean_tidy_while: "(\<And>x. tidy True (b x)) \<Longrightarrow> tidy C (whileP c b x)"
  by (rule clean_while) auto

lemma clean_append:
  "(\<And>C. clean C Q item) \<Longrightarrow> clean (list_all Q acc) (list_all Q) (bnd item (\<lambda>x. bnd (parser_match T_Comma) (\<lambda>_. ret (acc @ [x]))))"
  by (rule clean_bnd, assumption) (rule clean_tokens clean_rules | simp)+

lemma clean_items_until: "(\<And>C. clean C Q item) \<Longrightarrow> clean C (list_all Q) (items_until t item)"
  unfolding items_until_def by (rule clean_until) (auto intro: clean_append)

lemma clean_comma_list:
  assumes "\<And>C. clean C Q item"
  shows "clean C (list_all Q) (comma_list item)"
proof -
  have "clean C (\<lambda>(acc, _). list_all Q acc) (whileP (\<lambda>(acc, again) _. again)
     (\<lambda>(acc, _). bnd item (\<lambda>x. bnd (parser_match T_Comma) (\<lambda>again. ret (acc @ [x], again)))) ([], True))"
    by (rule clean_while) (rule assms clean_tokens clean_rules | simp)+
  then show ?thesis
    unfolding comma_list_def by (rule clean_bnd) (rule clean_rules | simp)+
qed

lemma clean_consumeDoc: "tidy C consumeDoc"
  unfolding consumeDoc_def monad_laws by (rule clean_tidy_while clean_tokens clean_rules | simp)+

lemma clean_parseQualifiedName: "tidy C parseQualifiedName"
  unfolding parseQualifiedName_def monad_laws
  by (rule clean_tidy_while clean_tokens clean_rules | simp)+

lemma tidy_comma_list: "(\<And>C. tidy C item) \<Longrightarrow> tidy C (comma_list item)"
  by (rule clean_mono [OF clean_comma_list [where Q = "\<lambda>_. True"]]) auto

lemma tidy_items_until: "(\<And>C. tidy C item) \<Longrightarrow> tidy C (items_until t item)"
  by (rule clean_mono [OF clean_items_until [where Q = "\<lambda>_. True"]]) auto

lemma clean_parseTypeRef_n: "tidy C (parseTypeRef_n n)"
proof (induction n arbitrary: C)
  case (Suc n)
  show ?case
    unfolding parseTypeRef_n.simps monad_laws
    by (rule Suc.IH tidy_comma_list clean_tokens clean_rules | simp)+
qed (simp add: clean_def)

lemma clean_parseTypeRef: "tidy C parseTypeRef"
  using clean_parseTypeRef_n by (simp add: clean_def parseTypeRef_def del: parseTypeRef_n.simps)

lemma clean_tryParseLambdaParams: "tidy C tryParseLambdaParams"
  unfolding tryParseLambdaParams_def monad_laws
  by (rule clean_tidy_while clean_tokens clean_rules | simp)+

lemmas clean_names = clean_consumeDoc clean_parseQualifiedName clean_parseTypeRef clean_tryParseLambdaParams


section \<open>Expressions and statements\<close>

definition clean_recs :: "parsers \<Rightarrow> bool" where
  "clean_recs P \<longleftrightarrow>
     (\<forall>k. clean True (given complete) (rExpr P k)) \<and> clean True (given complete) (rCondition P) \<and>
     clean True (given complete) (rWhenCondition P) \<and> clean True (given complete) (rForCondition P) \<and>
     clean True (pred_option complete_stmt) (rStmt P)"

lemma clean_rec:
  assumes "clean_recs P"
  shows "clean C (given complete) (rExpr P k)" "clean C (given complete) (rCondition P)"
    "clean C (given complete) (rWhenCondition P)" "clean C (given complete) (rForCondition P)"
    "clean C (pred_option complete_stmt) (rStmt P)"
  using assms by (auto simp: clean_recs_def elim!: clean_mono)

lemma clean_parse_stmts: "clean_recs P \<Longrightarrow> clean C (list_all complete_stmt) (parse_stmts P)"
  unfolding parse_stmts_def by (rule clean_until clean_rec clean_rules | assumption | (auto split: option.split; fail))+

lemma clean_parseLambdaExpr: "clean_recs P \<Longrightarrow> clean C complete (parseLambdaExpr P)"
  unfolding parseLambdaExpr_def monad_laws by (rule clean_parse_stmts clean_names clean_tokens clean_rules | assumption | simp)+

lemma clean_parseBlock: "clean_recs P \<Longrightarrow> clean C complete_block (parseBlock P)"
  unfolding parseBlock_def monad_laws by (rule clean_parse_stmts clean_names clean_tokens clean_rules | assumption | simp)+

lemmas clean_blocks = clean_parseLambdaExpr clean_parseBlock clean_rec

lemma clean_parseCallArgs:
  assumes "clean_recs P" "C \<Longrightarrow> complete fn"
  shows "clean C complete (parseCallArgs P ps fn)"
proof -
  have w: "clean C (\<lambda>(args, _). list_all complete_arg args)
     (whileP (\<lambda>(args, stop) p. \<not> stop \<and> \<not> check T_RParen p \<and> \<not> isEOF p)
           (\<lambda>(args, _).
              bnd (ifP (\<lambda>p. check T_Ident p \<and> peekType p = T_Colon)
                    (bnd expectIdent (\<lambda>name. bnd (expect T_Colon) (\<lambda>_. bnd (asks (check T_RParen)) (\<lambda>stop. ret (name, stop)))))
                    (ret ([], False))) (\<lambda>(name, stop).
              if stop then ret (args, True)
              else bnd (rExpr P precNone) (\<lambda>val.
                case val of
                  None \<Rightarrow> ret (args, True)
                | Some _ \<Rightarrow> bnd (parser_match T_Comma) (\<lambda>_. ret (args @ [NamedArg name val], False))))) ([], False))" for C
    by (rule clean_while, unfold monad_laws) (rule clean_rec clean_tokens clean_rules | rule assms(1) | simp)+
  show ?thesis
    unfolding parseCallArgs_def by (rule w clean_blocks clean_tokens clean_rules | rule assms(1) | simp add: assms(2))+
qed

lemma clean_parseObjectConstruction: "clean_recs P \<Longrightarrow> clean C complete (parseObjectConstruction P ps n)"
  unfolding parseObjectConstruction_def monad_laws
  by (rule clean_items_until [where Q = complete_arg] clean_rec clean_tokens clean_rules | assumption | simp)+

lemma clean_parseListExpr: "clean_recs P \<Longrightarrow> clean C complete (parseListExpr P ps)"
  unfolding parseListExpr_def monad_laws
  by (rule clean_items_until [where Q = "given complete"] clean_rec clean_tokens clean_rules | assumption | simp)+

lemma complete_template_text [simp]: "list_all (given complete) (template_text t)"
  by (simp add: template_text_def)

lemma clean_parseTemplateString: "clean_recs P \<Longrightarrow> clean C complete (parseTemplateString P ps)"
  unfolding parseTemplateString_def monad_laws
  by (rule clean_while [where I = "list_all (given complete)"] clean_rec clean_tokens clean_rules | assumption | simp)+

lemma clean_parseLiteral: "clean C complete (parseLiteral ps)"
  unfolding parseLiteral_def monad_laws by (rule clean_rules | simp)+

lemma clean_parseWhenBody: "clean_recs P \<Longrightarrow> clean C (given complete) (parseWhenBody P)"
  unfolding parseWhenBody_def monad_laws by (rule clean_blocks clean_rules | assumption | simp)+

lemma clean_parse_when_branch: "clean_recs P \<Longrightarrow> clean C complete_branch (parse_when_branch P)"
  unfolding parse_when_branch_def monad_laws
  by (rule clean_parseWhenBody clean_rec clean_tokens clean_rules | assumption | simp)+

lemma clean_parseWhenExpr: "clean_recs P \<Longrightarrow> clean C complete (parseWhenExpr P ps)"
  unfolding parseWhenExpr_def monad_laws
  by (rule clean_until [where I = "\<lambda>(brs, els). list_all complete_branch brs \<and> pred_option complete els"]
      clean_parse_when_branch clean_parseWhenBody clean_rec clean_tokens clean_rules | assumption | simp)+

lemma clean_parsePrefixUnary: "clean_recs P \<Longrightarrow> clean C complete (parsePrefixUnary P ps)"
  unfolding parsePrefixUnary_def monad_laws by (rule clean_rec clean_rules | assumption | simp)+

lemma clean_parseParenExpr: "clean_recs P \<Longrightarrow> clean C (given complete) (parseParenExpr P)"
  unfolding parseParenExpr_def monad_laws by (rule clean_rec clean_tokens clean_rules | assumption | simp)+

lemma clean_parseConcurrencyExpr: "clean_recs P \<Longrightarrow> clean C complete (parseConcurrencyExpr P ps)"
  unfolding parseConcurrencyExpr_def monad_laws by (rule clean_blocks clean_rules | assumption | simp)+

lemma clean_parseIdentOrConstruction: "clean_recs P \<Longrightarrow> clean C complete (parseIdentOrConstruction P ps)"
  unfolding parseIdentOrConstruction_def monad_laws by (rule clean_parseObjectConstruction clean_rules | assumption | simp)+

lemma clean_parseForStmt: "clean_recs P \<Longrightarrow> clean C (\<lambda>(_, _, c, body). pred_option complete c \<and> complete_block body) (parseForStmt P)"
  unfolding parseForStmt_def monad_laws by (rule clean_blocks clean_tokens clean_rules | assumption | simp)+

lemmas clean_prefixes = clean_parseTemplateString clean_parseLiteral clean_parseIdentOrConstruction clean_parsePrefixUnary
  clean_parseParenExpr clean_parseListExpr clean_parseWhenExpr clean_parseConcurrencyExpr clean_parseForStmt

lemma clean_parsePrefixExpr: "clean_recs P \<Longrightarrow> clean C (given complete) (parsePrefixExpr P)"
  unfolding parsePrefixExpr_def someP_def monad_laws
  by (rule clean_prefixes clean_tokens clean_rules | assumption | simp)+

lemma clean_parseInfixExpr:
  assumes "clean_recs P" "C \<Longrightarrow> complete lhs"
  shows "clean C complete (parseInfixExpr P lhs)"
  unfolding parseInfixExpr_def monad_laws
  by (rule clean_parseCallArgs clean_blocks clean_tokens clean_rules | rule assms(1) | simp add: assms(2))+

lemma clean_infix_loop:
  assumes "clean_recs P" "C \<Longrightarrow> complete lhs"
  shows "clean C complete (infix_loop P prec lhs)"
  unfolding infix_loop_def monad_laws
  by (rule clean_while [where I = "\<lambda>(e, _). complete e"] clean_parseInfixExpr clean_rules | rule assms(1) | simp add: assms(2))+

lemma clean_parseExpr: "clean_recs P \<Longrightarrow> clean C (given complete) (parseExpr P prec)"
  unfolding parseExpr_def someP_def monad_laws
  by (rule clean_parsePrefixExpr clean_infix_loop clean_rules | assumption | simp)+

lemma clean_parseWhenCondition: "clean_recs P \<Longrightarrow> clean C (given complete) (parseWhenCondition P)"
  unfolding parseWhenCondition_def someP_def monad_laws
  by (rule clean_parsePrefixExpr clean_while [where I = complete] clean_parseInfixExpr clean_rules | assumption | simp)+

lemma clean_with_noBraceLambda: "clean C Q m \<Longrightarrow> clean C Q (with_noBraceLambda m)"
  unfolding clean_def with_noBraceLambda_def
proof (intro allI, goal_cases)
  case (1 p)
  then show ?case by (auto split: prod.splits outcome.splits dest!: spec [of _ "p\<lparr>noBraceLambda := True\<rparr>"])
qed

lemma clean_parseConditionExpr: "clean_recs P \<Longrightarrow> clean C (given complete) (parseConditionExpr P)"
  unfolding parseConditionExpr_def someP_def monad_laws
  by (rule clean_with_noBraceLambda clean_parsePrefixExpr clean_while [where I = complete] clean_parseInfixExpr clean_rules | assumption | simp)+

lemma clean_for_condition_step:
  assumes "clean_recs P" "C \<Longrightarrow> complete lhs"
  shows "clean C (\<lambda>(e, _). complete e) (for_condition_step P lhs)"
  unfolding for_condition_step_def monad_laws
  by (rule clean_parseCallArgs clean_rec clean_tokens clean_rules | rule assms(1) | simp add: assms(2))+

lemma clean_parseForCondition: "clean_recs P \<Longrightarrow> clean C (given complete) (parseForCondition P)"
  unfolding parseForCondition_def monad_laws
  by (rule clean_parsePrefixExpr clean_while [where I = "\<lambda>(e, _). complete e"] clean_for_condition_step clean_rules | assumption | simp)+

lemma clean_parseAssignStmt: "clean_recs P \<Longrightarrow> clean C complete_stmt (parseAssignStmt P)"
  unfolding parseAssignStmt_def monad_laws by (rule clean_rec clean_tokens clean_rules | assumption | simp)+

lemma clean_parseExprOrAssignStmt: "clean_recs P \<Longrightarrow> clean C complete_stmt (parseExprOrAssignStmt P)"
  unfolding parseExprOrAssignStmt_def monad_laws by (rule clean_parseExpr clean_tokens clean_rules | assumption | simp)+

lemma clean_parseValStmt: "clean_recs P \<Longrightarrow> clean C complete_stmt (parseValStmt P)"
  unfolding parseValStmt_def monad_laws
  by (rule clean_parseExpr tidy_items_until clean_names clean_tokens clean_rules | assumption | simp)+

lemma clean_parseIfStmt: "clean_recs P \<Longrightarrow> clean C complete_stmt (parseIfStmt P)"
  unfolding parseIfStmt_def monad_laws
  by (rule clean_parseConditionExpr clean_blocks clean_tokens clean_rules | assumption | simp)+

lemma clean_parseReturnStmt: "clean_recs P \<Longrightarrow> clean C complete_stmt (parseReturnStmt P)"
  unfolding parseReturnStmt_def monad_laws by (rule clean_parseExpr clean_tokens clean_rules | assumption | simp)+

lemma clean_parseThrowStmt: "clean_recs P \<Longrightarrow> clean C complete_stmt (parseThrowStmt P)"
  unfolding parseThrowStmt_def monad_laws by (rule clean_parseExpr clean_tokens clean_rules | assumption | simp)+

lemma clean_parseEmitStmt: "clean_recs P \<Longrightarrow> clean C complete_stmt (parseEmitStmt P)"
  unfolding parseEmitStmt_def monad_laws
  by (rule clean_until [where I = "list_all complete_arg"] clean_parseExpr clean_tokens clean_rules | assumption
      | (auto split: option.split; fail))+

lemma clean_parseExprStmt: "clean_recs P \<Longrightarrow> clean C complete_stmt (parseExprStmt P)"
  unfolding parseExprStmt_def monad_laws by (rule clean_parseExpr clean_tokens clean_rules | assumption | simp)+

lemmas clean_stmts = clean_parseAssignStmt clean_parseExprOrAssignStmt clean_parseValStmt clean_parseIfStmt clean_parseForStmt
  clean_parseReturnStmt clean_parseThrowStmt clean_parseEmitStmt clean_parseExprStmt

lemma clean_parseStmt: "clean_recs P \<Longrightarrow> clean C (pred_option complete_stmt) (parseStmt P)"
  unfolding parseStmt_def someS_def monad_laws
  by (rule clean_stmts clean_tokens clean_rules | assumption | simp)+

lemma clean_knot: "clean_recs (knot n)"
proof (induction n)
  case 0
  then show ?case by (simp add: clean_recs_def clean_def)
next
  case (Suc n)
  then show ?case
    unfolding clean_recs_def [of "knot (Suc n)"]
    by (simp add: Let_def clean_parseExpr clean_parseConditionExpr clean_parseWhenCondition
        clean_parseForCondition clean_parseStmt)
qed

section \<open>Declarations and files\<close>

lemma clean_parseDirective: "clean_recs P \<Longrightarrow> clean C complete_directive (parseDirective P)"
  unfolding parseDirective_def someP_def monad_laws
  by (rule clean_items_until [where Q = complete_arg] clean_blocks clean_parseExpr clean_tokens clean_rules | assumption | simp)+

lemma clean_parseDirectives: "clean_recs P \<Longrightarrow> clean C (list_all complete_directive) (parseDirectives P)"
  unfolding parseDirectives_def by (rule clean_while clean_parseDirective clean_rules | assumption | simp)+

lemma clean_parseParam: "clean_recs P \<Longrightarrow> clean C complete_param (parseParam P)"
  unfolding parseParam_def monad_laws
  by (rule clean_parseExpr clean_names clean_tokens clean_rules | assumption | simp add: complete_param_def)+

lemma clean_param_list: "clean_recs P \<Longrightarrow> clean C (list_all complete_param) (param_list P)"
  unfolding param_list_def monad_laws
  by (rule clean_items_until [where Q = complete_param] clean_parseParam clean_tokens clean_rules | assumption | simp)+

lemma clean_optional_params: "clean_recs P \<Longrightarrow> clean C (list_all complete_param) (optional_params P)"
  unfolding optional_params_def monad_laws by (rule clean_param_list clean_tokens clean_rules | assumption | simp)+

lemma clean_optional_type: "tidy C optional_type"
  unfolding optional_type_def monad_laws by (rule clean_names clean_tokens clean_rules | simp)+

lemma clean_optional_body: "clean_recs P \<Longrightarrow> clean C (pred_option complete_block) (optional_body P)"
  unfolding optional_body_def monad_laws by (rule clean_blocks clean_rules | assumption | simp)+

lemmas clean_parts = clean_parseDirective clean_parseDirectives clean_param_list clean_optional_params clean_optional_type
  clean_optional_body clean_parseExpr

lemma clean_parseField: "clean_recs P \<Longrightarrow> clean C complete_field (parseField P)"
  unfolding parseField_def monad_laws
  by (rule clean_parts clean_names clean_tokens clean_rules | assumption | simp add: complete_field_def)+

lemma clean_parseComputedField: "clean_recs P \<Longrightarrow> clean C complete_field (parseComputedField P)"
  unfolding parseComputedField_def monad_laws
  by (rule clean_parts clean_names clean_tokens clean_rules | assumption | simp add: complete_field_def)+

lemma clean_parseScope: "clean_recs P \<Longrightarrow> clean C complete_scope (parseScope P)"
  unfolding parseScope_def monad_laws
  by (rule clean_parts clean_tokens clean_rules | assumption | simp add: complete_scope_def)+

lemma clean_decl_head: "tidy C (decl_head kw)"
  unfolding decl_head_def monad_laws by (rule clean_tokens clean_rules | simp)+

lemmas clean_members = clean_parseField clean_parseComputedField clean_parseScope clean_decl_head

lemma clean_model_member:
  assumes "clean_recs P"
  shows "clean (complete_model m) complete_model (model_member P m)"
  unfolding model_member_def monad_laws
  by (rule clean_members clean_parts clean_names clean_tokens clean_rules | rule assms | simp add: complete_model_def)+

lemma clean_parseModel: "clean_recs P \<Longrightarrow> clean C complete_model (parseModel P)"
  unfolding parseModel_def monad_laws
  by (rule clean_until clean_model_member tidy_comma_list clean_members clean_parts clean_tokens clean_rules | assumption
      | (simp; fail) | (simp add: complete_model_def; fail))+

lemma clean_parseFn: "clean_recs P \<Longrightarrow> clean C complete_fn (parseFn P)"
  unfolding parseFn_def monad_laws
  by (rule clean_members clean_parts clean_tokens clean_rules | assumption | simp add: complete_fn_def)+

lemma clean_parseInterface: "clean_recs P \<Longrightarrow> clean C complete_interface (parseInterface P)"
  unfolding parseInterface_def monad_laws
  by (rule clean_until [where I = complete_interface] clean_parseFn clean_members clean_names clean_tokens clean_rules | assumption
      | (simp; fail) | (simp add: complete_interface_def; fail))+

lemma clean_parseEnum: "tidy C parseEnum"
  unfolding parseEnum_def monad_laws
  by (rule clean_until [where I = "\<lambda>_. True"] clean_members clean_tokens clean_rules | simp)+

lemma clean_parseSealed: "clean_recs P \<Longrightarrow> clean C (\<lambda>d. list_all (\<lambda>v. list_all complete_param (varFields v)) (sldVariants d)) (parseSealed P)"
  unfolding parseSealed_def monad_laws
  by (rule clean_until [where I = "list_all (\<lambda>v. list_all complete_param (varFields v))"] clean_members clean_parts clean_tokens clean_rules
      | assumption | simp)+

lemma clean_parseType: "clean_recs P \<Longrightarrow> clean C (\<lambda>d. list_all complete_field (tydFields d)) (parseType P)"
  unfolding parseType_def monad_laws
  by (rule clean_while [where I = "\<lambda>(fs, _). list_all complete_field fs"] tidy_comma_list clean_members clean_names clean_tokens clean_rules
      | assumption | simp)+

lemma clean_parseAPI: "clean_recs P \<Longrightarrow> clean C complete_api (parseAPI P)"
  unfolding parseAPI_def monad_laws
  by (rule clean_members clean_parts clean_tokens clean_rules | assumption | simp add: complete_api_def)+

lemma clean_parseAPIOrOverride: "clean_recs P \<Longrightarrow> clean C complete_api (parseAPIOrOverride P)"
  unfolding parseAPIOrOverride_def parseOverrideAPI_def monad_laws
  by (rule clean_parseAPI clean_tokens clean_rules | assumption | simp add: complete_api_def)+

lemma clean_error_entry: "clean (list_all complete_param (errFields e)) (\<lambda>e. list_all complete_param (errFields e)) (error_entry e)"
  unfolding error_entry_def monad_laws by (rule clean_names clean_tokens clean_rules | simp)+

lemma clean_parseError: "clean_recs P \<Longrightarrow> clean C (\<lambda>d. list_all complete_param (errFields d)) (parseError P)"
  unfolding parseError_def monad_laws
  by (rule clean_until [where I = "\<lambda>d. list_all complete_param (errFields d)"] clean_error_entry clean_members clean_parts clean_tokens clean_rules
      | assumption | simp)+

lemma clean_parseExtend: "clean_recs P \<Longrightarrow> clean C (\<lambda>d. list_all complete_field (extFields d)) (parseExtend P)"
  unfolding parseExtend_def monad_laws
  by (rule clean_until [where I = "list_all complete_field"] clean_members clean_tokens clean_rules | assumption | simp)+

lemma clean_parseMiddleware: "clean_recs P \<Longrightarrow> clean C complete_middleware (parseMiddleware P)"
  unfolding parseMiddleware_def monad_laws
  by (rule clean_members clean_parts clean_tokens clean_rules | assumption | simp add: complete_middleware_def)+

lemma clean_parseEvent: "clean_recs P \<Longrightarrow> clean C (\<lambda>d. list_all complete_param (evtParams d)) (parseEvent P)"
  unfolding parseEvent_def monad_laws by (rule clean_parts clean_tokens clean_rules | assumption | simp)+

lemma clean_parseOn: "clean_recs P \<Longrightarrow> clean C (\<lambda>d. pred_option complete_block (onBody d)) (parseOn P)"
  unfolding parseOn_def parseOnBlock_def monad_laws
  by (rule clean_parse_stmts clean_parts clean_names clean_tokens clean_rules | assumption | simp)+

lemma clean_parseUseDispatch: "(C \<Longrightarrow> complete_file f) \<Longrightarrow> clean C complete_file (parseUseDispatch f)"
  unfolding parseUseDispatch_def use_names_def monad_laws
  by (rule tidy_items_until clean_tokens clean_rules | simp add: complete_file_def)+

lemmas clean_decls = clean_parseModel clean_parseInterface clean_parseEnum clean_parseSealed clean_parseType clean_parseAPIOrOverride
  clean_parseFn clean_parseError clean_parseExtend clean_parseMiddleware clean_parseEvent clean_parseOn clean_parseUseDispatch
  clean_parseValStmt

lemma clean_parseTopLevel: "clean_recs P \<Longrightarrow> clean (complete_file f) complete_file (parseTopLevel P f)"
  unfolding parseTopLevel_def parseTopLevelExtended_def handleNonDecl_def monad_laws
  by (rule clean_decls clean_names clean_tokens clean_rules | assumption | (simp; fail) | (simp add: complete_file_def; fail))+


text \<open>A file without errors needed no recovery, and is complete.\<close>

lemma clean_loop_recover:
  assumes "clean_recs P" "loop_n k c (parseTopLevelRecover P) f p = (Done f', q)"
  shows "length (errs p) \<le> length (errs q)"
    and "length (errs q) = length (errs p) \<Longrightarrow> complete_file f \<Longrightarrow> loop_n k c (parseTopLevel P) f p = (Done f', q) \<and> complete_file f'"
proof -
  have "length (errs p) \<le> length (errs q) \<and> (length (errs q) = length (errs p) \<longrightarrow> complete_file f \<longrightarrow>
      loop_n k c (parseTopLevel P) f p = (Done f', q) \<and> complete_file f')"
    using assms(2)
  proof (induction k arbitrary: f p)
    case (Suc k)
    show ?case
    proof (cases "c f p")
      case True
      obtain r p1 where r: "parseTopLevel P f p = (r, p1)" by fastforce
      note t = clean_parseTopLevel [OF assms(1), of f, unfolded clean_def, rule_format, of p]
      show ?thesis
      proof (cases r)
        case (Done f1)
        then have "parseTopLevelRecover P f p = (Done f1, p1)" using r by (simp add: parseTopLevelRecover_def)
        then have "loop_n k c (parseTopLevelRecover P) f1 p1 = (Done f', q)"
          using Suc.prems True by (simp add: ifP_def bnd_def)
        then show ?thesis using Suc.IH [of f1 p1] t True r Done by (auto simp: ifP_def bnd_def)
      next
        case Bailout
        obtain f2 p2 where s: "parseTopLevelRecover P f p = (Done f2, p2)" "loop_n k c (parseTopLevelRecover P) f2 p2 = (Done f', q)"
          using Suc.prems True by (auto simp: ifP_def bnd_def split: prod.splits outcome.splits)
        have "tidy True synchronize"
          unfolding synchronize_def by (rule clean_tidy_while clean_rules | simp)+
        then have "length (errs p1) \<le> length (errs p2)"
          using s(1) r Bailout [unfolded clean_def]
          by (auto simp: parseTopLevelRecover_def bnd_def ret_def clean_def split: prod.splits outcome.splits)
        then show ?thesis using Suc.IH [OF s(2)] t r Bailout by auto
      next
        case OutOfFuel
        then have "parseTopLevelRecover P f p = (OutOfFuel, p1)" using r by (simp add: parseTopLevelRecover_def)
        then show ?thesis using Suc.prems True by (simp add: ifP_def bnd_def)
      qed
    qed (use Suc.prems in \<open>auto simp: ifP_def ret_def\<close>)
  qed simp
  then show "length (errs p) \<le> length (errs q)"
    and "length (errs q) = length (errs p) \<Longrightarrow> complete_file f \<Longrightarrow> loop_n k c (parseTopLevel P) f p = (Done f', q) \<and> complete_file f'"
    by auto
qed

lemma complete_empty_file: "complete_file (empty_file name)"
  by (simp add: complete_file_def empty_file_def)

lemma Parse_clean:
  assumes "Parse name ts = Some (f, [])"
  shows "complete_file f"
    and "whileP (\<lambda>_ p. \<not> isEOF p) (parseTopLevel (knot (length ts + 1))) (empty_file name) (New_Parser ts) =
      (Done f, snd (parse_file name (New_Parser ts)))"
proof -
  obtain q where q: "parse_file name (New_Parser ts) = (Done f, q)" "errs q = []"
    using assms by (auto simp: Parse_def split: prod.splits outcome.splits)
  then have "loop_n (left (New_Parser ts) + 2) (\<lambda>_ p. \<not> isEOF p) (parseTopLevelRecover (knot (length ts + 1)))
      (empty_file name) (New_Parser ts) = (Done f, q)"
    by (simp add: parse_file_def whileP_def New_Parser_def)
  note clean_loop_recover(2) [OF clean_knot this _ complete_empty_file]
  then show "complete_file f"
    and "whileP (\<lambda>_ p. \<not> isEOF p) (parseTopLevel (knot (length ts + 1))) (empty_file name) (New_Parser ts) =
      (Done f, snd (parse_file name (New_Parser ts)))"
    using q by (auto simp: New_Parser_def whileP_def)
qed

section \<open>Properties\<close>

lemma Parse_result: "\<exists>file q. parse_file name (New_Parser ts) = (Done file, q) \<and> isEOF q \<and> Parse name ts = Some (file, errs q)"
  using parse_file_wp [of name "New_Parser ts"]
  by (auto simp: wp_def Parse_def split: prod.splits outcome.splits)

text \<open>C31: The parser returns on every list of tokens: no panic leaves it, and none of its loops and recursions
  runs for ever, whatever the tokens are.\<close>

theorem Parse_returns: "\<exists>file es. Parse name ts = Some (file, es)"
  using Parse_result by blast


text \<open>The parser without the recovery at the top level.\<close>

definition parse_strict :: "bytes \<Rightarrow> Token list \<Rightarrow> ast_File outcome" where
  "parse_strict name ts = fst (whileP (\<lambda>_ p. \<not> isEOF p) (parseTopLevel (knot (length ts + 1))) (empty_file name) (New_Parser ts))"

text \<open>C33: When the parser reports no error, it never had to recover: parsing without the recovery gives the same file,
  so no declaration was dropped.\<close>

theorem parsed_file_is_whole:
  assumes "Parse name ts = Some (f, [])"
  shows "parse_strict name ts = Done f"
  using Parse_clean(2) [OF assms] by (simp add: parse_strict_def)

text \<open>A file for the witnesses: a global with an operator.\<close>

lemmas run_defs = ret_def bnd_def asks_def ifP_def whileP_def left_def check_def isEOF_def advance_adv adv_def parser_match_def
  error_add add_error_def bailout_def expect_def isKeywordUsedAsIdent_def expectIdent_def pos_now_def
  until_def items_until_def comma_list_def takeDoc_def add_doc_def consumeDoc_def current_def

definition tk :: "Type \<Rightarrow> bytes \<Rightarrow> Token" where
  "tk t v = \<lparr>tokType = t, tokVal = v, tokPos = zero_pos\<rparr>"

lemma rExpr_knot: "rExpr (knot (Suc n)) = parseExpr (knot n)"
  by (simp add: Let_def)

lemma rFor_knot: "rForCondition (knot (Suc n)) = parseForCondition (knot n)"
  by (simp add: Let_def)

lemma rStmt_knot: "rStmt (knot (Suc n)) = parseStmt (knot n)"
  by (simp add: Let_def)

lemmas expr_defs = parseExpr_def parsePrefixExpr_def someP_def parseLiteral_def infix_loop_def
     currentPrec_def type_prec_def prec_defs parseInfixExpr_def isBinaryOp_type_def Let_def parseIdentOrConstruction_def
     parseForCondition_def for_condition_step_def parseCallArgs_def parseLambdaExpr_def tryParseLambdaParams_def parse_stmts_def set_pos_def
     New_Parser_def tk_def eof_token_def numeral_eq_Suc rExpr_knot rFor_knot rStmt_knot

definition sum_file :: "Token list" where
  "sum_file = [tk T_Val [], tk T_Ident [0x61], tk T_Assign [], tk T_Int [0x31], tk T_Plus [0x2B], tk T_Int [0x32], eof_token]"

lemma global_run: "Parse [] sum_file =
  Some (empty_file []\<lparr>Globals := [ValStmt zero_pos zero_pos [0x61] [] None
    (Some (BinaryExpr zero_pos (Some (Literal zero_pos T_Int [0x31])) [0x2B] (Some (Literal zero_pos T_Int [0x32])))) False]\<rparr>, [])"
  by (simp add: Parse_def sum_file_def parse_file_def run_defs New_Parser_def tk_def eof_token_def numeral_eq_Suc parseTopLevelRecover_def
     parseTopLevel_def parseTopLevelExtended_def parseValStmt_def parseExpr_def parsePrefixExpr_def someP_def parseLiteral_def infix_loop_def
     currentPrec_def type_prec_def prec_defs parseInfixExpr_def isBinaryOp_type_def Let_def
     empty_file_def rExpr_knot del: knot.simps)


lemma parsed_file_is_whole_witness: "\<exists>f. parse_strict [] sum_file = Done f \<and> Globals f \<noteq> []"
  by (intro exI conjI, rule parsed_file_is_whole [OF global_run]) simp

end
