(* ===== verification/Printing.thy ===== *)
theory Printing
  imports Complete
begin

text \<open>
  A printer for the expressions of the language and the proof that the parser of pkg/parser reads
  back what it prints. The printer is the reference: the precedence and the left associativity of
  the operators are in it as the parentheses it leaves out.
\<close>


section \<open>The printer\<close>

text \<open>The binary operators, as the lexer writes them.\<close>

definition binary_ops :: "(bytes \<times> Type) list" where
  "binary_ops =
     [(lit ''+'', T_Plus), (lit ''-'', T_Minus), (lit ''*'', T_Star), (lit ''/'', T_Slash), (lit ''%'', T_Percent),
      (lit ''=='', T_Eq), (lit ''!='', T_Neq), (lit ''>'', T_Gt), (lit ''>='', T_Gte), (lit ''<'', T_Lt), (lit ''<='', T_Lte),
      (lit ''&&'', T_And), (lit ''||'', T_Or), (lit ''in'', T_In), (lit ''is'', T_Is), (lit ''<-'', T_ChanSend)]"

definition op_type :: "bytes \<Rightarrow> Type" where
  "op_type op = (case map_of binary_ops op of Some t \<Rightarrow> t | None \<Rightarrow> T_Illegal)"

text \<open>How tightly the outermost operator of an expression binds.\<close>

fun level :: "Expr \<Rightarrow> nat" where
  "level (BinaryExpr _ _ op _) = type_prec (op_type op) False"
| "level (ElvisExpr _ _ _) = precElvis"
| "level (BangElvisExpr _ _ _) = precElvis"
| "level (RangeExpr _ _ _) = precRange"
| "level (UnaryExpr _ op _) = (if op = lit ''?'' then precCall else precUnary)"
| "level _ = precCall"

definition parens :: "bool \<Rightarrow> Token list \<Rightarrow> Token list" where
  "parens b ts = (if b then tk T_LParen (lit ''('') # ts @ [tk T_RParen (lit '')'')] else ts)"

text \<open>An expression is printed with the fewest parentheses: around a left operand that binds less than its
  operator, and around a right operand that does not bind more.\<close>

fun print :: "Expr \<Rightarrow> Token list"
  and print_opt :: "(nat \<Rightarrow> bool) \<Rightarrow> Expr option \<Rightarrow> Token list"
  and print_arg :: "NamedArg \<Rightarrow> Token list"
  and print_args :: "NamedArg list \<Rightarrow> Token list"
  and print_items :: "Expr option list \<Rightarrow> Token list"
where
  "print (Literal _ t v) = [tk t v]"
| "print (Ident _ x) = [tk T_Ident x]"
| "print (MemberExpr _ e f safe) =
     parens (level e < precCall) (print e) @ [if safe then tk T_SafeDot (lit ''?.'') else tk T_Dot (lit ''.''), tk T_Ident f]"
| "print (CallExpr _ f args) =
     parens (level f < precCall) (print f) @ tk T_LParen (lit ''('') # print_args args @ [tk T_RParen (lit '')'')]"
| "print (BinaryExpr _ l op r) =
     print_opt (\<lambda>k. k < type_prec (op_type op) False) l @ tk (op_type op) op #
     print_opt (\<lambda>k. k \<le> type_prec (op_type op) False) r"
| "print (UnaryExpr _ op v) =
     (if op = lit ''?'' then print_opt (\<lambda>k. k < precCall) v @ [tk T_Question op]
      else tk (if op = lit ''!'' then T_Bang else T_Minus) op # print_opt (\<lambda>k. k < precUnary) v)"
| "print (ElvisExpr _ l r) = parens (level l < precElvis) (print l) @ tk T_Elvis (lit ''?:'') # print_opt (\<lambda>k. k \<le> precElvis) r"
| "print (BangElvisExpr _ l r) =
     parens (level l < precElvis) (print l) @ tk T_BangElvis (lit ''!:'') # print_opt (\<lambda>k. k \<le> precElvis) r"
| "print (RangeExpr _ l r) = parens (level l < precRange) (print l) @ tk T_DotDot (lit ''..'') # print_opt (\<lambda>k. k \<le> precRange) r"
| "print (ListExpr _ es) = tk T_LBracket (lit ''['') # print_items es @ [tk T_RBracket (lit '']'')]"
| "print _ = []"
| "print_opt weak None = []"
| "print_opt weak (Some e) = parens (weak (level e)) (print e)"
| "print_arg (NamedArg name v) =
     (if name = [] then [] else [tk T_Ident name, tk T_Colon (lit '':'')]) @ print_opt (\<lambda>_. False) v"
| "print_args [] = []"
| "print_args (a # as) = print_arg a @ (if as = [] then [] else tk T_Comma (lit '','') # print_args as)"
| "print_items [] = []"
| "print_items (e # es) = print_opt (\<lambda>_. False) e @ (if es = [] then [] else tk T_Comma (lit '','') # print_items es)"

text \<open>The expressions it prints: operators, member accesses, calls and lists over literals and names.\<close>

fun printable :: "Expr \<Rightarrow> bool"
  and printable_opt :: "Expr option \<Rightarrow> bool"
  and printable_arg :: "NamedArg \<Rightarrow> bool"
where
  "printable (Literal p t v) \<longleftrightarrow> p = zero_pos \<and> (t \<in> {T_Int, T_Float, T_String, T_Duration} \<or>
     (t, v) \<in> {(T_True, lit ''true''), (T_False, lit ''false''), (T_Null, lit ''null'')})"
| "printable (Ident p x) \<longleftrightarrow> p = zero_pos"
| "printable (MemberExpr p e f safe) \<longleftrightarrow> p = zero_pos \<and> printable e"
| "printable (CallExpr p f args) \<longleftrightarrow> p = zero_pos \<and> printable f \<and> list_all printable_arg args"
| "printable (BinaryExpr p l op r) \<longleftrightarrow> p = zero_pos \<and> op \<in> fst ` set binary_ops \<and> printable_opt l \<and> printable_opt r"
| "printable (UnaryExpr p op v) \<longleftrightarrow> p = zero_pos \<and> op \<in> {lit ''!'', lit ''-'', lit ''?''} \<and> printable_opt v"
| "printable (ElvisExpr p l r) \<longleftrightarrow> p = zero_pos \<and> printable l \<and> printable_opt r"
| "printable (BangElvisExpr p l r) \<longleftrightarrow> p = zero_pos \<and> printable l \<and> printable_opt r"
| "printable (RangeExpr p l r) \<longleftrightarrow> p = zero_pos \<and> printable l \<and> printable_opt r"
| "printable (ListExpr p es) \<longleftrightarrow> p = zero_pos \<and> list_all printable_opt es"
| "printable _ \<longleftrightarrow> False"
| "printable_opt None \<longleftrightarrow> False"
| "printable_opt (Some e) \<longleftrightarrow> printable e"
| "printable_arg (NamedArg name v) \<longleftrightarrow> printable_opt v"

section \<open>Positions in the token list\<close>

definition at :: "Parser \<Rightarrow> Token list \<Rightarrow> bool" where
  "at p ts \<longleftrightarrow> drop (pos p) (toks p) = ts \<and> pos p \<le> length (toks p)"

definition fwd :: "nat \<Rightarrow> Parser \<Rightarrow> Parser" where
  "fwd k p = p\<lparr>pos := pos p + k\<rparr>"

lemma fwd_simps [simp]: "toks (fwd k p) = toks p" "pos (fwd k p) = pos p + k" "fwd j (fwd k p) = fwd (k + j) p" "fwd 0 p = p"
  "noBraceLambda (fwd k p) = noBraceLambda p" "errs (fwd k p) = errs p"
  by (simp_all add: fwd_def add.assoc)

lemma at_left: "at p ts \<Longrightarrow> left p = length ts"
  by (auto simp: at_def left_def)

lemma at_fwd:
  assumes "at p (xs @ ts)"
  shows "at (fwd (length xs) p) ts"
proof -
  have d: "drop (pos p) (toks p) = xs @ ts" "pos p \<le> length (toks p)" using assms by (auto simp: at_def)
  then show ?thesis using drop_eq_appendD [OF d(1)] drop_eq_append_le [OF d] by (simp add: at_def)
qed

lemma at_tl: "at p (t # ts) \<Longrightarrow> at (fwd 1 p) ts"
  using at_fwd [of p "[t]" ts] by simp

definition nxt :: "Token list \<Rightarrow> Type" where
  "nxt ts = (case ts of [] \<Rightarrow> T_EOF | t # _ \<Rightarrow> tokType t)"

lemma nxt_simps [simp]: "nxt [] = T_EOF" "nxt (t # ts) = tokType t"
  by (simp_all add: nxt_def)

lemma at_current: "at p (t # ts) \<Longrightarrow> current p = t"
  using drop_eq_Cons_nth [of "pos p" "toks p" t ts] by (auto simp: at_def current_def)

lemma at_type: "at p ts \<Longrightarrow> cur_type p = nxt ts"
  using at_current [of p] by (cases ts) (auto simp: at_def current_def eof_token_def)

lemma at_adv: "at p (t # ts) \<Longrightarrow> adv p = fwd 1 p"
  using drop_eq_Cons_nth [of "pos p" "toks p" t ts] by (auto simp: at_def adv_def fwd_def)

lemma at_peek: "at p (t # ts) \<Longrightarrow> peekType p = nxt ts"
  using at_type [OF at_tl [of p t ts]] by (auto simp: peekType_def parser_peek_def current_def split: if_splits)

lemma tk_simps [simp]: "tokType (tk t v) = t" "tokVal (tk t v) = v" "tokPos (tk t v) = zero_pos"
  by (simp_all add: tk_def)

text \<open>The primitive steps on known tokens.\<close>

lemma advance_at: "at p (t # ts) \<Longrightarrow> parser_advance p = (Done t, fwd 1 p)"
  by (simp add: advance_adv at_current at_adv)

lemma expect_at: "at p (tk t v # ts) \<Longrightarrow> expect t p = (Done (tk t v), fwd 1 p)"
  by (simp add: expect_def ifP_def check_def at_type advance_at)

lemma expectIdent_at: "at p (tk T_Ident x # ts) \<Longrightarrow> expectIdent p = (Done x, fwd 1 p)"
  by (simp add: expectIdent_def ifP_def check_def at_type bnd_def ret_def advance_at)

lemma match_at: "at p (tk t v # ts) \<Longrightarrow> parser_match t p = (Done True, fwd 1 p)"
  by (simp add: parser_match_def ifP_def check_def at_type bnd_def ret_def advance_at)

lemma match_not: "at p ts \<Longrightarrow> nxt ts \<noteq> t \<Longrightarrow> parser_match t p = (Done False, p)"
  by (simp add: parser_match_def ifP_def check_def at_type ret_def)

lemma pos_now_at: "at p (tk t v # ts) \<Longrightarrow> pos_now p = (Done zero_pos, p)"
  by (simp add: pos_now_def asks_def at_current)

lemmas at_rules = advance_at expect_at expectIdent_at match_at match_not

section \<open>Loops do not depend on their allowance\<close>

definition shrinks :: "('a \<Rightarrow> Parser \<Rightarrow> bool) \<Rightarrow> ('a \<Rightarrow> 'a parser) \<Rightarrow> 'a \<Rightarrow> Parser \<Rightarrow> bool" where
  "shrinks c b x p \<longleftrightarrow> wp (b x) (\<lambda>x' q. on p q \<and> (left q < left p \<or> \<not> c x' q)) (stuck p) p"

lemma loop_n_more:
  assumes "\<And>x q. c x q \<Longrightarrow> left q \<le> left p \<Longrightarrow> shrinks c b x q" "left q \<le> left p"
    and "left q + 1 < k \<or> (0 < k \<and> \<not> c x q)" "left q + 1 < k' \<or> (0 < k' \<and> \<not> c x q)"
  shows "loop_n k c b x q = loop_n k' c b x q"
  using assms(2-)
proof (induction k arbitrary: k' x q)
  case (Suc k)
  then obtain j where j: "k' = Suc j" by (cases k') auto
  show ?case
  proof (cases "c x q")
    case True
    note w = assms(1) [OF True Suc.prems(1)]
    show ?thesis
    proof (cases "b x q")
      case (Pair r q')
      show ?thesis
      proof (cases r)
        case (Done x')
        have "on q q'" "left q' < left q \<or> \<not> c x' q'" using w Pair Done by (auto simp: shrinks_def wp_def)
        then have "loop_n k c b x' q' = loop_n j c b x' q'"
          using Suc.prems True by (intro Suc.IH) (auto simp: j on_def)
        then show ?thesis using True Pair Done by (simp add: j ifP_def bnd_def)
      qed (use True Pair in \<open>simp_all add: j ifP_def bnd_def\<close>)
    qed
  qed (simp add: j ifP_def)
qed simp

lemma whileP_unfold:
  assumes "\<And>x q. c x q \<Longrightarrow> left q \<le> left p \<Longrightarrow> shrinks c b x q"
  shows "whileP c b x p = ifP (c x) (bnd (b x) (whileP c b)) (ret x) p"
proof (cases "c x p")
  case False
  then show ?thesis by (simp add: whileP_def ifP_def)
next
  case True
  note w = assms(1) [OF True order_refl]
  show ?thesis
  proof (cases "b x p")
    case (Pair r q)
    show ?thesis
    proof (cases r)
      case (Done x')
      have "on p q" "left q < left p \<or> \<not> c x' q" using w Pair Done by (auto simp: shrinks_def wp_def)
      then have "loop_n (left p + 1) c b x' q = loop_n (left q + 2) c b x' q"
        by (intro loop_n_more [where p = p]) (use assms in \<open>auto simp: on_def\<close>)
      then show ?thesis using True Pair Done by (simp add: whileP_def ifP_def bnd_def)
    qed (use True Pair in \<open>simp_all add: whileP_def ifP_def bnd_def\<close>)
  qed
qed

text \<open>The loop over infix operators, one operator at a time.\<close>

lemma infix_loop_unfold:
  assumes "recs P n" "left p \<le> n"
  shows "infix_loop P prec lhs p =
    (if prec < currentPrec p \<and> \<not> isEOF p
     then bnd (parseInfixExpr P lhs) (\<lambda>l. ifP (\<lambda>q. pos q = pos p) (ret l) (infix_loop P prec l)) p
     else (Done lhs, p))"
proof -
  let ?c = "\<lambda>(lhs, stop) p. \<not> stop \<and> prec < currentPrec p \<and> \<not> isEOF p"
  let ?b = "\<lambda>(lhs, _). bnd (asks pos) (\<lambda>startPos. bnd (parseInfixExpr P lhs) (\<lambda>lhs. bnd (asks pos) (\<lambda>p. ret (lhs, p = startPos))))"
  have lt: "cur_type q \<noteq> T_EOF \<Longrightarrow> on q r \<Longrightarrow> left r < left q \<or> pos r = pos q" for q r
    using on_left_pos [of q r] cur_type_left [of q] by (auto simp: left_def)
  have sh: "shrinks ?c ?b x q" if "?c x q" "left q \<le> left p" for x q
  proof (cases x)
    case (Pair l stop)
    have "wp (parseInfixExpr P l) (\<lambda>x' r. on q r \<and> (left r < left q \<or> \<not> ?c (x', pos r = pos q) r)) (stuck q) q"
      by (rule stays_wp [OF parseInfixExpr_stays [OF assms(1)]]) (use that Pair lt [of q] assms(2) in \<open>auto simp: isEOF_def\<close>)
    then show ?thesis unfolding shrinks_def Pair by simp
  qed
  have e: "whileP ?c ?b (l, True) q = (Done (l, True), q)" for l q
    by (simp add: whileP_def ifP_def ret_def)
  show ?thesis
    unfolding infix_loop_def
    by (subst bnd_def, subst whileP_unfold [OF sh], assumption, assumption)
      (auto simp: bnd_def ifP_def ret_def asks_def e split: prod.splits outcome.splits)
qed

section \<open>Levels\<close>

lemma type_prec_noBrace: "type_prec t b \<le> type_prec t False"
  by (cases t) (simp_all add: type_prec_def prec_defs)

lemma type_prec_noBrace_eq: "t \<noteq> T_LBrace \<Longrightarrow> type_prec t b = type_prec t False"
  by (cases t) (simp_all add: type_prec_def)

lemma op_type_cases:
  assumes "op \<in> fst ` set binary_ops"
  shows "(op_type op = T_ChanSend \<or> isBinaryOp_type (op_type op)) \<and> 0 < type_prec (op_type op) False \<and>
    type_prec (op_type op) False < precUnary \<and> op_type op \<notin> {T_Dot, T_SafeDot, T_Question, T_LParen, T_LBrace, T_Elvis,
      T_BangElvis, T_DotDot, T_EOF, T_Colon}"
  using assms
  by (auto simp: binary_ops_def op_type_def lit_def isBinaryOp_type_def type_prec_def prec_defs)

definition reach :: "Expr \<Rightarrow> nat" where
  "reach e = (case e of UnaryExpr _ _ _ \<Rightarrow> precCall | _ \<Rightarrow> level e)"

lemma level_reach: "level e \<le> reach e"
  by (cases e) (simp_all add: reach_def prec_defs)

lemma reach_unary: "precUnary \<le> level e \<Longrightarrow> printable e \<Longrightarrow> precUnary < reach e"
  using op_type_cases by (cases e) (force simp: reach_def prec_defs)+

lemma level_pos: "printable e \<Longrightarrow> 0 < level e"
  using op_type_cases by (cases e) (auto simp: prec_defs)

lemma level_call: "printable e \<Longrightarrow> level e \<le> precCall"
  using op_type_cases by (cases e) (fastforce simp: prec_defs)+

definition follows :: "Expr \<Rightarrow> Token list \<Rightarrow> bool" where
  "follows e rest \<longleftrightarrow> type_prec (nxt rest) False \<le> level e \<and> nxt rest \<noteq> T_LBrace \<and>
     ((\<exists>p x f. e = MemberExpr p x f False) \<longrightarrow> nxt rest \<noteq> T_LParen)"

text \<open>The claim: printed in a place where it need not be parenthesised, the expression is read back and the loop
  goes on with it as its left operand.\<close>

definition reads_back :: "Expr \<Rightarrow> bool" where
  "reads_back e \<longleftrightarrow>
     (\<forall>p n prec rest. at p (print e @ rest) \<longrightarrow> follows e rest \<longrightarrow> prec < reach e \<longrightarrow> left p \<le> n \<longrightarrow>
        parseExpr (knot n) prec p = someP (infix_loop (knot n) prec e) (fwd (length (print e)) p))"

lemma reads_backD:
  "reads_back e \<Longrightarrow> at p (print e @ rest) \<Longrightarrow> follows e rest \<Longrightarrow> prec < reach e \<Longrightarrow> left p \<le> n \<Longrightarrow>
   parseExpr (knot n) prec p = someP (infix_loop (knot n) prec e) (fwd (length (print e)) p)"
  by (simp add: reads_back_def)

lemma loop_stop: "currentPrec q \<le> prec \<Longrightarrow> infix_loop P prec e q = (Done e, q)"
  by (simp add: infix_loop_def bnd_def whileP_def ifP_def ret_def)

lemma someP_run: "m p = (Done x, q) \<Longrightarrow> someP m p = (Done (Some x), q)"
  by (simp add: someP_def bnd_def ret_def)

lemma at_prec_le: "at q ts \<Longrightarrow> type_prec (nxt ts) False \<le> prec \<Longrightarrow> currentPrec q \<le> prec"
  using type_prec_noBrace [of "nxt ts" "noBraceLambda q"] by (simp add: currentPrec_def at_type)

lemma read_plain:
  assumes "reads_back e" "at p (print e @ rest)" "prec < reach e" "prec \<le> level e" "prec < precCall" "type_prec (nxt rest) False \<le> prec"
    "nxt rest \<noteq> T_LBrace" "left p \<le> n"
  shows "parseExpr (knot n) prec p = (Done (Some e), fwd (length (print e)) p)"
proof -
  have "type_prec T_LParen False = precCall" by (simp add: type_prec_def)
  then have "nxt rest \<noteq> T_LParen" using assms(5,6) by auto
  then have "follows e rest" using assms(4,6,7) by (simp add: follows_def)
  moreover have "currentPrec (fwd (length (print e)) p) \<le> prec"
    by (rule at_prec_le [OF at_fwd [OF assms(2)] assms(6)])
  ultimately show ?thesis
    using reads_backD [OF assms(1,2) _ assms(3,8)] loop_stop by (simp add: someP_run)
qed

lemma knot_rExpr: "0 < n \<Longrightarrow> rExpr (knot n) = parseExpr (knot (n - 1))"
  by (cases n) (simp_all add: Let_def)

lemma read_paren:
  assumes e: "reads_back e" "printable e" and p: "at p (parens True (print e) @ rest)" and n: "left p \<le> n"
  shows "parsePrefixExpr (knot n) p = (Done (Some e), fwd (length (parens True (print e))) p)"
proof -
  let ?l = "tk T_LParen (lit ''('')" and ?r = "tk T_RParen (lit '')'')"
  have p0: "at p (?l # print e @ ?r # rest)" using p by (simp add: parens_def)
  have p1: "at (fwd 1 p) (print e @ ?r # rest)" by (rule at_tl [OF p0])
  have p2: "at (fwd (length (print e)) (fwd 1 p)) (?r # rest)" by (rule at_fwd [OF p1])
  have n1: "0 < n" "left (fwd 1 p) \<le> n - 1" using n at_left [OF p0] at_left [OF p1] by simp_all
  have "parseExpr (knot (n - 1)) precNone (fwd 1 p) = (Done (Some e), fwd (length (print e)) (fwd 1 p))"
    using level_pos [OF e(2)] level_reach [of e]
    by (intro read_plain [OF e(1) p1]) (use n1(2) in \<open>simp_all add: prec_defs type_prec_def\<close>)
  then show ?thesis
    using at_type [OF p0] knot_rExpr [OF n1(1)] expect_at [OF p2] advance_at [OF p0]
    by (simp add: parsePrefixExpr_def pos_now_def asks_def bnd_def parseParenExpr_def ret_def parens_def)
qed

lemma parseExpr_prefix: "parsePrefixExpr P p = (Done (Some e), q) \<Longrightarrow> parseExpr P prec p = someP (infix_loop P prec e) q"
  by (simp add: parseExpr_def bnd_def)

text \<open>A left operand, and an operand that is read as a whole.\<close>

lemma read_left:
  assumes e: "reads_back e" "printable e" and p: "at p (parens b (print e) @ rest)" "left p \<le> n"
    and "\<not> b \<Longrightarrow> prec < reach e \<and> follows e rest"
  shows "parseExpr (knot n) prec p = someP (infix_loop (knot n) prec e) (fwd (length (parens b (print e))) p)"
proof (cases b)
  case True
  then show ?thesis using parseExpr_prefix [OF read_paren [OF e]] p by simp
next
  case False
  then show ?thesis using reads_backD [OF e(1)] p assms(5) by (simp add: parens_def)
qed

lemma read_right:
  assumes e: "reads_back e" "printable e" and p: "at p (parens b (print e) @ rest)" "left p \<le> n"
    and b: "\<not> b \<Longrightarrow> prec < reach e \<and> prec \<le> level e" and "prec < precCall" "type_prec (nxt rest) False \<le> prec" "nxt rest \<noteq> T_LBrace"
  shows "parseExpr (knot n) prec p = (Done (Some e), fwd (length (parens b (print e))) p)"
proof (cases b)
  case True
  have "currentPrec (fwd (length (parens b (print e))) p) \<le> prec" by (rule at_prec_le [OF at_fwd [OF p(1)] assms(7)])
  then show ?thesis
    using read_left [OF e p, of prec] True loop_stop by (simp add: someP_run)
next
  case False
  then show ?thesis using read_plain [OF e(1)] p b assms(6-) by (simp add: parens_def)
qed

section \<open>One operator at a time\<close>

lemma infix_step:
  assumes q: "at q (tk t v # ts)" "left q \<le> n" and t: "prec < type_prec t False" "t \<noteq> T_LBrace"
    and s: "parseInfixExpr (knot n) lhs q = (Done e, fwd k q)" "0 < k"
  shows "infix_loop (knot n) prec lhs q = infix_loop (knot n) prec e (fwd k q)"
proof -
  have "currentPrec q = type_prec t False" using q(1) type_prec_noBrace_eq [OF t(2)] by (simp add: currentPrec_def at_type)
  moreover have "type_prec T_EOF False = 0" by (simp add: type_prec_def prec_defs)
  with t(1) have "t \<noteq> T_EOF" by force
  ultimately show ?thesis
    using t(1) s at_type [OF q(1)]
    by (subst infix_loop_unfold [OF recs_knot q(2)]) (simp add: isEOF_def bnd_def ifP_def)
qed

lemma infix_entry:
  assumes "at q (tk t v # ts)"
  shows "pos_now q = (Done zero_pos, q)" "cur_type q = t"
  using pos_now_at [OF assms] at_type [OF assms] by simp_all

lemma infix_member:
  assumes q: "at q (tk (if safe then T_SafeDot else T_Dot) v # tk T_Ident f # rest)"
    and rest: "nxt rest \<noteq> T_LBrace" "safe \<or> nxt rest \<noteq> T_LParen"
  shows "parseInfixExpr P lhs q = (Done (MemberExpr zero_pos lhs f safe), fwd 2 q)"
proof -
  have q1: "at (fwd 1 q) (tk T_Ident f # rest)" by (rule at_tl [OF q])
  have q2: "at (fwd 2 q) rest" using at_tl [OF q1] by (simp add: numeral_eq_Suc)
  show ?thesis
    using infix_entry [OF q] advance_at [OF q] expectIdent_at [OF q1] at_type [OF q2] rest
    by (cases safe) (simp_all add: parseInfixExpr_def bnd_def ret_def asks_def ifP_def check_def Let_def numeral_eq_Suc)
qed

lemma knot_step:
  assumes "at q (t # ts)" "left q \<le> n"
  shows "rExpr (knot n) = parseExpr (knot (n - 1))" "left (fwd 1 q) \<le> n - 1"
proof -
  show "rExpr (knot n) = parseExpr (knot (n - 1))" using at_left [OF assms(1)] assms(2) by (intro knot_rExpr) simp
  show "left (fwd 1 q) \<le> n - 1" using at_left [OF assms(1)] at_left [OF at_tl [OF assms(1)]] assms(2) by simp
qed

text \<open>The operators with a right operand.\<close>

lemma infix_operator:
  assumes q: "at q (tk t v # ts)" "left q \<le> n"
    and r: "parseExpr (knot (n - 1)) (type_prec t False) (fwd 1 q) = (Done r, fwd k (fwd 1 q))"
    and t: "t \<in> {T_Elvis, T_BangElvis, T_DotDot} \<or> ((t = T_ChanSend \<or> isBinaryOp_type t) \<and> t \<notin> {T_Dot, T_SafeDot, T_Question,
      T_LParen, T_LBrace, T_Elvis, T_BangElvis, T_DotDot})"
  shows "parseInfixExpr (knot n) lhs q =
    (Done (if t = T_Elvis then ElvisExpr zero_pos lhs r else if t = T_BangElvis then BangElvisExpr zero_pos lhs r
       else if t = T_DotDot then RangeExpr zero_pos lhs r else BinaryExpr zero_pos (Some lhs) v r), fwd (Suc k) q)"
proof -
  have c: "t \<noteq> T_LBrace \<Longrightarrow> currentPrec q = type_prec t False"
    using at_type [OF q(1)] type_prec_noBrace_eq [of t "noBraceLambda q"] by (simp add: currentPrec_def)
  have p: "type_prec T_Elvis False = precElvis" "type_prec T_BangElvis False = precElvis" "type_prec T_DotDot False = precRange"
    by (simp_all add: type_prec_def)
  note en = infix_entry [OF q(1)]
  consider "t = T_Elvis" | "t = T_BangElvis" | "t = T_DotDot"
    | "t = T_ChanSend \<or> isBinaryOp_type t" "t \<noteq> T_Dot" "t \<noteq> T_SafeDot" "t \<noteq> T_Question" "t \<noteq> T_LParen" "t \<noteq> T_LBrace"
      "t \<noteq> T_Elvis" "t \<noteq> T_BangElvis" "t \<noteq> T_DotDot"
    using t by auto
  then show ?thesis
  proof cases
    case 1
    then show ?thesis
      using infix_entry [OF q(1)] advance_at [OF q(1)] r by (simp add: parseInfixExpr_def bnd_def ret_def asks_def p knot_step(1) [OF q])
  next
    case 2
    then show ?thesis
      using infix_entry [OF q(1)] advance_at [OF q(1)] r by (simp add: parseInfixExpr_def bnd_def ret_def asks_def p knot_step(1) [OF q])
  next
    case 3
    then show ?thesis
      using infix_entry [OF q(1)] advance_at [OF q(1)] r by (simp add: parseInfixExpr_def bnd_def ret_def asks_def p knot_step(1) [OF q])
  next
    case 4
    have "parseInfixExpr (knot n) lhs q =
      bnd (asks currentPrec) (\<lambda>prec.
       bnd parser_advance (\<lambda>op.
       bnd (rExpr (knot n) prec) (\<lambda>r. ret (BinaryExpr zero_pos (Some lhs) (tokVal op) r)))) q"
      using infix_entry [OF q(1)] 4 by (simp add: parseInfixExpr_def bnd_def asks_def)
    also have "\<dots> = (Done (BinaryExpr zero_pos (Some lhs) v r), fwd (Suc k) q)"
      using advance_at [OF q(1)] r c 4(6) by (simp add: bnd_def ret_def asks_def knot_step(1) [OF q])
    finally show ?thesis using 4 by simp
  qed
qed

text \<open>What an expression begins with.\<close>

definition starts :: "Token list \<Rightarrow> bool" where
  "starts ts \<longleftrightarrow>
     (case ts of
        [] \<Rightarrow> False
      | t # us \<Rightarrow> tokType t \<notin> {T_RParen, T_RBracket, T_EOF, T_LBrace, T_RBrace, T_Colon, T_Comma} \<and> nxt us \<noteq> T_Colon)"

lemma starts_append: "starts xs \<Longrightarrow> nxt ys \<noteq> T_Colon \<Longrightarrow> starts (xs @ ys)"
  by (auto simp: starts_def nxt_def split: list.splits)

lemma starts_parens: "starts ts \<Longrightarrow> starts (parens b ts)"
  by (auto simp: parens_def starts_def split: list.splits)

lemma nxt_starts: "starts ts \<Longrightarrow> nxt (ts @ rest) \<notin> {T_RParen, T_RBracket, T_EOF, T_LBrace, T_RBrace, T_Colon, T_Comma}"
  by (auto simp: starts_def split: list.splits)

lemma print_starts_all:
  "printable e \<Longrightarrow> starts (print e)"
  "printable_opt v \<Longrightarrow> starts (print_opt weak v)"
  "(a :: NamedArg) = a" "(as :: NamedArg list) = as"
  "list_all printable_opt vs \<Longrightarrow> nxt rest \<noteq> T_Colon \<Longrightarrow> nxt (print_items vs @ rest) \<noteq> T_Colon"
proof (induction e and weak v and a and as and vs arbitrary: and and and and rest rule: print_print_opt_print_arg_print_args_print_items.induct)
  case (5 p l op r)
  then show ?case using op_type_cases [of op] by (auto intro!: starts_append)
next
  case (6 p op v)
  then show ?case by (auto intro!: starts_append simp: starts_def [of "_ # _"] dest: nxt_starts [of _ "[]", simplified])
qed (auto intro!: starts_append starts_parens simp: starts_def [of "[_]"] starts_def [of "_ # _"] dest: nxt_starts)

lemma print_starts:
  assumes "printable e"
  shows "starts (print e)"
  using assms print_starts_all(1) by blast

section \<open>Lists of operands\<close>

lemma printable_opt_iff: "printable_opt v \<longleftrightarrow> (\<exists>e. v = Some e \<and> printable e)"
  by (cases v) simp_all

text \<open>A whole expression before a token that no operator is.\<close>

lemma read_whole:
  assumes "reads_back e" "printable e" "at p (print e @ rest)" "left p \<le> n" "type_prec (nxt rest) False = 0" "nxt rest \<noteq> T_LBrace"
  shows "parseExpr (knot n) precNone p = (Done (Some e), fwd (length (print e)) p)"
  using read_right [of e p False rest n precNone] assms level_pos [of e] level_reach [of e]
  by (simp add: parens_def prec_defs)

text \<open>One argument, up to the comma or the parenthesis.\<close>

definition arg_expr :: "NamedArg \<Rightarrow> Expr" where
  "arg_expr a = the (argValue a)"

lemma print_arg_cases:
  assumes "printable_arg a"
  shows "\<exists>name e. a = NamedArg name (Some e) \<and> printable e \<and>
    print_arg a = (if name = [] then [] else [tk T_Ident name, tk T_Colon (lit '':'')]) @ print e"
  using assms by (cases a) (auto simp: printable_opt_iff parens_def)

lemma print_arg_nxt:
  assumes "printable_arg a"
  shows "nxt (print_arg a @ rest) \<notin> {T_RParen, T_EOF}"
proof -
  obtain name e where "printable e"
    "print_arg a = (if name = [] then [] else [tk T_Ident name, tk T_Colon (lit '':'')]) @ print e"
    using print_arg_cases [OF assms] by blast
  then show ?thesis using nxt_starts [OF print_starts, of e rest] by (cases name) auto
qed

definition arg_body :: "parsers \<Rightarrow> NamedArg list \<times> bool \<Rightarrow> (NamedArg list \<times> bool) parser" where
  "arg_body P = (\<lambda>(args, _).
     bnd (ifP (\<lambda>p. check T_Ident p \<and> peekType p = T_Colon)
           (bnd expectIdent (\<lambda>name. bnd (expect T_Colon) (\<lambda>_. bnd (asks (check T_RParen)) (\<lambda>stop. ret (name, stop)))))
           (ret ([], False))) (\<lambda>(name, stop).
     if stop then ret (args, True)
     else bnd (rExpr P precNone) (\<lambda>val.
       case val of
         None \<Rightarrow> ret (args, True)
       | Some _ \<Rightarrow> bnd (parser_match T_Comma) (\<lambda>_. ret (args @ [NamedArg name val], False)))))"

lemma parseCallArgs_body:
  "parseCallArgs P ps fn =
     bnd (expect T_LParen) (\<lambda>_.
     bnd (whileP (\<lambda>(args, stop) p. \<not> stop \<and> \<not> check T_RParen p \<and> \<not> isEOF p) (arg_body P) ([], False)) (\<lambda>(args, _).
     bnd (expect T_RParen) (\<lambda>_.
     ifP (\<lambda>p. check T_LBrace p \<and> \<not> noBraceLambda p)
       (bnd (parseLambdaExpr P) (\<lambda>l. ret (CallExpr ps fn (args @ [NamedArg [] (Some l)]))))
       (ret (CallExpr ps fn args)))))"
  by (simp add: parseCallArgs_def arg_body_def)

lemma arg_name_at:
  assumes "at p ((if name = [] then [] else [tk T_Ident name, tk T_Colon (lit '':'')]) @ ts @ rest)" "starts ts" "nxt rest \<noteq> T_Colon"
  shows "ifP (\<lambda>p. check T_Ident p \<and> peekType p = T_Colon)
           (bnd expectIdent (\<lambda>name. bnd (expect T_Colon) (\<lambda>_. bnd (asks (check T_RParen)) (\<lambda>stop. ret (name, stop)))))
           (ret ([], False)) p = (Done (name, False), fwd (if name = [] then 0 else 2) p)"
proof (cases "name = []")
  case True
  obtain t us where ts: "ts = t # us" "nxt us \<noteq> T_Colon" using assms(2) by (auto simp: starts_def split: list.splits)
  have "peekType p \<noteq> T_Colon"
    using at_peek [of p t "us @ rest"] assms(1,3) ts True by (cases us) simp_all
  then show ?thesis using True by (simp add: ifP_def ret_def)
next
  case False
  let ?c = "tk T_Colon (lit '':'')"
  have p: "at p (tk T_Ident name # ?c # ts @ rest)" using assms(1) False by simp
  have p1: "at (fwd 1 p) (?c # ts @ rest)" by (rule at_tl [OF p])
  have p2: "at (fwd 2 p) (ts @ rest)" using at_tl [OF p1] by (simp add: numeral_eq_Suc)
  have "cur_type (fwd 2 p) \<noteq> T_RParen" using at_type [OF p2] nxt_starts [OF assms(2), of rest] by simp
  then show ?thesis
    using False at_type [OF p] at_peek [OF p] expectIdent_at [OF p] expect_at [OF p1]
    by (simp add: ifP_def bnd_def ret_def asks_def check_def numeral_eq_Suc)
qed

lemma arg_body_at:
  assumes a: "printable_arg a" "reads_back (arg_expr a)" and p: "at p (print_arg a @ rest)" "left p < n"
    and rest: "nxt rest = T_Comma \<or> nxt rest = T_RParen"
  shows "arg_body (knot n) (args, stop) p =
    (Done (args @ [a], False), fwd (length (print_arg a) + (if nxt rest = T_Comma then 1 else 0)) p)"
proof -
  obtain name e where ae: "a = NamedArg name (Some e)" "printable e"
    and pa: "print_arg a = (if name = [] then [] else [tk T_Ident name, tk T_Colon (lit '':'')]) @ print e"
    using print_arg_cases [OF a(1)] by blast
  let ?k = "if name = [] then 0 else 2 :: nat"
  have p1: "at (fwd ?k p) (print e @ rest)"
    using p(1) at_fwd [of p "if name = [] then [] else [tk T_Ident name, tk T_Colon (lit '':'')]" "print e @ rest"]
    by (simp add: pa numeral_eq_Suc split: if_splits)
  have n: "rExpr (knot n) = parseExpr (knot (n - 1))" "left (fwd ?k p) \<le> n - 1"
    using knot_rExpr [of n] p(2) by (simp_all add: left_def)
  have e: "parseExpr (knot (n - 1)) precNone (fwd ?k p) = (Done (Some e), fwd (length (print e)) (fwd ?k p))"
    using rest by (intro read_whole [OF _ ae(2) p1 n(2)]) (use a(2) in \<open>auto simp: ae(1) arg_expr_def type_prec_def prec_defs\<close>)
  have p2: "at (fwd (?k + length (print e)) p) rest" using at_fwd [OF p1] by simp
  have m: "parser_match T_Comma (fwd (?k + length (print e)) p) =
      (Done (nxt rest = T_Comma), fwd (if nxt rest = T_Comma then 1 else 0) (fwd (?k + length (print e)) p))"
    using p2 match_not [OF p2, of T_Comma] advance_at [of "fwd (?k + length (print e)) p"]
    by (cases rest) (auto simp: parser_match_def ifP_def check_def at_type bnd_def ret_def)
  have "nxt rest \<noteq> T_Colon" using rest by auto
  then have nm: "ifP (\<lambda>p. check T_Ident p \<and> peekType p = T_Colon)
           (bnd expectIdent (\<lambda>name. bnd (expect T_Colon) (\<lambda>_. bnd (asks (check T_RParen)) (\<lambda>stop. ret (name, stop)))))
           (ret ([], False)) p = (Done (name, False), fwd ?k p)"
    using p(1) by (intro arg_name_at [OF _ print_starts [OF ae(2)]]) (simp_all add: pa)
  have "length (print_arg a) = ?k + length (print e)" by (simp add: pa)
  then show ?thesis
    using e m n(1) by (simp add: arg_body_def bnd_def [of "ifP _ _ _"] nm bnd_def ret_def ae(1))
qed

abbreviation more_args :: "NamedArg list \<times> bool \<Rightarrow> Parser \<Rightarrow> bool" where
  "more_args \<equiv> \<lambda>(args, stop) p. \<not> stop \<and> \<not> check T_RParen p \<and> \<not> isEOF p"

lemma arg_body_shrinks:
  assumes "recs P n" "left p < n" "more_args x p"
  shows "shrinks more_args (arg_body P) x p"
  using assms(2,3) unfolding shrinks_def arg_body_def
  by (cases x) (auto simp: steps check_def isEOF_def intro!: plain_wp rec_wp(1) [OF assms(1)] split: option.split if_splits)

lemma args_at:
  assumes "list_all printable_arg as" "\<forall>a \<in> set as. reads_back (arg_expr a)" "at p (print_args as @ tk T_RParen v # rest)" "left p < n"
  shows "whileP more_args (arg_body (knot n)) (args, False) p = (Done (args @ as, False), fwd (length (print_args as)) p)"
  using assms
proof (induction as arbitrary: args p)
  case Nil
  then show ?case using at_type [of p] by (simp add: whileP_def ifP_def ret_def check_def)
next
  case (Cons a as)
  let ?tail = "(if as = [] then [] else tk T_Comma (lit '','') # print_args as) @ tk T_RParen v # rest"
  have p: "at p (print_arg a @ ?tail)" using Cons.prems(3) by (simp split: if_splits)
  have more: "more_args (args, False) p"
    using at_type [OF p] print_arg_nxt [of a ?tail] Cons.prems(1) by (simp add: check_def isEOF_def)
  have nt: "nxt ?tail = (if as = [] then T_RParen else T_Comma)" by simp
  have body: "arg_body (knot n) (args, False) p =
      (Done (args @ [a], False), fwd (length (print_arg a) + (if nxt ?tail = T_Comma then 1 else 0)) p)"
    using Cons.prems by (intro arg_body_at [OF _ _ p]) (auto simp: nt)
  let ?q = "fwd (length (print_arg a) + (if as = [] then 0 else 1)) p"
  have q: "at ?q (print_args as @ tk T_RParen v # rest)"
  proof (cases "as = []")
    case True
    then show ?thesis using at_fwd [OF p] by simp
  next
    case False
    then show ?thesis using at_tl [of "fwd (length (print_arg a)) p"] at_fwd [OF p] by simp
  qed
  have "whileP more_args (arg_body (knot n)) (args, False) p = whileP more_args (arg_body (knot n)) (args @ [a], False) ?q"
    using more body Cons.prems(4)
    by (subst whileP_unfold [OF arg_body_shrinks [OF recs_knot]]) (auto simp: ifP_def bnd_def nt)
  also have "\<dots> = (Done ((args @ [a]) @ as, False), fwd (length (print_args as)) ?q)"
    using Cons.prems by (intro Cons.IH [OF _ _ q]) (auto simp: left_def)
  finally show ?case by (simp add: add.assoc)
qed

lemma parseCallArgs_at:
  assumes "list_all printable_arg as" "\<forall>a \<in> set as. reads_back (arg_expr a)"
    and p: "at p (tk T_LParen u # print_args as @ tk T_RParen v # rest)" "left p \<le> n" and rest: "nxt rest \<noteq> T_LBrace"
  shows "parseCallArgs (knot n) ps fn p = (Done (CallExpr ps fn as), fwd (length (print_args as) + 2) p)"
proof -
  have p1: "at (fwd 1 p) (print_args as @ tk T_RParen v # rest)" by (rule at_tl [OF p(1)])
  have l1: "left (fwd 1 p) < n" using at_left [OF p(1)] at_left [OF p1] p(2) by simp
  have p2: "at (fwd (1 + length (print_args as)) p) (tk T_RParen v # rest)" using at_fwd [OF p1] by simp
  have p3: "at (fwd (length (print_args as) + 2) p) rest" using at_tl [OF p2] by simp
  show ?thesis
    using expect_at [OF p(1)] args_at [OF assms(1,2) p1 l1, of "[]"] expect_at [OF p2] at_type [OF p3] rest
    unfolding parseCallArgs_body by (simp add: bnd_def ifP_def ret_def check_def)
qed

section \<open>Lists\<close>

lemma items_at:
  assumes "list_all printable_opt vs" "\<forall>v \<in> set vs. reads_back (the v)" "at p (print_items vs @ tk T_RBracket u # rest)" "left p < n"
  shows "whileP (\<lambda>_ p. \<not> check T_RBracket p \<and> \<not> isEOF p)
      (\<lambda>acc. bnd (rExpr (knot n) precNone) (\<lambda>x. bnd (parser_match T_Comma) (\<lambda>_. ret (acc @ [x])))) acc p =
    (Done (acc @ vs), fwd (length (print_items vs)) p)"
  using assms
proof (induction vs arbitrary: acc p)
  case Nil
  then show ?case using at_type [of p] by (simp add: whileP_def ifP_def ret_def check_def)
next
  case (Cons w vs)
  let ?c = "\<lambda>_ p. \<not> check T_RBracket p \<and> \<not> isEOF p"
  let ?b = "\<lambda>acc. bnd (rExpr (knot n) precNone) (\<lambda>x. bnd (parser_match T_Comma) (\<lambda>_. ret (acc @ [x])))"
  obtain e where e: "w = Some e" "printable e" using Cons.prems(1) by (auto simp: printable_opt_iff)
  let ?tail = "(if vs = [] then [] else tk T_Comma (lit '','') # print_items vs) @ tk T_RBracket u # rest"
  have p: "at p (print e @ ?tail)" using Cons.prems(3) by (simp add: e parens_def split: if_splits)
  have more: "?c acc p"
    using at_type [OF p] nxt_starts [OF print_starts [OF e(2)], of ?tail] by (simp add: check_def isEOF_def)
  have n: "rExpr (knot n) = parseExpr (knot (n - 1))" "left p \<le> n - 1" using knot_rExpr [of n] Cons.prems(4) by simp_all
  have nt: "nxt ?tail = (if vs = [] then T_RBracket else T_Comma)" by simp
  have re: "reads_back e" using Cons.prems(2) e(1) by simp
  have pe: "parseExpr (knot (n - 1)) precNone p = (Done (Some e), fwd (length (print e)) p)"
    by (intro read_whole [OF re e(2) p n(2)]) (auto simp: nt type_prec_def prec_defs)
  have p1: "at (fwd (length (print e)) p) ?tail" by (rule at_fwd [OF p])
  let ?q = "fwd (length (print e) + (if vs = [] then 0 else 1)) p"
  have m: "parser_match T_Comma (fwd (length (print e)) p) = (Done (vs \<noteq> []), ?q)"
  proof (cases "vs = []")
    case True
    then show ?thesis using match_not [OF p1] by simp
  next
    case False
    then show ?thesis using match_at [of "fwd (length (print e)) p" T_Comma] p1 by simp
  qed
  have q: "at ?q (print_items vs @ tk T_RBracket u # rest)"
    using p1 at_tl [of "fwd (length (print e)) p"] by (cases "vs = []") simp_all
  have sh: "shrinks ?c ?b x r" if "?c x r" "left r \<le> left p" for x r
    using that Cons.prems(4) unfolding shrinks_def
    by (auto simp: steps check_def isEOF_def intro!: plain_wp rec_wp(1) [OF recs_knot])
  have "whileP ?c ?b acc p = whileP ?c ?b (acc @ [w]) ?q"
    using more pe m n(1) by (subst whileP_unfold [OF sh]) (auto simp: ifP_def bnd_def ret_def e(1))
  also have "\<dots> = (Done ((acc @ [w]) @ vs), fwd (length (print_items vs)) ?q)"
    using Cons.prems by (intro Cons.IH [OF _ _ q]) (auto simp: left_def)
  finally show ?case by (simp add: e(1) parens_def add.assoc)
qed

section \<open>The expressions\<close>

lemma size_arg: "a \<in> set as \<Longrightarrow> printable_arg a \<Longrightarrow> size (arg_expr a) < size (CallExpr p f as)"
proof (induction as)
  case (Cons b as)
  then show ?case by (cases "a = b"; cases b) (auto simp: arg_expr_def printable_opt_iff)
qed simp

lemma size_item: "v \<in> set vs \<Longrightarrow> printable_opt v \<Longrightarrow> size (the v) < size (ListExpr p vs)"
proof (induction vs)
  case (Cons w vs)
  then show ?case by (cases "v = w"; cases w) (auto simp: printable_opt_iff)
qed simp

lemma reads_back_prefix:
  assumes "\<And>p n rest. at p (print e @ rest) \<Longrightarrow> left p \<le> n \<Longrightarrow> follows e rest \<Longrightarrow>
    parsePrefixExpr (knot n) p = (Done (Some e), fwd (length (print e)) p)"
  shows "reads_back e"
  using assms parseExpr_prefix by (simp add: reads_back_def)

lemma reads_back_literal:
  assumes "printable (Literal ps t v)"
  shows "reads_back (Literal ps t v)"
proof (rule reads_back_prefix)
  fix p n rest
  assume "at p (print (Literal ps t v) @ rest)"
  then have p: "at p (tk t v # rest)" by simp
  then show "parsePrefixExpr (knot n) p = (Done (Some (Literal ps t v)), fwd (length (print (Literal ps t v))) p)"
    using assms infix_entry [OF p] advance_at [OF p]
    by (auto simp: parsePrefixExpr_def bnd_def asks_def ret_def someP_def parseLiteral_def)
qed

lemma reads_back_ident: "printable (Ident ps x) \<Longrightarrow> reads_back (Ident ps x)"
proof (rule reads_back_prefix)
  fix p n rest
  assume pr: "printable (Ident ps x)" and "at p (print (Ident ps x) @ rest)" and f: "follows (Ident ps x) rest"
  then have p: "at p (tk T_Ident x # rest)" by simp
  then show "parsePrefixExpr (knot n) p = (Done (Some (Ident ps x)), fwd (length (print (Ident ps x))) p)"
    using pr f infix_entry [OF p] advance_at [OF p] at_type [OF at_tl [OF p]]
    by (simp add: parsePrefixExpr_def bnd_def asks_def ret_def someP_def parseIdentOrConstruction_def ifP_def check_def follows_def)
qed

lemma reads_back_list:
  assumes "printable (ListExpr ps vs)" "\<forall>v \<in> set vs. reads_back (the v)"
  shows "reads_back (ListExpr ps vs)"
proof (rule reads_back_prefix)
  fix p n rest
  let ?l = "tk T_LBracket (lit ''['')" and ?r = "tk T_RBracket (lit '']'')"
  assume "at p (print (ListExpr ps vs) @ rest)" and n: "left p \<le> n"
  then have p: "at p (?l # print_items vs @ ?r # rest)" by simp
  have p1: "at (fwd 1 p) (print_items vs @ ?r # rest)" by (rule at_tl [OF p])
  have l1: "left (fwd 1 p) < n" using at_left [OF p] at_left [OF p1] n by simp
  have p2: "at (fwd (Suc (length (print_items vs))) p) (?r # rest)" using at_fwd [OF p1] by simp
  show "parsePrefixExpr (knot n) p = (Done (Some (ListExpr ps vs)), fwd (length (print (ListExpr ps vs))) p)"
    using assms infix_entry [OF p] expect_at [OF p] items_at [OF _ assms(2) p1 l1, of "[]"] expect_at [OF p2]
    by (simp add: parsePrefixExpr_def bnd_def asks_def ret_def someP_def parseListExpr_def items_until_def until_def)
qed

lemma reads_back_unary:
  assumes "printable (UnaryExpr ps op (Some v))" "reads_back v" "op \<noteq> lit ''?''"
  shows "reads_back (UnaryExpr ps op (Some v))"
proof (rule reads_back_prefix)
  fix p n rest
  let ?t = "if op = lit ''!'' then T_Bang else T_Minus"
  assume p0: "at p (print (UnaryExpr ps op (Some v)) @ rest)" and n: "left p \<le> n" and f: "follows (UnaryExpr ps op (Some v)) rest"
  then have p: "at p (tk ?t op # parens (level v < precUnary) (print v) @ rest)" using assms(3) by simp
  note p1 = at_tl [OF p]
  have v: "printable v" using assms(1) by simp
  have "parseExpr (knot (n - 1)) precUnary (fwd 1 p) = (Done (Some v), fwd (length (parens (level v < precUnary) (print v))) (fwd 1 p))"
    using reach_unary [OF _ v] f assms(3)
    by (intro read_right [OF assms(2) v p1 knot_step(2) [OF p n]]) (auto simp: follows_def prec_defs)
  then show "parsePrefixExpr (knot n) p = (Done (Some (UnaryExpr ps op (Some v))), fwd (length (print (UnaryExpr ps op (Some v)))) p)"
    using assms(1,3) infix_entry [OF p] advance_at [OF p] knot_step(1) [OF p n]
    by (auto simp: parsePrefixExpr_def bnd_def asks_def ret_def someP_def parsePrefixUnary_def)
qed

text \<open>An expression that continues its left operand.\<close>

lemma reads_back_infix:
  assumes l: "reads_back l" "printable l"
    and pr: "print e = parens b (print l) @ tk t u # us"
    and lv: "reach e \<le> type_prec t False" "t \<noteq> T_LBrace" "\<not> b \<Longrightarrow> reach e \<le> reach l \<and> (\<forall>rest. follows l (tk t u # us @ rest))"
    and st: "\<And>q n rest. at q (tk t u # us @ rest) \<Longrightarrow> left q \<le> n \<Longrightarrow> follows e rest \<Longrightarrow>
      parseInfixExpr (knot n) l q = (Done e, fwd (Suc (length us)) q)"
  shows "reads_back e"
  unfolding reads_back_def
proof (intro allI impI)
  fix p n prec rest
  assume p0: "at p (print e @ rest)" and f: "follows e rest" and prec: "prec < reach e" and n: "left p \<le> n"
  then have p: "at p (parens b (print l) @ tk t u # us @ rest)" by (simp add: pr)
  note q = at_fwd [OF p]
  have n2: "left (fwd (length (parens b (print l))) p) \<le> n" using n by (simp add: left_def)
  have "parseExpr (knot n) prec p = someP (infix_loop (knot n) prec l) (fwd (length (parens b (print l))) p)"
    by (rule read_left [OF l p n]) (use lv prec in auto)
  also have "\<dots> = someP (infix_loop (knot n) prec e) (fwd (Suc (length us)) (fwd (length (parens b (print l))) p))"
    using infix_step [OF q n2 _ lv(2) st [OF q n2 f]] prec lv(1) by (simp add: someP_def bnd_def)
  finally show "parseExpr (knot n) prec p = someP (infix_loop (knot n) prec e) (fwd (length (print e)) p)"
    by (simp add: pr)
qed

lemma call_prec: "type_prec T_Dot False = precCall" "type_prec T_SafeDot False = precCall" "type_prec T_LParen False = precCall"
  "type_prec T_Question False = precCall" "type_prec T_Elvis False = precElvis" "type_prec T_BangElvis False = precElvis"
  "type_prec T_DotDot False = precRange"
  by (simp_all add: type_prec_def)

lemma reads_back_member:
  assumes "printable (MemberExpr ps l f safe)" "reads_back l"
  shows "reads_back (MemberExpr ps l f safe)"
proof (rule reads_back_infix [where l = l and b = "level l < precCall" and us = "[tk T_Ident f]"
      and t = "if safe then T_SafeDot else T_Dot" and u = "lit (if safe then ''?.'' else ''.'')"])
  fix q n rest
  assume q: "at q (tk (if safe then T_SafeDot else T_Dot) (lit (if safe then ''?.'' else ''.'')) # [tk T_Ident f] @ rest)"
    and f: "follows (MemberExpr ps l f safe) rest"
  show "parseInfixExpr (knot n) l q = (Done (MemberExpr ps l f safe), fwd (Suc (length [tk T_Ident f])) q)"
    using infix_member [of q safe "lit (if safe then ''?.'' else ''.'')" f rest "knot n" l] q f assms(1)
    by (auto simp: follows_def numeral_eq_Suc)
qed (use assms level_reach [of l] in \<open>auto simp: reach_def call_prec follows_def\<close>)

text \<open>A call of a member is read in one step, with the member.\<close>

lemma reads_back_method:
  assumes "printable (CallExpr ps (MemberExpr ps' l f False) as)" "reads_back l" "\<forall>a \<in> set as. reads_back (arg_expr a)"
  shows "reads_back (CallExpr ps (MemberExpr ps' l f False) as)"
proof (rule reads_back_infix [where l = l and b = "level l < precCall" and t = T_Dot and u = "lit ''.''"
      and us = "tk T_Ident f # tk T_LParen (lit ''('') # print_args as @ [tk T_RParen (lit '')'')]"])
  fix q n rest
  assume q0: "at q (tk T_Dot (lit ''.'') # (tk T_Ident f # tk T_LParen (lit ''('') # print_args as @ [tk T_RParen (lit '')'')]) @ rest)"
    and n: "left q \<le> n" and fo: "follows (CallExpr ps (MemberExpr ps' l f False) as) rest"
  then have q: "at q (tk T_Dot (lit ''.'') # tk T_Ident f # tk T_LParen (lit ''('') # print_args as @ tk T_RParen (lit '')'') # rest)"
    by simp
  note q1 = at_tl [OF q] note q2 = at_tl [OF q1]
  have n2: "left (fwd 1 (fwd 1 q)) \<le> n" using n by (simp add: left_def)
  have "parseCallArgs (knot n) ps (MemberExpr ps' l f False) (fwd 1 (fwd 1 q)) =
      (Done (CallExpr ps (MemberExpr ps' l f False) as), fwd (length (print_args as) + 2) (fwd 1 (fwd 1 q)))"
    by (rule parseCallArgs_at [OF _ assms(3) q2 n2]) (use assms(1) fo in \<open>auto simp: follows_def\<close>)
  then show "parseInfixExpr (knot n) l q = (Done (CallExpr ps (MemberExpr ps' l f False) as),
      fwd (Suc (length (tk T_Ident f # tk T_LParen (lit ''('') # print_args as @ [tk T_RParen (lit '')'')]))) q)"
    using infix_entry [OF q] advance_at [OF q] expectIdent_at [OF q1] at_type [OF q2] assms(1)
    by (simp add: parseInfixExpr_def bnd_def asks_def ifP_def check_def Let_def)
qed (use assms level_reach [of l] in \<open>auto simp: reach_def call_prec follows_def parens_def\<close>)

lemma reads_back_call:
  assumes "printable (CallExpr ps f as)" "reads_back f" "\<forall>a \<in> set as. reads_back (arg_expr a)"
    and f: "\<nexists>p l x. f = MemberExpr p l x False"
  shows "reads_back (CallExpr ps f as)"
proof (rule reads_back_infix [where l = f and b = "level f < precCall" and t = T_LParen and u = "lit ''(''"
      and us = "print_args as @ [tk T_RParen (lit '')'')]"])
  fix q n rest
  assume q0: "at q (tk T_LParen (lit ''('') # (print_args as @ [tk T_RParen (lit '')'')]) @ rest)"
    and n: "left q \<le> n" and fo: "follows (CallExpr ps f as) rest"
  then have q: "at q (tk T_LParen (lit ''('') # print_args as @ tk T_RParen (lit '')'') # rest)" by simp
  have "parseCallArgs (knot n) ps f q = (Done (CallExpr ps f as), fwd (length (print_args as) + 2) q)"
    by (rule parseCallArgs_at [OF _ assms(3) q n]) (use assms(1) fo in \<open>auto simp: follows_def\<close>)
  then show "parseInfixExpr (knot n) f q = (Done (CallExpr ps f as), fwd (Suc (length (print_args as @ [tk T_RParen (lit '')'')]))) q)"
    using infix_entry [OF q] assms(1) by (simp add: parseInfixExpr_def bnd_def asks_def)
qed (use assms level_reach [of f] in \<open>auto simp: reach_def call_prec follows_def\<close>)

lemma reads_back_try:
  assumes "printable (UnaryExpr ps (lit ''?'') (Some v))" "reads_back v"
  shows "reads_back (UnaryExpr ps (lit ''?'') (Some v))"
proof (rule reads_back_infix [where l = v and b = "level v < precCall" and t = T_Question and u = "lit ''?''" and us = "[]"])
  fix q n rest
  assume "at q (tk T_Question (lit ''?'') # [] @ rest)"
  then have q: "at q (tk T_Question (lit ''?'') # rest)" by simp
  show "parseInfixExpr (knot n) v q = (Done (UnaryExpr ps (lit ''?'') (Some v)), fwd (Suc (length [])) q)"
    using infix_entry [OF q] advance_at [OF q] assms(1) by (simp add: parseInfixExpr_def bnd_def asks_def ret_def)
qed (use assms level_reach [of v] in \<open>auto simp: reach_def call_prec follows_def\<close>)

text \<open>The operators with two operands.\<close>

lemma reads_back_operator:
  assumes l: "reads_back l" "printable l" and r: "reads_back r" "printable r"
    and t: "t \<in> {T_Elvis, T_BangElvis, T_DotDot} \<or> ((t = T_ChanSend \<or> isBinaryOp_type t) \<and> t \<notin> {T_Dot, T_SafeDot, T_Question,
      T_LParen, T_LBrace, T_Elvis, T_BangElvis, T_DotDot})" "type_prec t False < precCall"
    and e: "e = (if t = T_Elvis then ElvisExpr zero_pos l (Some r) else if t = T_BangElvis then BangElvisExpr zero_pos l (Some r)
       else if t = T_DotDot then RangeExpr zero_pos l (Some r) else BinaryExpr zero_pos (Some l) u (Some r))"
    and lv: "reach e = type_prec t False" "level e = type_prec t False"
    and pr: "print e = parens (level l < type_prec t False) (print l) @ tk t u # parens (level r \<le> type_prec t False) (print r)"
  shows "reads_back e"
proof (rule reads_back_infix [OF l pr])
  fix q n rest
  let ?us = "parens (level r \<le> type_prec t False) (print r)"
  assume q: "at q (tk t u # ?us @ rest)" and n: "left q \<le> n" and f: "follows e rest"
  have "parseExpr (knot (n - 1)) (type_prec t False) (fwd 1 q) = (Done (Some r), fwd (length ?us) (fwd 1 q))"
    using level_reach [of r] t(2) f lv
    by (intro read_right [OF r at_tl [OF q] knot_step(2) [OF q n]]) (auto simp: follows_def)
  from infix_operator [OF q n this t(1)]
  show "parseInfixExpr (knot n) l q = (Done e, fwd (Suc (length ?us)) q)" by (simp add: e)
next
  show "t \<noteq> T_LBrace" using t(1) by (auto simp: isBinaryOp_type_def)
  then show "\<not> level l < type_prec t False \<Longrightarrow> reach e \<le> reach l \<and>
      (\<forall>rest. follows l (tk t u # parens (level r \<le> type_prec t False) (print r) @ rest))"
    using level_reach [of l] lv t by (auto simp: follows_def)
qed (simp add: lv)

lemma reads_back_binary:
  assumes "printable (BinaryExpr ps (Some l) op (Some r))" "reads_back l" "reads_back r"
  shows "reads_back (BinaryExpr ps (Some l) op (Some r))"
proof -
  have o: "op \<in> fst ` set binary_ops" using assms(1) by simp
  note t = op_type_cases [OF o]
  have z: "ps = zero_pos" "printable l" "printable r" using assms(1) by simp_all
  have t3: "op_type op \<noteq> T_Elvis" "op_type op \<noteq> T_BangElvis" "op_type op \<noteq> T_DotDot" using t by simp_all
  show ?thesis
  proof (rule reads_back_operator [OF assms(2) z(2) assms(3) z(3), where t = "op_type op" and u = op])
    show "op_type op \<in> {T_Elvis, T_BangElvis, T_DotDot} \<or> (op_type op = T_ChanSend \<or> isBinaryOp_type (op_type op)) \<and>
        op_type op \<notin> {T_Dot, T_SafeDot, T_Question, T_LParen, T_LBrace, T_Elvis, T_BangElvis, T_DotDot}"
      using t by blast
    show "type_prec (op_type op) False < precCall" using t by (simp add: prec_defs)
  qed (simp_all add: reach_def z(1) t3)
qed

text \<open>Every printable expression is read back.\<close>

lemma reads_back: "printable e \<Longrightarrow> reads_back e"
proof (induction "size e" arbitrary: e rule: less_induct)
  case less
  note ih = less.hyps
  have two: "reads_back l" "reads_back r" if "size l < size e" "size r < size e" "printable l" "printable r" for l r
    using ih that by blast+
  show ?case
  proof (cases e)
    case (Literal p t v)
    then show ?thesis using less.prems reads_back_literal by simp
  next
    case (Ident p x)
    then show ?thesis using less.prems reads_back_ident by simp
  next
    case (MemberExpr p l f safe)
    have "reads_back l" by (rule ih) (use MemberExpr less.prems in simp_all)
    then show ?thesis using reads_back_member less.prems MemberExpr by blast
  next
    case (ListExpr p vs)
    have "reads_back (the v)" if "v \<in> set vs" for v
    proof (rule ih)
      have "printable_opt v" using that less.prems ListExpr by (simp add: list_all_iff)
      then show "size (the v) < size e" "printable (the v)"
        using that size_item [of v vs p] ListExpr by (auto simp: printable_opt_iff)
    qed
    then show ?thesis using less.prems ListExpr reads_back_list by blast
  next
    case (UnaryExpr p op v)
    then obtain w where w: "v = Some w" "printable w" using less.prems by (auto simp: printable_opt_iff)
    have "reads_back w" by (rule ih) (use UnaryExpr w in simp_all)
    then show ?thesis using UnaryExpr w less.prems reads_back_try reads_back_unary by (cases "op = lit ''?''") blast+
  next
    case (BinaryExpr p l op r)
    then obtain l' r' where lr: "l = Some l'" "r = Some r'" "printable l'" "printable r'" using less.prems by (auto simp: printable_opt_iff)
    have "reads_back l'" "reads_back r'" by (rule two [of l' r']; use lr BinaryExpr in simp)+
    then show ?thesis using BinaryExpr lr less.prems reads_back_binary by blast
  next
    case (ElvisExpr p l r)
    then obtain r' where lr: "p = zero_pos" "r = Some r'" "printable l" "printable r'" using less.prems by (auto simp: printable_opt_iff)
    have "reads_back l" "reads_back r'" by (rule two [of l r']; use lr ElvisExpr in simp)+
    then show ?thesis
      by (rule reads_back_operator [where t = T_Elvis and u = "lit ''?:''", OF _ lr(3) _ lr(4)])
        (simp_all add: ElvisExpr lr reach_def call_prec prec_defs)
  next
    case (BangElvisExpr p l r)
    then obtain r' where lr: "p = zero_pos" "r = Some r'" "printable l" "printable r'" using less.prems by (auto simp: printable_opt_iff)
    have "reads_back l" "reads_back r'" by (rule two [of l r']; use lr BangElvisExpr in simp)+
    then show ?thesis
      by (rule reads_back_operator [where t = T_BangElvis and u = "lit ''!:''", OF _ lr(3) _ lr(4)])
        (simp_all add: BangElvisExpr lr reach_def call_prec prec_defs)
  next
    case (RangeExpr p l r)
    then obtain r' where lr: "p = zero_pos" "r = Some r'" "printable l" "printable r'" using less.prems by (auto simp: printable_opt_iff)
    have "reads_back l" "reads_back r'" by (rule two [of l r']; use lr RangeExpr in simp)+
    then show ?thesis
      by (rule reads_back_operator [where t = T_DotDot and u = "lit ''..''", OF _ lr(3) _ lr(4)])
        (simp_all add: RangeExpr lr reach_def call_prec prec_defs)
  next
    case (CallExpr p f as)
    have as: "\<forall>a \<in> set as. reads_back (arg_expr a)"
    proof
      fix a
      assume a: "a \<in> set as"
      then have pa: "printable_arg a" using less.prems CallExpr by (simp add: list_all_iff)
      then have "printable (arg_expr a)" by (cases a) (auto simp: arg_expr_def printable_opt_iff)
      then show "reads_back (arg_expr a)" by (intro ih) (use size_arg [OF a pa, of p f] CallExpr in simp_all)
    qed
    show ?thesis
    proof (cases "\<exists>q l x. f = MemberExpr q l x False")
      case True
      then obtain q l x where f: "f = MemberExpr q l x False" by blast
      have "reads_back l" by (rule ih) (use less.prems CallExpr f in simp_all)
      then show ?thesis using reads_back_method as less.prems CallExpr f by blast
    next
      case False
      have "reads_back f" by (rule ih) (use less.prems CallExpr in simp_all)
      then show ?thesis using reads_back_call [OF _ _ as False] less.prems CallExpr by blast
    qed
  qed (use less.prems in simp_all)
qed

section \<open>Properties\<close>

text \<open>C34: The parser reads back what the printer wrote with the fewest parentheses: an expression of literals, names,
  operators, member accesses, calls and lists, printed in front of any token that does not go on with it, is parsed to
  itself and exactly its tokens are consumed. So the operators have the precedence of the table and group to the left.\<close>

theorem print_parse:
  assumes "printable e" "at p (print e @ rest)" "left p \<le> n" "type_prec (nxt rest) False = 0" "nxt rest \<noteq> T_LBrace"
  shows "parseExpr (knot n) precNone p = (Done (Some e), fwd (length (print e)) p)"
  using read_whole [OF reads_back [OF assms(1)] assms(1,2,3,4,5)] .

lemma small_names [simp]: "isTypeName [1] = False" "isTypeName [2] = False" "isTypeName [3] = False"
  by (simp_all add: isTypeName_def word_le_nat_alt)

definition name_tk :: "byte \<Rightarrow> Token" where
  "name_tk c = tk T_Ident [c]"

definition name_ex :: "byte \<Rightarrow> Expr" where
  "name_ex c = Ident zero_pos [c]"

lemma print_parse_witness: "fst (parseExpr (knot 9) precNone (New_Parser
  (print (BinaryExpr zero_pos (Some (BinaryExpr zero_pos (Some (name_ex 1)) (lit ''+'') (Some (name_ex 2)))) (lit ''*'') (Some (name_ex 3))) @ [eof_token]))) =
  Done (Some (BinaryExpr zero_pos (Some (BinaryExpr zero_pos (Some (name_ex 1)) (lit ''+'') (Some (name_ex 2)))) (lit ''*'') (Some (name_ex 3))))"
  (is "fst (_ (New_Parser (print ?e @ _))) = _")
  using print_parse [of ?e "New_Parser (print ?e @ [eof_token])" "[eof_token]" 9]
  by (simp add: at_def New_Parser_def left_def name_ex_def parens_def op_type_def binary_ops_def lit_def type_prec_def prec_defs eof_token_def)

section \<open>What the parser does beside its grammar\<close>

text \<open>A list type forgets whether its elements may be null, a condition of a for groups its operators to the right
  whatever they are, a call at the end of that condition takes the body of the loop as its trailing lambda, an argument
  without a value disappears without an error, and a documentation comment at the end of a model loses the model.\<close>

lemma list_type_drops_nullability:
  "fst (parseTypeRef (New_Parser [tk T_LBracket [], tk T_Ident x, tk T_Question [], tk T_RBracket [], eof_token])) =
   fst (parseTypeRef (New_Parser [tk T_LBracket [], tk T_Ident x, tk T_RBracket [], eof_token]))"
  by (simp add: parseTypeRef_def run_defs New_Parser_def tk_def eof_token_def numeral_eq_Suc)

lemma doc_before_brace_loses_the_model:
  "Parse [] [tk T_Model [], tk T_Ident [0x41], tk T_LBrace [], tk T_DocComment [0x64], tk T_RBrace [], eof_token] =
   Some (empty_file [], [\<lparr>pePos = zero_pos, peMessage = lit ''expected identifier, got '' @ Type_String T_RBrace\<rparr>])"
  by (simp add: Parse_def parse_file_def  run_defs New_Parser_def tk_def eof_token_def numeral_eq_Suc parseTopLevelRecover_def parseTopLevel_def
    parseModel_def decl_head_def parseDirectives_def model_member_def parseField_def empty_file_def synchronize_def isTopLevelKeyword_def
     del: knot.simps)

lemma for_condition_ignores_precedence:
  "fst (parseForCondition (knot 9) (New_Parser [name_tk 1, tk T_Lt [0x3C], name_tk 2, tk T_And [0x26], name_tk 3, tk T_LBrace []])) =
     Done (Some (BinaryExpr zero_pos (Some (name_ex 1)) [0x3C] (Some (BinaryExpr zero_pos (Some (name_ex 2)) [0x26] (Some (name_ex 3))))))"
  by (simp add: expr_defs name_tk_def name_ex_def run_defs del: knot.simps)

lemma for_call_takes_the_body:
  "fst (parseForCondition (knot 9) (New_Parser [name_tk 1, tk T_LParen [], tk T_RParen [], tk T_LBrace [], tk T_RBrace [], eof_token])) =
     Done (Some (CallExpr zero_pos (name_ex 1) [NamedArg [] (Some (LambdaExpr zero_pos [] (Block zero_pos zero_pos [])))]))"
  by (simp add: expr_defs name_tk_def name_ex_def run_defs del: knot.simps)

lemma incomplete_argument_is_dropped:
  "parseExpr (knot 9) precNone (New_Parser [name_tk 1, tk T_LParen [], name_tk 2, tk T_Colon [], tk T_RParen [], eof_token]) =
     (Done (Some (CallExpr zero_pos (name_ex 1) [])), fwd 5 (New_Parser [name_tk 1, tk T_LParen [], name_tk 2, tk T_Colon [], tk T_RParen [], eof_token]))"
  by (simp add: expr_defs name_tk_def name_ex_def peekType_def parser_peek_def fwd_def run_defs del: knot.simps)

end
