(* ===== verification/Walk.thy ===== *)
theory Walk
  imports Complete
begin

text \<open>
  What the rest of the compiler asks of the syntax tree: the walk over the expressions of a block
  (pkg/ast/ast.go), the operations that a model's @crud directive enables (pkg/ast/crud.go) and the
  parameters that @paginate adds to an API (pkg/ast/pagination.go).
\<close>


section \<open>Walking over the expressions of a block\<close>

text \<open>The calls of the visitor in their order; None is the nil dereference of a statement that is the typed nil.\<close>

definition visits :: "Expr list option list \<Rightarrow> Expr list option" where
  "visits rs = map_option concat (those rs)"

definition visit :: "Expr \<Rightarrow> Expr list option list \<Rightarrow> Expr list option" where
  "visit e rs = visits (Some [e] # rs)"

fun walkExpr :: "Expr \<Rightarrow> Expr list option"
  and walk_opt :: "Expr option \<Rightarrow> Expr list option"
  and walk_arg :: "NamedArg \<Rightarrow> Expr list option"
  and walk_branch :: "WhenBranch \<Rightarrow> Expr list option"
  and walkStmtExprs :: "Stmt \<Rightarrow> Expr list option"
  and WalkExprs :: "Block \<Rightarrow> Expr list option"
where
  "walkExpr (Literal p k v) = visit (Literal p k v) []"
| "walkExpr (Ident p x) = visit (Ident p x) []"
| "walkExpr (MemberExpr p e f s) = visit (MemberExpr p e f s) [walkExpr e]"
| "walkExpr (CallExpr p f as) = visit (CallExpr p f as) (walkExpr f # map walk_arg as)"
| "walkExpr (BinaryExpr p l op r) = visit (BinaryExpr p l op r) [walk_opt l, walk_opt r]"
| "walkExpr (UnaryExpr p op v) = visit (UnaryExpr p op v) [walk_opt v]"
| "walkExpr (ElvisExpr p l r) = visit (ElvisExpr p l r) [walkExpr l, walk_opt r]"
| "walkExpr (BangElvisExpr p l r) = visit (BangElvisExpr p l r) [walkExpr l, walk_opt r]"
| "walkExpr (WhenExpr p s brs els) = visit (WhenExpr p s brs els) (walk_opt s # map walk_branch brs @ [walk_opt els])"
| "walkExpr (LambdaExpr p xs b) = visit (LambdaExpr p xs b) [WalkExprs b]"
| "walkExpr (ListExpr p es) = visit (ListExpr p es) (map walk_opt es)"
| "walkExpr (ObjectExpr p n as) = visit (ObjectExpr p n as) (map walk_arg as)"
| "walkExpr (TemplateString p es) = visit (TemplateString p es) (map walk_opt es)"
| "walkExpr (RangeExpr p l r) = visit (RangeExpr p l r) [walkExpr l, walk_opt r]"
| "walkExpr (YieldExpr p v) = visit (YieldExpr p v) [walk_opt v]"
| "walkExpr (AsyncExpr p b) = visit (AsyncExpr p b) [WalkExprs b]"
| "walkExpr (AwaitExpr p b) = visit (AwaitExpr p b) [WalkExprs b]"
| "walkExpr (ForExpr p x c b) = visit (ForExpr p x c b) [walk_opt c, WalkExprs b]"
| "walk_opt None = Some []"
| "walk_opt (Some e) = walkExpr e"
| "walk_arg (NamedArg _ v) = walk_opt v"
| "walk_branch (WhenBranch c _ b) = visits [walk_opt c, walk_opt b]"
| "walkStmtExprs (ValStmt _ _ _ _ _ v _) = walk_opt v"
| "walkStmtExprs (AssignStmt _ _ _ v) = walk_opt v"
| "walkStmtExprs (ReturnStmt _ v) = walk_opt v"
| "walkStmtExprs (ThrowStmt _ v) = walk_opt v"
| "walkStmtExprs (ExprStmt _ v) = walk_opt v"
| "walkStmtExprs NilExprStmt = None"
| "walkStmtExprs (IfStmt _ c b) = visits [walk_opt c, WalkExprs b]"
| "walkStmtExprs (ForStmt _ _ c b) = visits [walk_opt c, WalkExprs b]"
| "walkStmtExprs (EmitStmt _ _ as) = visits (map walk_arg as)"
| "walkStmtExprs (BreakStmt _) = Some []"
| "walkStmtExprs (ContinueStmt _) = Some []"
| "WalkExprs (Block _ _ ss) = visits (map walkStmtExprs ss)"

text \<open>What holds of the walk of a complete tree: it returns, and shows the visitor only complete expressions.\<close>

definition walked :: "Expr list option \<Rightarrow> bool" where
  "walked r = given (list_all complete) r"

lemma walked_Some [simp]: "walked (Some es) = list_all complete es"
  by (simp add: walked_def)

lemma visits_Cons: "visits (r # rs) = (case r of None \<Rightarrow> None | Some es \<Rightarrow> map_option ((@) es) (visits rs))"
  by (cases r) (auto simp: visits_def option.map_comp o_def)

lemma walked_visits: "walked (visits rs) \<longleftrightarrow> list_all walked rs"
proof (induction rs)
  case (Cons r rs)
  then show ?case
    by (cases r; cases "visits rs") (auto simp: visits_Cons walked_def)
qed (simp add: visits_def)

lemma walked_visit [simp]: "walked (visit e rs) \<longleftrightarrow> complete e \<and> list_all walked rs"
  by (simp add: visit_def walked_visits)

lemma given_option: "given Q v \<longleftrightarrow> v \<noteq> None \<and> pred_option Q v"
  by (cases v) auto

lemma WalkExprs_walked:
  "complete e \<Longrightarrow> walked (walkExpr e)"
  "pred_option complete v \<Longrightarrow> walked (walk_opt v)"
  "complete_arg a \<Longrightarrow> walked (walk_arg a)"
  "complete_branch br \<Longrightarrow> walked (walk_branch br)"
  "complete_stmt s \<Longrightarrow> walked (walkStmtExprs s)"
  "complete_block b \<Longrightarrow> walked (WalkExprs b)"
proof (induction e and v and a and br and s and b rule: walkExpr_walk_opt_walk_arg_walk_branch_walkStmtExprs_WalkExprs.induct)
qed (auto simp: walked_visits list_all_iff given_option)

section \<open>The operations of @crud\<close>

definition allCRUDOperations :: "bytes list" where
  "allCRUDOperations = [lit ''get'', lit ''list'', lit ''create'', lit ''update'', lit ''delete'', lit ''deleteMany'']"

definition crudOperationList :: "Expr option \<Rightarrow> bytes list" where
  "crudOperationList e =
     (case e of
        Some (ListExpr _ items) \<Rightarrow> concat (map (\<lambda>i. case i of Some (Ident _ x) \<Rightarrow> [x] | _ \<Rightarrow> []) items)
      | _ \<Rightarrow> [])"

fun containsCRUDOperation :: "bytes list \<Rightarrow> bytes \<Rightarrow> bool" where
  "containsCRUDOperation [] target = False"
| "containsCRUDOperation (x # xs) target = (x = target \<or> containsCRUDOperation xs target)"

definition excludeCRUDOperations :: "bytes list \<Rightarrow> bytes list" where
  "excludeCRUDOperations excluded = filter (\<lambda>x. \<not> containsCRUDOperation excluded x) allCRUDOperations"

text \<open>The first argument that is named only or except decides.\<close>

fun crud_args :: "NamedArg list \<Rightarrow> bytes list" where
  "crud_args [] = allCRUDOperations"
| "crud_args (NamedArg n v # as) =
     (if n = lit ''only'' then crudOperationList v
      else if n = lit ''except'' then excludeCRUDOperations (crudOperationList v)
      else crud_args as)"

fun crud_directives :: "Directive list \<Rightarrow> bytes list" where
  "crud_directives [] = []"
| "crud_directives (d # ds) =
     (if dirName d \<noteq> lit ''crud'' then crud_directives ds
      else if dirArgs d = [] then allCRUDOperations else crud_args (dirArgs d))"

definition CRUDOperations :: "ModelDecl option \<Rightarrow> bytes list" where
  "CRUDOperations m = (case m of None \<Rightarrow> [] | Some m \<Rightarrow> crud_directives (mdlDirectives m))"

section \<open>The parameters of @paginate\<close>

definition DefaultPaginationPageSize :: int where
  "DefaultPaginationPageSize = 20"

fun find_directive :: "bytes \<Rightarrow> Directive list \<Rightarrow> Directive option" where
  "find_directive name [] = None"
| "find_directive name (d # ds) = (if dirName d = name then Some d else find_directive name ds)"

definition api_directive :: "ApiDecl \<Rightarrow> bytes \<Rightarrow> Directive option" where
  "api_directive a name = find_directive name (apiDirectives a)"

fun hasAPIParam :: "ParamDecl list \<Rightarrow> bytes \<Rightarrow> bool" where
  "hasAPIParam [] name = False"
| "hasAPIParam (p # ps) name = (parName p = name \<or> hasAPIParam ps name)"


text \<open>strconv.Atoi with its error.\<close>

definition Atoi_ok :: "bytes \<Rightarrow> int option" where
  "Atoi_ok s =
     (let neg = (s \<noteq> [] \<and> hd s = 0x2D); ds = (if s \<noteq> [] \<and> (hd s = 0x2D \<or> hd s = 0x2B) then tl s else s);
          v = (if neg then -1 else 1) * fold (\<lambda>c a. a * 10 + uint (c - 0x30)) ds 0
      in if ds = [] \<or> \<not> list_all is_digit ds \<or> v < - (2 ^ 63) \<or> 2 ^ 63 \<le> v then None else Some v)"

text \<open>The argument that sets the page size: the one of that name, or else the first.\<close>

fun page_size_arg :: "NamedArg list \<Rightarrow> NamedArg \<Rightarrow> NamedArg" where
  "page_size_arg [] a = a"
| "page_size_arg (c # cs) a = (if argName c = lit ''defaultPageSize'' then c else page_size_arg cs a)"

definition DefaultPageSize :: "ApiDecl \<Rightarrow> int" where
  "DefaultPageSize a =
     (case api_directive a (lit ''paginate'') of
        None \<Rightarrow> DefaultPaginationPageSize
      | Some d \<Rightarrow>
          (case dirArgs d of
             [] \<Rightarrow> DefaultPaginationPageSize
           | a0 # as \<Rightarrow>
               (case argValue (page_size_arg (a0 # as) a0) of
                  Some (Literal _ k v) \<Rightarrow>
                    (if k \<noteq> T_Int then DefaultPaginationPageSize
                     else case Atoi_ok v of
                       None \<Rightarrow> DefaultPaginationPageSize
                     | Some n \<Rightarrow> if n \<le> 0 then DefaultPaginationPageSize else n)
                | _ \<Rightarrow> DefaultPaginationPageSize)))"

definition paginationParam :: "bytes \<Rightarrow> bytes \<Rightarrow> ParamDecl" where
  "paginationParam name dflt =
     \<lparr>parPos = zero_pos, parDoc = [], parName = name, parType = TypeRef zero_pos (lit ''Int'') False False [] [] [],
      parDefault = Some (Literal zero_pos T_Int dflt), parSpread = False\<rparr>"

definition EffectiveParams :: "ApiDecl option \<Rightarrow> ParamDecl list" where
  "EffectiveParams a =
     (case a of
        None \<Rightarrow> []
      | Some a \<Rightarrow>
          if api_directive a (lit ''paginate'') = None then apiParams a
          else
            let ps = apiParams a;
                ps = (if hasAPIParam ps (lit ''page'') then ps else ps @ [paginationParam (lit ''page'') (lit ''1'')])
            in if hasAPIParam ps (lit ''pageSize'') then ps
               else ps @ [paginationParam (lit ''pageSize'') (itoa (nat (DefaultPageSize a)))])"

lemma contains_iff [simp]: "containsCRUDOperation xs t \<longleftrightarrow> t \<in> set xs"
  by (induction xs) auto

lemma has_param_iff [simp]: "hasAPIParam ps n \<longleftrightarrow> n \<in> parName ` set ps"
  by (induction ps) auto

lemma excluded_operations: "set (excludeCRUDOperations xs) = set allCRUDOperations - set xs"
  by (auto simp: excludeCRUDOperations_def)

lemma Atoi_ok_range: "Atoi_ok s = Some n \<Longrightarrow> n < 2 ^ 63"
  by (simp add: Atoi_ok_def Let_def split: if_splits)

lemma DefaultPageSize_range: "0 < DefaultPageSize a \<and> DefaultPageSize a < 2 ^ 63"
proof (cases "api_directive a (lit ''paginate'')")
  case (Some d)
  show ?thesis
  proof (cases "dirArgs d")
    case (Cons a0 as)
    let ?v = "argValue (page_size_arg (a0 # as) a0)"
    note d = DefaultPageSize_def DefaultPaginationPageSize_def Some Cons
    show ?thesis
    proof (cases "\<exists>p k v. ?v = Some (Literal p k v)")
      case True
      then obtain p k v where "?v = Some (Literal p k v)" by blast
      then show ?thesis using Atoi_ok_range [of v] by (cases "Atoi_ok v") (simp_all add: d del: page_size_arg.simps)
    next
      case False
      then have "DefaultPageSize a = 20" by (cases ?v; cases "the ?v") (simp_all add: d del: page_size_arg.simps)
      then show ?thesis by simp
    qed
  qed (simp add: DefaultPageSize_def DefaultPaginationPageSize_def Some)
qed (simp add: DefaultPageSize_def DefaultPaginationPageSize_def)

text \<open>A decimal number is read back.\<close>

definition dec_val :: "bytes \<Rightarrow> int" where
  "dec_val ds = fold (\<lambda>c a. a * 10 + uint (c - 0x30)) ds 0"

lemma dec_val_snoc [simp]: "dec_val (ds @ [c]) = dec_val ds * 10 + uint (c - 0x30)"
  by (simp add: dec_val_def)

lemma digit_cases: "k < 10 \<Longrightarrow> k \<in> {0, 1, 2, 3, 4, 5, 6, 7, 8, 9 :: nat}"
  by auto

lemma digit_nat: "k < 10 \<Longrightarrow> uint ((0x30 + of_nat k :: byte) - 0x30) = int k"
  using digit_cases [of k] by auto

lemma digit_is: "k < 10 \<Longrightarrow> is_digit (0x30 + of_nat k)"
  using digit_cases [of k] by (auto simp: is_digit_def word_le_nat_alt)

lemma itoa_dec_val: "dec_val (itoa n) = int n \<and> list_all is_digit (itoa n) \<and> itoa n \<noteq> []"
proof (induction n rule: itoa.induct)
  case (1 n)
  show ?case
  proof (cases "n < 10")
    case True
    then show ?thesis using digit_nat [of n] digit_is [of n] by (subst (1 2 3) itoa.simps) (simp add: dec_val_def)
  next
    case False
    then have ih: "dec_val (itoa (n div 10)) = int (n div 10)" "list_all is_digit (itoa (n div 10))" using 1 by auto
      have "int (n div 10) * 10 + int (n mod 10) = int n" by presburger
    then show ?thesis using ih False digit_nat [of "n mod 10"] digit_is [of "n mod 10"] by (subst (1 2 3) itoa.simps) simp
  qed
qed

lemma Atoi_ok_itoa:
  assumes "n < 2 ^ 63"
  shows "Atoi_ok (itoa n) = Some (int n)"
proof -
  have d: "list_all is_digit (itoa n)" "itoa n \<noteq> []" "fold (\<lambda>c a. a * 10 + uint (c - 0x30)) (itoa n) 0 = int n"
    using itoa_dec_val [of n] by (auto simp: dec_val_def)
  then have "hd (itoa n) \<noteq> 0x2D \<and> hd (itoa n) \<noteq> 0x2B"
    by (cases "itoa n") (auto simp: is_digit_def word_le_nat_alt)
  then show ?thesis using d assms by (simp add: Atoi_ok_def)
qed

lemma EffectiveParams_props:
  assumes "api_directive a (lit ''paginate'') \<noteq> None"
  shows "\<exists>extra. EffectiveParams (Some a) = apiParams a @ extra \<and> parName ` set extra \<subseteq> {lit ''page'', lit ''pageSize''} \<and>
      (distinct (map parName (apiParams a)) \<longrightarrow> distinct (map parName (EffectiveParams (Some a))))"
    and "{lit ''page'', lit ''pageSize''} \<subseteq> parName ` set (EffectiveParams (Some a))"
proof -
  have n: "lit ''page'' \<noteq> lit ''pageSize''" by (simp add: lit_def)
  show "{lit ''page'', lit ''pageSize''} \<subseteq> parName ` set (EffectiveParams (Some a))"
    using assms by (auto simp: EffectiveParams_def Let_def paginationParam_def)
  show "\<exists>extra. EffectiveParams (Some a) = apiParams a @ extra \<and> parName ` set extra \<subseteq> {lit ''page'', lit ''pageSize''} \<and>
      (distinct (map parName (apiParams a)) \<longrightarrow> distinct (map parName (EffectiveParams (Some a))))"
    using assms n by (auto simp: EffectiveParams_def Let_def paginationParam_def image_iff)
qed

lemma parsed_body_walked:
  assumes "Parse name ts = Some (f, [])" "Some b \<in> fnBody ` set (Functions f) \<union> apiBody ` set (APIs f)"
  shows "walked (WalkExprs b)"
proof -
  have "complete_file f" using assms(1) by (rule Parse_clean(1))
  then have "complete_block b"
    using assms(2) by (auto simp: complete_file_def list_all_iff complete_fn_def complete_api_def) (metis option.pred_inject(2))+
  then show ?thesis by (rule WalkExprs_walked)
qed

section \<open>Properties\<close>


text \<open>A function whose body is a number.\<close>

definition one_fn :: "Token list" where
  "one_fn = [tk T_Fn [], tk T_Ident [0x61], tk T_LParen [], tk T_RParen [], tk T_LBrace [], tk T_Int [0x31], tk T_RBrace [], eof_token]"

lemma one_fn_run: "Parse [] one_fn =
  Some (empty_file []\<lparr>Functions := [\<lparr>fnPos = zero_pos, fnDoc = [], fnName = [0x61], fnParams = [], fnReturnType = None,
    fnDirectives = [], fnBody = Some (Block zero_pos zero_pos [ExprStmt zero_pos (Some (Literal zero_pos T_Int [0x31]))])\<rparr>]\<rparr>, [])"
  by (simp add: Parse_def one_fn_def parse_file_def run_defs parseTopLevelRecover_def
     parseTopLevel_def parseFn_def decl_head_def param_list_def optional_type_def parseDirectives_def optional_body_def parseBlock_def
     parseStmt_def someS_def parseExprStmt_def isAssignOp_def empty_file_def expr_defs peekType_def parser_peek_def del: knot.simps)


text \<open>An API with @paginate has its own parameters, unchanged and first, and both page and pageSize, added only when
  it has none of that name; the page size that is added reads back as the default page size, a positive int.\<close>

theorem EffectiveParams_paginated:
  assumes "api_directive a (lit ''paginate'') \<noteq> None"
  shows "take (length (apiParams a)) (EffectiveParams (Some a)) = apiParams a \<and>
    {lit ''page'', lit ''pageSize''} \<subseteq> parName ` set (EffectiveParams (Some a)) \<and>
    (distinct (map parName (apiParams a)) \<longrightarrow> distinct (map parName (EffectiveParams (Some a)))) \<and>
    Atoi_ok (itoa (nat (DefaultPageSize a))) = Some (DefaultPageSize a) \<and> 0 < DefaultPageSize a"
  using EffectiveParams_props [OF assms] Atoi_ok_itoa [of "nat (DefaultPageSize a)"] DefaultPageSize_range [of a]
  by auto

lemma EffectiveParams_paginated_witness:
  "map parName (EffectiveParams (Some (empty_api\<lparr>apiDirectives := [Directive zero_pos (lit ''paginate'') [] None]\<rparr>))) =
     [lit ''page'', lit ''pageSize''] \<and>
   Atoi_ok (itoa (nat (DefaultPageSize (empty_api\<lparr>apiDirectives := [Directive zero_pos (lit ''paginate'') [] None]\<rparr>)))) = Some 20"
  using EffectiveParams_paginated [of "empty_api\<lparr>apiDirectives := [Directive zero_pos (lit ''paginate'') [] None]\<rparr>"]
  by (simp add: EffectiveParams_def api_directive_def paginationParam_def empty_api_def lit_def DefaultPageSize_def DefaultPaginationPageSize_def)

end
