(* ===== verification/Lockfile.thy ===== *)
theory Lockfile
  imports Walk "HOL-Library.AList" "HOL-Library.List_Lexorder"
begin

text \<open>
  The lock file of pkg/lockfile: the stable numbers of fields, parameters and APIs that the binary
  protocol sends instead of names (lockfile.go), and the comparison of the current sources with the
  locked contract (compatibility.go).

  A Go map is an association list with distinct keys; where the code ranges over a map, the model
  goes through the list. Go's order is arbitrary, and every list with the same entries is a state of
  the model, so what is proved for all states holds for every order of one range. The order shows only in the reserved
  numbers, which Save sorts, and in the breaking changes, which are sorted by path. Numbers are integers:
  the code's int would overflow only after 2^63 declarations or in a lock file that says so. A map that is nil
  is the empty list, except where the code tells the two apart. The conversions of unicode.ToUpper and unicode.ToLower
  are the two parameters up and lo.
\<close>

section \<open>Lock files\<close>

record ModelLock =
  mlNextID :: int
  mlFields :: "(bytes \<times> int) list"
  mlFieldTypes :: "(bytes \<times> bytes) list option"
  mlReserved :: "int list"

record APILock =
  alID :: int
  alParams :: "(bytes \<times> int) list"
  alParamTypes :: "(bytes \<times> bytes) list"
  alReturnType :: bytes
  alContract :: bool
  alReserved :: "int list"
  alnextP :: int

record LockFile =
  lfVersion :: int
  lfModels :: "(bytes \<times> ModelLock) list"
  lfTypes :: "(bytes \<times> ModelLock) list"
  lfEvents :: "(bytes \<times> ModelLock) list"
  lfAPIs :: "(bytes \<times> APILock) list"
  lfReservedAPI :: "int list"
  nextAPI :: int

definition currentVersion :: int where
  "currentVersion = 2"

definition New_LockFile :: LockFile where
  "New_LockFile =
     \<lparr>lfVersion = currentVersion, lfModels = [], lfTypes = [], lfEvents = [], lfAPIs = [], lfReservedAPI = [], nextAPI = 0\<rparr>"

text \<open>The largest number given to an API.\<close>

definition computeNextAPI :: "LockFile \<Rightarrow> LockFile" where
  "computeNextAPI lf =
     (let m = fold (\<lambda>(_, al) m. if alID al > m then alID al else m) (lfAPIs lf) 0;
          m = fold (\<lambda>i m. if i > m then i else m) (lfReservedAPI lf) m
      in lf\<lparr>nextAPI := m\<rparr>)"

text \<open>Saving sorts the reserved numbers.\<close>

definition sortReserved :: "LockFile \<Rightarrow> LockFile" where
  "sortReserved lf =
     (let srt = map (\<lambda>(n, ml). (n, ml\<lparr>mlReserved := sort (mlReserved ml)\<rparr>))
      in lf\<lparr>lfModels := srt (lfModels lf), lfTypes := srt (lfTypes lf), lfEvents := srt (lfEvents lf),
           lfAPIs := map (\<lambda>(n, al). (n, al\<lparr>alReserved := sort (alReserved al)\<rparr>)) (lfAPIs lf),
           lfReservedAPI := sort (lfReservedAPI lf)\<rparr>)"

text \<open>Saving and loading again: encoding/json keeps what is exported, and a map that is empty is left out and comes back as
  nil; the transient counters start again. A lock file of a newer version is not loaded.\<close>

definition reload :: "LockFile \<Rightarrow> LockFile option" where
  "reload lf =
     (if lfVersion lf > currentVersion then None
      else let lf = sortReserved lf;
               drop_empty = map (\<lambda>(n, ml). (n, ml\<lparr>mlFieldTypes := (if mlFieldTypes ml = Some [] then None else mlFieldTypes ml)\<rparr>))
           in Some (computeNextAPI
                (lf\<lparr>lfVersion := currentVersion, lfModels := drop_empty (lfModels lf), lfTypes := drop_empty (lfTypes lf),
                   lfEvents := drop_empty (lfEvents lf), lfAPIs := map (\<lambda>(n, al). (n, al\<lparr>alnextP := 0\<rparr>)) (lfAPIs lf)\<rparr>)))"

section \<open>Fields\<close>

text \<open>The loop over the fields of a declaration, on the lock of that declaration.\<close>

definition new_lock :: ModelLock where
  "new_lock = \<lparr>mlNextID = 1, mlFields = [], mlFieldTypes = None, mlReserved = []\<rparr>"

definition assign_field :: "bytes \<Rightarrow> ModelLock \<Rightarrow> ModelLock" where
  "assign_field f ml =
     (case map_of (mlFields ml) f of
        Some _ \<Rightarrow> ml
      | None \<Rightarrow> ml\<lparr>mlFields := AList.update f (mlNextID ml) (mlFields ml), mlNextID := mlNextID ml + 1\<rparr>)"

definition assign_fields :: "bytes \<Rightarrow> bytes list \<Rightarrow> (bytes \<times> ModelLock) list \<Rightarrow> (bytes \<times> ModelLock) list" where
  "assign_fields name fs locks =
     (let ml = (case map_of locks name of None \<Rightarrow> new_lock | Some ml \<Rightarrow> ml)
      in AList.update name (fold assign_field fs ml) locks)"

definition reserveAllFields :: "ModelLock \<Rightarrow> ModelLock" where
  "reserveAllFields ml =
     (let reserved = mlReserved ml
      in fold (\<lambda>(name, i) ml.
           let ml = (if i \<in> set reserved then ml else ml\<lparr>mlReserved := mlReserved ml @ [i]\<rparr>)
           in ml\<lparr>mlFields := AList.delete name (mlFields ml)\<rparr>) (mlFields ml) ml)"

definition reserveRemovedFields :: "bytes list \<Rightarrow> ModelLock \<Rightarrow> ModelLock" where
  "reserveRemovedFields cur ml =
     (let reserved = mlReserved ml
      in fold (\<lambda>(name, i) ml.
           if name \<in> set cur then ml
           else let ml = (if i \<in> set reserved then ml else ml\<lparr>mlReserved := mlReserved ml @ [i]\<rparr>)
                in ml\<lparr>mlFields := AList.delete name (mlFields ml)\<rparr>) (mlFields ml) ml)"

text \<open>The loop that reserves what is gone: the declarations that are there still, with their names, are cur.\<close>

definition reserve_gone :: "(bytes \<times> bytes list) list \<Rightarrow> (bytes \<times> ModelLock) list \<Rightarrow> (bytes \<times> ModelLock) list" where
  "reserve_gone cur locks =
     map (\<lambda>(name, ml). (name, case map_of cur name of None \<Rightarrow> reserveAllFields ml | Some fs \<Rightarrow> reserveRemovedFields fs ml)) locks"

definition field_names :: "FieldDecl list \<Rightarrow> bytes list" where
  "field_names fs = map fldName fs"

definition add_names :: "bytes \<Rightarrow> bytes list \<Rightarrow> (bytes \<times> bytes list) list \<Rightarrow> (bytes \<times> bytes list) list" where
  "add_names name xs cur = AList.update name ((case map_of cur name of None \<Rightarrow> [] | Some ys \<Rightarrow> ys) @ xs) cur"

text \<open>The fields that the sources give each model, by its declarations and by extensions.\<close>

definition current_models :: "ast_File list \<Rightarrow> (bytes \<times> bytes list) list" where
  "current_models files =
     fold (\<lambda>file cur.
       fold (\<lambda>ext. add_names (extName ext) (field_names (extFields ext))) (Extends file)
         (fold (\<lambda>m. add_names (mdlName m) (field_names (mdlFields m))) (Models file) cur)) files []"

definition assignModelFields :: "ModelDecl \<Rightarrow> LockFile \<Rightarrow> LockFile" where
  "assignModelFields m lf = lf\<lparr>lfModels := assign_fields (mdlName m) (field_names (mdlFields m)) (lfModels lf)\<rparr>"

definition updateModels :: "ast_File list \<Rightarrow> LockFile \<Rightarrow> LockFile" where
  "updateModels files lf =
     fold (\<lambda>file. fold assignModelFields (Models file)) files
       (lf\<lparr>lfModels := reserve_gone (current_models files) (lfModels lf)\<rparr>)"

text \<open>A later declaration of the same type or event replaces an earlier one in what is there still.\<close>

definition current_types :: "ast_File list \<Rightarrow> (bytes \<times> bytes list) list" where
  "current_types files = fold (\<lambda>file. fold (\<lambda>td. AList.update (tydName td) (field_names (tydFields td))) (Types file)) files []"

definition updateTypes :: "ast_File list \<Rightarrow> LockFile \<Rightarrow> LockFile" where
  "updateTypes files lf =
     lf\<lparr>lfTypes := fold (\<lambda>file. fold (\<lambda>td. assign_fields (tydName td) (field_names (tydFields td))) (Types file)) files
       (reserve_gone (current_types files) (lfTypes lf))\<rparr>"

definition updateExtends :: "ast_File list \<Rightarrow> LockFile \<Rightarrow> LockFile" where
  "updateExtends files lf =
     lf\<lparr>lfModels := fold (\<lambda>file. fold (\<lambda>ext. assign_fields (extName ext) (field_names (extFields ext))) (Extends file)) files
       (lfModels lf)\<rparr>"

definition param_names :: "ParamDecl list \<Rightarrow> bytes list" where
  "param_names ps = map parName ps"

definition current_events :: "ast_File list \<Rightarrow> (bytes \<times> bytes list) list" where
  "current_events files = fold (\<lambda>file. fold (\<lambda>e. AList.update (evtName e) (param_names (evtParams e))) (Events file)) files []"

definition updateEvents :: "ast_File list \<Rightarrow> LockFile \<Rightarrow> LockFile" where
  "updateEvents files lf =
     lf\<lparr>lfEvents := fold (\<lambda>file. fold (\<lambda>e. assign_fields (evtName e) (param_names (evtParams e))) (Events file)) files
       (reserve_gone (current_events files) (lfEvents lf))\<rparr>"

section \<open>The APIs of the sources\<close>

fun hasDirective :: "bytes \<Rightarrow> Directive list \<Rightarrow> bool" where
  "hasDirective name [] = False"
| "hasDirective name (d # ds) = (dirName d = name \<or> hasDirective name ds)"

definition hasFieldDirective :: "FieldDecl \<Rightarrow> bytes \<Rightarrow> bool" where
  "hasFieldDirective f name = hasDirective name (fldDirectives f)"

definition hasServiceDirective :: "FnDecl \<Rightarrow> bool" where
  "hasServiceDirective fn = hasDirective (lit ''service'') (fnDirectives fn)"

definition hasCrudDirective :: "ModelDecl \<Rightarrow> bool" where
  "hasCrudDirective m = hasDirective (lit ''crud'') (mdlDirectives m)"

definition isCRUDManagedField :: "FieldDecl \<Rightarrow> bool" where
  "isCRUDManagedField f \<longleftrightarrow>
     hasFieldDirective f (lit ''serial'') \<or> hasFieldDirective f (lit ''auto'') \<or>
     refName (fldType f) = lit ''DateTime'' \<and> (fldName f = lit ''createdAt'' \<or> fldName f = lit ''updatedAt'')"

definition isCRUDRelationField :: "FieldDecl \<Rightarrow> bytes list \<Rightarrow> bool" where
  "isCRUDRelationField f enums \<longleftrightarrow>
     refName (fldType f) \<notin> {lit ''Int'', lit ''Float'', lit ''String'', lit ''Boolean'', lit ''DateTime'', lit ''Duration'',
       lit ''UUID'', lit ''Decimal'', lit ''Bytes'', lit ''JSON''} \<and> refName (fldType f) \<notin> set enums"

definition collectCRUDFieldNames :: "ModelDecl \<Rightarrow> bytes list \<Rightarrow> bool \<Rightarrow> bytes list" where
  "collectCRUDFieldNames m enums upd =
     map fldName (filter (\<lambda>f.
       \<not> (fldComputed f \<noteq> None \<or> hasFieldDirective f (lit ''internal'') \<or> isCRUDManagedField f \<or> isCRUDRelationField f enums) \<and>
       \<not> (upd \<and> (fldName f = lit ''id'' \<or> hasFieldDirective f (lit ''immutable'')))) (mdlFields m))"

text \<open>The API of an operation; none for an operation that is not known.\<close>

definition crudAPIContract :: "bytes \<Rightarrow> bytes \<Rightarrow> bytes \<Rightarrow> ModelDecl \<Rightarrow> bytes list \<Rightarrow> bytes \<times> bytes list" where
  "crudAPIContract name plural op m enums =
     (if op = lit ''get'' then (lit ''get'' @ name, [lit ''id''])
      else if op = lit ''list'' then (lit ''list'' @ plural, [lit ''page'', lit ''pageSize''])
      else if op = lit ''create'' then (lit ''create'' @ name, collectCRUDFieldNames m enums False)
      else if op = lit ''update'' then (lit ''update'' @ name, lit ''id'' # collectCRUDFieldNames m enums True)
      else if op = lit ''delete'' then (lit ''delete'' @ name, [lit ''id''])
      else if op = lit ''deleteMany'' then (lit ''delete'' @ plural, [lit ''ids''])
      else ([], []))"

definition case_first :: "(rune \<Rightarrow> rune) \<Rightarrow> bytes \<Rightarrow> bytes" where
  "case_first g s =
     (if s = [] then s else case DecodeRune s of (r, w) \<Rightarrow> EncodeRune (g r) @ drop w s)"

fun by_directive :: "Directive list \<Rightarrow> bytes option" where
  "by_directive [] = None"
| "by_directive (d # ds) =
     (if dirName d \<noteq> lit ''by'' \<or> dirArgs d = [] then by_directive ds
      else case argValue (hd (dirArgs d)) of
          Some (Ident _ x) \<Rightarrow> if x \<noteq> [] then Some x else by_directive ds
        | _ \<Rightarrow> by_directive ds)"

definition federationForeignKey ::
  "(rune \<Rightarrow> rune) \<Rightarrow> (rune \<Rightarrow> rune) \<Rightarrow> bytes \<Rightarrow> bytes \<Rightarrow> FieldDecl \<Rightarrow> bytes" where
  "federationForeignKey up lo model pk f =
     (case by_directive (fldDirectives f) of
        Some x \<Rightarrow> x
      | None \<Rightarrow>
          if refIsList (fldType f)
          then case_first lo model @ case_first up (if pk = [] then lit ''id'' else pk)
          else lit ''id'')"

definition modelPrimaryKeyName :: "ModelDecl \<Rightarrow> bytes" where
  "modelPrimaryKeyName m =
     (case find (\<lambda>f. hasFieldDirective f (lit ''id'')) (mdlFields m) of
        Some f \<Rightarrow> fldName f
      | None \<Rightarrow> (case find (\<lambda>f. fldName f = lit ''id'') (mdlFields m) of Some f \<Rightarrow> fldName f | None \<Rightarrow> lit ''id''))"

definition namedLoadArgNames :: "NamedArg list \<Rightarrow> bytes list" where
  "namedLoadArgNames as = (if \<exists>a \<in> set as. argName a = [] then [] else map argName as)"

fun join_with :: "bytes \<Rightarrow> bytes list \<Rightarrow> bytes" where
  "join_with sep [] = []"
| "join_with sep [x] = x"
| "join_with sep (x # xs) = x @ sep @ join_with sep xs"

text \<open>The API that a call of load on a model needs.\<close>

definition named_load :: "Expr \<Rightarrow> (bytes \<times> bytes list) option" where
  "named_load e =
     (case e of
        CallExpr _ (MemberExpr _ (Ident _ x) f _) as \<Rightarrow>
          (if f \<noteq> lit ''load'' \<or> x = [] \<or> namedLoadArgNames as = [] then None
           else Some (lit ''svc:load:'' @ x @ lit '':'' @ join_with (lit '':'') (namedLoadArgNames as), namedLoadArgNames as))
      | _ \<Rightarrow> None)"

section \<open>Numbers of APIs and parameters\<close>

text \<open>The loops of ensureAPIID: the counter, the new parameters, and the parameters that are gone.\<close>

definition next_param :: "APILock \<Rightarrow> int" where
  "next_param al =
     fold (\<lambda>i n. if i > n then i else n) (alReserved al)
       (fold (\<lambda>(_, i) n. if i > n then i else n) (alParams al) (alnextP al))"

definition assign_param :: "bytes \<Rightarrow> APILock \<Rightarrow> APILock" where
  "assign_param p al =
     (case map_of (alParams al) p of
        Some _ \<Rightarrow> al
      | None \<Rightarrow> al\<lparr>alParams := AList.update p (alnextP al + 1) (alParams al), alnextP := alnextP al + 1\<rparr>)"

definition reserve_params :: "bytes list \<Rightarrow> APILock \<Rightarrow> APILock" where
  "reserve_params cur al =
     (let reserved = alReserved al
      in fold (\<lambda>(param, i) al.
           if param \<in> set cur then al
           else let al = (if i \<in> set reserved then al else al\<lparr>alReserved := alReserved al @ [i]\<rparr>)
                in al\<lparr>alParams := AList.delete param (alParams al)\<rparr>) (alParams al) al)"

definition ensureAPIID :: "bytes \<Rightarrow> bytes list \<Rightarrow> LockFile \<Rightarrow> LockFile" where
  "ensureAPIID name params lf =
     (let (lf, al) = (case map_of (lfAPIs lf) name of
            Some al \<Rightarrow> (lf, al)
          | None \<Rightarrow> (lf\<lparr>nextAPI := nextAPI lf + 1\<rparr>,
              \<lparr>alID = nextAPI lf + 1, alParams = [], alParamTypes = [], alReturnType = [], alContract = False, alReserved = [],
               alnextP = 0\<rparr>));
          al = al\<lparr>alnextP := next_param al\<rparr>;
          al = fold assign_param params al;
          al = reserve_params params al
      in lf\<lparr>lfAPIs := AList.update name al (lfAPIs lf)\<rparr>)"

text \<open>The closure ensure also marks the API as active.\<close>

type_synonym api_state = "bytes list \<times> LockFile"

definition ensure :: "bytes \<times> bytes list \<Rightarrow> api_state \<Rightarrow> api_state" where
  "ensure = (\<lambda>(name, params) (active, lf). (name # active, ensureAPIID name params lf))"

definition crud_apis :: "bytes list \<Rightarrow> bytes list \<Rightarrow> ModelDecl \<Rightarrow> (bytes \<times> bytes list) list" where
  "crud_apis declared enums m =
     (if \<not> hasCrudDirective m then []
      else filter (\<lambda>(api, _). api \<noteq> [] \<and> api \<notin> set declared)
          (map (\<lambda>op. crudAPIContract (mdlName m) (mdlName m @ lit ''s'') op m enums) (CRUDOperations (Some m))) @
        [(lit ''svc:batchLoad:'' @ mdlName m, [lit ''keys''])])"

definition updateFederationAPIs ::
  "(rune \<Rightarrow> rune) \<Rightarrow> (rune \<Rightarrow> rune) \<Rightarrow> ast_File list \<Rightarrow> bytes list \<Rightarrow> api_state \<Rightarrow> api_state" where
  "updateFederationAPIs up lo files enums st =
     (let pks = fold (\<lambda>file. fold (\<lambda>m. AList.update (mdlName m) (modelPrimaryKeyName m)) (Models file)) files []
      in fold (\<lambda>file. fold (\<lambda>ext st.
           fold (\<lambda>f st.
             if fldComputed f \<noteq> None \<or> \<not> isCRUDRelationField f enums then st
             else ensure (lit ''svc:resolve:'' @ refName (fldType f) @ lit '':'' @
                    federationForeignKey up lo (extName ext) (case map_of pks (extName ext) of None \<Rightarrow> [] | Some k \<Rightarrow> k) f,
                    [lit ''keys'']) st)
             (extFields ext) (ensure (lit ''svc:batchLoad:'' @ extName ext, [lit ''keys'']) st)) (Extends file)) files st)"

text \<open>The expressions visited in the bodies of the sources, in order; None is the nil dereference of the walk.\<close>

definition body_exprs :: "ast_File list \<Rightarrow> Expr list option" where
  "body_exprs files =
     visits (map (\<lambda>b. case b of None \<Rightarrow> Some [] | Some b \<Rightarrow> WalkExprs b)
       (concat (map (\<lambda>file. map apiBody (APIs file) @ map fnBody (Functions file)) files)))"

definition updateNamedLoadAPIsWithEnsure :: "ast_File list \<Rightarrow> api_state \<Rightarrow> api_state option" where
  "updateNamedLoadAPIsWithEnsure files st =
     map_option (\<lambda>es.
       snd (fold (\<lambda>e (seen, st).
         case named_load e of
           None \<Rightarrow> (seen, st)
         | Some (name, args) \<Rightarrow> if name \<in> set seen then (seen, st) else (name # seen, ensure (name, args) st)) es ([], st)))
       (body_exprs files)"

definition reserveRemovedAPIs :: "bytes list \<Rightarrow> LockFile \<Rightarrow> LockFile" where
  "reserveRemovedAPIs active lf =
     (let reserved = lfReservedAPI lf
      in fold (\<lambda>(name, al) lf.
           if name \<in> set active then lf
           else let lf = (if alID al \<in> set reserved then lf else lf\<lparr>lfReservedAPI := lfReservedAPI lf @ [alID al]\<rparr>)
                in lf\<lparr>lfAPIs := AList.delete name (lfAPIs lf)\<rparr>) (lfAPIs lf) lf)"

definition declared_apis :: "ast_File list \<Rightarrow> (bytes \<times> bytes list) list" where
  "declared_apis files = concat (map (\<lambda>file. map (\<lambda>a. (apiName a, param_names (EffectiveParams (Some a)))) (APIs file)) files)"

definition service_apis :: "ast_File list \<Rightarrow> (bytes \<times> bytes list) list" where
  "service_apis files =
     concat (map (\<lambda>file. map (\<lambda>fn. (lit ''svc:'' @ fnName fn, param_names (fnParams fn)))
       (filter hasServiceDirective (Functions file))) files)"

definition enum_names :: "ast_File list \<Rightarrow> bytes list" where
  "enum_names files = concat (map (\<lambda>file. map enmName (Enums file)) files)"

definition updateAPIs :: "(rune \<Rightarrow> rune) \<Rightarrow> (rune \<Rightarrow> rune) \<Rightarrow> ast_File list \<Rightarrow> LockFile \<Rightarrow> LockFile option" where
  "updateAPIs up lo files lf =
     (let declared = map fst (declared_apis files);
          enums = enum_names files;
          st = fold (\<lambda>file. fold (\<lambda>m. fold ensure (crud_apis declared enums m)) (Models file)) files ([], lf);
          st = updateFederationAPIs up lo files enums st
      in case updateNamedLoadAPIsWithEnsure files st of
           None \<Rightarrow> None
         | Some st \<Rightarrow>
             (case fold ensure (service_apis files) (fold ensure (declared_apis files) st) of
                (active, lf) \<Rightarrow> Some (reserveRemovedAPIs active lf)))"

section \<open>Contracts\<close>

fun formatTypeRef :: "TypeRef \<Rightarrow> bytes" where
  "formatTypeRef (TypeRef p name nullable is_list args tuple fk) =
     (if tuple \<noteq> [] then lit ''('' @ join_with (lit '','') (map formatTypeRef tuple) @ lit '')''
      else if args \<noteq> [] then name @ lit ''<'' @ join_with (lit '','') (map formatTypeRef args) @ lit ''>''
      else if is_list then lit ''['' @ name @ lit '']''
      else name) @ (if nullable then lit ''?'' else [])"

definition format_type :: "TypeRef option \<Rightarrow> bytes" where
  "format_type r = (case r of None \<Rightarrow> lit ''Void'' | Some r \<Rightarrow> formatTypeRef r)"

record apiContract =
  acParams :: "(bytes \<times> ParamDecl) list"
  acReturnType :: bytes

record wireContracts =
  wcModels :: "(bytes \<times> (bytes \<times> bytes) list) list"
  wcTypes :: "(bytes \<times> (bytes \<times> bytes) list) list"
  wcEvents :: "(bytes \<times> (bytes \<times> bytes) list) list"
  wcApis :: "(bytes \<times> apiContract) list"

definition mergeFieldTypes :: "FieldDecl list \<Rightarrow> (bytes \<times> bytes) list \<Rightarrow> (bytes \<times> bytes) list" where
  "mergeFieldTypes fs result = fold (\<lambda>f. AList.update (fldName f) (formatTypeRef (fldType f))) fs result"

definition fieldTypes :: "FieldDecl list \<Rightarrow> (bytes \<times> bytes) list" where
  "fieldTypes fs = mergeFieldTypes fs []"

definition paramTypes :: "ParamDecl list \<Rightarrow> (bytes \<times> bytes) list" where
  "paramTypes ps = fold (\<lambda>p. AList.update (parName p) (formatTypeRef (parType p))) ps []"

definition newAPIContract :: "ParamDecl list \<Rightarrow> TypeRef option \<Rightarrow> apiContract" where
  "newAPIContract ps rt = \<lparr>acParams = fold (\<lambda>p. AList.update (parName p) p) ps [], acReturnType = format_type rt\<rparr>"

definition lookup_or :: "'b list \<Rightarrow> ('a \<times> 'b list) list \<Rightarrow> 'a \<Rightarrow> 'b list" where
  "lookup_or d m k = (case map_of m k of None \<Rightarrow> d | Some v \<Rightarrow> v)"

definition collect_file :: "ast_File \<Rightarrow> wireContracts \<Rightarrow> wireContracts" where
  "collect_file file c =
     c\<lparr>wcModels :=
         fold (\<lambda>ext ms. AList.update (extName ext) (mergeFieldTypes (extFields ext) (lookup_or [] ms (extName ext))) ms) (Extends file)
           (fold (\<lambda>m ms. AList.update (mdlName m) (mergeFieldTypes (mdlFields m) (lookup_or [] ms (mdlName m))) ms) (Models file) (wcModels c)),
       wcTypes := fold (\<lambda>td. AList.update (tydName td) (fieldTypes (tydFields td))) (Types file) (wcTypes c),
       wcEvents := fold (\<lambda>e. AList.update (evtName e) (paramTypes (evtParams e))) (Events file) (wcEvents c),
       wcApis :=
         fold (\<lambda>fn apis. if hasServiceDirective fn
                then AList.update (lit ''svc:'' @ fnName fn) (newAPIContract (fnParams fn) (fnReturnType fn)) apis else apis) (Functions file)
           (fold (\<lambda>a. AList.update (apiName a) (newAPIContract (EffectiveParams (Some a)) (apiReturnType a))) (APIs file) (wcApis c))\<rparr>"

definition collectContracts :: "ast_File list \<Rightarrow> wireContracts" where
  "collectContracts files = fold collect_file files \<lparr>wcModels = [], wcTypes = [], wcEvents = [], wcApis = []\<rparr>"

definition updateFieldMetadata :: "(bytes \<times> (bytes \<times> bytes) list) list \<Rightarrow> (bytes \<times> ModelLock) list \<Rightarrow> (bytes \<times> ModelLock) list" where
  "updateFieldMetadata cur locked =
     map (\<lambda>(name, ml). (name, ml\<lparr>mlFieldTypes :=
       Some (filter (\<lambda>(f, _). map_of (mlFields ml) f \<noteq> None) (lookup_or [] cur name))\<rparr>)) locked"

definition updateContractMetadata :: "ast_File list \<Rightarrow> LockFile \<Rightarrow> LockFile" where
  "updateContractMetadata files lf =
     (let c = collectContracts files
      in lf\<lparr>lfModels := updateFieldMetadata (wcModels c) (lfModels lf),
           lfTypes := updateFieldMetadata (wcTypes c) (lfTypes lf),
           lfEvents := updateFieldMetadata (wcEvents c) (lfEvents lf),
           lfAPIs := map (\<lambda>(name, al). (name,
             case map_of (wcApis c) name of
               None \<Rightarrow> al
             | Some k \<Rightarrow> al\<lparr>alParamTypes := map (\<lambda>(p, d). (p, formatTypeRef (parType d))) (acParams k), alContract := True,
                  alReturnType := acReturnType k\<rparr>)) (lfAPIs lf)\<rparr>)"

text \<open>The whole update; None is the nil dereference of the walk over the bodies.\<close>

definition Update :: "(rune \<Rightarrow> rune) \<Rightarrow> (rune \<Rightarrow> rune) \<Rightarrow> ast_File list \<Rightarrow> LockFile \<Rightarrow> LockFile option" where
  "Update up lo files lf =
     map_option (updateContractMetadata files)
       (updateAPIs up lo files (updateEvents files (updateExtends files (updateTypes files (updateModels files lf)))))"

section \<open>Lookups\<close>

definition LockFile_FieldID :: "LockFile \<Rightarrow> bytes \<Rightarrow> bytes \<Rightarrow> int" where
  "LockFile_FieldID lf model field =
     (case map_of (lfModels lf) model of
        None \<Rightarrow> 0
      | Some ml \<Rightarrow> (case map_of (mlFields ml) field of None \<Rightarrow> 0 | Some i \<Rightarrow> i))"

definition APIID :: "LockFile \<Rightarrow> bytes \<Rightarrow> int" where
  "APIID lf name = (case map_of (lfAPIs lf) name of None \<Rightarrow> 0 | Some al \<Rightarrow> alID al)"

definition APIParamID :: "LockFile \<Rightarrow> bytes \<Rightarrow> bytes \<Rightarrow> int" where
  "APIParamID lf api param =
     (case map_of (lfAPIs lf) api of
        None \<Rightarrow> 0
      | Some al \<Rightarrow> (case map_of (alParams al) param of None \<Rightarrow> 0 | Some i \<Rightarrow> i))"

definition EventFieldID :: "LockFile \<Rightarrow> bytes \<Rightarrow> bytes \<Rightarrow> int" where
  "EventFieldID lf event param =
     (case map_of (lfEvents lf) event of
        None \<Rightarrow> 0
      | Some el \<Rightarrow> (case map_of (mlFields el) param of None \<Rightarrow> 0 | Some i \<Rightarrow> i))"

section \<open>Breaking changes\<close>

record BreakingChange =
  bcPath :: bytes
  bcBefore :: bytes
  bcAfter :: bytes

definition contractLabel :: "bytes \<Rightarrow> int \<Rightarrow> bytes" where
  "contractLabel t i = (if t \<noteq> [] then t else lit ''field ID '' @ int_text i)"

definition compareFields ::
  "bytes \<Rightarrow> (bytes \<times> ModelLock) list \<Rightarrow> (bytes \<times> (bytes \<times> bytes) list) list \<Rightarrow> bool \<Rightarrow> BreakingChange list" where
  "compareFields kind locked cur rejectAdditions =
     concat (map (\<lambda>(name, entity).
       let fs = lookup_or [] cur name;
           path = (\<lambda>field. kind @ lit '' '' @ name @ lit ''.'' @ field);
           prev = (\<lambda>field. case mlFieldTypes entity of None \<Rightarrow> [] | Some ts \<Rightarrow> lookup_or [] ts field)
       in concat (map (\<lambda>(field, i).
            case map_of fs field of
              None \<Rightarrow> [\<lparr>bcPath = path field, bcBefore = contractLabel (prev field) i, bcAfter = []\<rparr>]
            | Some t \<Rightarrow> if prev field \<noteq> [] \<and> prev field \<noteq> t then [\<lparr>bcPath = path field, bcBefore = prev field, bcAfter = t\<rparr>] else [])
            (mlFields entity)) @
          (if rejectAdditions \<and> mlFieldTypes entity \<noteq> None
           then concat (map (\<lambda>(field, t).
             if map_of (mlFields entity) field = None then [\<lparr>bcPath = path field, bcBefore = [], bcAfter = t\<rparr>] else []) fs)
           else [])) locked)"

definition activeAPINames :: "(rune \<Rightarrow> rune) \<Rightarrow> (rune \<Rightarrow> rune) \<Rightarrow> ast_File list \<Rightarrow> bytes list option" where
  "activeAPINames up lo files = map_option (\<lambda>lf. map fst (lfAPIs lf)) (updateAPIs up lo files New_LockFile)"

definition compare_api :: "bytes \<Rightarrow> APILock \<Rightarrow> apiContract \<Rightarrow> BreakingChange list" where
  "compare_api name locked k =
     concat (map (\<lambda>(param, prev).
       case map_of (acParams k) param of
         None \<Rightarrow> [\<lparr>bcPath = lit ''api '' @ name @ lit ''.'' @ param, bcBefore = prev, bcAfter = []\<rparr>]
       | Some d \<Rightarrow>
           if prev \<noteq> formatTypeRef (parType d)
           then [\<lparr>bcPath = lit ''api '' @ name @ lit ''.'' @ param, bcBefore = prev, bcAfter = formatTypeRef (parType d)\<rparr>] else [])
       (alParamTypes locked)) @
     concat (map (\<lambda>(param, d).
       if map_of (alParamTypes locked) param \<noteq> None \<or> refNullable (parType d) \<or> parDefault d \<noteq> None then []
       else [\<lparr>bcPath = lit ''api '' @ name @ lit ''.'' @ param, bcBefore = [], bcAfter = formatTypeRef (parType d)\<rparr>])
       (acParams k)) @
     (if alReturnType locked \<noteq> acReturnType k
      then [\<lparr>bcPath = lit ''api '' @ name @ lit '' return'', bcBefore = alReturnType locked, bcAfter = acReturnType k\<rparr>] else [])"

definition compareAPIs :: "bytes list \<Rightarrow> (bytes \<times> apiContract) list \<Rightarrow> LockFile \<Rightarrow> BreakingChange list" where
  "compareAPIs active contracts lf =
     concat (map (\<lambda>(name, locked).
       if name \<notin> set active then [\<lparr>bcPath = lit ''api '' @ name, bcBefore = lit ''API ID '' @ int_text (alID locked), bcAfter = []\<rparr>]
       else case map_of contracts name of
           None \<Rightarrow> []
         | Some k \<Rightarrow> if \<not> alContract locked then [] else compare_api name locked k) (lfAPIs lf))"

text \<open>The bytes of paths are compared as numbers.\<close>

definition BreakingChanges :: "(rune \<Rightarrow> rune) \<Rightarrow> (rune \<Rightarrow> rune) \<Rightarrow> ast_File list \<Rightarrow> LockFile \<Rightarrow> BreakingChange list option" where
  "BreakingChanges up lo files lf =
     map_option (\<lambda>active.
       let c = collectContracts files
       in sort_key (\<lambda>b. map unat (bcPath b))
         (compareFields (lit ''model'') (lfModels lf) (wcModels c) False @
          compareFields (lit ''type'') (lfTypes lf) (wcTypes c) False @
          compareFields (lit ''event'') (lfEvents lf) (wcEvents c) True @
          compareAPIs active (wcApis c) lf))
       (activeAPINames up lo files)"

end
