(* ===== verification/Numbers.thy ===== *)
theory Numbers
  imports Lockfile
begin

text \<open>
  The numbers of the lock file as ledgers: the lock of one declaration, the locks of all declarations of a kind, and
  the parameters of one API. Each operation of lockfile.go keeps the ledger well formed and lets it evolve only in ways that
  never give a number to a second name. The locale ledger is the interface: its two laws are what the lookups promise, and its
  lemmas are what a peer relies on.
\<close>

section \<open>Ledgers\<close>

text \<open>A state gives names numbers and knows which numbers are used up. It evolves into another when no number is freed and a
  number that a name has later is the one it had, or one that was not used.\<close>

definition evolves :: "('s \<Rightarrow> 'n \<Rightarrow> int option) \<Rightarrow> ('s \<Rightarrow> int set) \<Rightarrow> 's \<Rightarrow> 's \<Rightarrow> bool" where
  "evolves ids used s t \<longleftrightarrow> used s \<subseteq> used t \<and> (\<forall>n i. ids t n = Some i \<longrightarrow> ids s n = Some i \<or> i \<notin> used s)"

lemma evolves_refl [simp]: "evolves ids used s s"
  by (simp add: evolves_def)

lemma evolves_trans: "evolves ids used s t \<Longrightarrow> evolves ids used t u \<Longrightarrow> evolves ids used s u"
  unfolding evolves_def by blast

locale ledger =
  fixes ids :: "'s \<Rightarrow> 'n \<Rightarrow> int option" and used :: "'s \<Rightarrow> int set" and ok :: "'s \<Rightarrow> bool"
  assumes used_id: "ok s \<Longrightarrow> ids s n = Some i \<Longrightarrow> i \<in> used s"
    and one_name: "ok s \<Longrightarrow> ids s n = Some i \<Longrightarrow> ids s m = Some i \<Longrightarrow> n = m"
begin

lemma for_ever: "ok s \<Longrightarrow> evolves ids used s t \<Longrightarrow> ids s n = Some i \<Longrightarrow> ids t m = Some i \<Longrightarrow> n = m"
  unfolding evolves_def using used_id one_name by metis

lemma kept: "ok s \<Longrightarrow> evolves ids used s t \<Longrightarrow> ids s n = Some i \<Longrightarrow> ids t m = Some i \<Longrightarrow> ids s m = Some i"
  unfolding evolves_def using used_id by metis

end

section \<open>The lock of one declaration\<close>

text \<open>Every number given so far is the number of a field or reserved, never both, and no two fields share one.\<close>

definition lock_ok :: "ModelLock \<Rightarrow> bool" where
  "lock_ok ml \<longleftrightarrow>
     1 \<le> mlNextID ml \<and> distinct (map fst (mlFields ml)) \<and> distinct (map snd (mlFields ml)) \<and>
     set (map snd (mlFields ml)) \<union> set (mlReserved ml) = {1..<mlNextID ml} \<and>
     set (map snd (mlFields ml)) \<inter> set (mlReserved ml) = {}"

definition lock_ids :: "ModelLock \<Rightarrow> bytes \<Rightarrow> int option" where
  "lock_ids ml = map_of (mlFields ml)"

definition lock_used :: "ModelLock \<Rightarrow> int set" where
  "lock_used ml = {1..<mlNextID ml}"

lemma map_of_snd_distinct: "distinct (map snd xs) \<Longrightarrow> map_of xs a = Some i \<Longrightarrow> map_of xs b = Some i \<Longrightarrow> a = b"
proof (induction xs)
  case (Cons x xs)
  have "i \<in> set (map snd xs)" if "map_of xs c = Some i" for c using map_of_SomeD [OF that] by force
  then show ?case using Cons by (cases x) (auto split: if_splits)
qed simp

lemma lock_okD:
  assumes "lock_ok ml"
  shows "1 \<le> mlNextID ml" "distinct (map fst (mlFields ml))" "distinct (map snd (mlFields ml))"
    "snd ` set (mlFields ml) \<union> set (mlReserved ml) = {1..<mlNextID ml}" "snd ` set (mlFields ml) \<inter> set (mlReserved ml) = {}"
  using assms by (simp_all add: lock_ok_def)

lemma lock_ids_used:
  assumes "lock_ok ml" "lock_ids ml f = Some i"
  shows "i \<in> lock_used ml"
proof -
  have "(f, i) \<in> set (mlFields ml)" using assms(2) by (simp add: lock_ids_def map_of_SomeD)
  then have "i \<in> snd ` set (mlFields ml)" by force
  then show ?thesis using lock_okD(4) [OF assms(1)] unfolding lock_used_def by blast
qed

interpretation lock: ledger lock_ids lock_used lock_ok
proof unfold_locales
  fix s n m i
  assume "lock_ok s" "lock_ids s n = Some i"
  then show "i \<in> lock_used s" by (rule lock_ids_used)
  assume "lock_ids s m = Some i"
  with \<open>lock_ok s\<close> \<open>lock_ids s n = Some i\<close> show "n = m"
    unfolding lock_ids_def lock_ok_def by (blast intro: map_of_snd_distinct)
qed

abbreviation lock_evolves :: "ModelLock \<Rightarrow> ModelLock \<Rightarrow> bool" where
  "lock_evolves \<equiv> evolves lock_ids lock_used"

lemma new_lock_ok: "lock_ok new_lock"
  by (simp add: lock_ok_def new_lock_def)

lemma update_new: "k \<notin> fst ` set al \<Longrightarrow> AList.update k v al = al @ [(k, v)]"
  by (induction al) auto

lemma assign_field_known: "lock_ids ml f = Some i \<Longrightarrow> assign_field f ml = ml"
  by (simp add: assign_field_def lock_ids_def)

lemma assign_field_new:
  "lock_ids ml f = None \<Longrightarrow> assign_field f ml = ml\<lparr>mlFields := mlFields ml @ [(f, mlNextID ml)], mlNextID := mlNextID ml + 1\<rparr>"
  using map_of_eq_None_iff [of "mlFields ml" f] by (simp add: assign_field_def lock_ids_def update_new)

lemma assign_field_step:
  assumes "lock_ok ml"
  shows "lock_ok (assign_field f ml)" "lock_evolves ml (assign_field f ml)"
    and "lock_ids ml g = Some i \<Longrightarrow> lock_ids (assign_field f ml) g = Some i"
    and "lock_ids (assign_field f ml) g \<noteq> None \<longleftrightarrow> lock_ids ml g \<noteq> None \<or> g = f"
proof -
  consider (old) i where "lock_ids ml f = Some i" "assign_field f ml = ml"
    | (fresh) "lock_ids ml f = None" "assign_field f ml = ml\<lparr>mlFields := mlFields ml @ [(f, mlNextID ml)], mlNextID := mlNextID ml + 1\<rparr>"
    using assign_field_known [of ml f] assign_field_new [of ml f] by (cases "lock_ids ml f") simp_all
  note c = this
  have n: "mlNextID ml \<notin> snd ` set (mlFields ml)" "mlNextID ml \<notin> set (mlReserved ml)"
  proof -
    have "mlNextID ml \<notin> snd ` set (mlFields ml) \<union> set (mlReserved ml)" unfolding lock_okD(4) [OF assms] by simp
    then show "mlNextID ml \<notin> snd ` set (mlFields ml)" "mlNextID ml \<notin> set (mlReserved ml)" by simp_all
  qed
  have s: "{1..<mlNextID ml + 1} = insert (mlNextID ml) {1..<mlNextID ml}"
    using lock_okD(1) [OF assms] by auto
  show "lock_ok (assign_field f ml)"
    using c
  proof cases
    case fresh
    then have "f \<notin> fst ` set (mlFields ml)" by (simp add: lock_ids_def map_of_eq_None_iff)
    then show ?thesis using fresh lock_okD [OF assms] n unfolding lock_ok_def by (simp add: s)
  qed (use assms in simp)
  show "lock_evolves ml (assign_field f ml)"
    unfolding evolves_def using c
    by cases (auto simp: lock_used_def lock_ids_def map_add_def split: option.splits)
  show "lock_ids ml g = Some i \<Longrightarrow> lock_ids (assign_field f ml) g = Some i"
    using c by cases (auto simp: lock_ids_def map_add_def split: option.splits)
  show "lock_ids (assign_field f ml) g \<noteq> None \<longleftrightarrow> lock_ids ml g \<noteq> None \<or> g = f"
    using c by cases (auto simp: lock_ids_def map_add_def split: option.splits)
qed

lemma assign_all_step:
  assumes "lock_ok ml"
  shows "lock_ok (fold assign_field fs ml) \<and> lock_evolves ml (fold assign_field fs ml) \<and>
    (\<forall>g i. lock_ids ml g = Some i \<longrightarrow> lock_ids (fold assign_field fs ml) g = Some i) \<and>
    (\<forall>g. lock_ids (fold assign_field fs ml) g \<noteq> None \<longleftrightarrow> lock_ids ml g \<noteq> None \<or> g \<in> set fs)"
  using assms
proof (induction fs arbitrary: ml)
  case (Cons f fs)
  note a = assign_field_step [OF Cons.prems, of f]
  note b = Cons.IH [OF a(1)]
  have keep: "lock_ids ml g = Some i \<Longrightarrow> lock_ids (assign_field f ml) g = Some i" for g i
    by (rule assign_field_step(3) [OF Cons.prems])
  have dom: "lock_ids (assign_field f ml) g \<noteq> None \<longleftrightarrow> lock_ids ml g \<noteq> None \<or> g = f" for g
    by (rule assign_field_step(4) [OF Cons.prems])
  show ?case
    using b keep dom evolves_trans [OF a(2)] by auto
qed simp

section \<open>Reserving what is gone\<close>

lemma delete_filter: "AList.delete a ys = filter (\<lambda>y. fst y \<noteq> a) ys"
  by (induction ys) auto

lemma reserveRemovedFields_eq:
  "reserveRemovedFields cur ml =
     ml\<lparr>mlFields := filter (\<lambda>x. fst x \<in> set cur) (mlFields ml),
        mlReserved := mlReserved ml @ filter (\<lambda>i. i \<notin> set (mlReserved ml)) (map snd (filter (\<lambda>x. fst x \<notin> set cur) (mlFields ml)))\<rparr>"
proof -
  let ?step = "\<lambda>R (name, i) ml. if name \<in> set cur then ml
           else let ml = (if i \<in> set R then ml else ml\<lparr>mlReserved := mlReserved ml @ [i]\<rparr>)
                in ml\<lparr>mlFields := AList.delete name (mlFields ml)\<rparr>"
  have f: "fold (?step R) xs ml =
     ml\<lparr>mlFields := filter (\<lambda>x. fst x \<notin> fst ` set (filter (\<lambda>x. fst x \<notin> set cur) xs)) (mlFields ml),
        mlReserved := mlReserved ml @ filter (\<lambda>i. i \<notin> set R) (map snd (filter (\<lambda>x. fst x \<notin> set cur) xs))\<rparr>" for xs R and ml
  proof (induction xs arbitrary: ml)
    case (Cons x xs)
    obtain a b where x: "x = (a, b)" by (cases x)
    show ?case by (simp add: x Cons Let_def delete_filter)
  qed simp
  have g: "filter (\<lambda>x. fst x \<notin> fst ` set (filter (\<lambda>x. fst x \<notin> set cur) (mlFields ml))) (mlFields ml) =
      filter (\<lambda>x. fst x \<in> set cur) (mlFields ml)"
    by (rule filter_cong) auto
  show ?thesis
    unfolding reserveRemovedFields_def Let_def [of "mlReserved ml"] f g ..
qed

lemma reserveAllFields_eq: "reserveAllFields ml = reserveRemovedFields [] ml"
  by (simp add: reserveAllFields_def reserveRemovedFields_def)

lemma reserve_step:
  assumes "lock_ok ml"
  shows "lock_ok (reserveRemovedFields cur ml)" "lock_evolves ml (reserveRemovedFields cur ml)"
    and "lock_ids (reserveRemovedFields cur ml) g = (if g \<in> set cur then lock_ids ml g else None)"
proof -
  have d: "distinct (map fst (mlFields ml))" "distinct (map snd (mlFields ml))" using assms by (auto simp: lock_ok_def)
  have m: "map_of (filter (\<lambda>x. fst x \<in> set cur) xs) g = (if g \<in> set cur then map_of xs g else None)" for xs :: "(bytes \<times> int) list" and g
    by (induction xs) auto
  show ids: "lock_ids (reserveRemovedFields cur ml) g = (if g \<in> set cur then lock_ids ml g else None)" for g
    by (simp add: reserveRemovedFields_eq lock_ids_def m)
  show "lock_evolves ml (reserveRemovedFields cur ml)"
    by (auto simp: evolves_def ids) (simp add: lock_used_def reserveRemovedFields_eq)
  have r: "filter (\<lambda>i. i \<notin> set (mlReserved ml)) (map snd (filter (\<lambda>x. fst x \<notin> set cur) (mlFields ml))) =
      map snd (filter (\<lambda>x. fst x \<notin> set cur) (mlFields ml))"
    using assms by (auto simp: lock_ok_def filter_id_conv)
  have p: "snd ` {x \<in> set (mlFields ml). fst x \<in> set cur} \<inter> snd ` {x \<in> set (mlFields ml). fst x \<notin> set cur} = {}"
    using d(2) by (auto simp: distinct_map inj_on_def)
  have u: "snd ` set (mlFields ml) = snd ` {x \<in> set (mlFields ml). fst x \<in> set cur} \<union> snd ` {x \<in> set (mlFields ml). fst x \<notin> set cur}"
    by auto
  let ?in = "{x \<in> set (mlFields ml). fst x \<in> set cur}" and ?out = "{x \<in> set (mlFields ml). fst x \<notin> set cur}"
  have all: "snd ` ?in \<union> (set (mlReserved ml) \<union> snd ` ?out) = {1..<mlNextID ml}"
    using assms u by (auto simp: lock_ok_def)
  have apart: "snd ` ?in \<inter> (set (mlReserved ml) \<union> snd ` ?out) = {}"
    using assms u p by (auto simp: lock_ok_def)
  show "lock_ok (reserveRemovedFields cur ml)"
    using assms d all apart unfolding lock_ok_def reserveRemovedFields_eq r
    by (simp add: distinct_map_filter)
qed

section \<open>The locks of all declarations of a kind\<close>

definition locks_ok :: "(bytes \<times> ModelLock) list \<Rightarrow> bool" where
  "locks_ok locks \<longleftrightarrow> distinct (map fst locks) \<and> (\<forall>name ml. map_of locks name = Some ml \<longrightarrow> lock_ok ml)"

text \<open>No declaration loses its lock.\<close>

definition locks_evolve :: "(bytes \<times> ModelLock) list \<Rightarrow> (bytes \<times> ModelLock) list \<Rightarrow> bool" where
  "locks_evolve locks locks' \<longleftrightarrow>
     (\<forall>name ml. map_of locks name = Some ml \<longrightarrow> (\<exists>ml'. map_of locks' name = Some ml' \<and> lock_evolves ml ml'))"

definition number :: "(bytes \<times> ModelLock) list \<Rightarrow> bytes \<Rightarrow> bytes \<Rightarrow> int option" where
  "number locks name f = (case map_of locks name of None \<Rightarrow> None | Some ml \<Rightarrow> lock_ids ml f)"

lemma locks_evolve_refl [simp]: "locks_evolve locks locks"
  by (simp add: locks_evolve_def)

lemma locks_evolve_trans: "locks_evolve a b \<Longrightarrow> locks_evolve b c \<Longrightarrow> locks_evolve a c"
  unfolding locks_evolve_def by (meson evolves_trans)

lemma number_for_ever:
  assumes "locks_ok a" "locks_evolve a b" "number a name f = Some i" "number b name g = Some i"
  shows "f = g"
proof -
  obtain ml where ml: "map_of a name = Some ml" "lock_ids ml f = Some i"
    using assms(3) by (auto simp: number_def split: option.splits)
  then obtain ml' where "map_of b name = Some ml'" "lock_evolves ml ml'" using assms(2) by (auto simp: locks_evolve_def)
  then show ?thesis
    using lock.for_ever [of ml ml' f i g] ml assms(1,4) by (auto simp: number_def locks_ok_def)
qed

lemma number_pos: "locks_ok a \<Longrightarrow> number a name f = Some i \<Longrightarrow> 1 \<le> i"
  using lock_ids_used by (fastforce simp: number_def locks_ok_def lock_used_def split: option.splits)

text \<open>A change of every lock on its own.\<close>

lemma map_of_map_values: "map_of (map (\<lambda>(k, v). (k, h k v)) xs) a = map_option (h a) (map_of xs a)"
  by (induction xs) auto

lemma locks_map:
  assumes "locks_ok locks" "\<And>name ml. lock_ok ml \<Longrightarrow> lock_ok (h name ml) \<and> lock_evolves ml (h name ml)"
  shows "locks_ok (map (\<lambda>(n, ml). (n, h n ml)) locks) \<and> locks_evolve locks (map (\<lambda>(n, ml). (n, h n ml)) locks)"
proof -
  have "map fst (map (\<lambda>(n, ml). (n, h n ml)) locks) = map fst locks" by auto
  then show ?thesis using assms by (auto simp: locks_ok_def locks_evolve_def map_of_map_values simp del: map_map)
qed

lemma lock_ids_new [simp]: "lock_ids new_lock = (\<lambda>_. None)"
  by (simp add: lock_ids_def new_lock_def)

lemma assign_fields_step:
  assumes "locks_ok locks"
  shows "locks_ok (assign_fields name fs locks) \<and> locks_evolve locks (assign_fields name fs locks) \<and>
    (\<forall>n g i. number locks n g = Some i \<longrightarrow> number (assign_fields name fs locks) n g = Some i) \<and>
    (\<forall>n g. number (assign_fields name fs locks) n g \<noteq> None \<longleftrightarrow> number locks n g \<noteq> None \<or> n = name \<and> g \<in> set fs)"
proof -
  let ?ml = "case map_of locks name of None \<Rightarrow> new_lock | Some ml \<Rightarrow> ml"
  have ok: "lock_ok ?ml" using assms new_lock_ok by (auto simp: locks_ok_def split: option.split)
  have m: "map_of (assign_fields name fs locks) = (map_of locks)(name \<mapsto> fold assign_field fs ?ml)"
    by (simp add: assign_fields_def AList.update_conv')
  have d: "distinct (map fst (assign_fields name fs locks))"
    using assms by (simp add: assign_fields_def locks_ok_def distinct_update)
  show ?thesis
    using assign_all_step [OF ok, of fs] assms
    by (cases "map_of locks name")
      (auto simp: m d locks_ok_def locks_evolve_def number_def simp del: map_of_eq_Some_iff split: option.splits)
qed

lemma assign_decls_step:
  assumes "locks_ok locks"
  shows "locks_ok (fold (case_prod assign_fields) ds locks) \<and> locks_evolve locks (fold (case_prod assign_fields) ds locks) \<and>
    (\<forall>n g i. number locks n g = Some i \<longrightarrow> number (fold (case_prod assign_fields) ds locks) n g = Some i) \<and>
    (\<forall>n g. number (fold (case_prod assign_fields) ds locks) n g \<noteq> None \<longleftrightarrow>
       number locks n g \<noteq> None \<or> (\<exists>fs. (n, fs) \<in> set ds \<and> g \<in> set fs))"
  using assms
proof (induction ds arbitrary: locks)
  case (Cons d ds)
  obtain name fs where d: "d = (name, fs)" by (cases d)
  have a: "locks_ok (assign_fields name fs locks)" "locks_evolve locks (assign_fields name fs locks)"
    and k: "\<And>n g i. number locks n g = Some i \<Longrightarrow> number (assign_fields name fs locks) n g = Some i"
    and n: "\<And>n g. number (assign_fields name fs locks) n g \<noteq> None \<longleftrightarrow> number locks n g \<noteq> None \<or> n = name \<and> g \<in> set fs"
    using assign_fields_step [OF Cons.prems, of name fs] by blast+
  show ?case
    unfolding fold.simps comp_apply d prod.case
    using Cons.IH [OF a(1)] locks_evolve_trans [OF a(2)] k
    by (intro conjI) (blast, blast, blast, auto simp: n simp del: not_None_eq)
qed simp

text \<open>The numbers of declarations that are gone are taken away, the others stay.\<close>

lemma reserve_gone_step:
  assumes "locks_ok locks"
  shows "locks_ok (reserve_gone cur locks)" "locks_evolve locks (reserve_gone cur locks)"
    and "number (reserve_gone cur locks) n g = (if g \<in> set (lookup_or [] cur n) then number locks n g else None)"
proof -
  let ?h = "\<lambda>name ml. case map_of cur name of None \<Rightarrow> reserveAllFields ml | Some fs \<Rightarrow> reserveRemovedFields fs ml"
  have eq: "?h name ml = reserveRemovedFields (lookup_or [] cur name) ml" for name ml
    by (simp add: reserveAllFields_eq lookup_or_def split: option.split)
  have h: "lock_ok ml \<Longrightarrow> lock_ok (?h name ml) \<and> lock_evolves ml (?h name ml)" for name ml
    unfolding eq using reserve_step by blast
  show "locks_ok (reserve_gone cur locks)" "locks_evolve locks (reserve_gone cur locks)"
    using locks_map [OF assms, of ?h] h by (auto simp: reserve_gone_def)
  show "number (reserve_gone cur locks) n g = (if g \<in> set (lookup_or [] cur n) then number locks n g else None)"
    unfolding reserve_gone_def number_def eq map_of_map_values
    using assms reserve_step(3) by (auto simp: locks_ok_def split: option.splits)
qed

section \<open>The declarations of the sources\<close>

definition model_decls :: "ast_File list \<Rightarrow> (bytes \<times> bytes list) list" where
  "model_decls files = concat (map (\<lambda>file. map (\<lambda>m. (mdlName m, field_names (mdlFields m))) (Models file)) files)"

definition extend_decls :: "ast_File list \<Rightarrow> (bytes \<times> bytes list) list" where
  "extend_decls files = concat (map (\<lambda>file. map (\<lambda>e. (extName e, field_names (extFields e))) (Extends file)) files)"

definition type_decls :: "ast_File list \<Rightarrow> (bytes \<times> bytes list) list" where
  "type_decls files = concat (map (\<lambda>file. map (\<lambda>t. (tydName t, field_names (tydFields t))) (Types file)) files)"

definition event_decls :: "ast_File list \<Rightarrow> (bytes \<times> bytes list) list" where
  "event_decls files = concat (map (\<lambda>file. map (\<lambda>e. (evtName e, param_names (evtParams e))) (Events file)) files)"

lemma fold_files: "fold (\<lambda>file. fold (\<lambda>d. F (k d)) (sel file)) files s = fold F (concat (map (\<lambda>file. map k (sel file)) files)) s"
  by (induction files arbitrary: s) (simp_all add: fold_map comp_def)

lemma assign_models:
  "fold (\<lambda>file. fold assignModelFields (Models file)) files lf =
   lf\<lparr>lfModels := fold (case_prod assign_fields) (model_decls files) (lfModels lf)\<rparr>"
proof -
  have one: "fold assignModelFields ms lf =
      lf\<lparr>lfModels := fold (case_prod assign_fields) (map (\<lambda>m. (mdlName m, field_names (mdlFields m))) ms) (lfModels lf)\<rparr>" for ms lf
    by (induction ms arbitrary: lf) (simp_all add: assignModelFields_def)
  show ?thesis by (induction files arbitrary: lf) (simp_all add: one model_decls_def)
qed

lemma decl_folds:
  "fold (\<lambda>file. fold (\<lambda>d. assign_fields (a d) (b d)) (sel file)) files s =
   fold (case_prod assign_fields) (concat (map (\<lambda>file. map (\<lambda>d. (a d, b d)) (sel file)) files)) s"
  using fold_files [where F = "case_prod assign_fields" and k = "\<lambda>d. (a d, b d)"] by simp

text \<open>The fields that the sources give a model.\<close>

definition declares :: "(bytes \<times> bytes list) list \<Rightarrow> bytes \<Rightarrow> bytes \<Rightarrow> bool" where
  "declares ds name f \<longleftrightarrow> (\<exists>fs. (name, fs) \<in> set ds \<and> f \<in> set fs)"

lemma declares_append [simp]: "declares (as @ bs) n f \<longleftrightarrow> declares as n f \<or> declares bs n f"
  by (auto simp: declares_def)

lemma declares_simps [simp]: "declares [] n = (\<lambda>_. False)" "declares ((m, fs) # ds) n f \<longleftrightarrow> n = m \<and> f \<in> set fs \<or> declares ds n f"
  by (auto simp: declares_def)

lemma lookup_add_names: "set (lookup_or [] (add_names name xs cur) n) = set (lookup_or [] cur n) \<union> (if n = name then set xs else {})"
  by (auto simp: add_names_def lookup_or_def AList.update_conv' split: option.splits)

lemma lookup_fold_names:
  "set (lookup_or [] (fold (case_prod add_names) ds cur) n) = set (lookup_or [] cur n) \<union> {f. declares ds n f}"
proof (induction ds arbitrary: cur)
  case (Cons d ds)
  then show ?case by (cases d) (auto simp: lookup_add_names)
qed simp

lemma current_models_declares:
  "set (lookup_or [] (current_models files) n) = {f. declares (model_decls files @ extend_decls files) n f}"
proof -
  have "fold (\<lambda>file cur.
       fold (\<lambda>ext. add_names (extName ext) (field_names (extFields ext))) (Extends file)
         (fold (\<lambda>m. add_names (mdlName m) (field_names (mdlFields m))) (Models file) cur)) files cur =
      fold (case_prod add_names) (concat (map (\<lambda>file. map (\<lambda>m. (mdlName m, field_names (mdlFields m))) (Models file) @
         map (\<lambda>e. (extName e, field_names (extFields e))) (Extends file)) files)) cur" for cur
    by (induction files arbitrary: cur) (simp_all add: fold_map comp_def)
  moreover have "set (concat (map (\<lambda>file. map (\<lambda>m. (mdlName m, field_names (mdlFields m))) (Models file) @
         map (\<lambda>e. (extName e, field_names (extFields e))) (Extends file)) files)) = set (model_decls files @ extend_decls files)"
    by (auto simp: model_decls_def extend_decls_def)
  ultimately show ?thesis
    by (simp add: current_models_def lookup_fold_names lookup_or_def [of _ "[]"] declares_def del: set_append set_concat)
qed

section \<open>The parameters of one API\<close>

definition param_ids :: "APILock \<Rightarrow> bytes \<Rightarrow> int option" where
  "param_ids al = map_of (alParams al)"

definition param_used :: "APILock \<Rightarrow> int set" where
  "param_used al = snd ` set (alParams al) \<union> set (alReserved al)"

definition api_ok :: "APILock \<Rightarrow> bool" where
  "api_ok al \<longleftrightarrow>
     0 \<le> alnextP al \<and> distinct (map fst (alParams al)) \<and> distinct (map snd (alParams al)) \<and>
     snd ` set (alParams al) \<inter> set (alReserved al) = {} \<and> (\<forall>i \<in> param_used al. 1 \<le> i)"

lemma api_okD:
  assumes "api_ok al"
  shows "0 \<le> alnextP al" "distinct (map fst (alParams al))" "distinct (map snd (alParams al))"
    "snd ` set (alParams al) \<inter> set (alReserved al) = {}" "\<forall>i \<in> param_used al. 1 \<le> i"
  using assms by (simp_all add: api_ok_def)

lemma param_ids_used: "param_ids al p = Some i \<Longrightarrow> i \<in> param_used al"
  unfolding param_ids_def param_used_def using map_of_SomeD [of "alParams al" p i] by force

interpretation params: ledger param_ids param_used api_ok
proof unfold_locales
  fix s n m i
  assume "api_ok s" "param_ids s n = Some i"
  then show "i \<in> param_used s" by (simp add: param_ids_used)
  assume "param_ids s m = Some i"
  with \<open>api_ok s\<close> \<open>param_ids s n = Some i\<close> show "n = m"
    using map_of_snd_distinct [OF api_okD(3)] by (simp add: param_ids_def)
qed

abbreviation api_evolves :: "APILock \<Rightarrow> APILock \<Rightarrow> bool" where
  "api_evolves \<equiv> evolves param_ids param_used"

lemma fold_max_start: "n \<le> fold (\<lambda>i n. if i > n then i else n) xs (n :: int)"
proof (induction xs arbitrary: n)
  case (Cons j js)
  show ?case using Cons [of "if j > n then j else n"] by (auto split: if_splits)
qed simp

lemma fold_max_member: "i \<in> set xs \<Longrightarrow> i \<le> fold (\<lambda>i n. if i > n then i else n) xs (n :: int)"
proof (induction xs arbitrary: n)
  case (Cons j js)
  show ?case
    using Cons fold_max_start [of "if j > n then j else n" js] by (auto split: if_splits)
qed simp

lemma next_param_eq: "next_param al = fold (\<lambda>i n. if i > n then i else n) (map snd (alParams al) @ alReserved al) (alnextP al)"
proof -
  have "fold (\<lambda>(_, i) n. if i > n then i else n) xs n = fold (\<lambda>i n. if i > n then i else n) (map snd xs) n" for xs :: "(bytes \<times> int) list" and n
    by (induction xs arbitrary: n) auto
  then show ?thesis by (simp add: next_param_def)
qed

lemma next_param_bounds: "alnextP al \<le> next_param al" "i \<in> param_used al \<Longrightarrow> i \<le> next_param al"
  unfolding next_param_eq param_used_def by (rule fold_max_start) (rule fold_max_member, auto)

text \<open>A lock whose counter is at least every number used.\<close>

definition ready :: "APILock \<Rightarrow> bool" where
  "ready al \<longleftrightarrow> api_ok al \<and> (\<forall>i \<in> param_used al. i \<le> alnextP al)"

lemma counter_kept [simp]:
  "param_ids (al\<lparr>alnextP := k\<rparr>) = param_ids al" "param_used (al\<lparr>alnextP := k\<rparr>) = param_used al"
  by (simp_all add: param_ids_def [abs_def] param_used_def)

lemma ready_next:
  assumes "api_ok al"
  shows "ready (al\<lparr>alnextP := next_param al\<rparr>)" "api_evolves al (al\<lparr>alnextP := next_param al\<rparr>)"
proof -
  have "0 \<le> next_param al" using api_okD(1) [OF assms] next_param_bounds(1) [of al] by simp
  then have "api_ok (al\<lparr>alnextP := next_param al\<rparr>)" using api_okD [OF assms] by (simp add: api_ok_def)
  then show "ready (al\<lparr>alnextP := next_param al\<rparr>)" using next_param_bounds(2) [of _ al] by (simp add: ready_def)
  show "api_evolves al (al\<lparr>alnextP := next_param al\<rparr>)" by (simp add: evolves_def)
qed

lemma assign_param_step:
  assumes "ready al"
  shows "ready (assign_param p al)" "api_evolves al (assign_param p al)" "alID (assign_param p al) = alID al"
    and "param_ids al q = Some i \<Longrightarrow> param_ids (assign_param p al) q = Some i"
    and "param_ids (assign_param p al) q \<noteq> None \<longleftrightarrow> param_ids al q \<noteq> None \<or> q = p"
proof -
  consider (old) i where "param_ids al p = Some i" "assign_param p al = al"
    | (fresh) "param_ids al p = None" "p \<notin> fst ` set (alParams al)"
        "assign_param p al = al\<lparr>alParams := alParams al @ [(p, alnextP al + 1)], alnextP := alnextP al + 1\<rparr>"
    using map_of_eq_None_iff [of "alParams al" p]
    by (cases "param_ids al p") (simp_all add: assign_param_def param_ids_def update_new)
  note c = this
  have ok: "api_ok al" and top: "\<And>i. i \<in> param_used al \<Longrightarrow> i \<le> alnextP al" using assms by (auto simp: ready_def)
  have n: "alnextP al + 1 \<notin> param_used al" using top by force
  show "ready (assign_param p al)"
    using c
  proof cases
    case fresh
    have "param_used (assign_param p al) = insert (alnextP al + 1) (param_used al)" by (simp add: fresh param_used_def)
    moreover have "api_ok (assign_param p al)"
      using n api_okD [OF ok] fresh(2) calculation by (simp add: api_ok_def fresh(3)) (simp add: param_used_def)
    moreover have "\<forall>i \<in> param_used (assign_param p al). i \<le> alnextP (assign_param p al)"
      unfolding calculation(1) using top by (force simp: fresh(3))
    ultimately show ?thesis by (simp add: ready_def)
  qed (use assms in simp)
  show "api_evolves al (assign_param p al)"
    unfolding evolves_def using c n
    by cases (auto simp: param_used_def param_ids_def map_add_def split: option.splits)
  show "alID (assign_param p al) = alID al" using c by cases simp_all
  show "param_ids al q = Some i \<Longrightarrow> param_ids (assign_param p al) q = Some i"
    using c by cases (auto simp: param_ids_def map_add_def split: option.splits)
  show "param_ids (assign_param p al) q \<noteq> None \<longleftrightarrow> param_ids al q \<noteq> None \<or> q = p"
    using c by cases (auto simp: param_ids_def map_add_def split: option.splits)
qed

lemma assign_params_step:
  assumes "ready al"
  shows "ready (fold assign_param ps al) \<and> api_evolves al (fold assign_param ps al) \<and> alID (fold assign_param ps al) = alID al \<and>
    (\<forall>q i. param_ids al q = Some i \<longrightarrow> param_ids (fold assign_param ps al) q = Some i) \<and>
    (\<forall>q. param_ids (fold assign_param ps al) q \<noteq> None \<longleftrightarrow> param_ids al q \<noteq> None \<or> q \<in> set ps)"
  using assms
proof (induction ps arbitrary: al)
  case (Cons p ps)
  note a = assign_param_step(1-3) [OF Cons.prems, of p]
  have keep: "param_ids al q = Some i \<Longrightarrow> param_ids (assign_param p al) q = Some i" for q i
    by (rule assign_param_step(4) [OF Cons.prems])
  have dom: "param_ids (assign_param p al) q \<noteq> None \<longleftrightarrow> param_ids al q \<noteq> None \<or> q = p" for q
    by (rule assign_param_step(5) [OF Cons.prems])
  show ?case
    using Cons.IH [OF a(1)] a(3) keep dom evolves_trans [OF a(2)] by auto
qed simp

lemma reserve_params_eq:
  "reserve_params cur al =
     al\<lparr>alParams := filter (\<lambda>x. fst x \<in> set cur) (alParams al),
        alReserved := alReserved al @ filter (\<lambda>i. i \<notin> set (alReserved al)) (map snd (filter (\<lambda>x. fst x \<notin> set cur) (alParams al)))\<rparr>"
proof -
  let ?step = "\<lambda>R (param, i) al. if param \<in> set cur then al
           else let al = (if i \<in> set R then al else al\<lparr>alReserved := alReserved al @ [i]\<rparr>)
                in al\<lparr>alParams := AList.delete param (alParams al)\<rparr>"
  have f: "fold (?step R) xs al =
     al\<lparr>alParams := filter (\<lambda>x. fst x \<notin> fst ` set (filter (\<lambda>x. fst x \<notin> set cur) xs)) (alParams al),
        alReserved := alReserved al @ filter (\<lambda>i. i \<notin> set R) (map snd (filter (\<lambda>x. fst x \<notin> set cur) xs))\<rparr>" for xs R and al
  proof (induction xs arbitrary: al)
    case (Cons x xs)
    obtain a b where x: "x = (a, b)" by (cases x)
    show ?case by (simp add: x Cons Let_def delete_filter)
  qed simp
  have g: "filter (\<lambda>x. fst x \<notin> fst ` set (filter (\<lambda>x. fst x \<notin> set cur) (alParams al))) (alParams al) =
      filter (\<lambda>x. fst x \<in> set cur) (alParams al)"
    by (rule filter_cong) auto
  show ?thesis
    unfolding reserve_params_def Let_def [of "alReserved al"] f g ..
qed

lemma map_of_filter_fst: "map_of (filter (\<lambda>x. fst x \<in> S) xs) k = (if k \<in> S then map_of xs k else None)"
  by (induction xs) auto

lemma reserve_params_step:
  assumes "api_ok al"
  shows "api_ok (reserve_params cur al)" "api_evolves al (reserve_params cur al)" "alID (reserve_params cur al) = alID al"
    and "param_ids (reserve_params cur al) p = (if p \<in> set cur then param_ids al p else None)"
proof -
  show ids: "param_ids (reserve_params cur al) p = (if p \<in> set cur then param_ids al p else None)" for p
    by (simp add: reserve_params_eq param_ids_def map_of_filter_fst)
  let ?in = "{x \<in> set (alParams al). fst x \<in> set cur}" and ?out = "{x \<in> set (alParams al). fst x \<notin> set cur}"
  have u: "snd ` set (alParams al) = snd ` ?in \<union> snd ` ?out" by auto
  have r: "filter (\<lambda>i. i \<notin> set (alReserved al)) (map snd (filter (\<lambda>x. fst x \<notin> set cur) (alParams al))) =
      map snd (filter (\<lambda>x. fst x \<notin> set cur) (alParams al))"
    using api_okD(4) [OF assms] by (auto simp: filter_id_conv)
  have same: "param_used (reserve_params cur al) = param_used al"
    unfolding reserve_params_eq r param_used_def by (simp add: u) blast
  show "api_evolves al (reserve_params cur al)"
    by (auto simp: evolves_def ids same)
  have p: "snd ` ?in \<inter> snd ` ?out = {}"
    using api_okD(3) [OF assms] by (auto simp: distinct_map inj_on_def)
  have apart: "snd ` ?in \<inter> (set (alReserved al) \<union> snd ` ?out) = {}"
    using api_okD(4) [OF assms] p by (auto simp: u)
  show "api_ok (reserve_params cur al)"
    using api_okD [OF assms] apart same unfolding api_ok_def reserve_params_eq r
    by (simp add: distinct_map_filter)
  show "alID (reserve_params cur al) = alID al" by (simp add: reserve_params_eq)
qed

text \<open>What ensureAPIID does to the lock of the API.\<close>

definition ensure_params :: "bytes list \<Rightarrow> APILock \<Rightarrow> APILock" where
  "ensure_params params al = reserve_params params (fold assign_param params (al\<lparr>alnextP := next_param al\<rparr>))"

lemma ensure_params_step:
  assumes "api_ok al"
  shows "api_ok (ensure_params ps al)" "api_evolves al (ensure_params ps al)" "alID (ensure_params ps al) = alID al"
    and "param_ids (ensure_params ps al) p \<noteq> None \<longleftrightarrow> p \<in> set ps"
    and "p \<in> set ps \<Longrightarrow> param_ids al p = Some i \<Longrightarrow> param_ids (ensure_params ps al) p = Some i"
proof -
  note n = ready_next [OF assms]
  note a = assign_params_step [OF n(1), of ps]
  have ok: "api_ok (fold assign_param ps (al\<lparr>alnextP := next_param al\<rparr>))" using a by (simp add: ready_def)
  note r = reserve_params_step [OF ok, of ps]
  show "api_ok (ensure_params ps al)" unfolding ensure_params_def by (rule r(1))
  show "api_evolves al (ensure_params ps al)"
    unfolding ensure_params_def by (rule evolves_trans [OF n(2)], rule evolves_trans [OF _ r(2)]) (use a in blast)
  show "alID (ensure_params ps al) = alID al" unfolding ensure_params_def using r(3) a by simp
  have dom: "param_ids (fold assign_param ps (al\<lparr>alnextP := next_param al\<rparr>)) p \<noteq> None \<longleftrightarrow> param_ids al p \<noteq> None \<or> p \<in> set ps"
    using a by simp
  show "param_ids (ensure_params ps al) p \<noteq> None \<longleftrightarrow> p \<in> set ps"
    unfolding ensure_params_def r(4) using dom by auto
  show "p \<in> set ps \<Longrightarrow> param_ids al p = Some i \<Longrightarrow> param_ids (ensure_params ps al) p = Some i"
    unfolding ensure_params_def r(4) using a by simp
qed

end
