(* ===== verification/Locking.thy ===== *)
theory Locking
  imports Numbers
begin

text \<open>
  The whole lock file: the table of APIs, the requests that the sources make of it, the steps of Update, saving and loading,
  histories of a lock file, and the comparison with the sources that compatibility.go makes.
\<close>

section \<open>The table of APIs\<close>

definition api_id :: "LockFile \<Rightarrow> bytes \<Rightarrow> int option" where
  "api_id lf name = map_option alID (map_of (lfAPIs lf) name)"

definition api_used :: "LockFile \<Rightarrow> int set" where
  "api_used lf = {1..nextAPI lf}"

definition api_numbers :: "LockFile \<Rightarrow> int list" where
  "api_numbers lf = map (alID \<circ> snd) (lfAPIs lf)"

definition table_ok :: "LockFile \<Rightarrow> bool" where
  "table_ok lf \<longleftrightarrow>
     0 \<le> nextAPI lf \<and> distinct (map fst (lfAPIs lf)) \<and> distinct (api_numbers lf) \<and>
     set (api_numbers lf) \<union> set (lfReservedAPI lf) = {1..nextAPI lf} \<and> set (api_numbers lf) \<inter> set (lfReservedAPI lf) = {} \<and>
     (\<forall>name al. map_of (lfAPIs lf) name = Some al \<longrightarrow> api_ok al)"

lemma table_okD:
  assumes "table_ok lf"
  shows "0 \<le> nextAPI lf" "distinct (map fst (lfAPIs lf))" "distinct (api_numbers lf)"
    "set (api_numbers lf) \<union> set (lfReservedAPI lf) = {1..nextAPI lf}" "set (api_numbers lf) \<inter> set (lfReservedAPI lf) = {}"
    "map_of (lfAPIs lf) name = Some al \<Longrightarrow> api_ok al"
  using assms by (simp_all add: table_ok_def)

lemma api_id_pair: "api_id lf name = Some i \<Longrightarrow> (name, i) \<in> set (map (\<lambda>(n, al). (n, alID al)) (lfAPIs lf))"
  by (auto simp: api_id_def dest!: map_of_SomeD)

lemma api_id_map: "api_id lf name = map_of (map (\<lambda>(n, al). (n, alID al)) (lfAPIs lf)) name"
  by (simp add: api_id_def map_of_map_values)

lemma api_numbers_snd: "api_numbers lf = map snd (map (\<lambda>(n, al). (n, alID al)) (lfAPIs lf))"
  by (auto simp: api_numbers_def)

lemma api_id_used:
  assumes "table_ok lf" "api_id lf name = Some i"
  shows "i \<in> api_used lf"
proof -
  have "i \<in> set (api_numbers lf)" unfolding api_numbers_snd using api_id_pair [OF assms(2)] by force
  then show ?thesis using table_okD(4) [OF assms(1)] unfolding api_used_def by blast
qed

interpretation table: ledger api_id api_used table_ok
proof unfold_locales
  fix s n m i
  assume ok: "table_ok s" and n: "api_id s n = Some i"
  then show "i \<in> api_used s" by (rule api_id_used)
  assume "api_id s m = Some i"
  with n show "n = m"
    using map_of_snd_distinct [OF table_okD(3) [OF ok, unfolded api_numbers_snd]] by (simp add: api_id_map)
qed

text \<open>An API that keeps its number keeps the ledger of its parameters too.\<close>

definition table_evolves :: "LockFile \<Rightarrow> LockFile \<Rightarrow> bool" where
  "table_evolves s t \<longleftrightarrow> evolves api_id api_used s t \<and>
     (\<forall>n a b. map_of (lfAPIs s) n = Some a \<longrightarrow> map_of (lfAPIs t) n = Some b \<longrightarrow> alID a = alID b \<longrightarrow> api_evolves a b)"

lemma table_evolves_refl [simp]: "table_evolves s s"
  by (simp add: table_evolves_def)

lemma table_evolves_trans:
  assumes "table_ok s" "table_evolves s t" "table_evolves t u"
  shows "table_evolves s u"
proof -
  have e: "evolves api_id api_used s u" using assms(2,3) unfolding table_evolves_def by (blast intro: evolves_trans)
  have "api_evolves a c" if a: "map_of (lfAPIs s) n = Some a" and c: "map_of (lfAPIs u) n = Some c" and eq: "alID a = alID c" for n a c
  proof -
    have "api_id s n = Some (alID a)" "api_id u n = Some (alID a)" using a c eq by (simp_all add: api_id_def)
    moreover have "alID a \<in> api_used t"
      using api_id_used [OF assms(1)] calculation(1) assms(2) by (auto simp: table_evolves_def evolves_def)
    ultimately have "api_id t n = Some (alID a)" using assms(3) by (auto simp: table_evolves_def evolves_def)
    then obtain b where b: "map_of (lfAPIs t) n = Some b" "alID b = alID a" by (auto simp: api_id_def)
    have "api_evolves a b" "api_evolves b c" using assms(2,3) a b c eq unfolding table_evolves_def by metis+
    then show ?thesis by (rule evolves_trans)
  qed
  with e show ?thesis unfolding table_evolves_def by blast
qed

section \<open>One request for an API\<close>

definition fresh_api :: "int \<Rightarrow> APILock" where
  "fresh_api i =
     \<lparr>alID = i, alParams = [], alParamTypes = [], alReturnType = [], alContract = False, alReserved = [], alnextP = 0\<rparr>"

lemma fresh_api_simps [simp]:
  "api_ok (fresh_api i)" "alID (fresh_api i) = i" "param_ids (fresh_api i) = (\<lambda>_. None)"
  by (simp_all add: fresh_api_def api_ok_def param_used_def param_ids_def [abs_def])

lemma ensureAPIID_eq:
  "ensureAPIID name ps lf =
     (case map_of (lfAPIs lf) name of
        Some al \<Rightarrow> lf\<lparr>lfAPIs := AList.update name (ensure_params ps al) (lfAPIs lf)\<rparr>
      | None \<Rightarrow> lf\<lparr>lfAPIs := AList.update name (ensure_params ps (fresh_api (nextAPI lf + 1))) (lfAPIs lf),
                  nextAPI := nextAPI lf + 1\<rparr>)"
  by (simp add: ensureAPIID_def ensure_params_def fresh_api_def Let_def split: option.split)

lemma map_snd_update:
  "map_of xs k = Some w \<Longrightarrow> g v = g w \<Longrightarrow> map (g \<circ> snd) (AList.update k v xs) = map (g \<circ> snd) xs"
  by (induction xs) auto

lemma map_fst_update:
  "map_of xs k = Some w \<Longrightarrow> map fst (AList.update k v xs) = map fst xs"
  by (induction xs) auto

lemma ensure_step:
  assumes "table_ok lf"
  shows "table_ok (ensureAPIID name ps lf)" "table_evolves lf (ensureAPIID name ps lf)"
proof -
  have "table_ok (ensureAPIID name ps lf) \<and> table_evolves lf (ensureAPIID name ps lf)"
  proof (cases "map_of (lfAPIs lf) name")
    case (Some al)
    note e = ensure_params_step [where ps = ps, OF table_okD(6) [OF assms Some]]
    have eq: "ensureAPIID name ps lf = lf\<lparr>lfAPIs := AList.update name (ensure_params ps al) (lfAPIs lf)\<rparr>"
      by (simp add: ensureAPIID_eq Some)
    have n: "api_numbers (ensureAPIID name ps lf) = api_numbers lf"
      unfolding eq api_numbers_def using map_snd_update [where g = alID, OF Some e(3)] by simp
    have "table_ok (ensureAPIID name ps lf)"
      using table_okD [OF assms] e(1) unfolding table_ok_def n by (simp add: eq map_fst_update [OF Some] AList.update_conv')
    moreover have "api_id (ensureAPIID name ps lf) = api_id lf"
      by (rule ext) (simp add: api_id_def eq AList.update_conv' Some e(3))
    then have "table_evolves lf (ensureAPIID name ps lf)"
      using e(2) Some by (simp add: table_evolves_def evolves_def api_used_def eq AList.update_conv')
    ultimately show ?thesis ..
  next
    case None
    let ?al = "ensure_params ps (fresh_api (nextAPI lf + 1))"
    note e = ensure_params_step [where ps = ps, OF fresh_api_simps(1) [of "nextAPI lf + 1"]]
    have out: "name \<notin> fst ` set (lfAPIs lf)" using None by (simp add: map_of_eq_None_iff)
    have eq: "ensureAPIID name ps lf = lf\<lparr>lfAPIs := lfAPIs lf @ [(name, ?al)], nextAPI := nextAPI lf + 1\<rparr>"
      by (simp add: ensureAPIID_eq None update_new [OF out])
    have n: "api_numbers (ensureAPIID name ps lf) = api_numbers lf @ [nextAPI lf + 1]"
      by (simp add: eq api_numbers_def e(3))
    have top: "nextAPI lf + 1 \<notin> set (api_numbers lf)" "nextAPI lf + 1 \<notin> set (lfReservedAPI lf)"
    proof -
      have "nextAPI lf + 1 \<notin> set (api_numbers lf) \<union> set (lfReservedAPI lf)" unfolding table_okD(4) [OF assms] by simp
      then show "nextAPI lf + 1 \<notin> set (api_numbers lf)" "nextAPI lf + 1 \<notin> set (lfReservedAPI lf)" by simp_all
    qed
    have s: "{1..nextAPI lf + 1} = insert (nextAPI lf + 1) {1..nextAPI lf}" using table_okD(1) [OF assms] by auto
    have look: "map_of (lfAPIs (ensureAPIID name ps lf)) = (map_of (lfAPIs lf))(name \<mapsto> ?al)"
      by (rule ext) (auto simp: eq map_add_def None split: option.split)
    have "table_ok (ensureAPIID name ps lf)"
      using table_okD [OF assms] e(1) top out unfolding table_ok_def n look by (simp add: eq s)
    moreover have ids: "api_id (ensureAPIID name ps lf) = (api_id lf)(name \<mapsto> nextAPI lf + 1)"
      by (rule ext) (simp add: api_id_def look e(3))
    have "table_evolves lf (ensureAPIID name ps lf)"
      unfolding table_evolves_def evolves_def ids look by (auto simp: api_used_def eq None)
    ultimately show ?thesis ..
  qed
  then show "table_ok (ensureAPIID name ps lf)" "table_evolves lf (ensureAPIID name ps lf)" by simp_all
qed

lemma ensure_look:
  assumes "table_ok lf"
  shows "map_of (lfAPIs (ensureAPIID name ps lf)) n =
    (if n = name then Some (ensure_params ps (case map_of (lfAPIs lf) name of Some al \<Rightarrow> al | None \<Rightarrow> fresh_api (nextAPI lf + 1)))
     else map_of (lfAPIs lf) n)"
  by (simp add: ensureAPIID_eq AList.update_conv' split: option.split)

lemma ensure_names: "set (map fst (lfAPIs (ensureAPIID name ps lf))) = insert name (set (map fst (lfAPIs lf)))"
  by (simp add: ensureAPIID_eq dom_update split: option.split)

lemma ensures_step:
  assumes "table_ok lf"
  shows "table_ok (fold (case_prod ensureAPIID) rs lf) \<and> table_evolves lf (fold (case_prod ensureAPIID) rs lf) \<and>
    set (map fst (lfAPIs (fold (case_prod ensureAPIID) rs lf))) = set (map fst (lfAPIs lf)) \<union> fst ` set rs"
  using assms
proof (induction rs arbitrary: lf)
  case (Cons r rs)
  obtain name ps where r: "r = (name, ps)" by (cases r)
  show ?case
    using Cons.IH [OF ensure_step(1) [OF Cons.prems, of name ps]] table_evolves_trans [OF Cons.prems ensure_step(2) [OF Cons.prems, of name ps]]
    by (auto simp: r ensure_names simp del: set_map)
qed simp

text \<open>The locks of the declarations are not touched.\<close>

lemma ensures_frame [simp]:
  "lfModels (fold (case_prod ensureAPIID) rs lf) = lfModels lf"
  "lfTypes (fold (case_prod ensureAPIID) rs lf) = lfTypes lf"
  "lfEvents (fold (case_prod ensureAPIID) rs lf) = lfEvents lf"
proof -
  have "lfModels (ensureAPIID n ps l) = lfModels l" "lfTypes (ensureAPIID n ps l) = lfTypes l" "lfEvents (ensureAPIID n ps l) = lfEvents l" for n ps l
    by (simp_all add: ensureAPIID_eq split: option.split)
  note one = this
  show "lfModels (fold (case_prod ensureAPIID) rs lf) = lfModels lf" by (induction rs arbitrary: lf) (auto simp: one)
  show "lfTypes (fold (case_prod ensureAPIID) rs lf) = lfTypes lf" by (induction rs arbitrary: lf) (auto simp: one)
  show "lfEvents (fold (case_prod ensureAPIID) rs lf) = lfEvents lf" by (induction rs arbitrary: lf) (auto simp: one)
qed

section \<open>Removing APIs\<close>

lemma reserveRemovedAPIs_eq:
  "reserveRemovedAPIs act lf =
     lf\<lparr>lfAPIs := filter (\<lambda>x. fst x \<in> set act) (lfAPIs lf),
        lfReservedAPI := lfReservedAPI lf @
          filter (\<lambda>i. i \<notin> set (lfReservedAPI lf)) (map (alID \<circ> snd) (filter (\<lambda>x. fst x \<notin> set act) (lfAPIs lf)))\<rparr>"
proof -
  let ?step = "\<lambda>R (name, al) lf. if name \<in> set act then lf
           else let lf = (if alID al \<in> set R then lf else lf\<lparr>lfReservedAPI := lfReservedAPI lf @ [alID al]\<rparr>)
                in lf\<lparr>lfAPIs := AList.delete name (lfAPIs lf)\<rparr>"
  have f: "fold (?step R) xs lf =
     lf\<lparr>lfAPIs := filter (\<lambda>x. fst x \<notin> fst ` set (filter (\<lambda>x. fst x \<notin> set act) xs)) (lfAPIs lf),
        lfReservedAPI := lfReservedAPI lf @ filter (\<lambda>i. i \<notin> set R) (map (alID \<circ> snd) (filter (\<lambda>x. fst x \<notin> set act) xs))\<rparr>" for xs R and lf
  proof (induction xs arbitrary: lf)
    case (Cons x xs)
    obtain a b where x: "x = (a, b)" by (cases x)
    show ?case by (simp add: x Cons Let_def delete_filter)
  qed simp
  have g: "filter (\<lambda>x. fst x \<notin> fst ` set (filter (\<lambda>x. fst x \<notin> set act) (lfAPIs lf))) (lfAPIs lf) =
      filter (\<lambda>x. fst x \<in> set act) (lfAPIs lf)"
    by (rule filter_cong) auto
  show ?thesis
    unfolding reserveRemovedAPIs_def Let_def [of "lfReservedAPI lf"] f g ..
qed

lemma removed_step:
  assumes "table_ok lf"
  shows "table_ok (reserveRemovedAPIs act lf)" "table_evolves lf (reserveRemovedAPIs act lf)"
    and "map_of (lfAPIs (reserveRemovedAPIs act lf)) n = (if n \<in> set act then map_of (lfAPIs lf) n else None)"
proof -
  show look: "map_of (lfAPIs (reserveRemovedAPIs act lf)) n = (if n \<in> set act then map_of (lfAPIs lf) n else None)" for n
    by (simp add: reserveRemovedAPIs_eq map_of_filter_fst)
  let ?g = "alID \<circ> snd" and ?in = "{x \<in> set (lfAPIs lf). fst x \<in> set act}" and ?out = "{x \<in> set (lfAPIs lf). fst x \<notin> set act}"
  have N: "set (api_numbers lf) = ?g ` ?in \<union> ?g ` ?out" by (auto simp: api_numbers_def)
  have r: "filter (\<lambda>i. i \<notin> set (lfReservedAPI lf)) (map ?g (filter (\<lambda>x. fst x \<notin> set act) (lfAPIs lf))) =
      map ?g (filter (\<lambda>x. fst x \<notin> set act) (lfAPIs lf))"
    using table_okD(5) [OF assms] by (auto simp: filter_id_conv api_numbers_def)
  have eq: "reserveRemovedAPIs act lf = lf\<lparr>lfAPIs := filter (\<lambda>x. fst x \<in> set act) (lfAPIs lf),
      lfReservedAPI := lfReservedAPI lf @ map ?g (filter (\<lambda>x. fst x \<notin> set act) (lfAPIs lf))\<rparr>"
    unfolding reserveRemovedAPIs_eq r ..
  have d: "distinct (map ?g (lfAPIs lf))" using table_okD(3) [OF assms] by (simp add: api_numbers_def)
  have p: "?g ` ?in \<inter> ?g ` ?out = {}" using d by (auto simp: distinct_map inj_on_def)
  have R: "set (lfReservedAPI (reserveRemovedAPIs act lf)) = set (lfReservedAPI lf) \<union> ?g ` ?out" by (simp add: eq)
  have A: "set (api_numbers (reserveRemovedAPIs act lf)) = ?g ` ?in" by (simp add: eq api_numbers_def)
  have all: "?g ` ?in \<union> (set (lfReservedAPI lf) \<union> ?g ` ?out) = {1..nextAPI lf}"
    using table_okD(4) [OF assms] unfolding N by blast
  have apart: "?g ` ?in \<inter> (set (lfReservedAPI lf) \<union> ?g ` ?out) = {}"
    using table_okD(5) [OF assms] p unfolding N by blast
  have d': "distinct (api_numbers (reserveRemovedAPIs act lf))"
    using d by (simp add: eq api_numbers_def distinct_map_filter)
  have nx: "nextAPI (reserveRemovedAPIs act lf) = nextAPI lf" by (simp add: eq)
  show "table_ok (reserveRemovedAPIs act lf)"
    unfolding table_ok_def R A nx look using table_okD [OF assms] all apart d'
    by (auto simp: eq distinct_map_filter)
  have "api_id (reserveRemovedAPIs act lf) n = Some i \<Longrightarrow> api_id lf n = Some i" for n i
    by (simp add: api_id_def look split: if_splits)
  then show "table_evolves lf (reserveRemovedAPIs act lf)"
    unfolding table_evolves_def evolves_def api_used_def nx look by (auto split: if_splits)
qed

section \<open>The requests of the sources\<close>

definition federation_requests ::
  "(rune \<Rightarrow> rune) \<Rightarrow> (rune \<Rightarrow> rune) \<Rightarrow> ast_File list \<Rightarrow> bytes list \<Rightarrow> (bytes \<times> bytes list) list" where
  "federation_requests up lo files enums =
     (let pks = fold (\<lambda>file. fold (\<lambda>m. AList.update (mdlName m) (modelPrimaryKeyName m)) (Models file)) files []
      in concat (map (\<lambda>file. concat (map (\<lambda>ext.
           (lit ''svc:batchLoad:'' @ extName ext, [lit ''keys'']) #
           map (\<lambda>f. (lit ''svc:resolve:'' @ refName (fldType f) @ lit '':'' @
                    federationForeignKey up lo (extName ext) (case map_of pks (extName ext) of None \<Rightarrow> [] | Some k \<Rightarrow> k) f,
                    [lit ''keys'']))
             (filter (\<lambda>f. \<not> (fldComputed f \<noteq> None \<or> \<not> isCRUDRelationField f enums)) (extFields ext))) (Extends file))) files))"

fun load_requests :: "bytes list \<Rightarrow> Expr list \<Rightarrow> (bytes \<times> bytes list) list" where
  "load_requests seen [] = []"
| "load_requests seen (e # es) =
     (case named_load e of
        None \<Rightarrow> load_requests seen es
      | Some (name, as) \<Rightarrow> if name \<in> set seen then load_requests seen es else (name, as) # load_requests (name # seen) es)"

definition api_requests ::
  "(rune \<Rightarrow> rune) \<Rightarrow> (rune \<Rightarrow> rune) \<Rightarrow> ast_File list \<Rightarrow> (bytes \<times> bytes list) list option" where
  "api_requests up lo files =
     map_option (\<lambda>es.
       concat (map (\<lambda>file. concat (map (crud_apis (map fst (declared_apis files)) (enum_names files)) (Models file))) files) @
       federation_requests up lo files (enum_names files) @ load_requests [] es @ declared_apis files @ service_apis files)
       (body_exprs files)"

lemma fold_ensure: "fold ensure rs (act, lf) = (rev (map fst rs) @ act, fold (case_prod ensureAPIID) rs lf)"
  by (induction rs arbitrary: act lf) (auto simp: ensure_def)

lemma fold_ensure_append: "fold ensure (as @ bs) st = fold ensure bs (fold ensure as st)"
  by simp

lemma federation_requests_eq:
  "updateFederationAPIs up lo files enums st = fold ensure (federation_requests up lo files enums) st"
proof -
  have fs: "fold (\<lambda>f st. if c f then st else ensure (h f) st) xs st = fold ensure (map h (filter (\<lambda>f. \<not> c f) xs)) st"
    for c and h :: "FieldDecl \<Rightarrow> bytes \<times> bytes list" and xs st
    by (induction xs arbitrary: st) auto
  have ex: "fold (\<lambda>x st. fold ensure (k x) (ensure (a x) st)) xs st = fold ensure (concat (map (\<lambda>x. a x # k x) xs)) st"
    for a :: "ExtendDecl \<Rightarrow> bytes \<times> bytes list" and k xs st
    by (induction xs arbitrary: st) auto
  have fi: "fold (\<lambda>file. fold ensure (k file)) xs st = fold ensure (concat (map k xs)) st" for k :: "ast_File \<Rightarrow> (bytes \<times> bytes list) list" and xs st
    by (induction xs arbitrary: st) auto
  show ?thesis
    unfolding updateFederationAPIs_def federation_requests_def Let_def fs ex fi ..
qed

lemma load_requests_eq:
  "snd (fold (\<lambda>e (seen, st). case named_load e of
           None \<Rightarrow> (seen, st)
         | Some (name, as) \<Rightarrow> if name \<in> set seen then (seen, st) else (name # seen, ensure (name, as) st)) es (seen, st)) =
   fold ensure (load_requests seen es) st"
  by (induction es arbitrary: seen st) (auto split: option.split)

text \<open>The update of the APIs is one request after the other, and then the removal of what was not requested.\<close>

lemma updateAPIs_requests:
  "updateAPIs up lo files lf =
   map_option (\<lambda>rs. reserveRemovedAPIs (rev (map fst rs)) (fold (case_prod ensureAPIID) rs lf)) (api_requests up lo files)"
proof -
  have ms: "fold (\<lambda>m. fold ensure (k m)) xs st = fold ensure (concat (map k xs)) st" for k :: "ModelDecl \<Rightarrow> (bytes \<times> bytes list) list" and xs st
    by (induction xs arbitrary: st) auto
  have fi: "fold (\<lambda>file. fold ensure (k file)) xs st = fold ensure (concat (map k xs)) st" for k :: "ast_File \<Rightarrow> (bytes \<times> bytes list) list" and xs st
    by (induction xs arbitrary: st) auto
  show ?thesis
    unfolding updateAPIs_def updateNamedLoadAPIsWithEnsure_def api_requests_def Let_def ms fi federation_requests_eq load_requests_eq
    by (cases "body_exprs files") (simp_all add: fold_ensure)
qed

section \<open>The history of a lock file\<close>

definition lf_ok :: "LockFile \<Rightarrow> bool" where
  "lf_ok lf \<longleftrightarrow> locks_ok (lfModels lf) \<and> locks_ok (lfTypes lf) \<and> locks_ok (lfEvents lf) \<and> table_ok lf"

definition lf_evolves :: "LockFile \<Rightarrow> LockFile \<Rightarrow> bool" where
  "lf_evolves s t \<longleftrightarrow>
     locks_evolve (lfModels s) (lfModels t) \<and> locks_evolve (lfTypes s) (lfTypes t) \<and> locks_evolve (lfEvents s) (lfEvents t) \<and>
     table_evolves s t"

lemma lf_evolves_trans: "lf_ok s \<Longrightarrow> lf_evolves s t \<Longrightarrow> lf_evolves t u \<Longrightarrow> lf_evolves s u"
  unfolding lf_ok_def lf_evolves_def by (blast intro: locks_evolve_trans table_evolves_trans)

lemma New_ok: "lf_ok New_LockFile"
  by (simp add: lf_ok_def locks_ok_def table_ok_def New_LockFile_def api_numbers_def)

text \<open>A change of every API on its own.\<close>

lemma table_map:
  assumes ok: "table_ok s"
    and t: "lfAPIs t = map (\<lambda>(n, al). (n, h n al)) (lfAPIs s)" "set (lfReservedAPI t) = set (lfReservedAPI s)" "nextAPI t = nextAPI s"
    and h: "\<And>n al. api_ok al \<Longrightarrow> api_ok (h n al) \<and> api_evolves al (h n al)" "\<And>n al. alID (h n al) = alID al"
  shows "table_ok t" "table_evolves s t"
proof -
  have n: "api_numbers t = api_numbers s" by (auto simp: api_numbers_def t h)
  have f: "map fst (lfAPIs t) = map fst (lfAPIs s)" by (auto simp: t)
  have look: "map_of (lfAPIs t) n = map_option (h n) (map_of (lfAPIs s) n)" for n by (simp add: t map_of_map_values)
  show "table_ok t"
    using table_okD [OF ok] h unfolding table_ok_def n f t(2,3) look by auto
  have "api_id t = api_id s" by (rule ext) (simp add: api_id_def look option.map_comp comp_def h)
  then show "table_evolves s t"
    using table_okD(6) [OF ok] h by (auto simp: table_evolves_def evolves_def api_used_def t(3) look)
qed

lemma same_params:
  "alParams b = alParams a \<Longrightarrow> set (alReserved b) = set (alReserved a) \<Longrightarrow> 0 \<le> alnextP b \<Longrightarrow> api_ok a \<Longrightarrow>
    api_ok b \<and> api_evolves a b"
  by (simp add: api_ok_def param_used_def evolves_def param_ids_def)

lemma same_fields:
  "mlFields b = mlFields a \<Longrightarrow> set (mlReserved b) = set (mlReserved a) \<Longrightarrow> mlNextID b = mlNextID a \<Longrightarrow> lock_ok a \<Longrightarrow>
    lock_ok b \<and> lock_evolves a b"
  by (simp add: lock_ok_def lock_used_def evolves_def lock_ids_def)

section \<open>The steps of Update\<close>

lemma updateModels_step:
  assumes "locks_ok (lfModels lf)" and ms: "ms = lfModels (updateExtends files (updateTypes files (updateModels files lf)))"
  shows "locks_ok ms" "locks_evolve (lfModels lf) ms"
    and "number ms n g \<noteq> None \<longleftrightarrow> declares (model_decls files @ extend_decls files) n g"
    and "declares (model_decls files @ extend_decls files) n g \<Longrightarrow> number (lfModels lf) n g = Some i \<Longrightarrow> number ms n g = Some i"
proof -
  let ?r = "reserve_gone (current_models files) (lfModels lf)"
  have eq: "ms = fold (case_prod assign_fields) (model_decls files @ extend_decls files) ?r"
    unfolding ms updateExtends_def updateTypes_def updateModels_def assign_models
    by (simp add: decl_folds extend_decls_def)
  note r = reserve_gone_step [OF assms(1), of "current_models files"]
  note a = assign_decls_step [OF r(1), of "model_decls files @ extend_decls files", folded eq]
  show "locks_ok ms" using a by blast
  show "locks_evolve (lfModels lf) ms" using a locks_evolve_trans [OF r(2)] by blast
  have d: "number ?r n g = (if declares (model_decls files @ extend_decls files) n g then number (lfModels lf) n g else None)" for n g
    by (simp add: r(3) current_models_declares)
  show "number ms n g \<noteq> None \<longleftrightarrow> declares (model_decls files @ extend_decls files) n g"
  proof -
    have "number ms n g \<noteq> None \<longleftrightarrow> number ?r n g \<noteq> None \<or> declares (model_decls files @ extend_decls files) n g"
      using a unfolding declares_def by blast
    then show ?thesis unfolding d by (simp split: if_splits)
  qed
  show "number ms n g = Some i" if "declares (model_decls files @ extend_decls files) n g" "number (lfModels lf) n g = Some i"
    using a that d [of n g] by simp
qed

text \<open>Types and events.\<close>

lemma relock_step:
  assumes "locks_ok locks"
  shows "locks_ok (fold (case_prod assign_fields) ds (reserve_gone cur locks)) \<and>
    locks_evolve locks (fold (case_prod assign_fields) ds (reserve_gone cur locks))"
  using assign_decls_step [OF reserve_gone_step(1) [OF assms(1), of cur], of ds] locks_evolve_trans [OF reserve_gone_step(2) [OF assms(1), of cur]]
  by blast

lemma updateTypes_locks: "lfTypes (updateTypes files lf) = fold (case_prod assign_fields) (type_decls files) (reserve_gone (current_types files) (lfTypes lf))"
  by (simp add: updateTypes_def decl_folds type_decls_def)

lemma updateEvents_locks: "lfEvents (updateEvents files lf) = fold (case_prod assign_fields) (event_decls files) (reserve_gone (current_events files) (lfEvents lf))"
  by (simp add: updateEvents_def decl_folds event_decls_def)

lemma update_frames [simp]:
  "lfTypes (updateModels files lf) = lfTypes lf" "lfEvents (updateModels files lf) = lfEvents lf" "lfAPIs (updateModels files lf) = lfAPIs lf"
  "lfReservedAPI (updateModels files lf) = lfReservedAPI lf" "nextAPI (updateModels files lf) = nextAPI lf"
  "lfModels (updateTypes files lf) = lfModels lf" "lfEvents (updateTypes files lf) = lfEvents lf" "lfAPIs (updateTypes files lf) = lfAPIs lf"
  "lfReservedAPI (updateTypes files lf) = lfReservedAPI lf" "nextAPI (updateTypes files lf) = nextAPI lf"
  "lfTypes (updateExtends files lf) = lfTypes lf" "lfEvents (updateExtends files lf) = lfEvents lf" "lfAPIs (updateExtends files lf) = lfAPIs lf"
  "lfReservedAPI (updateExtends files lf) = lfReservedAPI lf" "nextAPI (updateExtends files lf) = nextAPI lf"
  "lfModels (updateEvents files lf) = lfModels lf" "lfTypes (updateEvents files lf) = lfTypes lf" "lfAPIs (updateEvents files lf) = lfAPIs lf"
  "lfReservedAPI (updateEvents files lf) = lfReservedAPI lf" "nextAPI (updateEvents files lf) = nextAPI lf"
  by (simp_all add: updateModels_def assign_models updateTypes_def updateExtends_def updateEvents_def)

lemma removed_frame [simp]:
  "lfModels (reserveRemovedAPIs act lf) = lfModels lf" "lfTypes (reserveRemovedAPIs act lf) = lfTypes lf"
  "lfEvents (reserveRemovedAPIs act lf) = lfEvents lf"
  by (simp_all add: reserveRemovedAPIs_eq)

lemma table_same:
  "lfAPIs t = lfAPIs s \<Longrightarrow> lfReservedAPI t = lfReservedAPI s \<Longrightarrow> nextAPI t = nextAPI s \<Longrightarrow> table_ok s \<Longrightarrow> table_ok t \<and> table_evolves s t"
  using table_map [where h = "\<lambda>n al. al" and s = s and t = t] by simp

lemma updateAPIs_step:
  assumes "table_ok lf" "updateAPIs up lo files lf = Some t"
  shows "table_ok t" "table_evolves lf t" "lfModels t = lfModels lf" "lfTypes t = lfTypes lf" "lfEvents t = lfEvents lf"
    and "\<exists>rs. api_requests up lo files = Some rs \<and> set (map fst (lfAPIs t)) = fst ` set rs"
proof -
  obtain rs where rs: "api_requests up lo files = Some rs"
    and t: "t = reserveRemovedAPIs (rev (map fst rs)) (fold (case_prod ensureAPIID) rs lf)"
    using assms(2) by (auto simp: updateAPIs_requests)
  note e = ensures_step [OF assms(1), of rs]
  have ok: "table_ok (fold (case_prod ensureAPIID) rs lf)" using e by blast
  note r = removed_step [OF ok, of "rev (map fst rs)"]
  show "table_ok t" unfolding t by (rule r(1))
  show "table_evolves lf t" unfolding t using e table_evolves_trans [OF assms(1) _ r(2)] by blast
  show "lfModels t = lfModels lf" "lfTypes t = lfTypes lf" "lfEvents t = lfEvents lf" by (simp_all add: t)
  have "set (map fst (lfAPIs t)) = set (map fst (lfAPIs (fold (case_prod ensureAPIID) rs lf))) \<inter> fst ` set rs"
    by (auto simp: t reserveRemovedAPIs_eq)
  then show "\<exists>rs. api_requests up lo files = Some rs \<and> set (map fst (lfAPIs t)) = fst ` set rs" using e rs by auto
qed

lemma metadata_locks:
  "lfModels (updateContractMetadata files lf) = updateFieldMetadata (wcModels (collectContracts files)) (lfModels lf)"
  "lfTypes (updateContractMetadata files lf) = updateFieldMetadata (wcTypes (collectContracts files)) (lfTypes lf)"
  "lfEvents (updateContractMetadata files lf) = updateFieldMetadata (wcEvents (collectContracts files)) (lfEvents lf)"
  by (simp_all add: updateContractMetadata_def Let_def)

lemma metadata_fields:
  assumes "locks_ok locks"
  shows "locks_ok (updateFieldMetadata cur locks) \<and> locks_evolve locks (updateFieldMetadata cur locks)"
  unfolding updateFieldMetadata_def by (rule locks_map [OF assms], rule same_fields) simp_all

lemma number_metadata [simp]: "number (updateFieldMetadata cur locks) = number locks"
  by (intro ext) (simp add: number_def updateFieldMetadata_def map_of_map_values lock_ids_def split: option.split)

lemma metadata_table:
  assumes "table_ok lf"
  shows "table_ok (updateContractMetadata files lf) \<and> table_evolves lf (updateContractMetadata files lf)"
proof -
  let ?h = "\<lambda>name al. case map_of (wcApis (collectContracts files)) name of
               None \<Rightarrow> al
             | Some k \<Rightarrow> al\<lparr>alParamTypes := map (\<lambda>(p, d). (p, formatTypeRef (parType d))) (acParams k), alContract := True,
                  alReturnType := acReturnType k\<rparr>"
  have h: "api_ok al \<Longrightarrow> api_ok (?h n al) \<and> api_evolves al (?h n al)" for n al
    by (rule same_params) (auto simp: api_ok_def split: option.split)
  have i: "alID (?h n al) = alID al" for n al by (simp split: option.split)
  show ?thesis
    using table_map [where h = ?h, OF assms _ _ _ h i, of "updateContractMetadata files lf"]
    by (simp add: updateContractMetadata_def Let_def)
qed

lemma Update_step:
  assumes ok: "lf_ok lf" and u: "Update up lo files lf = Some t"
  shows "lf_ok t" "lf_evolves lf t"
    and "number (lfModels t) n g \<noteq> None \<longleftrightarrow> declares (model_decls files @ extend_decls files) n g"
    and "declares (model_decls files @ extend_decls files) n g \<Longrightarrow> number (lfModels lf) n g = Some i \<Longrightarrow> number (lfModels t) n g = Some i"
proof -
  let ?a = "updateEvents files (updateExtends files (updateTypes files (updateModels files lf)))"
  obtain b where b: "updateAPIs up lo files ?a = Some b" and t: "t = updateContractMetadata files b"
    using u by (auto simp: Update_def)
  have lf: "locks_ok (lfModels lf)" "locks_ok (lfTypes lf)" "locks_ok (lfEvents lf)" "table_ok lf" using ok by (simp_all add: lf_ok_def)
  have a: "table_ok ?a" "table_evolves lf ?a" using table_same [of ?a lf] lf(4) by simp_all
  note s = updateAPIs_step [OF a(1) b]
  note M = updateModels_step [OF lf(1) refl, of files]
  have mb: "lfModels b = lfModels (updateExtends files (updateTypes files (updateModels files lf)))" by (simp add: s(3))
  have tb: "locks_ok (lfTypes b) \<and> locks_evolve (lfTypes lf) (lfTypes b)"
    using relock_step [OF lf(2), of "type_decls files" "current_types files"] by (simp add: s(4) updateTypes_locks)
  have eb: "locks_ok (lfEvents b) \<and> locks_evolve (lfEvents lf) (lfEvents b)"
    using relock_step [OF lf(3), of "event_decls files" "current_events files"] by (simp add: s(5) updateEvents_locks)
  have mb': "locks_ok (lfModels b)" "locks_evolve (lfModels lf) (lfModels b)" using M(1,2) by (simp_all add: mb)
  show "lf_ok t"
    unfolding lf_ok_def t metadata_locks using metadata_fields mb'(1) tb eb metadata_table [OF s(1)] by blast
  show "lf_evolves lf t"
    unfolding lf_evolves_def t metadata_locks
    using metadata_fields mb' tb eb metadata_table [OF s(1)] locks_evolve_trans
      table_evolves_trans [OF lf(4) table_evolves_trans [OF lf(4) a(2) s(2)]] by meson
  show "number (lfModels t) n g \<noteq> None \<longleftrightarrow> declares (model_decls files @ extend_decls files) n g"
    using M(3) by (simp only: t metadata_locks number_metadata mb)
  show "number (lfModels t) n g = Some i" if "declares (model_decls files @ extend_decls files) n g" "number (lfModels lf) n g = Some i"
    using M(4) [OF that] by (simp only: t metadata_locks number_metadata mb)
qed

section \<open>Saving and loading\<close>

lemma fold_max_eq:
  assumes "0 \<le> N" "set xs = {1..N}"
  shows "fold (\<lambda>i m. if i > m then i else m) xs 0 = (N :: int)"
proof -
  have m: "fold (\<lambda>i m. if i > m then i else m) xs k \<in> insert k (set xs)" for k :: int and xs
  proof (induction xs arbitrary: k)
    case (Cons j js)
    show ?case using Cons [of j] Cons [of k] by auto
  qed simp
  have "fold (\<lambda>i m. if i > m then i else m) xs 0 \<in> {0..N}" using m [of xs 0] assms by auto
  moreover have "N \<le> fold (\<lambda>i m. if i > m then i else m) xs 0"
    using fold_max_member [of N xs 0] fold_max_start [of 0 xs] assms by (cases "N = 0") auto
  ultimately show ?thesis by simp
qed

lemma computeNextAPI_eq: "computeNextAPI lf = lf\<lparr>nextAPI := fold (\<lambda>i m. if i > m then i else m) (api_numbers lf @ lfReservedAPI lf) 0\<rparr>"
proof -
  have "fold (\<lambda>(_, al) m. if alID al > m then alID al else m) xs m = fold (\<lambda>i m. if i > m then i else m) (map (alID \<circ> snd) xs) m"
    for xs :: "(bytes \<times> APILock) list" and m
    by (induction xs arbitrary: m) auto
  then show ?thesis by (simp add: computeNextAPI_def api_numbers_def)
qed

lemma computeNextAPI_next: "set (api_numbers s @ lfReservedAPI s) = {1..N} \<Longrightarrow> 0 \<le> N \<Longrightarrow> nextAPI (computeNextAPI s) = N"
  unfolding computeNextAPI_eq using fold_max_eq [of N "api_numbers s @ lfReservedAPI s"] by simp

lemma reload_step:
  assumes ok: "lf_ok lf" and r: "reload lf = Some t"
  shows "lf_ok t" "lf_evolves lf t" "number (lfModels t) = number (lfModels lf)"
proof -
  have lf: "locks_ok (lfModels lf)" "locks_ok (lfTypes lf)" "locks_ok (lfEvents lf)" "table_ok lf" using ok by (simp_all add: lf_ok_def)
  let ?h = "\<lambda>n ml. ml\<lparr>mlReserved := sort (mlReserved ml), mlFieldTypes := (if mlFieldTypes ml = Some [] then None else mlFieldTypes ml)\<rparr>"
  let ?g = "\<lambda>n al. al\<lparr>alReserved := sort (alReserved al), alnextP := 0\<rparr>"
  have h: "lock_ok ml \<Longrightarrow> lock_ok (?h n ml) \<and> lock_evolves ml (?h n ml)" for n ml by (rule same_fields) simp_all
  have g: "api_ok al \<Longrightarrow> api_ok (?g n al) \<and> api_evolves al (?g n al)" for n al by (rule same_params) simp_all
  have mm: "map (\<lambda>(n, ml). (n, ml\<lparr>mlFieldTypes := (if mlFieldTypes ml = Some [] then None else mlFieldTypes ml)\<rparr>))
      (map (\<lambda>(n, ml). (n, ml\<lparr>mlReserved := sort (mlReserved ml)\<rparr>)) xs) = map (\<lambda>(n, ml). (n, ?h n ml)) xs" for xs :: "(bytes \<times> ModelLock) list"
    by auto
  have gg: "map (\<lambda>(n, al). (n, al\<lparr>alnextP := 0\<rparr>)) (map (\<lambda>(n, al). (n, al\<lparr>alReserved := sort (alReserved al)\<rparr>)) xs) =
      map (\<lambda>(n, al). (n, ?g n al)) xs" for xs :: "(bytes \<times> APILock) list"
    by auto
  have t: "t = computeNextAPI (lf\<lparr>lfReservedAPI := sort (lfReservedAPI lf), lfVersion := currentVersion,
      lfModels := map (\<lambda>(n, ml). (n, ?h n ml)) (lfModels lf),
      lfTypes := map (\<lambda>(n, ml). (n, ?h n ml)) (lfTypes lf), lfEvents := map (\<lambda>(n, ml). (n, ?h n ml)) (lfEvents lf),
      lfAPIs := map (\<lambda>(n, al). (n, ?g n al)) (lfAPIs lf)\<rparr>)" (is "t = computeNextAPI ?s")
    using r by (simp add: reload_def sortReserved_def Let_def mm gg split: if_splits del: map_map)
  have "set (api_numbers ?s @ lfReservedAPI ?s) = {1..nextAPI lf}"
    using table_okD(4) [OF lf(4)] by (simp add: api_numbers_def image_image case_prod_unfold)
  then have nx: "nextAPI t = nextAPI lf"
    unfolding t by (rule computeNextAPI_next [OF _ table_okD(1) [OF lf(4)]])
  have T: "lfModels t = map (\<lambda>(n, ml). (n, ?h n ml)) (lfModels lf)" "lfTypes t = map (\<lambda>(n, ml). (n, ?h n ml)) (lfTypes lf)"
    "lfEvents t = map (\<lambda>(n, ml). (n, ?h n ml)) (lfEvents lf)" "lfAPIs t = map (\<lambda>(n, al). (n, ?g n al)) (lfAPIs lf)"
    "lfReservedAPI t = sort (lfReservedAPI lf)"
    by (simp_all add: t computeNextAPI_eq)
  have "table_ok t" "table_evolves lf t"
    using table_map [where h = ?g, OF lf(4) T(4) _ nx g] by (simp_all add: T(5))
  moreover have "locks_ok (map (\<lambda>(n, ml). (n, ?h n ml)) ls) \<and> locks_evolve ls (map (\<lambda>(n, ml). (n, ?h n ml)) ls)" if "locks_ok ls" for ls
    using locks_map [where h = ?h, OF that h] .
  ultimately show "lf_ok t" "lf_evolves lf t"
    unfolding lf_ok_def lf_evolves_def T using lf by blast+
  show "number (lfModels t) = number (lfModels lf)"
    by (intro ext) (simp add: number_def T map_of_map_values lock_ids_def split: option.split)
qed

text \<open>What can happen to a lock file: an update with the sources of the day, or saving and loading again.\<close>

inductive lock_step :: "(rune \<Rightarrow> rune) \<Rightarrow> (rune \<Rightarrow> rune) \<Rightarrow> LockFile \<Rightarrow> LockFile \<Rightarrow> bool" for up lo where
  updated: "Update up lo files lf = Some t \<Longrightarrow> lock_step up lo lf t"
| reloaded: "reload lf = Some t \<Longrightarrow> lock_step up lo lf t"

lemma lock_step_ok: "lock_step up lo s t \<Longrightarrow> lf_ok s \<Longrightarrow> lf_ok t \<and> lf_evolves s t"
proof (induction rule: lock_step.induct)
  case (updated files lf t)
  then show ?case using Update_step(1,2) by blast
next
  case (reloaded lf t)
  then show ?case using reload_step(1,2) by blast
qed

lemma history_ok:
  assumes "(lock_step up lo)\<^sup>*\<^sup>* s t" "lf_ok s"
  shows "lf_ok t \<and> lf_evolves s t"
  using assms
proof (induction rule: rtranclp_induct)
  case base
  then show ?case by (simp add: lf_evolves_def)
next
  case (step t u)
  then show ?case using lock_step_ok [OF step(2)] lf_evolves_trans [of s t u] by blast
qed

section \<open>Lookups are the numbers of the ledgers\<close>

definition id_or_zero :: "int option \<Rightarrow> int" where
  "id_or_zero r = (case r of None \<Rightarrow> 0 | Some i \<Rightarrow> i)"

lemma FieldID_number: "LockFile_FieldID lf m f = id_or_zero (number (lfModels lf) m f)"
  by (simp add: LockFile_FieldID_def number_def lock_ids_def id_or_zero_def split: option.split)

lemma EventFieldID_number: "EventFieldID lf m f = id_or_zero (number (lfEvents lf) m f)"
  by (simp add: EventFieldID_def number_def lock_ids_def id_or_zero_def split: option.split)

lemma APIID_number: "APIID lf a = id_or_zero (api_id lf a)"
  by (simp add: APIID_def api_id_def id_or_zero_def split: option.split)

lemma id_or_zero_Some: "id_or_zero r = i \<Longrightarrow> i \<noteq> 0 \<Longrightarrow> r = Some i"
  by (simp add: id_or_zero_def split: option.splits)

lemma id_or_zero_number: "locks_ok ls \<Longrightarrow> id_or_zero (number ls m f) \<noteq> 0 \<longleftrightarrow> number ls m f \<noteq> None"
  using number_pos [of ls m f] by (cases "number ls m f") (auto simp: id_or_zero_def)

lemma APIParamID_look:
  "APIParamID lf a p = j \<Longrightarrow> j \<noteq> 0 \<Longrightarrow> \<exists>al. map_of (lfAPIs lf) a = Some al \<and> param_ids al p = Some j"
  by (simp add: APIParamID_def param_ids_def split: option.splits)

section \<open>The contract that the sources declare\<close>

lemma lookup_update: "lookup_or [] (AList.update k v xs) n = (if n = k then v else lookup_or [] xs n)"
  by (simp add: lookup_or_def AList.update_conv')

lemma map_of_fold_update:
  "map_of (fold (\<lambda>x. AList.update (k x) (v x)) xs m) f \<noteq> None \<longleftrightarrow> f \<in> k ` set xs \<or> map_of m f \<noteq> None"
  by (induction xs arbitrary: m) (auto simp: AList.update_conv')

lemma mergeFieldTypes_declared: "map_of (mergeFieldTypes fs m) f \<noteq> None \<longleftrightarrow> f \<in> set (field_names fs) \<or> map_of m f \<noteq> None"
  by (simp add: mergeFieldTypes_def map_of_fold_update field_names_def del: not_None_eq)

lemma merge_decls:
  "map_of (lookup_or [] (fold (\<lambda>d ms. AList.update (a d) (mergeFieldTypes (b d) (lookup_or [] ms (a d))) ms) ds ms) n) f \<noteq> None \<longleftrightarrow>
   declares (map (\<lambda>d. (a d, field_names (b d))) ds) n f \<or> map_of (lookup_or [] ms n) f \<noteq> None"
proof (induction ds arbitrary: ms)
  case (Cons d ds)
  then show ?case by (auto simp: lookup_update mergeFieldTypes_declared simp del: not_None_eq)
qed simp

lemma fold_field: "(\<And>x c. sel (g x c) = h x (sel c)) \<Longrightarrow> sel (fold g xs c) = fold h xs (sel c)"
  by (induction xs arbitrary: c) simp_all

lemma declares_concat: "declares (concat (map k xs)) n f \<longleftrightarrow> (\<exists>x \<in> set xs. declares (k x) n f)"
  by (auto simp: declares_def)

text \<open>A field has a type in the contract when a declaration or an extension of the model has it.\<close>

lemma contract_models:
  "map_of (lookup_or [] (wcModels (collectContracts files)) n) f \<noteq> None \<longleftrightarrow> declares (model_decls files @ extend_decls files) n f"
proof -
  have "map_of (lookup_or [] (wcModels (fold collect_file files c)) n) f \<noteq> None \<longleftrightarrow>
      (\<exists>x \<in> set files. declares (map (\<lambda>m. (mdlName m, field_names (mdlFields m))) (Models x)) n f \<or>
         declares (map (\<lambda>e. (extName e, field_names (extFields e))) (Extends x)) n f) \<or>
      map_of (lookup_or [] (wcModels c) n) f \<noteq> None" for c
  proof (induction files arbitrary: c)
    case (Cons x xs)
    show ?case unfolding fold.simps comp_apply Cons by (auto simp: collect_file_def merge_decls simp del: not_None_eq)
  qed simp
  from this [of "\<lparr>wcModels = [], wcTypes = [], wcEvents = [], wcApis = []\<rparr>"] show ?thesis
    by (auto simp: collectContracts_def lookup_or_def [of _ "[]"] model_decls_def extend_decls_def declares_concat simp del: not_None_eq)
qed

section \<open>What the comparison finds\<close>

lemma BreakingChanges_none:
  assumes "BreakingChanges up lo files lf = Some []"
  shows "compareFields (lit ''model'') (lfModels lf) (wcModels (collectContracts files)) False = []"
    and "\<exists>act. activeAPINames up lo files = Some act \<and> compareAPIs act (wcApis (collectContracts files)) lf = []"
proof -
  obtain act where act: "activeAPINames up lo files = Some act" using assms by (auto simp: BreakingChanges_def)
  have "set (compareFields (lit ''model'') (lfModels lf) (wcModels (collectContracts files)) False @
          compareFields (lit ''type'') (lfTypes lf) (wcTypes (collectContracts files)) False @
          compareFields (lit ''event'') (lfEvents lf) (wcEvents (collectContracts files)) True @
          compareAPIs act (wcApis (collectContracts files)) lf) = {}"
    using arg_cong [where f = "\<lambda>r. set (the r)", OF assms] by (simp add: BreakingChanges_def Let_def act)
  then show "compareFields (lit ''model'') (lfModels lf) (wcModels (collectContracts files)) False = []"
    "\<exists>act. activeAPINames up lo files = Some act \<and> compareAPIs act (wcApis (collectContracts files)) lf = []"
    using act by simp_all
qed

text \<open>The type that is locked for a field of a model, or nothing.\<close>

definition field_type :: "LockFile \<Rightarrow> bytes \<Rightarrow> bytes \<Rightarrow> bytes" where
  "field_type lf m f =
     (case map_of (lfModels lf) m of
        None \<Rightarrow> []
      | Some ml \<Rightarrow> (case mlFieldTypes ml of None \<Rightarrow> [] | Some ts \<Rightarrow> lookup_or [] ts f))"

lemma compareFields_none:
  assumes "compareFields kind locked cur rej = []" "map_of locked m = Some ml" "lock_ids ml f = Some i"
  shows "\<exists>t. map_of (lookup_or [] cur m) f = Some t \<and>
    (case mlFieldTypes ml of None \<Rightarrow> [] | Some ts \<Rightarrow> lookup_or [] ts f) \<in> {[], t}"
proof -
  have "(m, ml) \<in> set locked" "(f, i) \<in> set (mlFields ml)" using assms(2,3) by (simp_all add: lock_ids_def map_of_SomeD)
  with assms(1) show ?thesis
    by (fastforce simp: compareFields_def Let_def split: option.splits if_splits)
qed

lemma ensure_keeps:
  assumes "table_ok lf" "api_id lf n = Some i"
  shows "api_id (fold (case_prod ensureAPIID) rs lf) n = Some i"
  using assms
proof (induction rs arbitrary: lf)
  case (Cons r rs)
  obtain name ps where r: "r = (name, ps)" by (cases r)
  have "api_id (ensureAPIID name ps lf) n = Some i"
  proof -
    obtain al where al: "map_of (lfAPIs lf) n = Some al" "alID al = i" using Cons.prems(2) by (auto simp: api_id_def)
    have "alID (ensure_params ps al) = alID al" by (rule ensure_params_step(3)) (rule table_okD(6) [OF Cons.prems(1) al(1)])
    then show ?thesis using al by (cases "n = name") (simp_all add: api_id_def ensure_look [OF Cons.prems(1)])
  qed
  then show ?case using Cons.IH [OF ensure_step(1) [OF Cons.prems(1)]] by (simp add: r)
qed simp

lemma updateAPIs_keeps:
  assumes "table_ok lf" "updateAPIs up lo files lf = Some t" "api_id lf n = Some i" "activeAPINames up lo files = Some act" "n \<in> set act"
  shows "api_id t n = Some i"
proof -
  obtain rs where rs: "api_requests up lo files = Some rs"
    and t: "t = reserveRemovedAPIs (rev (map fst rs)) (fold (case_prod ensureAPIID) rs lf)"
    using assms(2) by (auto simp: updateAPIs_requests)
  obtain u where u: "updateAPIs up lo files New_LockFile = Some u" "act = map fst (lfAPIs u)"
    using assms(4) by (auto simp: activeAPINames_def)
  have "table_ok New_LockFile" using New_ok by (simp add: lf_ok_def)
  then have "n \<in> fst ` set rs" using updateAPIs_step(6) [OF _ u(1)] assms(5) u(2) rs by auto
  then show ?thesis
    using ensure_keeps [OF assms(1,3), of rs] removed_step(3) [of "fold (case_prod ensureAPIID) rs lf" "rev (map fst rs)" n]
      ensures_step [OF assms(1), of rs]
    by (simp add: t api_id_def)
qed

lemma api_id_metadata [simp]: "api_id (updateContractMetadata files lf) = api_id lf"
proof (rule ext)
  fix n
  show "api_id (updateContractMetadata files lf) n = api_id lf n"
    by (cases "map_of (lfAPIs lf) n") (simp_all add: api_id_def updateContractMetadata_def Let_def map_of_map_values split: option.split)
qed

text \<open>The locked type after an update is the declared one.\<close>

lemma map_of_filter_key: "map_of (filter (\<lambda>(k, v). P k) xs) a = (if P a then map_of xs a else None)"
  by (induction xs) auto

lemma field_type_metadata:
  assumes "number (lfModels b) m f \<noteq> None"
  shows "field_type (updateContractMetadata files b) m f = lookup_or [] (lookup_or [] (wcModels (collectContracts files)) m) f"
  using assms
  by (cases "map_of (lfModels b) m")
    (auto simp: field_type_def metadata_locks updateFieldMetadata_def map_of_map_values number_def lock_ids_def lookup_or_def map_of_filter_key)

section \<open>A lock that was just updated\<close>

lemma member_known: "(f, t) \<in> set xs \<Longrightarrow> map_of xs f \<noteq> None"
  using map_of_eq_None_iff [of xs f] by force

lemma metadata_compare:
  assumes gone: "\<And>n ml f. (n, ml) \<in> set locks \<Longrightarrow> map_of (mlFields ml) f \<noteq> None \<Longrightarrow> map_of (lookup_or [] cur n) f \<noteq> None"
    and known: "\<And>n ml f. rej \<Longrightarrow> (n, ml) \<in> set locks \<Longrightarrow> map_of (lookup_or [] cur n) f \<noteq> None \<Longrightarrow> map_of (mlFields ml) f \<noteq> None"
  shows "compareFields kind (updateFieldMetadata cur locks) cur rej = []"
proof -
  have A: "concat (map (\<lambda>(f, i). case map_of (lookup_or [] cur n) f of
              None \<Rightarrow> X f i
            | Some t \<Rightarrow> if lookup_or [] (filter (\<lambda>(f, _). map_of (mlFields ml) f \<noteq> None) (lookup_or [] cur n)) f \<noteq> [] \<and>
                  lookup_or [] (filter (\<lambda>(f, _). map_of (mlFields ml) f \<noteq> None) (lookup_or [] cur n)) f \<noteq> t then Y f t else []) (mlFields ml)) = []"
    if m: "(n, ml) \<in> set locks" for n ml and X :: "bytes \<Rightarrow> int \<Rightarrow> BreakingChange list" and Y
  proof -
    have "\<exists>t. map_of (lookup_or [] cur n) f = Some t \<and>
        lookup_or [] (filter (\<lambda>(f, _). map_of (mlFields ml) f \<noteq> None) (lookup_or [] cur n)) f = t" if f: "(f, i) \<in> set (mlFields ml)" for f i
    proof -
      have k: "map_of (mlFields ml) f \<noteq> None" using f by (rule member_known)
      then obtain t where "map_of (lookup_or [] cur n) f = Some t" using gone [OF m k] by auto
      then show ?thesis using k by (simp add: lookup_or_def [of _ "filter _ _"] map_of_filter_key)
    qed
    then show ?thesis by (fastforce simp del: filter_cong)
  qed
  have B: "concat (map (\<lambda>(f, t). if map_of (mlFields ml) f = None then Z f t else []) (lookup_or [] cur n)) = []"
    if "(n, ml) \<in> set locks" "rej" for n ml and Z :: "bytes \<Rightarrow> bytes \<Rightarrow> BreakingChange list"
    using known [OF that(2,1)] member_known by fastforce
  have "\<forall>x \<in> set (updateFieldMetadata cur locks). (case x of (name, entity) \<Rightarrow> compareFields kind [(name, entity)] cur rej) = []"
  proof (clarify)
    fix n l
    assume "(n, l) \<in> set (updateFieldMetadata cur locks)"
    then obtain ml where m: "(n, ml) \<in> set locks"
      and l: "l = ml\<lparr>mlFieldTypes := Some (filter (\<lambda>(f, _). map_of (mlFields ml) f \<noteq> None) (lookup_or [] cur n))\<rparr>"
      by (auto simp: updateFieldMetadata_def)
    have sel: "mlFieldTypes (ml\<lparr>mlFieldTypes := x\<rparr>) = x" "mlFields (ml\<lparr>mlFieldTypes := x\<rparr>) = mlFields ml" for x by simp_all
    show "compareFields kind [(n, l)] cur rej = []"
      unfolding compareFields_def Let_def list.map concat.simps prod.case l
      by (cases rej) (simp_all only: sel option.case option.distinct not_False_eq_True A [OF m] B [OF m] append_Nil if_True if_False simp_thms append_Nil2)
  qed
  then show ?thesis by (auto simp: compareFields_def Let_def)
qed

lemma number_member: "locks_ok ls \<Longrightarrow> (n, ml) \<in> set ls \<Longrightarrow> map_of (mlFields ml) f \<noteq> None \<longleftrightarrow> number ls n f \<noteq> None"
  by (simp add: locks_ok_def number_def lock_ids_def)

text \<open>The last declaration of a name is the only one when names are distinct.\<close>

lemma map_of_fold_decls: "map_of (fold (case_prod AList.update) ds cur) n = (case map_of (rev ds) n of None \<Rightarrow> map_of cur n | Some x \<Rightarrow> Some x)"
  by (induction ds arbitrary: cur) (auto simp: AList.update_conv' map_add_def split: option.split)

lemma map_of_rev_distinct: "distinct (map fst ds) \<Longrightarrow> map_of (rev ds) n = map_of ds n"
  using map_of_eq_Some_iff [of ds n] map_of_eq_Some_iff [of "rev ds" n] map_of_eq_None_iff [of ds n] map_of_eq_None_iff [of "rev ds" n]
  by (cases "map_of ds n"; cases "map_of (rev ds) n") (auto simp: rev_map [symmetric] simp del: map_of_eq_Some_iff)

lemma fold_decl_files:
  "fold (\<lambda>file. fold (\<lambda>d. AList.update (a d) (b d)) (sel file)) files s =
   fold (case_prod AList.update) (concat (map (\<lambda>file. map (\<lambda>d. (a d, b d)) (sel file)) files)) s"
  using fold_files [where F = "case_prod AList.update" and k = "\<lambda>d. (a d, b d)"] by simp

lemma declared_once:
  assumes "distinct (map fst rd)" "\<And>x f. map_of (tys x) f \<noteq> None \<longleftrightarrow> f \<in> set (nms x)"
  shows "map_of (lookup_or [] (fold (case_prod AList.update) (map (\<lambda>(n, x). (n, tys x)) rd) []) n) f \<noteq> None \<longleftrightarrow>
    declares (map (\<lambda>(n, x). (n, nms x)) rd) n f"
proof -
  have d: "distinct (map fst (map (\<lambda>(n, x). (n, tys x)) rd))"
    using assms(1) by (simp add: comp_def case_prod_unfold)
  show ?thesis
    unfolding lookup_or_def map_of_fold_decls map_of_rev_distinct [OF d] map_of_map_values declares_def
    using assms(2) map_of_eq_Some_iff [OF assms(1), of n]
    by (cases "map_of rd n") (force simp del: not_None_eq)+
qed


text \<open>The declarations of types and events with their fields.\<close>

definition raw_types :: "ast_File list \<Rightarrow> (bytes \<times> FieldDecl list) list" where
  "raw_types files = concat (map (\<lambda>fl. map (\<lambda>t. (tydName t, tydFields t)) (Types fl)) files)"

definition raw_events :: "ast_File list \<Rightarrow> (bytes \<times> ParamDecl list) list" where
  "raw_events files = concat (map (\<lambda>fl. map (\<lambda>e. (evtName e, evtParams e)) (Events fl)) files)"

lemma type_decls_raw: "type_decls files = map (\<lambda>(n, x). (n, field_names x)) (raw_types files)"
  by (simp add: type_decls_def raw_types_def map_concat comp_def)

lemma event_decls_raw: "event_decls files = map (\<lambda>(n, x). (n, param_names x)) (raw_events files)"
  by (simp add: event_decls_def raw_events_def map_concat comp_def)

lemma contract_types: "wcTypes (collectContracts files) = fold (case_prod AList.update) (map (\<lambda>(n, x). (n, fieldTypes x)) (raw_types files)) []"
proof -
  have "wcTypes (fold collect_file files c) =
      fold (\<lambda>fl. fold (\<lambda>td. AList.update (tydName td) (fieldTypes (tydFields td))) (Types fl)) files (wcTypes c)" for c
    by (rule fold_field) (simp add: collect_file_def)
  then show ?thesis by (simp add: collectContracts_def fold_decl_files raw_types_def map_concat comp_def)
qed

lemma contract_events: "wcEvents (collectContracts files) = fold (case_prod AList.update) (map (\<lambda>(n, x). (n, paramTypes x)) (raw_events files)) []"
proof -
  have "wcEvents (fold collect_file files c) =
      fold (\<lambda>fl. fold (\<lambda>e. AList.update (evtName e) (paramTypes (evtParams e))) (Events fl)) files (wcEvents c)" for c
    by (rule fold_field) (simp add: collect_file_def)
  then show ?thesis by (simp add: collectContracts_def fold_decl_files raw_events_def map_concat comp_def)
qed

lemma fieldTypes_declared: "map_of (fieldTypes fs) f \<noteq> None \<longleftrightarrow> f \<in> set (field_names fs)"
  by (simp add: fieldTypes_def mergeFieldTypes_declared del: not_None_eq)

lemma paramTypes_declared: "map_of (paramTypes ps) f \<noteq> None \<longleftrightarrow> f \<in> set (param_names ps)"
  by (simp add: paramTypes_def map_of_fold_update param_names_def del: not_None_eq)

text \<open>The fields that have a number after the update are those declared.\<close>

lemma last_decl_declared:
  "f \<in> set (lookup_or [] (fold (case_prod AList.update) ds []) n) \<Longrightarrow> declares ds n f"
  by (auto simp: lookup_or_def map_of_fold_decls declares_def dest!: map_of_SomeD split: option.splits)

lemma relock_numbers:
  assumes "locks_ok locks" "cur = fold (case_prod AList.update) ds []"
  shows "number (fold (case_prod assign_fields) ds (reserve_gone cur locks)) n f \<noteq> None \<longleftrightarrow> declares ds n f"
proof -
  have "number (fold (case_prod assign_fields) ds (reserve_gone cur locks)) n f \<noteq> None \<longleftrightarrow>
      number (reserve_gone cur locks) n f \<noteq> None \<or> declares ds n f"
    using assign_decls_step [OF reserve_gone_step(1) [OF assms(1), of cur], of ds] unfolding declares_def by blast
  moreover have "number (reserve_gone cur locks) n f \<noteq> None \<Longrightarrow> declares ds n f"
    using last_decl_declared [of f ds n] unfolding assms(2) reserve_gone_step(3) [OF assms(1)] by (auto split: if_splits)
  ultimately show ?thesis by blast
qed

lemma current_types_eq: "current_types files = fold (case_prod AList.update) (type_decls files) []"
  by (simp add: current_types_def fold_decl_files type_decls_def)

lemma current_events_eq: "current_events files = fold (case_prod AList.update) (event_decls files) []"
  by (simp add: current_events_def fold_decl_files event_decls_def)

text \<open>The locks of declarations that have distinct names, numbered and with their contract recorded, compare as unchanged.\<close>

lemma relocked_compare:
  assumes "locks_ok old" "cur = fold (case_prod AList.update) decls []"
    and "locks = fold (case_prod assign_fields) decls (reserve_gone cur old)"
    and "decls = map (\<lambda>(n, x). (n, nms x)) raw" "distinct (map fst raw)" "\<And>x f. map_of (tys x) f \<noteq> None \<longleftrightarrow> f \<in> set (nms x)"
    and "contract = fold (case_prod AList.update) (map (\<lambda>(n, x). (n, tys x)) raw) []"
  shows "compareFields kind (updateFieldMetadata contract locks) contract rej = []"
proof -
  have known: "map_of (mlFields ml) f \<noteq> None \<longleftrightarrow> map_of (lookup_or [] contract n) f \<noteq> None" if m: "(n, ml) \<in> set locks" for n ml f
  proof -
    have "locks_ok locks" using relock_step [OF assms(1)] unfolding assms(3) by blast
    then have "map_of (mlFields ml) f \<noteq> None \<longleftrightarrow> number locks n f \<noteq> None" using number_member m by blast
    also have "\<dots> \<longleftrightarrow> declares decls n f" unfolding assms(3) by (rule relock_numbers [OF assms(1,2)])
    also have "\<dots> \<longleftrightarrow> map_of (lookup_or [] contract n) f \<noteq> None"
      unfolding assms(4,7) using declared_once [where tys = tys and nms = nms, OF assms(5,6)] by blast
    finally show ?thesis .
  qed
  show ?thesis by (rule metadata_compare) (use known in blast)+
qed

section \<open>The contract of an API\<close>

lemma distinct_fold_update: "distinct (map fst m) \<Longrightarrow> distinct (map fst (fold (\<lambda>x. AList.update (k x) (v x)) xs m))"
  by (induction xs arbitrary: m) (simp_all add: distinct_update)

definition keyed :: "(bytes \<times> apiContract) list \<Rightarrow> bool" where
  "keyed m \<longleftrightarrow> (\<forall>n k. map_of m n = Some k \<longrightarrow> distinct (map fst (acParams k)))"

lemma keyed_update: "keyed m \<Longrightarrow> keyed (AList.update n (newAPIContract ps r) m)"
  by (auto simp: keyed_def AList.update_conv' newAPIContract_def distinct_fold_update)

lemma keyed_fold: "(\<And>x m. keyed m \<Longrightarrow> keyed (g x m)) \<Longrightarrow> keyed m \<Longrightarrow> keyed (fold g xs m)"
  by (rule fold_invariant [where Q = "\<lambda>_. True" and P = keyed]) simp_all

lemma contract_distinct: "keyed (wcApis (collectContracts files))"
proof -
  have "keyed (wcApis (collect_file fl c))" if "keyed (wcApis c)" for fl c
    unfolding collect_file_def using that by (simp add: keyed_fold keyed_update)
  note one = this
  have "keyed (wcApis (fold collect_file files c))" if "keyed (wcApis c)" for c
    by (rule fold_invariant [where Q = "\<lambda>_. True" and P = "\<lambda>c. keyed (wcApis c)"]) (use that one in simp_all)
  from this [of "\<lparr>wcModels = [], wcTypes = [], wcEvents = [], wcApis = []\<rparr>"] show ?thesis
    by (simp add: collectContracts_def keyed_def [of "[]"])
qed

text \<open>The comparison of an API with the contract that was just recorded.\<close>

lemma compare_api_recorded:
  assumes "distinct (map fst (acParams k))"
  shows "compare_api name (al\<lparr>alParamTypes := map (\<lambda>(p, d). (p, formatTypeRef (parType d))) (acParams k), alContract := True,
                  alReturnType := acReturnType k\<rparr>) k = []"
proof -
  have "map_of (acParams k) p = Some d" if "(p, d) \<in> set (acParams k)" for p d
    using map_of_is_SomeI [OF assms that] .
  then show ?thesis
    unfolding compare_api_def by (auto simp: map_of_map_values)
qed

lemma compareAPIs_recorded:
  assumes "set (map fst (lfAPIs b)) = set act"
  shows "compareAPIs act (wcApis (collectContracts files)) (updateContractMetadata files b) = []"
proof -
  let ?cs = "wcApis (collectContracts files)"
  have "(if n \<notin> set act then X else case map_of ?cs n of None \<Rightarrow> [] | Some k \<Rightarrow> if \<not> alContract l then [] else compare_api n l k) = []"
    if l: "(n, l) \<in> set (lfAPIs (updateContractMetadata files b))" for n l X
  proof -
    obtain al where al: "(n, al) \<in> set (lfAPIs b)" and eq: "l = (case map_of ?cs n of
               None \<Rightarrow> al
             | Some k \<Rightarrow> al\<lparr>alParamTypes := map (\<lambda>(p, d). (p, formatTypeRef (parType d))) (acParams k), alContract := True,
                  alReturnType := acReturnType k\<rparr>)"
      using l by (auto simp: updateContractMetadata_def Let_def)
    have "n \<in> set act" using al assms by (force simp: set_eq_iff)
    moreover have "compare_api n l k = []" if k: "map_of ?cs n = Some k" for k
    proof -
      have "distinct (map fst (acParams k))" using contract_distinct [of files] k by (auto simp: keyed_def)
      then show ?thesis unfolding eq k option.case by (rule compare_api_recorded)
    qed
    ultimately show ?thesis by (simp split: option.split)
  qed
  then show ?thesis unfolding compareAPIs_def by auto
qed

section \<open>The events after an update\<close>

lemma Update_events:
  assumes "lf_ok lf" "Update up lo files lf = Some t"
  shows "number (lfEvents t) e p \<noteq> None \<longleftrightarrow> declares (event_decls files) e p"
proof -
  let ?a = "updateEvents files (updateExtends files (updateTypes files (updateModels files lf)))"
  obtain b where b: "updateAPIs up lo files ?a = Some b" and t: "t = updateContractMetadata files b"
    using assms(2) by (auto simp: Update_def)
  have lf: "locks_ok (lfEvents lf)" "table_ok lf" using assms(1) by (simp_all add: lf_ok_def)
  have "table_ok ?a" using table_same [of ?a lf] lf(2) by simp
  note s = updateAPIs_step [OF this b]
  have "lfEvents b = fold (case_prod assign_fields) (event_decls files) (reserve_gone (current_events files) (lfEvents lf))"
    by (simp add: s(5) updateEvents_locks)
  then show ?thesis
    using relock_numbers [OF lf(1) current_events_eq] by (simp only: t metadata_locks number_metadata)
qed

section \<open>A sample\<close>

text \<open>Sources with a model User that has a field id, and an API ping with a parameter n.\<close>

definition plain_type :: "bytes \<Rightarrow> TypeRef" where
  "plain_type name = TypeRef zero_pos name False False [] [] []"

definition sample_file :: ast_File where
  "sample_file = empty_file []
     \<lparr>Models := [\<lparr>mdlPos = zero_pos, mdlDoc = [], mdlName = lit ''User'', mdlParents = [], mdlFields =
        [\<lparr>fldPos = zero_pos, fldDoc = [], fldName = lit ''id'', fldType = plain_type (lit ''Int''), fldDefault = None,
          fldDirectives = [], fldComputed = None\<rparr>], mdlScopes = [], mdlDirectives = []\<rparr>],
      APIs := [\<lparr>apiPos = zero_pos, apiDoc = [], apiOverride = False, apiName = lit ''ping'', apiParams =
        [\<lparr>parPos = zero_pos, parDoc = [], parName = lit ''n'', parType = plain_type (lit ''Int''), parDefault = None, parSpread = False\<rparr>],
        apiReturnType = None, apiDirectives = [], apiBody = None\<rparr>]\<rparr>"

definition sample_lock :: LockFile where
  "sample_lock = New_LockFile
     \<lparr>lfModels := [(lit ''User'', \<lparr>mlNextID = 2, mlFields = [(lit ''id'', 1)], mlFieldTypes = Some [(lit ''id'', lit ''Int'')], mlReserved = []\<rparr>)],
      lfAPIs := [(lit ''ping'', \<lparr>alID = 1, alParams = [(lit ''n'', 1)], alParamTypes = [(lit ''n'', lit ''Int'')], alReturnType = lit ''Void'',
         alContract = True, alReserved = [], alnextP = 1\<rparr>)], nextAPI := 1\<rparr>"

lemmas sample_defs = sample_file_def empty_file_def plain_type_def New_LockFile_def lit_def

lemmas update_defs =
  Update_def updateModels_def reserve_gone_def current_models_def assignModelFields_def
     assign_fields_def assign_field_def new_lock_def field_names_def add_names_def updateTypes_def current_types_def updateExtends_def
     updateEvents_def current_events_def updateAPIs_def declared_apis_def EffectiveParams_def api_directive_def param_names_def
     enum_names_def crud_apis_def hasCrudDirective_def updateFederationAPIs_def updateNamedLoadAPIsWithEnsure_def body_exprs_def
     visits_def service_apis_def ensure_def ensureAPIID_def next_param_def assign_param_def reserve_params_def reserveRemovedAPIs_def
     updateContractMetadata_def collectContracts_def collect_file_def mergeFieldTypes_def newAPIContract_def format_type_def
     updateFieldMetadata_def lookup_or_def

lemma sample_update: "Update (\<lambda>r. r) (\<lambda>r. r) [sample_file] New_LockFile = Some sample_lock"
  by (simp add: sample_lock_def sample_defs update_defs)


text \<open>The same sources with the field renamed.\<close>

definition renamed_file :: ast_File where
  "renamed_file = sample_file\<lparr>Models := map (\<lambda>m. m\<lparr>mdlFields := map (\<lambda>f. f\<lparr>fldName := lit ''key''\<rparr>) (mdlFields m)\<rparr>) (Models sample_file)\<rparr>"

definition renamed_lock :: LockFile where
  "renamed_lock = sample_lock
     \<lparr>lfModels := [(lit ''User'', \<lparr>mlNextID = 3, mlFields = [(lit ''key'', 2)], mlFieldTypes = Some [(lit ''key'', lit ''Int'')], mlReserved = [1]\<rparr>)]\<rparr>"

lemma renamed_update: "Update (\<lambda>r. r) (\<lambda>r. r) [renamed_file] sample_lock = Some renamed_lock"
  by (simp add: renamed_file_def renamed_lock_def sample_lock_def sample_defs update_defs reserveRemovedFields_def)

lemma sample_history:
  "(lock_step (\<lambda>r. r) (\<lambda>r. r))\<^sup>*\<^sup>* New_LockFile sample_lock" "(lock_step (\<lambda>r. r) (\<lambda>r. r))\<^sup>*\<^sup>* sample_lock renamed_lock"
  by (rule r_into_rtranclp, rule lock_step.updated, rule sample_update, rule r_into_rtranclp, rule lock_step.updated, rule renamed_update)

section \<open>Properties\<close>

text \<open>C4: The number of a field is for ever. Whatever happens to a lock file that started empty (updates with any sources, saving
  and loading), a number that once stood for a field of a model never stands for another field of it.\<close>

theorem field_ids_for_ever:
  assumes "(lock_step up lo)\<^sup>*\<^sup>* New_LockFile s" "(lock_step up lo)\<^sup>*\<^sup>* s t"
    and "LockFile_FieldID s m f = i" "LockFile_FieldID t m g = i" "i \<noteq> 0"
  shows "f = g"
proof -
  have "lf_ok s" "lf_evolves s t" using history_ok [OF assms(1) New_ok] history_ok [OF assms(2)] by blast+
  then show ?thesis
    using number_for_ever [of "lfModels s" "lfModels t" m f i g] id_or_zero_Some [OF assms(3) [unfolded FieldID_number] assms(5)]
      id_or_zero_Some [OF assms(4) [unfolded FieldID_number] assms(5)]
    by (simp add: lf_ok_def lf_evolves_def)
qed

lemma field_ids_for_ever_witness:
  "LockFile_FieldID renamed_lock (lit ''User'') (lit ''key'') = 2 \<and> LockFile_FieldID sample_lock (lit ''User'') (lit ''id'') = 1 \<and>
   (lit ''id'' :: bytes) = lit ''id''"
  using field_ids_for_ever [OF sample_history(1) rtranclp.rtrancl_refl, of "lit ''User''" "lit ''id''" 1 "lit ''id''"]
  by (simp add: LockFile_FieldID_def renamed_lock_def sample_lock_def lit_def)

text \<open>C6: The numbers of APIs and of their parameters are for ever, too: a pair of numbers that once stood for a
  parameter of an API never stands for a parameter of another API, nor for another parameter.\<close>

theorem api_ids_for_ever:
  assumes "(lock_step up lo)\<^sup>*\<^sup>* New_LockFile s" "(lock_step up lo)\<^sup>*\<^sup>* s t"
    and "APIID s a = i" "APIID t b = i" "i \<noteq> 0"
    and "APIParamID s a p = j" "APIParamID t b q = j" "j \<noteq> 0"
  shows "a = b \<and> p = q"
proof -
  have ok: "table_ok s" and e: "table_evolves s t"
    using history_ok [OF assms(1) New_ok] history_ok [OF assms(2)] by (simp_all add: lf_ok_def lf_evolves_def)
  have ab: "a = b"
    using table.for_ever [OF ok, of t a i b] e id_or_zero_Some [OF assms(3) [unfolded APIID_number] assms(5)]
      id_or_zero_Some [OF assms(4) [unfolded APIID_number] assms(5)]
    by (simp add: table_evolves_def)
  obtain x y where x: "map_of (lfAPIs s) a = Some x" "param_ids x p = Some j" and y: "map_of (lfAPIs t) a = Some y" "param_ids y q = Some j"
    using APIParamID_look [OF assms(6,8)] APIParamID_look [OF assms(7,8)] ab by blast
  have "alID x = alID y" using assms(3,4) x y ab by (simp add: APIID_def)
  then have "api_evolves x y" using e x y by (simp add: table_evolves_def)
  then show ?thesis using params.for_ever [OF table_okD(6) [OF ok x(1)] _ x(2) y(2)] ab by simp
qed

lemma api_ids_for_ever_witness:
  "APIID sample_lock (lit ''ping'') = 1 \<and> APIParamID renamed_lock (lit ''ping'') (lit ''n'') = 1 \<and> (lit ''ping'' :: bytes) = lit ''ping''"
  using api_ids_for_ever [OF sample_history, of "lit ''ping''" 1 "lit ''ping''" "lit ''n''" 1 "lit ''n''"]
  by (simp add: APIID_def APIParamID_def renamed_lock_def sample_lock_def lit_def)




lemma sample_changes: "BreakingChanges (\<lambda>r. r) (\<lambda>r. r) [sample_file] sample_lock = Some []"
  by (simp add: BreakingChanges_def activeAPINames_def compareFields_def compareAPIs_def compare_api_def sample_lock_def sample_defs update_defs)

lemma sample_again: "Update (\<lambda>r. r) (\<lambda>r. r) [sample_file] sample_lock = Some sample_lock"
  by (simp add: sample_lock_def sample_defs update_defs reserveRemovedFields_def)


text \<open>C8: After an update with sources that declare every type and every event once, the comparison with the same sources
  finds no breaking change.\<close>

theorem settled_update:
  assumes "(lock_step up lo)\<^sup>*\<^sup>* New_LockFile lf" "Update up lo files lf = Some t"
    and "distinct (map tydName (concat (map Types files)))" "distinct (map evtName (concat (map Events files)))"
  shows "BreakingChanges up lo files t = Some []"
proof -
  have ok: "lf_ok lf" using history_ok [OF assms(1) New_ok] by blast
  then have lf: "locks_ok (lfModels lf)" "locks_ok (lfTypes lf)" "locks_ok (lfEvents lf)" "table_ok lf" by (simp_all add: lf_ok_def)
  let ?c = "collectContracts files" and ?a = "updateEvents files (updateExtends files (updateTypes files (updateModels files lf)))"
  obtain b where b: "updateAPIs up lo files ?a = Some b" and t: "t = updateContractMetadata files b"
    using assms(2) by (auto simp: Update_def)
  have a: "table_ok ?a" using table_same [of ?a lf] lf(4) by simp
  note s = updateAPIs_step [OF a b]
  obtain rs where rs: "api_requests up lo files = Some rs" "set (map fst (lfAPIs b)) = fst ` set rs" using s(6) by blast
  obtain u where u: "updateAPIs up lo files New_LockFile = Some u" using rs(1) by (simp add: updateAPIs_requests)
  have N: "table_ok New_LockFile" using New_ok by (simp add: lf_ok_def)
  have act: "activeAPINames up lo files = Some (map fst (lfAPIs u))" by (simp add: activeAPINames_def u)
  have names: "set (map fst (lfAPIs b)) = set (map fst (lfAPIs u))" using updateAPIs_step(6) [OF N u] rs by auto
  note M = updateModels_step [OF lf(1) refl, of files]
  have ms: "compareFields (lit ''model'') (lfModels t) (wcModels ?c) False = []"
    unfolding t metadata_locks
    using number_member [of "lfModels b"] M(1,3) contract_models by (intro metadata_compare) (simp_all add: s(3))
  have d: "distinct (map fst (raw_types files))" "distinct (map fst (raw_events files))"
    using assms(3,4) by (simp_all add: raw_types_def raw_events_def map_concat comp_def)
  have lt: "lfTypes b = fold (case_prod assign_fields) (type_decls files) (reserve_gone (current_types files) (lfTypes lf))"
    by (simp add: s(4) updateTypes_locks)
  have le: "lfEvents b = fold (case_prod assign_fields) (event_decls files) (reserve_gone (current_events files) (lfEvents lf))"
    by (simp add: s(5) updateEvents_locks)
  have ts: "compareFields (lit ''type'') (lfTypes t) (wcTypes ?c) False = []"
    unfolding t metadata_locks
    by (rule relocked_compare [OF lf(2) current_types_eq lt type_decls_raw d(1) fieldTypes_declared contract_types])
  have es: "compareFields (lit ''event'') (lfEvents t) (wcEvents ?c) True = []"
    unfolding t metadata_locks
    by (rule relocked_compare [OF lf(3) current_events_eq le event_decls_raw d(2) paramTypes_declared contract_events])
  have as: "compareAPIs (map fst (lfAPIs u)) (wcApis ?c) t = []"
    unfolding t by (rule compareAPIs_recorded [OF names])
  show ?thesis by (simp add: BreakingChanges_def act Let_def ms ts es as)
qed

lemma settled_update_witness: "BreakingChanges (\<lambda>r. r) (\<lambda>r. r) [renamed_file] renamed_lock = Some []"
  by (rule settled_update [OF sample_history(1) renamed_update]) (simp_all add: renamed_file_def sample_file_def empty_file_def)


lemma empty_run: "Parse [] [eof_token] = Some (empty_file [], [])"
  by (simp add: Parse_def parse_file_def run_defs New_Parser_def eof_token_def del: knot.simps)


end
