(* ===== verification/Strings.thy ===== *)
theory Strings
  imports Utf8
begin

text \<open>
  Strings: the helpers of pkg/lux/str/str.go on runes (case conversion of names, and the masks that hide personal
  data in responses), and the JSON strings that pkg/lux/api/buf.go writes. What only calls the package strings is left out. The
  tables of the package unicode are parameters.
\<close>

section \<open>Runes of a string\<close>

text \<open>A conversion of a string to runes and back. What is not UTF-8 comes back as the replacement character.\<close>

function runes_of :: "bytes \<Rightarrow> rune list" where
  "runes_of s = (if s = [] then [] else case DecodeRune s of (r, w) \<Rightarrow> r # runes_of (drop w s))"
  by auto
termination
proof (relation "measure length")
  fix s x y
  assume "s \<noteq> []" "(x, y) = DecodeRune s"
  then show "(drop y s, s) \<in> measure length" using DecodeRune_width [of s] by (cases "DecodeRune s") auto
qed simp

definition string_of :: "rune list \<Rightarrow> bytes" where
  "string_of rs = concat (map EncodeRune rs)"

definition valid_utf8 :: "bytes \<Rightarrow> bool" where
  "valid_utf8 s \<longleftrightarrow> string_of (runes_of s) = s"

section \<open>Names\<close>

fun snake_loop :: "(rune \<Rightarrow> bool) \<Rightarrow> (rune \<Rightarrow> bool) \<Rightarrow> (rune \<Rightarrow> rune) \<Rightarrow> rune option \<Rightarrow> rune list \<Rightarrow> bytes" where
  "snake_loop isUpper isLower lower prev [] = []"
| "snake_loop isUpper isLower lower prev (r # rs) =
     (case prev of
        None \<Rightarrow> []
      | Some p \<Rightarrow>
          if isUpper r \<and> (isLower p \<or> isUpper p \<and> rs \<noteq> [] \<and> isLower (hd rs)) then [0x5F] else []) @
     EncodeRune (lower r) @ snake_loop isUpper isLower lower (Some r) rs"

definition ToSnakeCase :: "(rune \<Rightarrow> bool) \<Rightarrow> (rune \<Rightarrow> bool) \<Rightarrow> (rune \<Rightarrow> rune) \<Rightarrow> bytes \<Rightarrow> bytes" where
  "ToSnakeCase isUpper isLower lower s = snake_loop isUpper isLower lower None (runes_of s)"

definition change_first :: "(rune \<Rightarrow> rune) \<Rightarrow> bytes \<Rightarrow> bytes" where
  "change_first g s = (if s = [] then s else case DecodeRune s of (r, w) \<Rightarrow> EncodeRune (g r) @ drop w s)"

definition Capitalize :: "(rune \<Rightarrow> rune) \<Rightarrow> bytes \<Rightarrow> bytes" where
  "Capitalize up s = change_first up s"

definition LowerFirst :: "(rune \<Rightarrow> rune) \<Rightarrow> bytes \<Rightarrow> bytes" where
  "LowerFirst lo s = change_first lo s"

section \<open>Padding, reversing and masking\<close>

text \<open>Lengths to pad to are integers. The loop that repeats the padding runs until there are n bytes; the code's slice cuts what is too much.\<close>

function pad_loop :: "int \<Rightarrow> bytes \<Rightarrow> bytes \<Rightarrow> bytes" where
  "pad_loop n p s = (if p = [] \<or> int (length s) \<ge> n then s else pad_loop n p (s @ p))"
  by auto
termination
  by (relation "measure (\<lambda>(n, p, s). nat (n - int (length s)))") (auto simp: length_greater_0_conv [symmetric] simp del: length_greater_0_conv)

definition PadLeft :: "bytes \<Rightarrow> int \<Rightarrow> bytes \<Rightarrow> bytes" where
  "PadLeft s n pad =
     (let diff = n - int (length s)
      in if diff \<le> 0 \<or> pad = [] then s else take (nat diff) (pad_loop diff pad []) @ s)"

definition PadRight :: "bytes \<Rightarrow> int \<Rightarrow> bytes \<Rightarrow> bytes" where
  "PadRight s n pad =
     (let diff = n - int (length s)
      in if diff \<le> 0 \<or> pad = [] then s else take (nat n) (pad_loop n pad s))"

definition str_Reverse :: "bytes \<Rightarrow> bytes" where
  "str_Reverse s = string_of (rev (runes_of s))"

text \<open>None is the panic of an index that is negative.\<close>

definition Mask :: "bytes \<Rightarrow> int \<Rightarrow> int \<Rightarrow> bytes option" where
  "Mask s keepPrefix keepSuffix =
     (let runes = runes_of s; n = int (length runes) in
      if keepPrefix + keepSuffix \<ge> n then Some s
      else if keepPrefix < 0 \<or> keepSuffix < 0 then None
      else Some (string_of (take (nat keepPrefix) runes @ replicate (nat (n - keepSuffix - keepPrefix)) 0x2A @
             drop (nat (n - keepSuffix)) runes)))"

definition maskAll :: "bytes \<Rightarrow> bytes" where
  "maskAll s = replicate (length (runes_of s)) 0x2A"

fun mask_bytes :: "bytes \<Rightarrow> bytes \<Rightarrow> bytes" where
  "mask_bytes (b # bs) (p # ps) = (if p = 0x23 then b else 0x2A) # mask_bytes bs ps"
| "mask_bytes bs ps = []"

fun mask_runes :: "rune list \<Rightarrow> bytes \<Rightarrow> bytes" where
  "mask_runes (r # rs) (p # ps) = (if p = 0x23 then EncodeRune r else [0x2A]) @ mask_runes rs ps"
| "mask_runes rs ps = []"

definition MaskPattern :: "bytes \<Rightarrow> bytes \<Rightarrow> bytes" where
  "MaskPattern s pattern =
     (if \<exists>p \<in> set pattern. p \<noteq> 0x23 \<and> p \<noteq> 0x2A then maskAll s
      else if length (runes_of s) \<noteq> length pattern then maskAll s
      else if length s = length pattern then mask_bytes s pattern
      else mask_runes (runes_of s) pattern)"

definition MaskEmail :: "bytes \<Rightarrow> bytes" where
  "MaskEmail s =
     (let at = length (takeWhile (\<lambda>c. c \<noteq> 0x40) s) in
      if at = length s \<or> at \<le> 1 then s else take 1 s @ replicate (at - 1) 0x2A @ drop at s)"

section \<open>JSON strings\<close>

definition safe_json :: "byte \<Rightarrow> bool" where
  "safe_json c \<longleftrightarrow> \<not> (c < 0x20 \<or> c = 0x22 \<or> c = 0x5C \<or> c \<ge> 0x80)"

definition hex_digit :: "byte \<Rightarrow> byte" where
  "hex_digit d = (if d < 10 then 0x30 + d else 0x57 + d)"

definition escape_byte :: "byte \<Rightarrow> bytes" where
  "escape_byte c =
     (if c = 0x22 then [0x5C, 0x22]
      else if c = 0x5C then [0x5C, 0x5C]
      else if c = 0x0A then [0x5C, 0x6E]
      else if c = 0x0D then [0x5C, 0x72]
      else if c = 0x09 then [0x5C, 0x74]
      else [0x5C, 0x75, 0x30, 0x30, hex_digit (drop_bit 4 c), hex_digit (c AND 0x0F)])"

function json_loop :: "bytes \<Rightarrow> bytes" where
  "json_loop s =
     takeWhile safe_json s @
     (case dropWhile safe_json s of
        [] \<Rightarrow> []
      | c # cs \<Rightarrow>
          if c \<ge> 0x80 then (case DecodeRune (c # cs) of (r, w) \<Rightarrow> EncodeRune r @ json_loop (drop w (c # cs)))
          else escape_byte c @ json_loop cs)"
  by auto
termination
proof (relation "measure length")
  fix s c cs r w
  assume d: "dropWhile safe_json s = c # cs" and w: "(r, w) = DecodeRune (c # cs)"
  have "length (c # cs) \<le> length s" using length_dropWhile_le [of safe_json s] d by simp
  then show "(drop w (c # cs), s) \<in> measure length"
    using DecodeRune_width [of "c # cs"] w by (cases "DecodeRune (c # cs)") auto
next
  fix s c cs
  assume d: "dropWhile safe_json s = c # cs"
  then show "(cs, s) \<in> measure length" using length_dropWhile_le [of safe_json s] by simp
qed simp

definition AppendJSONString :: "bytes \<Rightarrow> bytes \<Rightarrow> bytes" where
  "AppendJSONString dst s = dst @ 0x22 # json_loop s @ [0x22]"

declare json_loop.simps [simp del] runes_of.simps [simp del] pad_loop.simps [simp del]

section \<open>Strings of runes\<close>

lemma runes_of_Nil [simp]: "runes_of [] = []"
  by (simp add: runes_of.simps)

lemma runes_of_Cons: "runes_of (b # bs) = fst (DecodeRune (b # bs)) # runes_of (drop (snd (DecodeRune (b # bs))) (b # bs))"
  by (subst runes_of.simps) (simp split: prod.split)

lemma runes_of_ascii [simp]: "b < 0x80 \<Longrightarrow> runes_of (b # bs) = unat b # runes_of bs"
  by (simp add: runes_of_Cons)

lemma string_of_simps [simp]: "string_of [] = []" "string_of (r # rs) = EncodeRune r @ string_of rs" "string_of (rs @ qs) = string_of rs @ string_of qs"
  by (simp_all add: string_of_def)

lemma EncodeRune_ascii [simp]: "b < 0x80 \<Longrightarrow> EncodeRune (unat (b :: byte)) = [b]"
  by (simp add: EncodeRune_def byte_less)

lemma EncodeRune_nonempty: "EncodeRune r \<noteq> []"
  by (simp add: EncodeRune_def)

lemma high_byte: "n < 256 \<Longrightarrow> 0x80 \<le> n \<Longrightarrow> (0x80 :: byte) \<le> of_nat n"
  by (simp add: byte_less unat_of_nat)

lemma EncodeRune_high: "0x80 \<le> r \<Longrightarrow> list_all (\<lambda>b. 0x80 \<le> b) (EncodeRune r)"
proof -
  assume r: "0x80 \<le> r"
  have m: "0x80 + x mod 64 < 256" "0x80 \<le> 0x80 + x mod 64" for x :: nat by (simp_all add: less_trans [OF mod_less_divisor])
  have "r < 0x800 \<Longrightarrow> 0xC0 + r div 64 < 256" "r < 0x10000 \<Longrightarrow> 0xE0 + r div 4096 < 256" "r \<le> 0x10FFFF \<Longrightarrow> 0xF0 + r div 262144 < 256"
    by (simp_all add: div_less_iff_less_mult less_Suc_eq_le [symmetric])
  then show ?thesis
    using r m by (auto simp: EncodeRune_def not_less simp del: of_nat_add intro!: high_byte)
qed

lemma runes_of_length: "length (runes_of s) \<le> length s"
proof (induction s rule: runes_of.induct)
  case (1 s)
  show ?case
  proof (cases s)
    case (Cons b bs)
    obtain r w where w: "DecodeRune s = (r, w)" by (cases "DecodeRune s")
    have "length (runes_of (drop w s)) \<le> length (drop w s)" using 1 [OF _ w [symmetric]] Cons by simp
    then have "length (runes_of (drop w s)) < length s" using DecodeRune_width [of s] w Cons by (simp, linarith)
    then show ?thesis using w Cons by (simp add: runes_of_Cons)
  qed simp
qed

lemma string_of_length: "length rs \<le> length (string_of rs)"
proof (induction rs)
  case (Cons r rs)
  have "1 \<le> length (EncodeRune r)" using EncodeRune_nonempty [of r] by (cases "EncodeRune r") auto
  then show ?case using Cons by simp
qed simp

section \<open>Masks\<close>

text \<open>A string with as many runes as bytes is handled byte by byte, with the same result.\<close>

lemma narrow_string:
  assumes "valid_utf8 (b # bs)" "length (runes_of (b # bs)) = length (b # bs)"
  shows "runes_of (b # bs) = fst (DecodeRune (b # bs)) # runes_of bs" "EncodeRune (fst (DecodeRune (b # bs))) = [b]"
    "valid_utf8 bs" "length (runes_of bs) = length bs"
proof -
  obtain r w where w: "DecodeRune (b # bs) = (r, w)" by (cases "DecodeRune (b # bs)")
  have l: "length (runes_of (drop w (b # bs))) \<le> length (drop w (b # bs))" by (rule runes_of_length)
  have "w = 1" using l assms(2) DecodeRune_width [of "b # bs"] w by (simp add: runes_of_Cons) linarith
  then show r: "runes_of (b # bs) = fst (DecodeRune (b # bs)) # runes_of bs" by (simp add: runes_of_Cons w)
  then show n: "length (runes_of bs) = length bs" using assms(2) by simp
  have v: "EncodeRune r @ string_of (runes_of bs) = b # bs" using assms(1) r w by (simp add: valid_utf8_def)
  have "length (EncodeRune r) + length (string_of (runes_of bs)) = Suc (length bs)" using arg_cong [OF v, of length] by simp
  moreover have "length bs \<le> length (string_of (runes_of bs))" using string_of_length [of "runes_of bs"] n by simp
  moreover obtain x xs where x: "EncodeRune r = x # xs" using EncodeRune_nonempty [of r] by (cases "EncodeRune r") auto
  ultimately have "length xs = 0" by (simp del: length_0_conv)
  then have "xs = []" by simp
  then show "EncodeRune (fst (DecodeRune (b # bs))) = [b]" "valid_utf8 bs" using v x w by (simp_all add: valid_utf8_def)
qed

lemma mask_runes_Nil [simp]: "mask_runes rs [] = []"
  by (cases rs) simp_all

lemma mask_bytes_runes:
  "valid_utf8 s \<Longrightarrow> length (runes_of s) = length s \<Longrightarrow> mask_bytes s p = mask_runes (runes_of s) p"
proof (induction s p rule: mask_bytes.induct)
  case (1 b bs p ps)
  note n = narrow_string [OF "1.prems"]
  show ?case using 1(1) n by simp
qed simp_all

lemma mask_runes_cong:
  "length rs = length p \<Longrightarrow> length qs = length p \<Longrightarrow> (\<And>i. i < length p \<Longrightarrow> p ! i = 0x23 \<Longrightarrow> rs ! i = qs ! i) \<Longrightarrow>
   mask_runes rs p = mask_runes qs p"
proof (induction p arbitrary: rs qs)
  case (Cons c p)
  obtain r rs' q qs' where rq: "rs = r # rs'" "qs = q # qs'" using Cons.prems(1,2) by (cases rs; cases qs) auto
  have "mask_runes rs' p = mask_runes qs' p"
    using Cons.prems(1,2) Cons.prems(3) [of "Suc _"] by (intro Cons.IH) (auto simp: rq)
  moreover have "c = 0x23 \<Longrightarrow> r = q" using Cons.prems(3) [of 0] rq by simp
  ultimately show ?case by (simp add: rq)
qed simp

section \<open>Reading a JSON string back\<close>

definition hex_value :: "byte \<Rightarrow> nat option" where
  "hex_value d =
     (if 0x30 \<le> d \<and> d \<le> 0x39 then Some (unat (d - 0x30))
      else if 0x61 \<le> d \<and> d \<le> 0x66 then Some (unat (d - 0x57))
      else if 0x41 \<le> d \<and> d \<le> 0x46 then Some (unat (d - 0x37)) else None)"

text \<open>The grammar of JSON strings, from behind the opening quote to the closing one at the end, with the escapes that name one code unit below the surrogates.\<close>

fun json_chars :: "bytes \<Rightarrow> bytes option" where
  "json_chars [] = None"
| "json_chars (c # cs) =
     (if c = 0x22 then if cs = [] then Some [] else None
      else if c < 0x20 then None
      else if c \<noteq> 0x5C then map_option ((#) c) (json_chars cs)
      else (case cs of
          [] \<Rightarrow> None
        | e # es \<Rightarrow>
            if e = 0x22 \<or> e = 0x5C \<or> e = 0x2F then map_option ((#) e) (json_chars es)
            else if e = 0x6E then map_option ((#) 0x0A) (json_chars es)
            else if e = 0x72 then map_option ((#) 0x0D) (json_chars es)
            else if e = 0x74 then map_option ((#) 0x09) (json_chars es)
            else if e = 0x62 then map_option ((#) 0x08) (json_chars es)
            else if e = 0x66 then map_option ((#) 0x0C) (json_chars es)
            else if e = 0x75 then
              (case es of
                 a # b # c # d # rest \<Rightarrow>
                   (case (hex_value a, hex_value b, hex_value c, hex_value d) of
                      (Some a, Some b, Some c, Some d) \<Rightarrow>
                        map_option ((@) (EncodeRune (a * 4096 + b * 256 + c * 16 + d))) (json_chars rest)
                    | _ \<Rightarrow> None)
               | _ \<Rightarrow> None)
            else None))"

definition json_string :: "bytes \<Rightarrow> bytes option" where
  "json_string t = (case t of [] \<Rightarrow> None | c # cs \<Rightarrow> if c = 0x22 then json_chars cs else None)"

declare json_chars.simps(2) [simp del]

lemma json_chars_plain: "list_all (\<lambda>c. safe_json c \<or> 0x80 \<le> c) xs \<Longrightarrow> json_chars (xs @ t) = map_option ((@) xs) (json_chars t)"
proof (induction xs)
  case Nil
  then show ?case by (simp add: option.map_ident)
next
  case (Cons c xs)
  then have c: "c \<noteq> 0x22" "\<not> c < 0x20" "c \<noteq> 0x5C" by (auto simp: safe_json_def byte_less)
  show ?case using Cons c by (simp add: json_chars.simps(2) option.map_comp comp_def)
qed

lemma control_escape: "list_all (\<lambda>c. hex_value (hex_digit (drop_bit 4 c)) = Some (unat c div 16) \<and> hex_value (hex_digit (c AND 0x0F)) = Some (unat c mod 16)) (map (of_nat :: nat \<Rightarrow> byte) [0..<32])"
  by code_simp

lemma json_chars_escape:
  assumes "\<not> safe_json c" "c < 0x80"
  shows "json_chars (escape_byte c @ t) = map_option ((#) c) (json_chars t)"
proof -
  consider "c = 0x22" | "c = 0x5C" | "c = 0x0A" | "c = 0x0D" | "c = 0x09" | (control) "c < 0x20" "c \<noteq> 0x22" "c \<noteq> 0x5C" "c \<noteq> 0x0A" "c \<noteq> 0x0D" "c \<noteq> 0x09"
    using assms by (auto simp: safe_json_def)
  then show ?thesis
  proof cases
    case control
    have "c \<in> set (map of_nat [0..<32])" using control(1) by (auto simp: byte_less image_iff intro!: bexI [of _ "unat c"])
    then have h: "hex_value (hex_digit (drop_bit 4 c)) = Some (unat c div 16)" "hex_value (hex_digit (c AND 0x0F)) = Some (unat c mod 16)"
      using control_escape [unfolded list_all_iff] by blast+
    have z: "hex_value 0x30 = Some 0" by (simp add: hex_value_def)
    have one: "(@) [c] = (#) c" by (rule ext) simp
    have "EncodeRune (unat c div 16 * 16 + unat c mod 16) = [c]" using assms(2) by simp
    then show ?thesis using control h z by (simp add: escape_byte_def json_chars.simps(2) one)
  qed (simp_all add: escape_byte_def json_chars.simps(2))
qed

lemma runes_of_safe: "runes_of (takeWhile safe_json s @ t) = map unat (takeWhile safe_json s) @ runes_of t"
  by (induction s) (auto simp: safe_json_def not_le)

lemma string_of_safe: "string_of (map unat (takeWhile safe_json s)) = takeWhile safe_json s"
  by (induction s) (auto simp: safe_json_def not_le)

lemma json_loop_read: "json_chars (json_loop s @ [0x22]) = Some (string_of (runes_of s))"
proof (induction s rule: json_loop.induct)
  case (1 s)
  let ?h = "takeWhile safe_json s" and ?t = "dropWhile safe_json s"
  have s: "runes_of s = map unat ?h @ runes_of ?t" using runes_of_safe [of s ?t] by simp
  have h: "json_chars (?h @ x) = map_option ((@) ?h) (json_chars x)" for x
    by (rule json_chars_plain) (auto simp: list_all_iff dest: set_takeWhileD)
  show ?case
  proof (cases ?t)
    case Nil
    show ?thesis unfolding json_loop.simps [of s] s Nil list.case append_Nil2 h
      by (simp add: string_of_safe json_chars.simps(2))
  next
    case (Cons c cs)
    have bad: "\<not> safe_json c" using hd_dropWhile [of safe_json s] Cons by simp
    show ?thesis
    proof (cases "c \<ge> 0x80")
      case True
      obtain r w where w: "DecodeRune (c # cs) = (r, w)" by (cases "DecodeRune (c # cs)")
      have r: "0x80 \<le> r" using DecodeRune_ascii [of c cs] True w by (fastforce simp: byte_less)
      have "list_all (\<lambda>c. safe_json c \<or> 0x80 \<le> c) (EncodeRune r)" using EncodeRune_high [OF r] by (simp add: list_all_iff)
      from json_chars_plain [OF this] have e: "json_chars (EncodeRune r @ x) = map_option ((@) (EncodeRune r)) (json_chars x)" for x .
      have "json_chars (json_loop (drop w (c # cs)) @ [0x22]) = Some (string_of (runes_of (drop w (c # cs))))"
        using "1.IH"(1) [OF Cons True w [symmetric]] .
      then show ?thesis unfolding json_loop.simps [of s] s Cons using True w h e by (simp add: string_of_safe runes_of_Cons)
    next
      case False
      then have "json_chars (json_loop cs @ [0x22]) = Some (string_of (runes_of cs))" using "1.IH"(2) [OF Cons] by blast
      moreover have "c < 0x80" using False by simp
      ultimately show ?thesis unfolding json_loop.simps [of s] s Cons using h json_chars_escape [OF bad]
        by (simp add: string_of_safe not_le [symmetric] if_not_P [OF False])
    qed
  qed
qed

section \<open>Properties\<close>

text \<open>C16: A string that is written as a JSON string is read back as it was, with the replacement character in place of what is
  not UTF-8.\<close>

theorem json_string_roundtrip: "json_string (AppendJSONString [] s) = Some (string_of (runes_of s))"
  by (simp add: json_string_def AppendJSONString_def json_loop_read)

text \<open>C17: A mask shows nothing of the runes it hides: two strings with as many runes, which have the same rune wherever the pattern keeps
  one, are masked to the same string.\<close>

theorem MaskPattern_hides:
  assumes "valid_utf8 s" "valid_utf8 t" "length (runes_of s) = length (runes_of t)"
    and "list_all (\<lambda>i. pattern ! i \<noteq> 0x23 \<or> runes_of s ! i = runes_of t ! i) [0..<length pattern]"
  shows "MaskPattern s pattern = MaskPattern t pattern"
proof -
  have m: "MaskPattern u pattern = mask_runes (runes_of u) pattern"
    if "\<not> (\<exists>p \<in> set pattern. p \<noteq> 0x23 \<and> p \<noteq> 0x2A)" "length (runes_of u) = length pattern" "valid_utf8 u" for u
    using that mask_bytes_runes [of u pattern] by (auto simp: MaskPattern_def)
  show ?thesis
  proof (cases "(\<exists>p \<in> set pattern. p \<noteq> 0x23 \<and> p \<noteq> 0x2A) \<or> length (runes_of s) \<noteq> length pattern")
    case True
    then show ?thesis using assms(3) by (auto simp: MaskPattern_def maskAll_def)
  next
    case False
    then have "mask_runes (runes_of s) pattern = mask_runes (runes_of t) pattern"
      using assms(3,4) by (intro mask_runes_cong) (auto simp: list_all_iff)
    then show ?thesis using m [of s] m [of t] False assms by auto
  qed
qed

lemma MaskPattern_hides_witness: "MaskPattern [0x61, 0x62] [0x23, 0x2A] = MaskPattern [0x61, 0xC3, 0xA9] [0x23, 0x2A]"
  by (rule MaskPattern_hides) code_simp+

end
