(* ===== verification/Selection.thy ===== *)
theory Selection
  imports Strings
begin

text \<open>
  Selections of fields, pkg/lux/selection/selection.go: the $select parameter and the selections that
  data loaders merge. A slice of fields that is nil selects everything and is None; a slice that is not nil is Some of a list.
  Fields are values: cloneField copies what is equal, and no field of a selection is a nil pointer, since
  only Parse and EnsureField make them.
\<close>

section \<open>Selections\<close>

datatype SelField = SelField (selName: bytes) (selChildren: "SelField list option")

fun cloneField :: "SelField \<Rightarrow> SelField" where
  "cloneField (SelField name None) = SelField name None"
| "cloneField (SelField name (Some fs)) = SelField name (Some (map cloneField fs))"

definition cloneFields :: "SelField list option \<Rightarrow> SelField list option" where
  "cloneFields sel = map_option (map cloneField) sel"

definition EnsureField :: "SelField list option \<Rightarrow> bytes \<Rightarrow> SelField list option" where
  "EnsureField sel name =
     (case sel of
        None \<Rightarrow> None
      | Some fs \<Rightarrow> if \<exists>f \<in> set fs. selName f = name then Some fs else Some (fs @ [SelField name None]))"

text \<open>The map from names to positions; a later field of the same name replaces an earlier one.\<close>

fun positions_from :: "nat \<Rightarrow> SelField list \<Rightarrow> (bytes \<rightharpoonup> nat) \<Rightarrow> (bytes \<rightharpoonup> nat)" where
  "positions_from i [] m = m"
| "positions_from i (f # fs) m = positions_from (i + 1) fs (m(selName f \<mapsto> i))"

fun merge_loop :: "SelField list \<Rightarrow> (bytes \<rightharpoonup> nat) \<Rightarrow> SelField list \<Rightarrow> SelField list" where
  "merge_loop result positions [] = result"
| "merge_loop result positions (SelField name children # fs) =
     (case positions name of
        None \<Rightarrow> merge_loop (result @ [cloneField (SelField name children)]) (positions(name \<mapsto> length result)) fs
      | Some i \<Rightarrow>
          merge_loop (result[i := SelField (selName (result ! i))
            (case selChildren (result ! i) of
               None \<Rightarrow> None
             | Some l \<Rightarrow>
                 (case children of
                    None \<Rightarrow> None
                  | Some r \<Rightarrow> Some (merge_loop (map cloneField l) (positions_from 0 (map cloneField l) Map.empty) r)))]) positions fs)"

definition Selection_Merge :: "SelField list option \<Rightarrow> SelField list option \<Rightarrow> SelField list option" where
  "Selection_Merge left right =
     (case (left, right) of
        (Some l, Some r) \<Rightarrow> Some (merge_loop (map cloneField l) (positions_from 0 (map cloneField l) Map.empty) r)
      | _ \<Rightarrow> None)"

section \<open>Printing\<close>

fun writeSelection :: "SelField list \<Rightarrow> bytes" and write_rest :: "SelField list \<Rightarrow> bytes" and write_field :: "SelField \<Rightarrow> bytes" where
  "writeSelection [] = []"
| "writeSelection (f # fs) = write_field f @ write_rest fs"
| "write_rest [] = []"
| "write_rest (f # fs) = 0x2C # write_field f @ write_rest fs"
| "write_field (SelField name None) = name"
| "write_field (SelField name (Some children)) = (if children = [] then name else name @ 0x7B # writeSelection children @ [0x7D])"

definition Format :: "SelField list option \<Rightarrow> bytes" where
  "Format sel = (case sel of None \<Rightarrow> [] | Some fs \<Rightarrow> writeSelection fs)"

section \<open>Parsing\<close>

text \<open>The errors, with the position they name. The last one is that of the model's fuel.\<close>

datatype select_error =
    UnexpectedCharacter byte nat | ExpectedFieldName nat | EmptyBlock bytes nat | ExpectedBrace bytes nat | SelectOutOfFuel

definition isIdentStart :: "byte \<Rightarrow> bool" where
  "isIdentStart c \<longleftrightarrow> 0x61 \<le> c \<and> c \<le> 0x7A \<or> 0x41 \<le> c \<and> c \<le> 0x5A \<or> c = 0x5F"

definition isIdentPart :: "byte \<Rightarrow> bool" where
  "isIdentPart c \<longleftrightarrow> isIdentStart c \<or> 0x30 \<le> c \<and> c \<le> 0x39"

text \<open>The parser is at what is left of the input; the position is what is missing of its length L.\<close>

definition skipSpaces :: "bytes \<Rightarrow> bytes" where
  "skipSpaces s = dropWhile (\<lambda>c. c = 0x20) s"

definition readIdent :: "bytes \<Rightarrow> bytes \<times> bytes" where
  "readIdent s =
     (case s of
        [] \<Rightarrow> ([], s)
      | c # cs \<Rightarrow> if \<not> isIdentStart c then ([], s) else (c # takeWhile isIdentPart cs, dropWhile isIdentPart cs))"

fun parseList :: "nat \<Rightarrow> nat \<Rightarrow> bytes \<Rightarrow> select_error + SelField list \<times> bytes"
  and parse_more :: "nat \<Rightarrow> nat \<Rightarrow> SelField list \<Rightarrow> bytes \<Rightarrow> select_error + SelField list \<times> bytes"
  and parseField :: "nat \<Rightarrow> nat \<Rightarrow> bytes \<Rightarrow> select_error + SelField option \<times> bytes" where
  "parseList L 0 s = Inl SelectOutOfFuel"
| "parseList L (Suc n) s =
     (let s = skipSpaces s in
      if s = [] then Inr ([], s)
      else case parseField L n s of
          Inl e \<Rightarrow> Inl e
        | Inr (None, s) \<Rightarrow> Inr ([], s)
        | Inr (Some f, s) \<Rightarrow> parse_more L n [f] s)"
| "parse_more L 0 fs s = Inl SelectOutOfFuel"
| "parse_more L (Suc n) fs s =
     (let s = skipSpaces s in
      if s = [] \<or> hd s \<noteq> 0x2C then Inr (fs, s)
      else case parseField L n (tl s) of
          Inl e \<Rightarrow> Inl e
        | Inr (None, s) \<Rightarrow> Inl (ExpectedFieldName (L - length s))
        | Inr (Some f, s) \<Rightarrow> parse_more L n (fs @ [f]) s)"
| "parseField L 0 s = Inl SelectOutOfFuel"
| "parseField L (Suc n) s =
     (case readIdent (skipSpaces s) of (name, s) \<Rightarrow>
        if name = [] then Inr (None, s)
        else let s = skipSpaces s in
          if s = [] \<or> hd s \<noteq> 0x7B then Inr (Some (SelField name None), s)
          else case parseList L n (tl s) of
              Inl e \<Rightarrow> Inl e
            | Inr (children, s) \<Rightarrow>
                if children = [] then Inl (EmptyBlock name (L - length s))
                else let s = skipSpaces s in
                  if s = [] \<or> hd s \<noteq> 0x7D then Inl (ExpectedBrace name (L - length s))
                  else Inr (Some (SelField name (Some children)), tl s))"

definition Selection_Parse :: "bytes \<Rightarrow> select_error + SelField list option" where
  "Selection_Parse input =
     (case parseList (length input) (2 * length input + 2) input of
        Inl e \<Rightarrow> Inl e
      | Inr (fs, s) \<Rightarrow>
          if s \<noteq> [] then Inl (UnexpectedCharacter (hd s) (length input - length s))
          else Inr (if fs = [] then None else Some fs))"

section \<open>The columns of a query\<close>

text \<open>The conversion of names, str.ToSnakeCase with the tables of the package unicode, is the parameter snake.\<close>

definition id_column :: bytes where
  "id_column = [0x69, 0x64]"

definition SQLColumns :: "(bytes \<Rightarrow> bytes) \<Rightarrow> SelField list option \<Rightarrow> bytes list option" where
  "SQLColumns snake sel =
     (let fs = (case sel of None \<Rightarrow> [] | Some fs \<Rightarrow> fs) in
      if fs = [] then None
      else let cols = id_column # filter (\<lambda>c. c \<noteq> id_column) (map (snake \<circ> selName) (filter (\<lambda>f. selChildren f = None) fs))
           in if length cols = 1 then None else Some cols)"

definition SQLColumnsOr :: "(bytes \<Rightarrow> bytes) \<Rightarrow> SelField list option \<Rightarrow> bytes list option \<Rightarrow> bytes list option" where
  "SQLColumnsOr snake sel fallback = (case SQLColumns snake sel of None \<Rightarrow> fallback | Some cols \<Rightarrow> Some cols)"

section \<open>What a selection selects\<close>

text \<open>A path of names is selected when every name on it is, as far as the selection goes.\<close>

fun selects :: "SelField list option \<Rightarrow> bytes list \<Rightarrow> bool" where
  "selects sel [] = True"
| "selects None (n # p) = True"
| "selects (Some fs) (n # p) = (\<exists>f \<in> set fs. selName f = n \<and> selects (selChildren f) p)"

lemma cloneField_same [simp]: "cloneField f = f"
proof (induction f rule: cloneField.induct)
  case (2 name fs)
  then show ?case by (simp add: map_idI)
qed simp

lemma cloneField_map [simp]: "map cloneField fs = fs"
  by (induction fs) simp_all

lemma cloneFields_same: "cloneFields sel = sel"
  by (cases sel) (simp_all add: cloneFields_def)

text \<open>The positions name fields of the result.\<close>

definition positions_ok :: "SelField list \<Rightarrow> (bytes \<rightharpoonup> nat) \<Rightarrow> bool" where
  "positions_ok fs m \<longleftrightarrow> (\<forall>n i. m n = Some i \<longrightarrow> i < length fs \<and> selName (fs ! i) = n) \<and> (\<forall>f \<in> set fs. m (selName f) \<noteq> None)"

lemma positions_ok_from:
  "positions_ok fs m \<Longrightarrow> positions_ok (fs @ gs) (positions_from (length fs) gs m)"
proof (induction gs arbitrary: fs m)
  case (Cons g gs)
  have "positions_ok (fs @ [g]) (m(selName g \<mapsto> length fs))"
    using Cons.prems by (fastforce simp: positions_ok_def nth_append intro: less_SucI)
  from Cons.IH [OF this] show ?case by (simp del: fun_upd_apply)
qed simp

lemma positions_ok_start: "positions_ok fs (positions_from 0 fs Map.empty)"
  using positions_ok_from [of "[]" Map.empty fs] by (simp add: positions_ok_def)

lemma selects_append: "selects (Some (fs @ gs)) (n # p) \<longleftrightarrow> selects (Some fs) (n # p) \<or> selects (Some gs) (n # p)"
  by auto

lemma set_update_nth:
  assumes "i < length xs"
  shows "(\<exists>x \<in> set (xs[i := y]). P x) \<longleftrightarrow> P y \<or> (\<exists>j < length xs. j \<noteq> i \<and> P (xs ! j))"
proof -
  have "(\<exists>x \<in> set (xs[i := y]). P x) \<longleftrightarrow> (\<exists>j < length xs. P (xs[i := y] ! j))" by (auto simp: Bex_def in_set_conv_nth)
  also have "\<dots> \<longleftrightarrow> P y \<or> (\<exists>j < length xs. j \<noteq> i \<and> P (xs ! j))"
    using assms by (metis nth_list_update_eq nth_list_update_neq)
  finally show ?thesis .
qed

lemma positions_ok_update:
  assumes "positions_ok fs m" "i < length fs" "selName f = selName (fs ! i)"
  shows "positions_ok (fs[i := f]) m"
proof -
  have "map selName (fs[i := f]) = map selName fs" using assms(2,3) by (simp add: map_update list_update_same_conv)
  then have "selName ` set (fs[i := f]) = selName ` set fs" by (metis set_map)
  then have "\<forall>g \<in> set (fs[i := f]). m (selName g) \<noteq> None" using assms(1) unfolding positions_ok_def by (metis imageE imageI)
  moreover have "selName (fs[i := f] ! j) = selName (fs ! j)" if "j < length fs" for j
    using that assms(3) by (cases "j = i") simp_all
  ultimately show ?thesis using assms(1) by (auto simp: positions_ok_def)
qed

lemma merge_loop_selects:
  "positions_ok result m \<Longrightarrow> selects (Some (merge_loop result m fs)) p \<longleftrightarrow> selects (Some result) p \<or> selects (Some fs) p"
proof (induction result m fs arbitrary: p rule: merge_loop.induct)
  case (1 result m)
  then show ?case by (cases p) auto
next
  case (2 result m name children fs)
  show ?case
  proof (cases p)
    case (Cons n q)
    show ?thesis
    proof (cases "m name")
      case None
      have "positions_ok (result @ [SelField name children]) (m(name \<mapsto> length result))"
        using positions_ok_from [OF "2.prems", of "[SelField name children]"] by simp
      note IH = "2.IH"(1) [OF None, simplified cloneField_same, OF this]
      show ?thesis using IH [of p] selects_append [of result "[SelField name children]" n q] None Cons
        by (auto simp del: fun_upd_apply)
    next
      case (Some i)
      have i: "i < length result" "selName (result ! i) = name" using "2.prems" Some by (auto simp: positions_ok_def)
      let ?c = "case selChildren (result ! i) of None \<Rightarrow> None | Some l \<Rightarrow> (case children of None \<Rightarrow> None
                  | Some r \<Rightarrow> Some (merge_loop l (positions_from 0 l Map.empty) r))"
      have c: "selects ?c q \<longleftrightarrow> selects (selChildren (result ! i)) q \<or> selects children q" for q
      proof (cases "selChildren (result ! i)"; cases children)
        fix l r
        assume lr: "selChildren (result ! i) = Some l" "children = Some r"
        then show ?thesis using "2.IH"(2) [OF Some lr] positions_ok_start by simp
      qed (cases q; simp)+
      have ok: "positions_ok (result[i := SelField name ?c]) m"
        using positions_ok_update [OF "2.prems" i(1), of "SelField name ?c"] i(2) by simp
      have res: "selects (Some (result[i := SelField name ?c])) p \<longleftrightarrow> selects (Some result) p \<or> n = name \<and> selects children q"
      proof -
        define H where "H j \<longleftrightarrow> selName (result ! j) = n \<and> selects (selChildren (result ! j)) q" for j
        have "selects (Some (result[i := SelField name ?c])) p \<longleftrightarrow> (name = n \<and> selects ?c q) \<or> (\<exists>j < length result. j \<noteq> i \<and> H j)"
          using set_update_nth [OF i(1), of "SelField name ?c" "\<lambda>f. selName f = n \<and> selects (selChildren f) q"] Cons by (simp add: H_def)
        also have "\<dots> \<longleftrightarrow> H i \<or> (\<exists>j < length result. j \<noteq> i \<and> H j) \<or> n = name \<and> selects children q"
          unfolding c H_def i(2) by blast
        also have "\<dots> \<longleftrightarrow> (\<exists>j < length result. H j) \<or> n = name \<and> selects children q"
          using i(1) by blast
        also have "(\<exists>j < length result. H j) \<longleftrightarrow> selects (Some result) p"
          unfolding Cons selects.simps(3) Bex_def in_set_conv_nth H_def by blast
        finally show ?thesis .
      qed
      have "selects (Some (merge_loop result m (SelField name children # fs))) p \<longleftrightarrow>
          selects (Some (result[i := SelField name ?c])) p \<or> selects (Some fs) p"
        using "2.IH"(3) [OF Some, unfolded cloneField_map i(2), OF ok, of p] Some i(2) by (simp only: merge_loop.simps option.case cloneField_map)
      then show ?thesis using res Cons by auto
    qed
  qed simp
qed

lemma Selection_Merge_union: "selects (Selection_Merge l r) p \<longleftrightarrow> selects l p \<or> selects r p"
  using merge_loop_selects [OF positions_ok_start]
  by (cases l; cases r; cases p) (auto simp: Selection_Merge_def simp del: selects.simps(3))

section \<open>The parser returns\<close>

lemma skipSpaces_length: "length (skipSpaces s) \<le> length s"
  by (simp add: skipSpaces_def length_dropWhile_le)

lemma readIdent_length:
  "readIdent s = (name, r) \<Longrightarrow> length r + length name = length s"
proof (cases s)
  case (Cons c cs)
  assume r: "readIdent s = (name, r)"
  have "length (takeWhile isIdentPart cs) + length (dropWhile isIdentPart cs) = length cs"
    by (metis length_append takeWhile_dropWhile_id)
  then show ?thesis using r Cons by (auto simp: readIdent_def split: if_splits)
qed (simp add: readIdent_def)

lemma parse_consumes:
  "parseList L n s = Inr (fs, r) \<Longrightarrow> length r \<le> length s"
  "parse_more L n acc s = Inr (fs, r) \<Longrightarrow> length r \<le> length s"
  "parseField L n s = Inr (fo, r) \<Longrightarrow> length r + (if fo = None then 0 else 1) \<le> length s"
proof (induction L n s and L n acc s and L n s arbitrary: fs r and fs r and fo r rule: parseList_parse_more_parseField.induct)
  case (2 L n s)
  then show ?case using skipSpaces_length [of s]
    by (fastforce simp: Let_def split: if_splits sum.splits prod.splits option.splits)
next
  case (4 L n acc s)
  then show ?case using skipSpaces_length [of s]
    by (fastforce simp: Let_def split: if_splits sum.splits prod.splits option.splits)
next
  case (6 L n s)
  obtain name t where t: "readIdent (skipSpaces s) = (name, t)" by (cases "readIdent (skipSpaces s)")
  have l: "length t + length name \<le> length s" using readIdent_length [OF t] skipSpaces_length [of s] by simp
  show ?case
  proof (cases "name = [] \<or> skipSpaces t = [] \<or> hd (skipSpaces t) \<noteq> 0x7B")
    case True
    then show ?thesis using "6.prems" t l skipSpaces_length [of t] by (cases name) (auto simp: Let_def Suc_le_eq split: if_splits)
  next
    case False
    then obtain cs u where cs: "parseList L n (tl (skipSpaces t)) = Inr (cs, u)" and fo: "fo \<noteq> None" and r: "r = tl (skipSpaces u)" "skipSpaces u \<noteq> []"
      using "6.prems" t by (auto simp: Let_def split: if_splits sum.splits)
    have "length u \<le> length (tl (skipSpaces t))" using "6.IH" [OF t [symmetric] _ refl _ cs] False by simp
    then show ?thesis using fo r l False skipSpaces_length [of t] skipSpaces_length [of u] by (cases "skipSpaces u") auto
  qed
qed simp_all

lemma parse_fueled:
  "2 * length s + 2 \<le> n \<Longrightarrow> parseList L n s \<noteq> Inl SelectOutOfFuel"
  "2 * length s + 1 \<le> n \<Longrightarrow> parse_more L n acc s \<noteq> Inl SelectOutOfFuel"
  "2 * length s + 1 \<le> n \<Longrightarrow> parseField L n s \<noteq> Inl SelectOutOfFuel"
proof (induction L n s and L n acc s and L n s rule: parseList_parse_more_parseField.induct)
  case (2 L n s)
  let ?s = "skipSpaces s"
  have l: "length ?s \<le> length s" by (rule skipSpaces_length)
  show ?case
  proof (cases "?s = []")
    case False
    have f: "parseField L n ?s \<noteq> Inl SelectOutOfFuel" using "2.IH"(1) [OF refl False] "2.prems" l by simp
    have m: "parse_more L n [f] r \<noteq> Inl SelectOutOfFuel" if p: "parseField L n ?s = Inr (Some f, r)" for f r
      using "2.IH"(2) [OF refl False p refl refl] parse_consumes(3) [OF p] "2.prems" l by simp
    show ?thesis using False f m by (auto simp: Let_def split: sum.split option.split)
  qed simp
next
  case (4 L n acc s)
  let ?s = "skipSpaces s"
  have l: "length ?s \<le> length s" by (rule skipSpaces_length)
  show ?case
  proof (cases "?s = [] \<or> hd ?s \<noteq> 0x2C")
    case False
    then have t: "length (tl ?s) + 1 \<le> length s" using l by (cases ?s) auto
    have f: "parseField L n (tl ?s) \<noteq> Inl SelectOutOfFuel" using "4.IH"(1) [OF refl False] "4.prems" t by simp
    have m: "parse_more L n (acc @ [f]) r \<noteq> Inl SelectOutOfFuel" if p: "parseField L n (tl ?s) = Inr (Some f, r)" for f r
      using "4.IH"(2) [OF refl False p refl refl] parse_consumes(3) [OF p] "4.prems" t by simp
    show ?thesis using False f m by (auto simp: Let_def split: sum.split option.split)
  qed (auto simp: Let_def)
next
  case (6 L n s)
  obtain name t where t: "readIdent (skipSpaces s) = (name, t)" by (cases "readIdent (skipSpaces s)")
  have l: "length t + length name \<le> length s" using readIdent_length [OF t] skipSpaces_length [of s] by simp
  show ?case
  proof (cases "name = [] \<or> skipSpaces t = [] \<or> hd (skipSpaces t) \<noteq> 0x7B")
    case False
    then have u: "length (tl (skipSpaces t)) + 2 \<le> length s"
      using l skipSpaces_length [of t] by (cases name; cases "skipSpaces t") auto
    have "parseList L n (tl (skipSpaces t)) \<noteq> Inl SelectOutOfFuel"
      using "6.IH" [OF t [symmetric] _ refl] False "6.prems" u by simp
    then show ?thesis using False t by (auto simp: Let_def split: sum.split)
  qed (auto simp: Let_def t)
qed simp_all

section \<open>What the parser makes\<close>

definition is_ident :: "bytes \<Rightarrow> bool" where
  "is_ident s = (case s of [] \<Rightarrow> False | c # cs \<Rightarrow> isIdentStart c \<and> list_all isIdentPart cs)"

fun plain_field :: "SelField \<Rightarrow> bool" where
  "plain_field (SelField name None) = is_ident name"
| "plain_field (SelField name (Some fs)) = (is_ident name \<and> fs \<noteq> [] \<and> list_all plain_field fs)"

lemma readIdent_ident: "readIdent s = (name, r) \<Longrightarrow> name \<noteq> [] \<Longrightarrow> is_ident name"
  by (auto simp: readIdent_def is_ident_def list_all_iff split: list.splits if_splits dest: set_takeWhileD)

lemma parse_plain:
  "parseList L n s = Inr (fs, r) \<Longrightarrow> list_all plain_field fs"
  "list_all plain_field acc \<Longrightarrow> parse_more L n acc s = Inr (fs, r) \<Longrightarrow> list_all plain_field fs"
  "parseField L n s = Inr (fo, r) \<Longrightarrow> pred_option plain_field fo"
proof (induction L n s and L n acc s and L n s arbitrary: fs r and fs r and fo r rule: parseList_parse_more_parseField.induct)
  case (2 L n s)
  then show ?case by (fastforce simp: Let_def split: if_splits sum.splits prod.splits option.splits)
next
  case (4 L n acc s)
  then show ?case by (fastforce simp: Let_def split: if_splits sum.splits prod.splits option.splits)
next
  case (6 L n s)
  obtain name t where t: "readIdent (skipSpaces s) = (name, t)" by (cases "readIdent (skipSpaces s)")
  show ?case
  proof (cases "name = [] \<or> skipSpaces t = [] \<or> hd (skipSpaces t) \<noteq> 0x7B")
    case True
    then show ?thesis using "6.prems" t readIdent_ident [OF t] by (auto simp: Let_def split: if_splits)
  next
    case False
    then obtain cs u where cs: "parseList L n (tl (skipSpaces t)) = Inr (cs, u)" and fo: "cs \<noteq> []" "fo = Some (SelField name (Some cs))"
      using "6.prems" t by (auto simp: Let_def split: if_splits sum.splits)
    have "list_all plain_field cs" using "6.IH" [OF t [symmetric] _ refl _ cs] False by simp
    then show ?thesis using fo False readIdent_ident [OF t] by simp
  qed
qed simp_all

section \<open>The printed selection is read back\<close>

text \<open>What may follow a field.\<close>

definition stops :: "bytes \<Rightarrow> bool" where
  "stops r = (case r of [] \<Rightarrow> True | c # _ \<Rightarrow> c = 0x2C \<or> c = 0x7D)"

lemma skip_ident [simp]: "is_ident name \<Longrightarrow> skipSpaces (name @ r) = name @ r"
  by (cases name) (auto simp: is_ident_def skipSpaces_def isIdentStart_def)

lemma skip_stops [simp]: "stops r \<Longrightarrow> skipSpaces r = r"
  by (cases r) (auto simp: stops_def skipSpaces_def)

lemma skip_char [simp]: "c \<noteq> 0x20 \<Longrightarrow> skipSpaces (c # s) = c # s"
  by (simp add: skipSpaces_def)

lemma take_idents:
  "list_all isIdentPart cs \<Longrightarrow> (case r of [] \<Rightarrow> True | c # _ \<Rightarrow> \<not> isIdentPart c) \<Longrightarrow>
   takeWhile isIdentPart (cs @ r) = cs \<and> dropWhile isIdentPart (cs @ r) = r"
  by (induction cs) (auto split: list.splits)

lemma read_ident:
  assumes "is_ident name" "case r of [] \<Rightarrow> True | c # _ \<Rightarrow> \<not> isIdentPart c"
  shows "readIdent (name @ r) = (name, r)"
  using assms take_idents [of "tl name" r] by (cases name) (auto simp: is_ident_def readIdent_def)

lemma stops_ident: "stops r \<Longrightarrow> case r of [] \<Rightarrow> True | c # _ \<Rightarrow> \<not> isIdentPart c"
  by (cases r) (auto simp: stops_def isIdentPart_def isIdentStart_def)

lemma write_ident: "plain_field f \<Longrightarrow> \<exists>name t. write_field f = name @ t \<and> is_ident name"
  by (cases f rule: plain_field.cases) (auto intro: exI [of _ "[]"])

lemma skip_field [simp]: "plain_field f \<Longrightarrow> skipSpaces (write_field f @ r) = write_field f @ r"
  using write_ident [of f] by auto

lemma write_nonempty: "plain_field f \<Longrightarrow> write_field f \<noteq> []"
  using write_ident [of f] by (auto simp: is_ident_def)

lemma parse_printed:
  "list_all plain_field fs \<Longrightarrow> fs \<noteq> [] \<Longrightarrow> stops r \<Longrightarrow> r = [] \<or> hd r = 0x7D \<Longrightarrow> 2 * length (writeSelection fs @ r) + 2 \<le> n \<Longrightarrow>
    parseList L n (writeSelection fs @ r) = Inr (fs, r)"
  "list_all plain_field fs \<Longrightarrow> r = [] \<or> hd r = 0x7D \<Longrightarrow> 2 * length (write_rest fs @ r) + 1 \<le> n \<Longrightarrow>
    parse_more L n acc (write_rest fs @ r) = Inr (acc @ fs, r)"
  "plain_field f \<Longrightarrow> stops r \<Longrightarrow> 2 * length (write_field f @ r) + 1 \<le> n \<Longrightarrow>
    parseField L n (write_field f @ r) = Inr (Some f, r)"
proof (induction fs and fs and f arbitrary: n r and n r acc and n r rule: writeSelection_write_rest_write_field.induct)
  case (2 f fs)
  obtain m where n: "n = Suc m" using "2.prems"(5) by (cases n) auto
  have s: "stops (write_rest fs @ r)" using "2.prems"(3) by (cases fs) (auto simp: stops_def)
  have "parseField L m (write_field f @ write_rest fs @ r) = Inr (Some f, write_rest fs @ r)"
    using "2.IH"(1) [OF _ s] "2.prems" n by simp
  moreover have "parse_more L m [f] (write_rest fs @ r) = Inr ([f] @ fs, r)"
    using "2.IH"(2) [of r m "[f]"] "2.prems" n write_nonempty [of f] by (cases "write_field f") auto
  ultimately show ?case using "2.prems"(1) n write_nonempty [of f] by (simp add: Let_def)
next
  case (3 n r acc)
  then show ?case by (cases n; cases r) (auto simp: Let_def skipSpaces_def)
next
  case (4 f fs)
  obtain m where n: "n = Suc m" using "4.prems"(3) by (cases n) auto
  have s: "stops (write_rest fs @ r)" using "4.prems"(2) by (cases fs; cases r) (auto simp: stops_def)
  have "parseField L m (write_field f @ write_rest fs @ r) = Inr (Some f, write_rest fs @ r)"
    using "4.IH"(1) [OF _ s] "4.prems" n by simp
  moreover have "parse_more L m (acc @ [f]) (write_rest fs @ r) = Inr (acc @ f # fs, r)"
    using "4.IH"(2) [of r m "acc @ [f]"] "4.prems" n by simp
  ultimately show ?case using n by (simp add: Let_def skipSpaces_def)
next
  case (5 name)
  then show ?case using read_ident [OF _ stops_ident, of name r] by (cases n) (auto simp: Let_def stops_def is_ident_def split: list.splits)
next
  case (6 name children)
  obtain m where n: "n = Suc m" using "6.prems"(3) by (cases n) auto
  have i: "is_ident name" "children \<noteq> []" "list_all plain_field children" using "6.prems"(1) by simp_all
  have rd: "readIdent (name @ 0x7B # writeSelection children @ 0x7D # r) = (name, 0x7B # writeSelection children @ 0x7D # r)"
    by (rule read_ident [OF i(1)]) (simp add: isIdentPart_def isIdentStart_def)
  have "parseList L m (writeSelection children @ 0x7D # r) = Inr (children, 0x7D # r)"
    using "6.IH" [OF i(2) i(3) i(2), of "0x7D # r" m] "6.prems"(3) n i by (simp add: stops_def)
  moreover have "name \<noteq> []" using i(1) by (auto simp: is_ident_def)
  ultimately show ?case using rd n i by (simp add: Let_def)
qed simp_all

lemma Format_Parse:
  assumes "Selection_Parse s = Inr sel"
  shows "Selection_Parse (Format sel) = Inr sel"
proof -
  obtain fs where fs: "parseList (length s) (2 * length s + 2) s = Inr (fs, [])" "sel = (if fs = [] then None else Some fs)"
    using assms by (auto simp: Selection_Parse_def split: sum.splits if_splits)
  show ?thesis
  proof (cases "fs = []")
    case True
    then show ?thesis using fs(2) by (simp add: Format_def Selection_Parse_def numeral_eq_Suc Let_def skipSpaces_def)
  next
    case False
    let ?t = "writeSelection fs"
    have "parseList (length ?t) (2 * length ?t + 2) (?t @ []) = Inr (fs, [])"
      using parse_plain(1) [OF fs(1)] False by (intro parse_printed(1)) (simp_all add: stops_def)
    then show ?thesis using False fs(2) by (simp add: Format_def Selection_Parse_def)
  qed
qed

section \<open>Properties\<close>

lemma EnsureField_selects: "selects (EnsureField sel n) [n] \<and> (selects sel p \<longrightarrow> selects (EnsureField sel n) p)"
  by (cases sel; cases p) (auto simp: EnsureField_def)

text \<open>C12: Printing a parsed selection and parsing it again gives the same selection.\<close>

theorem selection_roundtrip:
  assumes "Selection_Parse s = Inr sel"
  shows "Selection_Parse (Format sel) = Inr sel"
  using assms by (rule Format_Parse)

lemma selection_roundtrip_witness:
  "Selection_Parse (Format (Some [SelField [0x61] (Some [SelField [0x62] None])])) = Inr (Some [SelField [0x61] (Some [SelField [0x62] None])])"
  by (rule selection_roundtrip [of "[0x61, 0x20, 0x7B, 0x62, 0x20, 0x7D, 0x20]"])
    code_simp

text \<open>C13: A path is selected by the merge of two selections exactly when one of them selects it.\<close>

theorem merge_selects_both: "selects (Selection_Merge l r) p \<longleftrightarrow> selects l p \<or> selects r p"
  by (rule Selection_Merge_union)

text \<open>The parser of selections returns on every input.\<close>

theorem Selection_Parse_returns: "Selection_Parse input \<noteq> Inl SelectOutOfFuel"
  using parse_fueled(1) [of input "2 * length input + 2" "length input"]
  by (auto simp: Selection_Parse_def split: sum.split)

end
