(* ===== verification/Loader.thy ===== *)
theory Loader
  imports Selection
begin

text \<open>
  The data loader of pkg/lux/dataloader/loader.go: calls of Load within a window are collected in a batch, which asks
  the batch function once for all their keys, with one selection that covers all of theirs.

  The loader is a state machine. Load holds the mutex until the batch has its request; the timer of a batch and the call that
  fills it up both dispatch it, and sync.Once lets one of them run. Batches are numbered in the order they are made; scopes are the Done
  channels of contexts. The batch function is a parameter: it returns an error or the values by key; zero is the value of a key that it does not return.
  A caller whose context is done stops waiting, which changes nothing here.
\<close>

section \<open>Batches\<close>

record ('k, 'v, 'e) request =
  rqKey :: 'k
  rqFields :: "SelField list option"
  rqResult :: "('e + 'v) option"

record ('k, 'v, 'e) batch =
  btRequests :: "('k, 'v, 'e) request list"
  btFields :: "SelField list option"
  btHasRequest :: bool
  btSelectsAll :: bool
  btDone :: bool

definition newBatch :: "('k, 'v, 'e) batch" where
  "newBatch = \<lparr>btRequests = [], btFields = None, btHasRequest = False, btSelectsAll = False, btDone = False\<rparr>"

text \<open>A nil slice has length 0.\<close>

definition slice_of :: "SelField list option \<Rightarrow> SelField list" where
  "slice_of sel = (case sel of None \<Rightarrow> [] | Some fs \<Rightarrow> fs)"

fun sameSelection :: "SelField list \<Rightarrow> SelField list \<Rightarrow> bool" and same_field :: "SelField \<Rightarrow> SelField \<Rightarrow> bool" where
  "sameSelection [] right = (right = [])"
| "sameSelection (f # fs) right =
     (case right of [] \<Rightarrow> False | g # gs \<Rightarrow> same_field f g \<and> sameSelection fs gs)"
| "same_field (SelField m None) g = (m = selName g \<and> slice_of (selChildren g) = [])"
| "same_field (SelField m (Some fs)) g = (m = selName g \<and> sameSelection fs (slice_of (selChildren g)))"

definition batch_add :: "'k \<Rightarrow> SelField list option \<Rightarrow> ('k, 'v, 'e) batch \<Rightarrow> ('k, 'v, 'e) batch" where
  "batch_add k fs b =
     (let b = b\<lparr>btRequests := btRequests b @ [\<lparr>rqKey = k, rqFields = fs, rqResult = None\<rparr>]\<rparr> in
      if \<not> btHasRequest b then
        let b = b\<lparr>btHasRequest := True, btSelectsAll := fs = None\<rparr>
        in if fs \<noteq> None then b\<lparr>btFields := fs\<rparr> else b
      else if \<not> btSelectsAll b then
        if fs = None then b\<lparr>btSelectsAll := True, btFields := None\<rparr>
        else if \<not> sameSelection (slice_of (btFields b)) (slice_of fs) then b\<lparr>btFields := Selection_Merge (btFields b) fs\<rparr>
        else b
      else b)"

definition batch_size :: "('k, 'v, 'e) batch \<Rightarrow> nat" where
  "batch_size b = length (btRequests b)"

fun keys_loop :: "'k list \<Rightarrow> ('k, 'v, 'e) request list \<Rightarrow> 'k list" where
  "keys_loop keys [] = keys"
| "keys_loop keys (r # rs) = keys_loop (if rqKey r \<in> set keys then keys else keys @ [rqKey r]) rs"

definition batch_keys :: "('k, 'v, 'e) batch \<Rightarrow> 'k list" where
  "batch_keys b = keys_loop [] (btRequests b)"

definition mergedSelection :: "('k, 'v, 'e) batch \<Rightarrow> SelField list option" where
  "mergedSelection b = (if btSelectsAll b \<or> \<not> btHasRequest b then None else btFields b)"

type_synonym ('k, 'v, 'e) BatchFn = "'k list \<Rightarrow> SelField list option \<Rightarrow> 'e + ('k \<rightharpoonup> 'v)"

definition dispatchBatch :: "('k, 'v, 'e) BatchFn \<Rightarrow> 'v \<Rightarrow> ('k, 'v, 'e) batch \<Rightarrow> ('k, 'v, 'e) batch" where
  "dispatchBatch fn zero b =
     (if btDone b then b
      else let results = fn (batch_keys b) (mergedSelection b)
           in b\<lparr>btDone := True,
                btRequests := map (\<lambda>req. req\<lparr>rqResult := Some (case results of
                    Inl e \<Rightarrow> Inl e
                  | Inr m \<Rightarrow> Inr (case m (rqKey req) of None \<Rightarrow> zero | Some v \<Rightarrow> v))\<rparr>) (btRequests b)\<rparr>)"

definition LoadAll :: "('k, 'v, 'e) BatchFn \<Rightarrow> 'k list \<Rightarrow> SelField list option \<Rightarrow> 'e + ('k \<rightharpoonup> 'v)" where
  "LoadAll fn keys fs = (if keys = [] then Inr Map.empty else fn keys fs)"

section \<open>The loader\<close>

record ('k, 'v, 'e) Loader =
  ldMaxBatch :: int
  ldBatches :: "nat \<rightharpoonup> nat"
  ldHeap :: "('k, 'v, 'e) batch list"
  ldTimers :: "(nat \<times> nat) list"
  ldDispatch :: "nat list"

definition New_Loader :: "int \<Rightarrow> ('k, 'v, 'e) Loader" where
  "New_Loader n = \<lparr>ldMaxBatch = n, ldBatches = Map.empty, ldHeap = [], ldTimers = [], ldDispatch = []\<rparr>"

text \<open>Load, up to where it waits: a batch that is full leaves the map, and its caller will dispatch it after the mutex.\<close>

definition Load :: "nat \<Rightarrow> 'k \<Rightarrow> SelField list option \<Rightarrow> ('k, 'v, 'e) Loader \<Rightarrow> ('k, 'v, 'e) Loader" where
  "Load scope k fs l =
     (let (i, l) = (case ldBatches l scope of
            Some i \<Rightarrow> (i, l)
          | None \<Rightarrow> (length (ldHeap l),
              l\<lparr>ldBatches := (ldBatches l)(scope \<mapsto> length (ldHeap l)), ldHeap := ldHeap l @ [newBatch],
                ldTimers := ldTimers l @ [(scope, length (ldHeap l))]\<rparr>));
          b = batch_add k fs (ldHeap l ! i);
          l = l\<lparr>ldHeap := (ldHeap l)[i := b]\<rparr>
      in if ldMaxBatch l > 0 \<and> int (batch_size b) \<ge> ldMaxBatch l
         then l\<lparr>ldBatches := (ldBatches l)(scope := None), ldDispatch := ldDispatch l @ [i]\<rparr>
         else l)"

text \<open>The timer of a batch, up to its call of dispatchBatch.\<close>

definition flushBatch :: "nat \<Rightarrow> nat \<Rightarrow> ('k, 'v, 'e) Loader \<Rightarrow> ('k, 'v, 'e) Loader" where
  "flushBatch scope i l =
     (if ldBatches l scope = Some i then l\<lparr>ldBatches := (ldBatches l)(scope := None)\<rparr> else l)
       \<lparr>ldDispatch := ldDispatch l @ [i]\<rparr>"

definition dispatch_at :: "('k, 'v, 'e) BatchFn \<Rightarrow> 'v \<Rightarrow> nat \<Rightarrow> ('k, 'v, 'e) Loader \<Rightarrow> ('k, 'v, 'e) Loader" where
  "dispatch_at fn zero i l = l\<lparr>ldHeap := (ldHeap l)[i := dispatchBatch fn zero (ldHeap l ! i)]\<rparr>"

text \<open>A call of Load, a timer that fires, a goroutine that stands before dispatchBatch.\<close>

inductive loader_step :: "('k, 'v, 'e) BatchFn \<Rightarrow> 'v \<Rightarrow> ('k, 'v, 'e) Loader \<Rightarrow> ('k, 'v, 'e) Loader \<Rightarrow> bool" for fn zero where
  loads: "loader_step fn zero l (Load scope k fs l)"
| fires: "(scope, i) \<in> set (ldTimers l) \<Longrightarrow>
    loader_step fn zero l (flushBatch scope i (l\<lparr>ldTimers := remove1 (scope, i) (ldTimers l)\<rparr>))"
| dispatches: "i \<in> set (ldDispatch l) \<Longrightarrow>
    loader_step fn zero l (dispatch_at fn zero i (l\<lparr>ldDispatch := remove1 i (ldDispatch l)\<rparr>))"

section \<open>What a batch asks for\<close>

fun proper_field :: "SelField \<Rightarrow> bool" where
  "proper_field (SelField name None) = True"
| "proper_field (SelField name (Some fs)) = (fs \<noteq> [] \<and> list_all proper_field fs)"

text \<open>No field has a list of children that is empty and not nil; the parser makes none.\<close>

definition proper :: "SelField list option \<Rightarrow> bool" where
  "proper sel = list_all proper_field (slice_of sel)"

lemma proper_Some [simp]: "proper (Some fs) = list_all proper_field fs" "proper None"
  by (simp_all add: proper_def slice_of_def)

lemma plain_proper: "plain_field f \<Longrightarrow> proper_field f"
  by (induction f rule: plain_field.induct) (auto simp: list_all_iff)

lemma sameSelection_nil [simp]: "sameSelection fs [] = (fs = [])"
  by (cases fs) simp_all

lemma selects_None [simp]: "selects None p"
  by (cases p) simp_all

lemma sameSelection_covers:
  "sameSelection fs gs \<Longrightarrow> list_all proper_field fs \<Longrightarrow> selects (Some gs) p \<Longrightarrow> selects (Some fs) p"
  "same_field f g \<Longrightarrow> proper_field f \<Longrightarrow> selName f = selName g \<and> (selects (selChildren g) p \<longrightarrow> selects (selChildren f) p)"
proof (induction fs gs and f g arbitrary: p and p rule: sameSelection_same_field.induct)
  case (2 f fs right)
  obtain g gs where g: "right = g # gs" "same_field f g" "sameSelection fs gs" using "2.prems"(1) by (auto split: list.splits)
  show ?case
  proof (cases p)
    case (Cons n q)
    have "selects (Some gs) (n # q) \<Longrightarrow> selects (Some fs) (n # q)" using "2.IH"(2) [OF g(1,3), of "n # q"] "2.prems"(2) by (simp del: selects.simps)
    moreover have "selName f = selName g \<and> (selects (selChildren g) q \<longrightarrow> selects (selChildren f) q)"
      using "2.IH"(1) [OF g(1,2)] "2.prems"(2) by simp
    ultimately show ?thesis using "2.prems"(3) unfolding Cons g(1) by auto
  qed simp
next
  case (4 m fs g)
  then show ?case by (cases "selChildren g") (auto simp: slice_of_def simp del: selects.simps(3))
qed (auto split: list.splits)

lemma merge_loop_length: "length result \<le> length (merge_loop result m fs)"
  by (induction result m fs rule: merge_loop.induct) (auto split: option.splits simp del: fun_upd_apply)

lemma merge_loop_proper:
  "positions_ok result m \<Longrightarrow> list_all proper_field result \<Longrightarrow> list_all proper_field fs \<Longrightarrow> list_all proper_field (merge_loop result m fs)"
proof (induction result m fs rule: merge_loop.induct)
  case (2 result m name children fs)
  show ?case
  proof (cases "m name")
    case None
    have "positions_ok (result @ [SelField name children]) (m(name \<mapsto> length result))"
      using positions_ok_from [OF "2.prems"(1), of "[SelField name children]"] by simp
    then show ?thesis using "2.IH"(1) [OF None] "2.prems" None by (simp del: fun_upd_apply)
  next
    case (Some i)
    have i: "i < length result" "selName (result ! i) = name" using "2.prems" Some by (auto simp: positions_ok_def)
    let ?c = "case selChildren (result ! i) of None \<Rightarrow> None | Some l \<Rightarrow> (case children of None \<Rightarrow> None
                | Some r \<Rightarrow> Some (merge_loop l (positions_from 0 l Map.empty) r))"
    have "proper_field (result ! i)" using "2.prems"(2) i by (simp add: list_all_length)
    then have l: "l \<noteq> [] \<and> list_all proper_field l" if "selChildren (result ! i) = Some l" for l using that by (cases "result ! i") auto
    have "proper_field (SelField name ?c)"
    proof (cases "selChildren (result ! i)"; cases children)
      fix ls r
      assume lr: "selChildren (result ! i) = Some ls" "children = Some r"
      have "list_all proper_field (merge_loop ls (positions_from 0 ls Map.empty) r)"
        using "2.IH"(2) [OF Some lr] l [OF lr(1)] "2.prems"(3) lr(2) positions_ok_start by simp
      moreover have "merge_loop ls (positions_from 0 ls Map.empty) r \<noteq> []"
        using merge_loop_length [of ls "positions_from 0 ls Map.empty" r] l [OF lr(1)] by auto
      ultimately show ?thesis by (simp add: lr)
    qed simp_all
    then have "list_all proper_field (result[i := SelField name ?c])"
      using "2.prems"(2) set_update_subset_insert [of result i] by (fastforce simp: list_all_iff)
    moreover have "positions_ok (result[i := SelField name ?c]) m"
      using positions_ok_update [OF "2.prems"(1) i(1), of "SelField name ?c"] i(2) by simp
    ultimately show ?thesis
      using "2.IH"(3) [OF Some, unfolded cloneField_map i(2)] "2.prems"(3) Some i(2)
      by (simp only: merge_loop.simps option.case cloneField_map list.pred_inject(2))
  qed
qed simp

lemma merge_proper: "proper l \<Longrightarrow> proper r \<Longrightarrow> proper (Selection_Merge l r)"
  by (auto simp: Selection_Merge_def positions_ok_start intro: merge_loop_proper split: option.split)

section \<open>The requests of a batch\<close>

lemma keys_loop_set: "set (keys_loop ks rs) = set ks \<union> rqKey ` set rs"
  by (induction ks rs rule: keys_loop.induct) auto

lemma keys_loop_distinct: "distinct ks \<Longrightarrow> distinct (keys_loop ks rs)"
  by (induction ks rs rule: keys_loop.induct) auto

definition covers :: "('k, 'v, 'e) batch \<Rightarrow> bool" where
  "covers b \<longleftrightarrow> proper (btFields b) \<and> (\<forall>r \<in> set (btRequests b). \<forall>p. selects (rqFields r) p \<longrightarrow> selects (mergedSelection b) p)"

definition batch_ok :: "('k, 'v, 'e) batch \<Rightarrow> bool" where
  "batch_ok b \<longleftrightarrow>
     (btHasRequest b \<longleftrightarrow> btRequests b \<noteq> []) \<and> (btHasRequest b \<and> \<not> btSelectsAll b \<longrightarrow> btFields b \<noteq> None) \<and>
     ((\<forall>r \<in> set (btRequests b). proper (rqFields r)) \<longrightarrow> covers b)"

lemma newBatch_ok: "batch_ok newBatch"
  by (simp add: batch_ok_def newBatch_def covers_def)

lemma batch_add_ok:
  assumes "batch_ok b"
  shows "batch_ok (batch_add k fs b)"
proof (cases "btHasRequest b")
  case False
  then show ?thesis using assms by (cases fs) (auto simp: batch_ok_def batch_add_def Let_def covers_def mergedSelection_def)
next
  case True
  show ?thesis
  proof (cases "btSelectsAll b \<or> fs = None")
    case True
    with \<open>btHasRequest b\<close> show ?thesis using assms by (auto simp: batch_ok_def batch_add_def Let_def covers_def mergedSelection_def)
  next
    case False
    then obtain gs where gs: "fs = Some gs" by auto
    obtain hs where hs: "btFields b = Some hs" using assms True False by (auto simp: batch_ok_def)
    have c: "covers b" if "\<forall>r \<in> set (btRequests b). proper (rqFields r)" using assms that by (simp add: batch_ok_def)
    show ?thesis
    proof (cases "sameSelection hs gs")
      case same: True
      have "batch_add k fs b = b\<lparr>btRequests := btRequests b @ [\<lparr>rqKey = k, rqFields = fs, rqResult = None\<rparr>]\<rparr>"
        using True False same gs hs by (simp add: batch_add_def Let_def slice_of_def)
      then show ?thesis
        using assms c sameSelection_covers(1) [OF same] True False gs hs by (auto simp: batch_ok_def covers_def mergedSelection_def)
    next
      case other: False
      have "batch_add k fs b = b\<lparr>btRequests := btRequests b @ [\<lparr>rqKey = k, rqFields = fs, rqResult = None\<rparr>],
          btFields := Selection_Merge (Some hs) fs\<rparr>"
        using True False other gs hs by (simp add: batch_add_def Let_def slice_of_def)
      moreover have "Selection_Merge (Some hs) fs \<noteq> None" by (simp add: gs Selection_Merge_def)
      ultimately show ?thesis
        using assms c merge_proper [of "Some hs" fs] True False gs hs
        by (auto simp: batch_ok_def covers_def mergedSelection_def Selection_Merge_union)
    qed
  qed
qed

section \<open>The states of the loader\<close>

definition answer :: "('k, 'v, 'e) BatchFn \<Rightarrow> 'v \<Rightarrow> ('k, 'v, 'e) batch \<Rightarrow> 'k \<Rightarrow> 'e + 'v" where
  "answer fn zero b k =
     (case fn (batch_keys b) (mergedSelection b) of
        Inl e \<Rightarrow> Inl e
      | Inr m \<Rightarrow> Inr (case m k of None \<Rightarrow> zero | Some v \<Rightarrow> v))"

definition batch_state :: "('k, 'v, 'e) BatchFn \<Rightarrow> 'v \<Rightarrow> ('k, 'v, 'e) batch \<Rightarrow> bool" where
  "batch_state fn zero b \<longleftrightarrow>
     (\<forall>r \<in> set (btRequests b). rqResult r = (if btDone b then Some (answer fn zero b (rqKey r)) else None))"

text \<open>A batch that is waiting has its timer, and one that has left the map and is not done has a goroutine that will dispatch it.\<close>

definition loader_ok :: "('k, 'v, 'e) BatchFn \<Rightarrow> 'v \<Rightarrow> ('k, 'v, 'e) Loader \<Rightarrow> bool" where
  "loader_ok fn zero l \<longleftrightarrow>
     (\<forall>i < length (ldHeap l). batch_ok (ldHeap l ! i) \<and> batch_state fn zero (ldHeap l ! i) \<and>
        (ldMaxBatch l > 0 \<longrightarrow> int (batch_size (ldHeap l ! i)) \<le> ldMaxBatch l)) \<and>
     (\<forall>s i. ldBatches l s = Some i \<longrightarrow>
        i < length (ldHeap l) \<and> \<not> btDone (ldHeap l ! i) \<and> i \<notin> set (ldDispatch l) \<and> (s, i) \<in> set (ldTimers l) \<and>
        (ldMaxBatch l > 0 \<longrightarrow> int (batch_size (ldHeap l ! i)) < ldMaxBatch l)) \<and>
     (\<forall>s t i. ldBatches l s = Some i \<longrightarrow> ldBatches l t = Some i \<longrightarrow> s = t) \<and>
     (\<forall>x \<in> set (ldTimers l). snd x < length (ldHeap l) \<and> (\<forall>y \<in> set (ldTimers l). snd y = snd x \<longrightarrow> y = x)) \<and> (\<forall>i \<in> set (ldDispatch l). i < length (ldHeap l)) \<and>
     (\<forall>i < length (ldHeap l). btDone (ldHeap l ! i) \<or> i \<in> set (ldDispatch l) \<or> i \<in> snd ` set (ldTimers l))"

lemma loader_okD:
  assumes "loader_ok fn zero l"
  shows "i < length (ldHeap l) \<Longrightarrow> batch_ok (ldHeap l ! i) \<and> batch_state fn zero (ldHeap l ! i) \<and>
        (ldMaxBatch l > 0 \<longrightarrow> int (batch_size (ldHeap l ! i)) \<le> ldMaxBatch l)"
    and "ldBatches l s = Some i \<Longrightarrow>
        i < length (ldHeap l) \<and> \<not> btDone (ldHeap l ! i) \<and> i \<notin> set (ldDispatch l) \<and> (s, i) \<in> set (ldTimers l) \<and>
        (ldMaxBatch l > 0 \<longrightarrow> int (batch_size (ldHeap l ! i)) < ldMaxBatch l)"
    and "ldBatches l s = Some i \<Longrightarrow> ldBatches l t = Some i \<Longrightarrow> s = t"
    and "x \<in> set (ldTimers l) \<Longrightarrow> snd x < length (ldHeap l) \<and> (\<forall>y \<in> set (ldTimers l). snd y = snd x \<longrightarrow> y = x)"
    and "i \<in> set (ldDispatch l) \<Longrightarrow> i < length (ldHeap l)"
    and "i < length (ldHeap l) \<Longrightarrow> btDone (ldHeap l ! i) \<or> i \<in> set (ldDispatch l) \<or> i \<in> snd ` set (ldTimers l)"
  using assms unfolding loader_ok_def by blast+

lemma loader_okI:
  assumes "\<And>i. i < length (ldHeap l) \<Longrightarrow> batch_ok (ldHeap l ! i) \<and> batch_state fn zero (ldHeap l ! i) \<and>
        (ldMaxBatch l > 0 \<longrightarrow> int (batch_size (ldHeap l ! i)) \<le> ldMaxBatch l)"
    and "\<And>s i. ldBatches l s = Some i \<Longrightarrow>
        i < length (ldHeap l) \<and> \<not> btDone (ldHeap l ! i) \<and> i \<notin> set (ldDispatch l) \<and> (s, i) \<in> set (ldTimers l) \<and>
        (ldMaxBatch l > 0 \<longrightarrow> int (batch_size (ldHeap l ! i)) < ldMaxBatch l)"
    and "\<And>s t i. ldBatches l s = Some i \<Longrightarrow> ldBatches l t = Some i \<Longrightarrow> s = t"
    and "\<And>x. x \<in> set (ldTimers l) \<Longrightarrow> snd x < length (ldHeap l) \<and> (\<forall>y \<in> set (ldTimers l). snd y = snd x \<longrightarrow> y = x)"
    and "\<And>i. i \<in> set (ldDispatch l) \<Longrightarrow> i < length (ldHeap l)"
    and "\<And>i. i < length (ldHeap l) \<Longrightarrow> btDone (ldHeap l ! i) \<or> i \<in> set (ldDispatch l) \<or> i \<in> snd ` set (ldTimers l)"
  shows "loader_ok fn zero l"
  using assms unfolding loader_ok_def by blast

lemma New_Loader_ok: "loader_ok fn zero (New_Loader n)"
  by (simp add: loader_ok_def New_Loader_def)

lemma newBatch_facts: "batch_state fn zero newBatch" "batch_size newBatch = 0" "\<not> btDone newBatch"
  by (simp_all add: batch_state_def newBatch_def batch_size_def)

lemma open_ok:
  assumes ok: "loader_ok fn zero l" and fresh: "ldBatches l scope = None"
  defines "m \<equiv> l\<lparr>ldBatches := (ldBatches l)(scope \<mapsto> length (ldHeap l)), ldHeap := ldHeap l @ [newBatch],
                ldTimers := ldTimers l @ [(scope, length (ldHeap l))]\<rparr>"
  shows "loader_ok fn zero m" "ldBatches m scope = Some (length (ldHeap l))"
proof -
  note d = loader_okD [OF ok]
  show "ldBatches m scope = Some (length (ldHeap l))" by (simp add: m_def)
  have old: "ldHeap m ! i = ldHeap l ! i" if "i < length (ldHeap l)" for i using that by (simp add: m_def nth_append)
  have last: "ldHeap m ! length (ldHeap l) = newBatch" "length (ldHeap m) = Suc (length (ldHeap l))" by (simp_all add: m_def)
  have rest: "ldMaxBatch m = ldMaxBatch l" "ldDispatch m = ldDispatch l" "set (ldTimers m) = insert (scope, length (ldHeap l)) (set (ldTimers l))"
    "ldBatches m s = (if s = scope then Some (length (ldHeap l)) else ldBatches l s)" for s by (simp_all add: m_def)
  show "loader_ok fn zero m"
  proof (rule loader_okI)
    show "batch_ok (ldHeap m ! i) \<and> batch_state fn zero (ldHeap m ! i) \<and>
        (ldMaxBatch m > 0 \<longrightarrow> int (batch_size (ldHeap m ! i)) \<le> ldMaxBatch m)" if "i < length (ldHeap m)" for i
      using d(1) [of i] old [of i] that last rest(1) by (cases "i = length (ldHeap l)") (simp_all add: newBatch_facts newBatch_ok)
    show "i < length (ldHeap m) \<and> \<not> btDone (ldHeap m ! i) \<and> i \<notin> set (ldDispatch m) \<and> (s, i) \<in> set (ldTimers m) \<and>
        (ldMaxBatch m > 0 \<longrightarrow> int (batch_size (ldHeap m ! i)) < ldMaxBatch m)" if "ldBatches m s = Some i" for s i
      using d(2) [of s i] d(5) [of "length (ldHeap l)"] old [of i] that last rest by (cases "s = scope") (auto simp: newBatch_facts)
    show "s = t" if "ldBatches m s = Some i" "ldBatches m t = Some i" for s t i
      using d(2) [of s i] d(2) [of t i] d(3) [of s i t] that rest(4) by (simp split: if_splits)
    show "snd x < length (ldHeap m) \<and> (\<forall>y \<in> set (ldTimers m). snd y = snd x \<longrightarrow> y = x)" if "x \<in> set (ldTimers m)" for x
      using d(4) that unfolding rest(3) last(2) by fastforce
    show "i < length (ldHeap m)" if "i \<in> set (ldDispatch m)" for i using d(5) [of i] that rest last by simp
    show "btDone (ldHeap m ! i) \<or> i \<in> set (ldDispatch m) \<or> i \<in> snd ` set (ldTimers m)" if "i < length (ldHeap m)" for i
      using d(6) [of i] old [of i] that last rest by (cases "i = length (ldHeap l)") auto
  qed
qed

lemma batch_add_frame [simp]:
  "btDone (batch_add k fs b) = btDone b" "btRequests (batch_add k fs b) = btRequests b @ [\<lparr>rqKey = k, rqFields = fs, rqResult = None\<rparr>]"
  by (simp_all add: batch_add_def Let_def)

lemma add_ok:
  assumes ok: "loader_ok fn zero l" and i: "ldBatches l scope = Some i"
  shows "loader_ok fn zero (Load scope k fs l)"
proof -
  note d = loader_okD [OF ok]
  note di = d(2) [OF i]
  let ?b = "batch_add k fs (ldHeap l ! i)"
  let ?full = "ldMaxBatch l > 0 \<and> int (batch_size ?b) \<ge> ldMaxBatch l"
  define m where "m = Load scope k fs l"
  have m: "ldHeap m = (ldHeap l)[i := ?b]" "ldMaxBatch m = ldMaxBatch l" "ldTimers m = ldTimers l"
    "ldDispatch m = (if ?full then ldDispatch l @ [i] else ldDispatch l)"
    "ldBatches m s = (if ?full \<and> s = scope then None else ldBatches l s)" for s
    by (simp_all add: m_def Load_def i Let_def)
  have sz: "batch_size ?b = Suc (batch_size (ldHeap l ! i))" by (simp add: batch_size_def)
  have b: "batch_ok ?b" "batch_state fn zero ?b" "\<not> btDone ?b"
    using di d(1) [of i] batch_add_ok [of "ldHeap l ! i" k fs] by (auto simp: batch_state_def)
  have at: "ldHeap m ! j = (if j = i then ?b else ldHeap l ! j)" if "j < length (ldHeap l)" for j using that di by (simp add: m)
  have len: "length (ldHeap m) = length (ldHeap l)" by (simp add: m)
  have "loader_ok fn zero m"
  proof (rule loader_okI)
    show "batch_ok (ldHeap m ! j) \<and> batch_state fn zero (ldHeap m ! j) \<and>
        (ldMaxBatch m > 0 \<longrightarrow> int (batch_size (ldHeap m ! j)) \<le> ldMaxBatch m)" if "j < length (ldHeap m)" for j
      using d(1) [of j] that b sz di at [of j] by (cases "j = i"; cases "ldMaxBatch l > 0") (simp_all add: len m(2))
    show "j < length (ldHeap m) \<and> \<not> btDone (ldHeap m ! j) \<and> j \<notin> set (ldDispatch m) \<and> (s, j) \<in> set (ldTimers m) \<and>
        (ldMaxBatch m > 0 \<longrightarrow> int (batch_size (ldHeap m ! j)) < ldMaxBatch m)" if h: "ldBatches m s = Some j" for s j
    proof -
      have j: "ldBatches l s = Some j" "\<not> (?full \<and> s = scope)" using h by (simp_all add: m(5) split: if_splits)
      have "j = i \<Longrightarrow> s = scope" using d(3) [OF j(1), of scope] i by simp
      then show ?thesis using d(2) [OF j(1)] j(2) b at [of j] by (cases "j = i") (auto simp: len m(2,3,4))
    qed
    show "s = t" if "ldBatches m s = Some j" "ldBatches m t = Some j" for s t j
      using d(3) [of s j t] that by (simp add: m(5) split: if_splits)
    show "snd x < length (ldHeap m) \<and> (\<forall>y \<in> set (ldTimers m). snd y = snd x \<longrightarrow> y = x)" if "x \<in> set (ldTimers m)" for x
      using d(4) [of x] that by (simp add: m(3) len)
    show "j < length (ldHeap m)" if "j \<in> set (ldDispatch m)" for j using d(5) [of j] that di by (auto simp: m(4) len split: if_splits)
    show "btDone (ldHeap m ! j) \<or> j \<in> set (ldDispatch m) \<or> j \<in> snd ` set (ldTimers m)" if "j < length (ldHeap m)" for j
      using d(6) [of j] that at [of j] di by (auto simp: len m(3,4))
  qed
  then show ?thesis by (simp add: m_def)
qed

lemma Load_ok:
  assumes "loader_ok fn zero l"
  shows "loader_ok fn zero (Load scope k fs l)"
proof (cases "ldBatches l scope")
  case None
  note o = open_ok [OF assms None]
  have "Load scope k fs l = Load scope k fs (l\<lparr>ldBatches := (ldBatches l)(scope \<mapsto> length (ldHeap l)), ldHeap := ldHeap l @ [newBatch],
                ldTimers := ldTimers l @ [(scope, length (ldHeap l))]\<rparr>)"
    using None by (simp add: Load_def Let_def)
  then show ?thesis using add_ok [OF o] by simp
qed (rule add_ok [OF assms])

lemma flush_ok:
  assumes ok: "loader_ok fn zero l" and t: "(scope, i) \<in> set (ldTimers l)"
  shows "loader_ok fn zero (flushBatch scope i (l\<lparr>ldTimers := remove1 (scope, i) (ldTimers l)\<rparr>))"
proof -
  note d = loader_okD [OF ok]
  define m where "m = flushBatch scope i (l\<lparr>ldTimers := remove1 (scope, i) (ldTimers l)\<rparr>)"
  have m: "ldHeap m = ldHeap l" "ldMaxBatch m = ldMaxBatch l" "ldTimers m = remove1 (scope, i) (ldTimers l)"
    "ldDispatch m = ldDispatch l @ [i]" "ldBatches m s = (if ldBatches l scope = Some i \<and> s = scope then None else ldBatches l s)" for s
    by (simp_all add: m_def flushBatch_def)
  have i: "i < length (ldHeap l)" using d(4) [OF t] by simp
  have "loader_ok fn zero m"
  proof (rule loader_okI)
    show "j < length (ldHeap m) \<and> \<not> btDone (ldHeap m ! j) \<and> j \<notin> set (ldDispatch m) \<and> (s, j) \<in> set (ldTimers m) \<and>
        (ldMaxBatch m > 0 \<longrightarrow> int (batch_size (ldHeap m ! j)) < ldMaxBatch m)" if h: "ldBatches m s = Some j" for s j
    proof -
      have j: "ldBatches l s = Some j" "\<not> (ldBatches l scope = Some i \<and> s = scope)" using h by (simp_all add: m(5) split: if_splits)
      have "j \<noteq> i \<or> s \<noteq> scope" using j by auto
      moreover have "j = i \<Longrightarrow> s = scope"
      proof -
        assume "j = i"
        then have "(s, i) \<in> set (ldTimers l)" using d(2) [OF j(1)] by simp
        then show "s = scope" using d(4) [OF t] by auto
      qed
      ultimately show ?thesis using d(2) [OF j(1)] by (auto simp: m)
    qed
    show "s = t" if "ldBatches m s = Some j" "ldBatches m t = Some j" for s t j
      using d(3) [of s j t] that by (simp add: m(5) split: if_splits)
    show "snd x < length (ldHeap m) \<and> (\<forall>y \<in> set (ldTimers m). snd y = snd x \<longrightarrow> y = x)" if "x \<in> set (ldTimers m)" for x
      using d(4) [of x] set_remove1_subset [of "(scope, i)" "ldTimers l"] that unfolding m(1,3) by blast
    show "j < length (ldHeap m)" if "j \<in> set (ldDispatch m)" for j using d(5) [of j] that i by (auto simp: m)
    show "btDone (ldHeap m ! j) \<or> j \<in> set (ldDispatch m) \<or> j \<in> snd ` set (ldTimers m)" if "j < length (ldHeap m)" for j
    proof (cases "j = i")
      case False
      have "j \<in> snd ` set (ldTimers m)" if x: "(s, j) \<in> set (ldTimers l)" for s
      proof -
        have "(s, j) \<in> set (ldTimers m)" using x False by (simp add: m(3))
        then show ?thesis by force
      qed
      then show ?thesis using d(6) [of j] that by (auto simp: m(1,4))
    qed (simp add: m)
  qed (use d(1) in \<open>simp add: m\<close>)
  then show ?thesis by (simp add: m_def)
qed


lemma keys_loop_results: "keys_loop ks (map (\<lambda>r. r\<lparr>rqResult := h r\<rparr>) rs) = keys_loop ks rs"
  by (induction ks rs rule: keys_loop.induct) (auto split: if_splits)

lemma dispatch_frame:
  "batch_keys (dispatchBatch fn zero b) = batch_keys b" "mergedSelection (dispatchBatch fn zero b) = mergedSelection b"
  "batch_size (dispatchBatch fn zero b) = batch_size b" "btDone (dispatchBatch fn zero b)"
  by (simp_all add: dispatchBatch_def Let_def batch_keys_def keys_loop_results mergedSelection_def batch_size_def)

lemma dispatchBatch_ok:
  assumes "batch_ok b" "batch_state fn zero b"
  shows "batch_ok (dispatchBatch fn zero b)" "batch_state fn zero (dispatchBatch fn zero b)"
proof -
  show "batch_ok (dispatchBatch fn zero b)"
    using assms(1) by (auto simp: dispatchBatch_def Let_def batch_ok_def covers_def mergedSelection_def)
  show "batch_state fn zero (dispatchBatch fn zero b)"
  proof (cases "btDone b")
    case False
    have "answer fn zero (dispatchBatch fn zero b) = answer fn zero b" by (rule ext) (simp add: answer_def dispatch_frame)
    then show ?thesis
      using False unfolding batch_state_def
      by (cases "fn (batch_keys b) (mergedSelection b)") (auto simp: dispatchBatch_def Let_def answer_def)
  qed (use assms(2) in \<open>simp add: dispatchBatch_def\<close>)
qed

lemma dispatch_ok:
  assumes ok: "loader_ok fn zero l" and t: "i \<in> set (ldDispatch l)"
  shows "loader_ok fn zero (dispatch_at fn zero i (l\<lparr>ldDispatch := remove1 i (ldDispatch l)\<rparr>))"
proof -
  note d = loader_okD [OF ok]
  have i: "i < length (ldHeap l)" using d(5) [OF t] .
  let ?b = "dispatchBatch fn zero (ldHeap l ! i)"
  define m where "m = dispatch_at fn zero i (l\<lparr>ldDispatch := remove1 i (ldDispatch l)\<rparr>)"
  have m: "ldHeap m = (ldHeap l)[i := ?b]" "ldMaxBatch m = ldMaxBatch l" "ldTimers m = ldTimers l"
    "ldDispatch m = remove1 i (ldDispatch l)" "ldBatches m = ldBatches l"
    by (simp_all add: m_def dispatch_at_def)
  have at: "ldHeap m ! j = (if j = i then ?b else ldHeap l ! j)" if "j < length (ldHeap l)" for j using that i by (simp add: m)
  have sub: "set (ldDispatch m) \<subseteq> set (ldDispatch l)" by (simp add: m(4) set_remove1_subset)
  have len: "length (ldHeap m) = length (ldHeap l)" by (simp add: m)
  have "loader_ok fn zero m"
  proof (rule loader_okI)
    show "batch_ok (ldHeap m ! j) \<and> batch_state fn zero (ldHeap m ! j) \<and>
        (ldMaxBatch m > 0 \<longrightarrow> int (batch_size (ldHeap m ! j)) \<le> ldMaxBatch m)" if "j < length (ldHeap m)" for j
      using d(1) [of j] that at [of j] dispatchBatch_ok [of "ldHeap l ! i" fn zero]
      by (cases "j = i") (simp_all add: len m(2) dispatch_frame)
    show "j < length (ldHeap m) \<and> \<not> btDone (ldHeap m ! j) \<and> j \<notin> set (ldDispatch m) \<and> (s, j) \<in> set (ldTimers m) \<and>
        (ldMaxBatch m > 0 \<longrightarrow> int (batch_size (ldHeap m ! j)) < ldMaxBatch m)" if h: "ldBatches m s = Some j" for s j
    proof -
      have j: "ldBatches l s = Some j" using h by (simp add: m)
      have "j \<noteq> i" using d(2) [OF j] t by auto
      then show ?thesis using d(2) [OF j] at [of j] sub by (auto simp: len m(2,3))
    qed
    show "s = t" if "ldBatches m s = Some j" "ldBatches m t = Some j" for s t j
      using d(3) [of s j t] that by (simp add: m(5))
    show "snd x < length (ldHeap m) \<and> (\<forall>y \<in> set (ldTimers m). snd y = snd x \<longrightarrow> y = x)" if "x \<in> set (ldTimers m)" for x
      using d(4) [of x] that by (simp add: m(3) len)
    show "j < length (ldHeap m)" if "j \<in> set (ldDispatch m)" for j using d(5) [of j] that sub by (auto simp: len)
    show "btDone (ldHeap m ! j) \<or> j \<in> set (ldDispatch m) \<or> j \<in> snd ` set (ldTimers m)" if "j < length (ldHeap m)" for j
      using d(6) [of j] that at [of j] by (cases "j = i") (auto simp: len m(3,4) dispatch_frame)
  qed
  then show ?thesis by (simp add: m_def)
qed

lemma loader_step_ok: "loader_step fn zero l m \<Longrightarrow> loader_ok fn zero l \<Longrightarrow> loader_ok fn zero m"
proof (induction rule: loader_step.induct)
  case (loads l scope k fs)
  then show ?case by (rule Load_ok)
next
  case (fires scope i l)
  show ?case by (rule flush_ok [OF fires(2,1)])
next
  case (dispatches i l)
  show ?case by (rule dispatch_ok [OF dispatches(2,1)])
qed

lemma loader_reachable_ok: "(loader_step fn zero)\<^sup>*\<^sup>* (New_Loader n) l \<Longrightarrow> loader_ok fn zero l"
  by (induction rule: rtranclp_induct) (auto simp: New_Loader_ok loader_step_ok)

lemma ldMaxBatch_step: "loader_step fn zero l m \<Longrightarrow> ldMaxBatch m = ldMaxBatch l"
proof (induction rule: loader_step.induct)
  case (loads l scope k fs)
  show ?case by (cases "ldBatches l scope") (simp_all add: Load_def Let_def)
qed (simp_all add: flushBatch_def dispatch_at_def)

lemma ldMaxBatch_reachable: "(loader_step fn zero)\<^sup>*\<^sup>* (New_Loader n) l \<Longrightarrow> ldMaxBatch l = n"
  by (induction rule: rtranclp_induct) (simp_all add: New_Loader_def ldMaxBatch_step)

text \<open>Two loads that fill a batch, which is then dispatched.\<close>

definition sample_loader :: "(nat, nat, unit) Loader" where
  "sample_loader =
     \<lparr>ldMaxBatch = 2, ldBatches = Map.empty,
      ldHeap = [\<lparr>btRequests =
          [\<lparr>rqKey = 7, rqFields = Some [SelField [0x61] None], rqResult = Some (Inr 14)\<rparr>,
           \<lparr>rqKey = 7, rqFields = Some [SelField [0x62] None], rqResult = Some (Inr 14)\<rparr>],
        btFields = Some [SelField [0x61] None, SelField [0x62] None], btHasRequest = True, btSelectsAll = False, btDone = True\<rparr>],
      ldTimers = [], ldDispatch = []\<rparr>"

definition double :: "(nat, nat, unit) BatchFn" where
  "double ks sel = Inr (\<lambda>k. Some (2 * k))"

lemma sample_loads: "(loader_step double 0)\<^sup>*\<^sup>* (New_Loader 2) sample_loader"
proof -
  let ?a = "Load 0 7 (Some [SelField [0x61] None]) (New_Loader 2 :: (nat, nat, unit) Loader)"
  let ?b = "Load 0 7 (Some [SelField [0x62] None]) ?a"
  let ?c = "flushBatch 0 0 (?b\<lparr>ldTimers := remove1 (0, 0) (ldTimers ?b)\<rparr>)"
  let ?d = "dispatch_at double 0 0 (?c\<lparr>ldDispatch := remove1 0 (ldDispatch ?c)\<rparr>)"
  let ?e = "dispatch_at double 0 0 (?d\<lparr>ldDispatch := remove1 0 (ldDispatch ?d)\<rparr>)"
  note defs = Load_def New_Loader_def Let_def batch_add_def newBatch_def slice_of_def batch_size_def flushBatch_def dispatch_at_def
      dispatchBatch_def double_def batch_keys_def mergedSelection_def Selection_Merge_def
  have t: "(0, 0) \<in> set (ldTimers ?b)" "0 \<in> set (ldDispatch ?c)" "0 \<in> set (ldDispatch ?d)"
    by (simp_all add: defs)
  have e: "?e = sample_loader" by (simp add: defs sample_loader_def)
  have "(loader_step double 0)\<^sup>*\<^sup>* (New_Loader 2) ?a" by (rule r_into_rtranclp) (rule loads)
  then have "(loader_step double 0)\<^sup>*\<^sup>* (New_Loader 2) ?b" by (rule rtranclp.rtrancl_into_rtrancl) (rule loads)
  then have "(loader_step double 0)\<^sup>*\<^sup>* (New_Loader 2) ?c" by (rule rtranclp.rtrancl_into_rtrancl) (rule fires [OF t(1)])
  then have "(loader_step double 0)\<^sup>*\<^sup>* (New_Loader 2) ?d" by (rule rtranclp.rtrancl_into_rtrancl) (rule dispatches [OF t(2)])
  then have "(loader_step double 0)\<^sup>*\<^sup>* (New_Loader 2) ?e" by (rule rtranclp.rtrancl_into_rtrancl) (rule dispatches [OF t(3)])
  then show ?thesis unfolding e .
qed

section \<open>Properties\<close>



text \<open>C11: No call of Load waits for ever: when no timer is pending and no goroutine is about to dispatch a batch, no
  batch is open and every request has its result.\<close>

theorem Loader_complete:
  assumes "(loader_step fn zero)\<^sup>*\<^sup>* (New_Loader n) l" "ldTimers l = []" "ldDispatch l = []"
  shows "ldBatches l = Map.empty \<and> list_all (\<lambda>b. list_all (\<lambda>r. rqResult r \<noteq> None) (btRequests b)) (ldHeap l)"
proof
  note d = loader_okD [OF loader_reachable_ok [OF assms(1)]]
  show "ldBatches l = Map.empty"
    using d(2) assms(2) by (auto intro!: ext dest: sym) (metis empty_iff list.set(1) option.exhaust)
  show "list_all (\<lambda>b. list_all (\<lambda>r. rqResult r \<noteq> None) (btRequests b)) (ldHeap l)"
    unfolding list_all_length using d(1,6) assms(2,3) by (auto simp: batch_state_def list_all_iff)
qed

lemma Loader_complete_witness: "list_all (\<lambda>r. rqResult r \<noteq> None) (btRequests (ldHeap sample_loader ! 0))"
  using Loader_complete [OF sample_loads] by (simp add: sample_loader_def)

end
