(* ===== verification/Ratelimit.thy ===== *)
theory Ratelimit
  imports Prelude
begin

text \<open>
  The rate limiter of pkg/lux/ratelimit/ratelimit.go: a token bucket for each key, in 32 shards, with buckets that are long unused
  removed at every 256th check of a shard. Times and durations are integers, in nanoseconds: the code's int64 would overflow
  after 292 years. The clock is an argument of Allow. Each shard has its mutex, so the calls on a shard run one after the other.
\<close>

section \<open>The limiter\<close>

record bucket =
  tokens :: int
  lastFill :: int
  lastSeen :: int

record limiterShard =
  buckets :: "bytes \<rightharpoonup> bucket"
  checks :: "32 word"

record Limiter =
  shards :: "nat \<Rightarrow> limiterShard"
  lmMax :: int
  lmWindow :: int

definition shardCount :: nat where
  "shardCount = 32"

definition New_Limiter :: "int \<Rightarrow> int \<Rightarrow> Limiter" where
  "New_Limiter n window = \<lparr>shards = (\<lambda>_. \<lparr>buckets = Map.empty, checks = 0\<rparr>), lmMax = n, lmWindow = window\<rparr>"

definition shardIndex :: "bytes \<Rightarrow> nat" where
  "shardIndex key = unat (fold (\<lambda>b (hash :: 32 word). (hash XOR ucast b) * 16777619) key 2166136261) mod shardCount"

definition cleanupShard :: "Limiter \<Rightarrow> int \<Rightarrow> limiterShard \<Rightarrow> limiterShard" where
  "cleanupShard l now shard =
     (let cutoff = now - 10 * lmWindow l
      in shard\<lparr>buckets := (\<lambda>key. case buckets shard key of
           None \<Rightarrow> None | Some b \<Rightarrow> if lastSeen b < cutoff then None else Some b)\<rparr>)"

definition interval :: "Limiter \<Rightarrow> int" where
  "interval l = (let i = lmWindow l div lmMax l in if i \<le> 0 then 1 else i)"

definition refill_bucket :: "Limiter \<Rightarrow> int \<Rightarrow> bucket \<Rightarrow> bucket" where
  "refill_bucket l now b =
     (let refill = (now - lastFill b) div interval l in
      if refill > 0
      then b\<lparr>tokens := (if tokens b + refill > lmMax l then lmMax l else tokens b + refill),
             lastFill := lastFill b + refill * interval l\<rparr>
      else b)"

definition Allow :: "int \<Rightarrow> bytes \<Rightarrow> Limiter \<Rightarrow> bool \<times> Limiter" where
  "Allow now key l =
     (if lmMax l \<le> 0 \<or> lmWindow l \<le> 0 then (False, l)
      else
        let i = shardIndex key; shard = shards l i;
            shard = shard\<lparr>checks := checks shard + 1\<rparr>;
            shard = (if checks shard mod 256 = 0 then cleanupShard l now shard else shard);
            put = (\<lambda>b. l\<lparr>shards := (shards l)(i := shard\<lparr>buckets := (buckets shard)(key \<mapsto> b)\<rparr>)\<rparr>)
        in case buckets shard key of
             None \<Rightarrow> (True, put \<lparr>tokens = lmMax l - 1, lastFill = now, lastSeen = now\<rparr>)
           | Some b \<Rightarrow>
               let b = refill_bucket l now (b\<lparr>lastSeen := now\<rparr>)
               in if tokens b \<le> 0 then (False, put b) else (True, put (b\<lparr>tokens := tokens b - 1\<rparr>)))"

text \<open>A sequence of requests, with the times they come at; the answers in order.\<close>

fun Allow_all :: "(int \<times> bytes) list \<Rightarrow> Limiter \<Rightarrow> bool list \<times> Limiter" where
  "Allow_all [] l = ([], l)"
| "Allow_all ((now, key) # calls) l =
     (case Allow now key l of (a, l) \<Rightarrow> case Allow_all calls l of (rest, l) \<Rightarrow> (a # rest, l))"

text \<open>How many requests of a key were let through.\<close>

definition passed :: "bytes \<Rightarrow> (int \<times> bytes) list \<Rightarrow> bool list \<Rightarrow> int" where
  "passed key calls answers = int (length (filter (\<lambda>((now, k), a). k = key \<and> a) (zip calls answers)))"

section \<open>Credit\<close>

definition bucket_of :: "Limiter \<Rightarrow> bytes \<Rightarrow> bucket option" where
  "bucket_of l key = buckets (shards l (shardIndex key)) key"

text \<open>What a key may still spend, in nanoseconds, at a time.\<close>

definition credit :: "Limiter \<Rightarrow> bytes \<Rightarrow> int \<Rightarrow> int" where
  "credit l key now =
     (case bucket_of l key of
        None \<Rightarrow> lmMax l * interval l
      | Some b \<Rightarrow> min (tokens b * interval l + (now - lastFill b)) (lmMax l * interval l + interval l - 1))"

definition limiter_ok :: "Limiter \<Rightarrow> int \<Rightarrow> bool" where
  "limiter_ok l now \<longleftrightarrow> 0 < lmMax l \<and> 0 < lmWindow l \<and> lmMax l \<le> 10 * lmWindow l \<and>
     (\<forall>key b. bucket_of l key = Some b \<longrightarrow>
        0 \<le> tokens b \<and> tokens b \<le> lmMax l \<and> lastFill b \<le> lastSeen b \<and> lastSeen b \<le> now)"

lemma interval_pos: "0 < interval l"
  by (simp add: interval_def Let_def)

lemma interval_window:
  assumes "0 < lmMax l" "0 < lmWindow l" "lmMax l \<le> 10 * lmWindow l"
  shows "lmMax l * interval l \<le> 10 * lmWindow l"
proof (cases "lmWindow l div lmMax l \<le> 0")
  case False
  have "lmMax l * (lmWindow l div lmMax l) \<le> lmWindow l" by (simp add: minus_mod_eq_mult_div [symmetric] assms(1))
  then show ?thesis using False assms(2) by (simp add: interval_def Let_def)
qed (use assms in \<open>simp add: interval_def Let_def\<close>)

lemma refill_credit:
  fixes l b now
  defines "c \<equiv> refill_bucket l now b"
  assumes "0 \<le> tokens b" "tokens b \<le> lmMax l" "lastFill b \<le> now"
  shows "0 \<le> tokens c" "tokens c \<le> lmMax l" "lastFill c \<le> now" "lastSeen c = lastSeen b"
    and "tokens c * interval l + (now - lastFill c) \<le> min (tokens b * interval l + (now - lastFill b)) (lmMax l * interval l + interval l - 1)"
    and "interval l \<le> now - lastFill b \<Longrightarrow> 0 < lmMax l \<Longrightarrow> 0 < tokens c"
proof -
  let ?I = "interval l" and ?r = "(now - lastFill b) div interval l"
  have I: "0 < ?I" by (rule interval_pos)
  have r: "0 \<le> ?r" "?r * ?I \<le> now - lastFill b" "now - lastFill b - ?r * ?I < ?I"
  proof -
    have m: "(now - lastFill b) mod ?I < ?I" "0 \<le> (now - lastFill b) mod ?I" using I by simp_all
    have e: "?r * ?I = now - lastFill b - (now - lastFill b) mod ?I" by (rule minus_mod_eq_div_mult [symmetric])
    show "0 \<le> ?r" using assms(4) I by (simp add: pos_imp_zdiv_nonneg_iff)
    show "?r * ?I \<le> now - lastFill b" "now - lastFill b - ?r * ?I < ?I" using m by (simp_all only: e)
  qed
  show "0 \<le> tokens c" "tokens c \<le> lmMax l" "lastFill c \<le> now" "lastSeen c = lastSeen b"
    using assms r unfolding c_def refill_bucket_def Let_def by auto
  have eq: "tokens c = min (lmMax l) (tokens b + ?r)" "lastFill c = lastFill b + ?r * ?I"
    using assms r unfolding c_def refill_bucket_def Let_def by auto
  have "tokens c * ?I \<le> (tokens b + ?r) * ?I" by (rule mult_right_mono) (use I eq in auto)
  then have m1: "tokens c * ?I \<le> tokens b * ?I + ?r * ?I" by (simp add: distrib_right)
  have m2: "tokens c * ?I \<le> lmMax l * ?I" by (rule mult_right_mono) (use I eq in auto)
  show "tokens c * ?I + (now - lastFill c) \<le> min (tokens b * ?I + (now - lastFill b)) (lmMax l * ?I + ?I - 1)"
    unfolding eq(2) by (rule min.boundedI) (use m1 m2 r in linarith)+
  show "0 < tokens c" if "?I \<le> now - lastFill b" "0 < lmMax l"
  proof -
    have "0 < ?r" using that(1) I by (simp add: pos_imp_zdiv_pos_iff)
    then show ?thesis using that(2) assms(2) by (simp add: eq(1))
  qed
qed

section \<open>One request\<close>

text \<open>The bucket of a key after the cleanup that a request for another key may do.\<close>

definition kept :: "Limiter \<Rightarrow> int \<Rightarrow> bytes \<Rightarrow> bytes \<Rightarrow> bucket option" where
  "kept l now key k =
     (case bucket_of l k of
        None \<Rightarrow> None
      | Some b \<Rightarrow>
          if shardIndex k = shardIndex key \<and> (checks (shards l (shardIndex key)) + 1) mod 256 = 0 \<and> lastSeen b < now - 10 * lmWindow l
          then None else Some b)"

lemma Allow_eq:
  assumes "0 < lmMax l" "0 < lmWindow l"
  shows "lmMax (snd (Allow now key l)) = lmMax l" "lmWindow (snd (Allow now key l)) = lmWindow l"
    and "k \<noteq> key \<Longrightarrow> bucket_of (snd (Allow now key l)) k = kept l now key k"
    and "kept l now key key = None \<Longrightarrow>
      fst (Allow now key l) \<and> bucket_of (snd (Allow now key l)) key = Some \<lparr>tokens = lmMax l - 1, lastFill = now, lastSeen = now\<rparr>"
    and "kept l now key key = Some b \<Longrightarrow>
      fst (Allow now key l) = (0 < tokens (refill_bucket l now (b\<lparr>lastSeen := now\<rparr>))) \<and>
      bucket_of (snd (Allow now key l)) key = Some (let b = refill_bucket l now (b\<lparr>lastSeen := now\<rparr>)
        in if 0 < tokens b then b\<lparr>tokens := tokens b - 1\<rparr> else b)"
proof -
  let ?s = "(shards l (shardIndex key))\<lparr>checks := checks (shards l (shardIndex key)) + 1\<rparr>"
  define T where "T = (if checks ?s mod 256 = 0 then cleanupShard l now ?s else ?s)"
  have t: "buckets T k = kept l now key k" if "shardIndex k = shardIndex key" for k
    by (simp add: that T_def kept_def bucket_of_def cleanupShard_def Let_def split: option.split)
  have o: "kept l now key k = bucket_of l k" if "shardIndex k \<noteq> shardIndex key" for k
    by (simp add: that kept_def split: option.split)
  define put where "put b = l\<lparr>shards := (shards l)(shardIndex key := T\<lparr>buckets := (buckets T)(key \<mapsto> b)\<rparr>)\<rparr>" for b
  have same: "lmMax (put b) = lmMax l" "lmWindow (put b) = lmWindow l" for b by (simp_all add: put_def)
  have put: "bucket_of (put b) k = (if k = key then Some b else kept l now key k)" for b k
    using t [of k] o [of k] by (auto simp: bucket_of_def put_def)
  have eq: "Allow now key l = (case kept l now key key of
             None \<Rightarrow> (True, put \<lparr>tokens = lmMax l - 1, lastFill = now, lastSeen = now\<rparr>)
           | Some b \<Rightarrow>
               let b = refill_bucket l now (b\<lparr>lastSeen := now\<rparr>)
               in if tokens b \<le> 0 then (False, put b) else (True, put (b\<lparr>tokens := tokens b - 1\<rparr>)))"
    unfolding t [OF refl, symmetric] Allow_def Let_def T_def put_def by (rule if_not_P) (use assms in simp)
  show "lmMax (snd (Allow now key l)) = lmMax l" "lmWindow (snd (Allow now key l)) = lmWindow l"
    unfolding eq by (simp_all add: Let_def same split: option.split)
  show "k \<noteq> key \<Longrightarrow> bucket_of (snd (Allow now key l)) k = kept l now key k"
    unfolding eq by (cases "kept l now key key") (simp_all add: Let_def put)
  show "kept l now key key = None \<Longrightarrow>
      fst (Allow now key l) \<and> bucket_of (snd (Allow now key l)) key = Some \<lparr>tokens = lmMax l - 1, lastFill = now, lastSeen = now\<rparr>"
    unfolding eq by (simp add: put)
  show "kept l now key key = Some b \<Longrightarrow>
      fst (Allow now key l) = (0 < tokens (refill_bucket l now (b\<lparr>lastSeen := now\<rparr>))) \<and>
      bucket_of (snd (Allow now key l)) key = Some (let b = refill_bucket l now (b\<lparr>lastSeen := now\<rparr>)
        in if 0 < tokens b then b\<lparr>tokens := tokens b - 1\<rparr> else b)"
    unfolding eq by (simp add: put Let_def)
qed

text \<open>Time alone adds no more than itself, and a cleanup takes nothing away that is not there.\<close>

definition credit_of :: "Limiter \<Rightarrow> bucket option \<Rightarrow> int \<Rightarrow> int" where
  "credit_of l bo now =
     (case bo of
        None \<Rightarrow> lmMax l * interval l
      | Some b \<Rightarrow> min (tokens b * interval l + (now - lastFill b)) (lmMax l * interval l + interval l - 1))"

lemma credit_of: "credit l k now = credit_of l (bucket_of l k) now"
  by (simp add: credit_def credit_of_def)

lemma kept_credit:
  assumes "limiter_ok l t" "t \<le> now"
  shows "credit_of l (kept l now key k) now \<le> credit l k now"
proof (cases "kept l now key k = bucket_of l k")
  case False
  then obtain b where b: "bucket_of l k = Some b" "kept l now key k = None" "lastSeen b < now - 10 * lmWindow l"
    by (auto simp: kept_def split: option.splits if_splits)
  have "0 \<le> tokens b" "lastFill b \<le> lastSeen b" using assms(1) b(1) by (auto simp: limiter_ok_def)
  moreover have "lmMax l * interval l \<le> 10 * lmWindow l" using assms(1) by (auto simp: limiter_ok_def intro: interval_window)
  moreover have "0 \<le> tokens b * interval l" using calculation(1) interval_pos [of l] by simp
  ultimately have "lmMax l * interval l \<le> tokens b * interval l + (now - lastFill b)" using b(3) by linarith
  then show ?thesis using b interval_pos [of l] by (simp add: credit_of credit_of_def)
qed (simp add: credit_of)

lemma Allow_step:
  assumes ok: "limiter_ok l t" and now: "t \<le> now"
  shows "limiter_ok (snd (Allow now key l)) now" "interval (snd (Allow now key l)) = interval l" "lmMax (snd (Allow now key l)) = lmMax l"
    and "credit (snd (Allow now key l)) k now + (if k = key \<and> fst (Allow now key l) then interval l else 0) \<le> credit l k now"
proof -
  have p: "0 < lmMax l" "0 < lmWindow l" "lmMax l \<le> 10 * lmWindow l" using ok by (auto simp: limiter_ok_def)
  note A = Allow_eq [OF p(1,2)]
  show "interval (snd (Allow now key l)) = interval l" "lmMax (snd (Allow now key l)) = lmMax l" by (simp_all add: interval_def A(1,2))
  note same = this
  have old: "0 \<le> tokens b" "tokens b \<le> lmMax l" "lastFill b \<le> lastSeen b" "lastSeen b \<le> now" if "kept l now key k = Some b" for b k
    using that ok now by (fastforce simp: kept_def limiter_ok_def split: option.splits if_splits)+
  define c where "c b = refill_bucket l now (b\<lparr>lastSeen := now\<rparr>)" for b
  have c: "0 \<le> tokens (c b)" "tokens (c b) \<le> lmMax l" "lastFill (c b) \<le> now" "lastSeen (c b) = now"
      "tokens (c b) * interval l + (now - lastFill (c b)) \<le> credit_of l (Some b) now"
    if "kept l now key k = Some b" for b k
    using refill_credit [of "b\<lparr>lastSeen := now\<rparr>" l now] old [OF that] by (simp_all add: c_def credit_of_def)
  have new: "\<exists>b'. bucket_of (snd (Allow now key l)) key = Some b' \<and> 0 \<le> tokens b' \<and> tokens b' \<le> lmMax l \<and> lastFill b' \<le> lastSeen b' \<and> lastSeen b' = now \<and>
      tokens b' * interval l + (now - lastFill b') + (if fst (Allow now key l) then interval l else 0) \<le> credit_of l (kept l now key key) now"
  proof (cases "kept l now key key")
    case None
    then show ?thesis using A(4) [of now key] p by (simp add: credit_of_def left_diff_distrib)
  next
    case (Some b)
    then show ?thesis using A(5) [OF Some] c [OF Some] by (auto simp: c_def [symmetric] Let_def left_diff_distrib)
  qed
  show "limiter_ok (snd (Allow now key l)) now"
    unfolding limiter_ok_def A(1,2) using p new A(3) old by (metis option.inject order_refl)
  show "credit (snd (Allow now key l)) k now + (if k = key \<and> fst (Allow now key l) then interval l else 0) \<le> credit l k now"
  proof (cases "k = key")
    case True
    obtain b' where b': "bucket_of (snd (Allow now key l)) key = Some b'"
      "tokens b' * interval l + (now - lastFill b') + (if fst (Allow now key l) then interval l else 0) \<le> credit_of l (kept l now key key) now"
      using new by blast
    have "credit (snd (Allow now key l)) key now \<le> tokens b' * interval l + (now - lastFill b')"
      by (simp add: credit_of credit_of_def b'(1) same)
    then show ?thesis using b'(2) kept_credit [OF ok now, of key key] True by simp
  next
    case False
    then show ?thesis using A(3) [of k key now] kept_credit [OF ok now, of key k]
      by (simp add: credit_of credit_of_def same split: option.splits)
  qed
qed

lemma credit_bounds:
  assumes ok: "limiter_ok l t"
  shows "t \<le> now \<Longrightarrow> 0 \<le> credit l k now" "credit l k now \<le> lmMax l * interval l + interval l - 1"
    "t \<le> now \<Longrightarrow> credit l k now \<le> credit l k t + (now - t)"
proof -
  have I: "0 < interval l" "0 \<le> lmMax l * interval l" using ok interval_pos [of l] by (simp_all add: limiter_ok_def)
  have b: "0 \<le> tokens b * interval l" "lastFill b \<le> t" if "bucket_of l k = Some b" for b
    using ok that I(1) by (fastforce simp: limiter_ok_def)+
  show "t \<le> now \<Longrightarrow> 0 \<le> credit l k now" using I b by (fastforce simp: credit_def split: option.split)
  show "credit l k now \<le> lmMax l * interval l + interval l - 1" using I by (auto simp: credit_def min_def split: option.split)
  show "t \<le> now \<Longrightarrow> credit l k now \<le> credit l k t + (now - t)" by (simp add: credit_def min_def split: option.split)
qed

section \<open>Sequences of requests\<close>

text \<open>The times of the requests, not before t and not after u.\<close>

fun timely :: "int \<Rightarrow> (int \<times> bytes) list \<Rightarrow> int \<Rightarrow> bool" where
  "timely t [] u = (t \<le> u)"
| "timely t ((now, key) # calls) u = (t \<le> now \<and> timely now calls u)"

lemma timely_le: "timely t calls u \<Longrightarrow> t \<le> u"
  by (induction t calls u rule: timely.induct) auto

lemma New_Limiter_ok: "0 < n \<Longrightarrow> 0 < window \<Longrightarrow> n \<le> 10 * window \<Longrightarrow> limiter_ok (New_Limiter n window) t"
  by (simp add: limiter_ok_def New_Limiter_def bucket_of_def)

lemma Allow_all_step:
  assumes "limiter_ok l t" "timely t calls u"
  shows "limiter_ok (snd (Allow_all calls l)) u \<and> interval (snd (Allow_all calls l)) = interval l \<and>
    lmMax (snd (Allow_all calls l)) = lmMax l \<and>
    credit (snd (Allow_all calls l)) k u + passed k calls (fst (Allow_all calls l)) * interval l \<le> credit l k t + (u - t)"
  using assms
proof (induction calls arbitrary: l t)
  case Nil
  then show ?case using credit_bounds(3) [of l t u k] by (auto simp: limiter_ok_def passed_def, fastforce+)
next
  case (Cons call calls)
  obtain now key where call: "call = (now, key)" by (cases call)
  have now: "t \<le> now" "timely now calls u" using Cons.prems(2) by (simp_all add: call)
  obtain a m where m: "Allow now key l = (a, m)" by (cases "Allow now key l")
  note s = Allow_step [OF Cons.prems(1) now(1), of key, unfolded m fst_conv snd_conv]
  note r = Cons.IH [OF s(1) now(2)]
  obtain as n where n: "Allow_all calls m = (as, n)" by (cases "Allow_all calls m")
  have "passed k (call # calls) (a # as) = passed k calls as + (if k = key \<and> a then 1 else 0)"
    by (auto simp: passed_def call)
  moreover have "credit m k now + (if k = key \<and> a then interval l else 0) \<le> credit l k t + (now - t)"
    using s(4) [of k] credit_bounds(3) [OF Cons.prems(1) now(1), of k] by linarith
  ultimately show ?case
    using r s(2,3) by (auto simp: call m n distrib_right split: if_splits)
qed


lemma Allow_seen:
  assumes "limiter_ok l t" "t \<le> now" "bucket_of (snd (Allow now key l)) k = Some b"
  shows "lastSeen b = now \<and> k = key \<or> bucket_of l k \<noteq> None \<and> lastSeen (the (bucket_of l k)) = lastSeen b"
proof -
  have p: "0 < lmMax l" "0 < lmWindow l" using assms(1) by (auto simp: limiter_ok_def)
  note A = Allow_eq [OF p]
  show ?thesis
  proof (cases "k = key")
    case True
    have "lastSeen b = now"
      using assms(3) True A(4) [of now key] A(5) [of now key]
      by (cases "kept l now key key") (auto simp: Let_def refill_bucket_def split: if_splits)
    then show ?thesis using True by simp
  next
    case False
    then show ?thesis using assms(3) A(3) [OF False, of now] by (auto simp: kept_def split: option.splits if_splits)
  qed
qed

lemma Allow_spaced:
  assumes "limiter_ok l t" "t \<le> now" "\<And>b. bucket_of l key = Some b \<Longrightarrow> lastSeen b + interval l \<le> now"
  shows "fst (Allow now key l)"
proof -
  have p: "0 < lmMax l" "0 < lmWindow l" using assms(1) by (auto simp: limiter_ok_def)
  note A = Allow_eq [OF p]
  show ?thesis
  proof (cases "kept l now key key")
    case None
    then show ?thesis using A(4) by blast
  next
    case (Some b)
    then have b: "bucket_of l key = Some b" by (auto simp: kept_def split: option.splits if_splits)
    then have "0 \<le> tokens b" "tokens b \<le> lmMax l" "lastFill b \<le> lastSeen b" using assms(1) by (auto simp: limiter_ok_def)
    then have "0 < tokens (refill_bucket l now (b\<lparr>lastSeen := now\<rparr>))"
      using refill_credit(6) [of "b\<lparr>lastSeen := now\<rparr>" l now] assms(3) [OF b] p interval_pos [of l] by simp
    then show ?thesis using A(5) [OF Some] by simp
  qed
qed

lemma Allow_all_seen:
  assumes "limiter_ok l t" "timely t calls now" "list_all (\<lambda>(u, k). k \<noteq> key \<or> u + interval l \<le> now) calls"
    and "\<And>b. bucket_of l key = Some b \<Longrightarrow> lastSeen b + interval l \<le> now"
  shows "bucket_of (snd (Allow_all calls l)) key = Some b \<Longrightarrow> lastSeen b + interval l \<le> now"
  using assms
proof (induction calls arbitrary: l t)
  case (Cons call calls)
  obtain u k where call: "call = (u, k)" by (cases call)
  have u: "t \<le> u" "timely u calls now" using Cons.prems(3) by (simp_all add: call)
  obtain a m where m: "Allow u k l = (a, m)" by (cases "Allow u k l")
  note s = Allow_step [OF Cons.prems(2) u(1), of k, unfolded m fst_conv snd_conv]
  have "lastSeen c + interval m \<le> now" if "bucket_of m key = Some c" for c
    using Allow_seen [OF Cons.prems(2) u(1), of k key c] that Cons.prems(4,5) s(2) by (auto simp: m call)
  then show ?case
    using Cons.IH [OF _ s(1) u(2)] Cons.prems(1,4) s(2) by (simp add: call m split: prod.splits)
qed simp

section \<open>Properties\<close>

text \<open>C14: From any state of a limiter on, at most n requests of a key, and one for each interval begun, pass; whatever the requests
  of other keys are, and although unused buckets are removed and made anew.\<close>

theorem rate_is_bounded:
  assumes "0 < n" "n \<le> 10 * window" "timely s before t" "timely t calls u"
  defines "l \<equiv> snd (Allow_all before (New_Limiter n window))"
  shows "passed key calls (fst (Allow_all calls l)) \<le> n + (u - t + interval l - 1) div interval l"
proof -
  note N = New_Limiter_ok [of n window s]
  have r: "limiter_ok l t" "lmMax l = n"
    using Allow_all_step [OF N assms(3)] assms(1,2) by (simp_all add: l_def New_Limiter_def)
  have I: "0 < interval l" by (rule interval_pos)
  have "passed key calls (fst (Allow_all calls l)) * interval l \<le> credit l key t + (u - t)"
  proof -
    have "0 \<le> credit (snd (Allow_all calls l)) key u"
      using Allow_all_step [OF r(1) assms(4)] credit_bounds(1) by blast
    then show ?thesis using Allow_all_step [OF r(1) assms(4), of key] by linarith
  qed
  then have "passed key calls (fst (Allow_all calls l)) * interval l \<le> u - t + interval l - 1 + n * interval l"
    using credit_bounds(2) [OF r(1), of key t, unfolded r(2)] by linarith
  then have "passed key calls (fst (Allow_all calls l)) * interval l div interval l \<le> (u - t + interval l - 1 + n * interval l) div interval l"
    by (rule zdiv_mono1) (rule I)
  then show ?thesis using I by simp
qed

lemma rate_is_bounded_witness:
  "passed [1] [(0, [1]), (1, [1]), (2, [2]), (3, [1])] (fst (Allow_all [(0, [1]), (1, [1]), (2, [2]), (3, [1])] (New_Limiter 2 100))) \<le> 3"
  using rate_is_bounded [of 2 100 0 "[]" 0 "[(0, [1]), (1, [1]), (2, [2]), (3, [1])]" 3 "[1]"]
  by (simp add: interval_def New_Limiter_def)

text \<open>A client that keeps an interval between its requests is never limited.\<close>

theorem spaced_requests_pass:
  assumes "0 < n" "n \<le> 10 * window" "timely s calls now"
    and "list_all (\<lambda>(u, k). k \<noteq> key \<or> u + interval (New_Limiter n window) \<le> now) calls"
  shows "fst (Allow now key (snd (Allow_all calls (New_Limiter n window))))"
proof -
  have N: "limiter_ok (New_Limiter n window) s" using assms(1,2) by (simp add: New_Limiter_ok)
  note r = Allow_all_step [OF N assms(3)]
  show ?thesis
    by (rule Allow_spaced [of _ now]) (use r Allow_all_seen [OF N assms(3,4)] in \<open>auto simp: New_Limiter_def bucket_of_def\<close>)
qed

lemma spaced_requests_pass_witness: "fst (Allow 60 [1] (snd (Allow_all [(0, [1]), (10, [1]), (20, [2])] (New_Limiter 2 100))))"
  by (rule spaced_requests_pass [of 2 100 0]) (simp_all add: interval_def New_Limiter_def)

end
