(* ===== verification/Envelope.thy ===== *)
theory Envelope
  imports Message Token
begin

text \<open>
  The error envelope of binary responses, pkg/lux/api/protocol.go: an error is a message of up to six fields, written with the
  encoder and read back with the decoder of the wire format. json.Valid is a parameter of the decoder.
\<close>

section \<open>The envelope\<close>

record BinaryError =
  beCode :: goint
  beName :: bytes
  beMessage :: bytes
  beTraceID :: bytes
  beData :: bytes
  beCause :: bytes

datatype envelope_error =
    UnknownErrorField goint | DecodeFailed codec_error | MissingEnd | TrailingBytes | InvalidJSON

definition appendBinaryError :: "bytes \<Rightarrow> BinaryError \<Rightarrow> bytes" where
  "appendBinaryError dst e =
     (let enc = \<lparr>ebuf = []\<rparr>;
          enc = WriteFieldInt 1 (beCode e) enc;
          enc = WriteFieldString 2 (beName e) enc;
          enc = WriteFieldString 3 (beMessage e) enc;
          enc = (if beTraceID e \<noteq> [] then WriteFieldString 4 (beTraceID e) enc else enc);
          enc = (if length (beData e) > 0 then WriteFieldBytes 5 (beData e) enc else enc);
          enc = (if beCause e \<noteq> [] then WriteFieldString 6 (beCause e) enc else enc)
      in dst @ Encoder_Bytes (WriteEnd enc))"

text \<open>The switch on the field; None is an unknown field.\<close>

definition read_error_field :: "BinaryError \<Rightarrow> Decoder \<Rightarrow> (BinaryError \<times> Decoder) option" where
  "read_error_field result d =
     (if FieldID d = 1 then (case dec_ReadInt d of (v, d) \<Rightarrow> Some (result\<lparr>beCode := v\<rparr>, d))
      else if FieldID d = 2 then (case dec_ReadString d of (v, d) \<Rightarrow> Some (result\<lparr>beName := v\<rparr>, d))
      else if FieldID d = 3 then (case dec_ReadString d of (v, d) \<Rightarrow> Some (result\<lparr>beMessage := v\<rparr>, d))
      else if FieldID d = 4 then (case dec_ReadString d of (v, d) \<Rightarrow> Some (result\<lparr>beTraceID := v\<rparr>, d))
      else if FieldID d = 5 then (case dec_ReadBytes d of (v, d) \<Rightarrow> Some (result\<lparr>beData := (case v of None \<Rightarrow> [] | Some v \<Rightarrow> v)\<rparr>, d))
      else if FieldID d = 6 then (case dec_ReadString d of (v, d) \<Rightarrow> Some (result\<lparr>beCause := v\<rparr>, d))
      else None)"

text \<open>The same switch as reading a field of a schema and storing its value.\<close>

definition error_kind :: "goint \<Rightarrow> wire_kind option" where
  "error_kind f =
     (if f = 1 then Some KInt else if f = 5 then Some KBytes else if f = 2 \<or> f = 3 \<or> f = 4 \<or> f = 6 then Some KString else None)"

fun store :: "goint \<times> wire_val \<Rightarrow> BinaryError \<Rightarrow> BinaryError" where
  "store (f, VInt v) e = e\<lparr>beCode := v\<rparr>"
| "store (f, VBytes v) e = e\<lparr>beData := v\<rparr>"
| "store (f, VString v) e =
     (if f = 2 then e\<lparr>beName := v\<rparr> else if f = 3 then e\<lparr>beMessage := v\<rparr> else if f = 4 then e\<lparr>beTraceID := v\<rparr> else e\<lparr>beCause := v\<rparr>)"
| "store _ e = e"

lemma read_error_field_eq:
  "read_error_field result d =
     (case error_kind (FieldID d) of
        None \<Rightarrow> None
      | Some k \<Rightarrow> (case read_field k d of Inr (Some v, d') \<Rightarrow> Some (store (FieldID d, v) result, d') | _ \<Rightarrow> None))"
  by (auto simp: read_error_field_def error_kind_def plain_def split: prod.split option.split)

function error_loop :: "BinaryError \<Rightarrow> Decoder \<Rightarrow> goint + BinaryError \<times> Decoder" where
  "error_loop result d =
     (case NextField d of (found, d1) \<Rightarrow>
        if \<not> found then Inr (result, d1)
        else (case read_error_field result d1 of
            None \<Rightarrow> Inl (FieldID d1)
          | Some (result, d2) \<Rightarrow> error_loop result d2))"
  by pat_completeness auto
termination
proof (relation "measure (\<lambda>(result, d). remaining d)", goal_cases)
  case 1
  show ?case by simp
next
  case (2 result d x d1 r result2 d2)
  then have n: "NextField d = (True, d1)" by auto
  obtain k v where "read_field k d1 = Inr (Some v, d2)"
    using 2 by (auto simp: read_error_field_eq split: option.splits sum.splits prod.splits)
  from remaining_NextField [OF n] remaining_steps [OF read_field_steps [OF this]] show ?case by simp
qed

declare error_loop.simps [simp del]

definition DecodeBinaryError :: "(bytes \<Rightarrow> bool) \<Rightarrow> bytes \<Rightarrow> goint \<Rightarrow> envelope_error + BinaryError" where
  "DecodeBinaryError valid data statusCode =
     (case error_loop \<lparr>beCode = statusCode, beName = lit ''Error'', beMessage = lit ''HTTP '' @ int_text (sint statusCode),
          beTraceID = [], beData = [], beCause = []\<rparr> (NewDecoder data) of
        Inl f \<Rightarrow> Inl (UnknownErrorField f)
      | Inr (result, d) \<Rightarrow>
          (case Decoder_Err d of
             Some e \<Rightarrow> Inl (DecodeFailed e)
           | None \<Rightarrow>
               if FieldID d \<noteq> 0 then Inl MissingEnd
               else if Decoder_Offset d \<noteq> length data then Inl TrailingBytes
               else if length (beData result) > 0 \<and> \<not> valid (beData result) then Inl InvalidJSON
               else Inr result))"

section \<open>Writing\<close>

definition error_fields :: "BinaryError \<Rightarrow> (goint \<times> wire_val) list" where
  "error_fields e =
     [(1, VInt (beCode e)), (2, VString (beName e)), (3, VString (beMessage e))] @
     (if beTraceID e \<noteq> [] then [(4, VString (beTraceID e))] else []) @
     (if beData e \<noteq> [] then [(5, VBytes (beData e))] else []) @
     (if beCause e \<noteq> [] then [(6, VString (beCause e))] else [])"

definition error_ok :: "BinaryError \<Rightarrow> bool" where
  "error_ok e \<longleftrightarrow> list_all len_ok [beName e, beMessage e, beTraceID e, beData e, beCause e]"

lemma appendBinaryError_fields: "appendBinaryError dst e = dst @ encode_message (error_fields e)"
  by (simp add: appendBinaryError_def error_fields_def encode_message_def Let_def)

lemma error_fields_ok: "error_ok e \<Longrightarrow> fields_ok error_kind (error_fields e)"
  by (simp add: error_fields_def fields_ok_def error_kind_def error_ok_def)

lemma store_fields:
  "fold store (error_fields e) \<lparr>beCode = c, beName = n, beMessage = m, beTraceID = [], beData = [], beCause = []\<rparr> = e"
  by (cases e) (simp add: error_fields_def)

section \<open>Reading\<close>

text \<open>The loop is that of a message with the schema error_kind, unless it meets an unknown field.\<close>

lemma error_loop_unmarshal:
  "(\<exists>f. error_loop result d = Inl f) \<or>
   (\<exists>fs d'. unmarshal_loop error_kind acc d = Inr (acc @ fs, d') \<and> error_loop result d = Inr (fold store fs result, d'))"
proof (induction result d arbitrary: acc rule: error_loop.induct)
  case (1 result d)
  obtain found d1 where n: "NextField d = (found, d1)" by (cases "NextField d")
  show ?case
  proof (cases "\<not> found \<or> read_error_field result d1 = None")
    case True
    then show ?thesis using n by (subst (1 2) error_loop.simps, subst unmarshal_loop.simps) auto
  next
    case False
    then obtain r d2 where r: "read_error_field result d1 = Some (r, d2)" by auto
    then obtain k v where k: "error_kind (FieldID d1) = Some k" "read_field k d1 = Inr (Some v, d2)" "r = store (FieldID d1, v) result"
      by (auto simp: read_error_field_eq split: option.splits sum.splits prod.splits)
    have e: "error_loop result d = error_loop r d2" using False n r by (subst error_loop.simps) simp
    have u: "unmarshal_loop error_kind acc d = unmarshal_loop error_kind (acc @ [(FieldID d1, v)]) d2"
      using False n k by (subst unmarshal_loop.simps) simp
    have "(\<exists>f. error_loop r d2 = Inl f) \<or>
       (\<exists>fs d'. unmarshal_loop error_kind (acc @ [(FieldID d1, v)]) d2 = Inr ((acc @ [(FieldID d1, v)]) @ fs, d') \<and>
          error_loop r d2 = Inr (fold store fs r, d'))"
      using "1.IH" [OF n [symmetric] _ r refl, of "acc @ [(FieldID d1, v)]"] False by simp
    then show ?thesis
    proof (elim disjE exE conjE)
      fix fs d'
      assume "unmarshal_loop error_kind (acc @ [(FieldID d1, v)]) d2 = Inr ((acc @ [(FieldID d1, v)]) @ fs, d')"
        "error_loop r d2 = Inr (fold store fs r, d')"
      then show ?thesis unfolding e u k(3) by (intro disjI2 exI [of _ "(FieldID d1, v) # fs"]) simp
    qed (simp add: e)
  qed
qed

text \<open>What is left after the loop over known fields.\<close>

lemma error_loop_enc:
  "derr d = None \<Longrightarrow> fields_ok error_kind fs \<Longrightarrow> doff d \<le> length (dbuf d) \<Longrightarrow>
   drop (doff d) (dbuf d) = concat (map field_enc fs) @ 0 # rest \<Longrightarrow>
   \<exists>d'. error_loop result d = Inr (fold store fs result, d') \<and> derr d' = None \<and> dfieldID d' = 0 \<and> doff d' + length rest = length (dbuf d)"
proof (induction fs arbitrary: result d)
  case Nil
  then have "NextField d = (False, (dec_skip 1 d)\<lparr>dfieldID := 0\<rparr>)"
    using NextField_enc [of d 0 rest] by (simp add: AppendVarint_unfold)
  moreover have "length (dbuf d) = doff d + 1 + length rest" using drop_eq_lengthD [OF Nil.prems(4)] by simp
  ultimately show ?case using Nil by (subst error_loop.simps) (simp add: dec_skip_def)
next
  case (Cons fv fs)
  obtain f v where fv: "fv = (f, v)" by (cases fv)
  have ok: "f \<noteq> 0" "error_kind f = Some (kind_of v)" "val_ok v" using Cons.prems fv by (simp_all add: fields_ok_def)
  let ?d1 = "(dec_skip (int (length (AppendVarint [] f))) d)\<lparr>dfieldID := f\<rparr>" and ?d = "(dec_skip (int (length (field_enc fv))) d)\<lparr>dfieldID := f\<rparr>"
  have d: "drop (doff d) (dbuf d) = field_enc fv @ concat (map field_enc fs) @ 0 # rest" using Cons.prems by simp
  then have d0: "drop (doff d) (dbuf d) = AppendVarint [] f @ val_enc v @ concat (map field_enc fs) @ 0 # rest"
    by (simp add: field_enc_def fv)
  have "read_field (kind_of v) ?d1 = Inr (Some v, dec_skip (int (length (val_enc v))) ?d1)"
    using drop_dec_skip [OF d0] Cons.prems(1) ok by (intro read_field_enc [of v ?d1 "concat (map field_enc fs) @ 0 # rest"]) simp_all
  moreover have "dec_skip (int (length (val_enc v))) ?d1 = ?d" by (simp add: dec_skip_def field_enc_def fv nat_add_distrib)
  ultimately have "read_error_field result ?d1 = Some (store fv result, ?d)"
    using ok by (simp add: read_error_field_eq FieldID_def fv)
  then have e: "error_loop result d = error_loop (store fv result) ?d"
    using NextField_enc [OF Cons.prems(1) d0] ok(1) by (subst error_loop.simps) simp
  have "drop (doff ?d) (dbuf ?d) = concat (map field_enc fs) @ 0 # rest" using drop_dec_skip [OF d] by simp
  moreover have "doff ?d \<le> length (dbuf ?d)" using drop_eq_append_le [OF d Cons.prems(3)] by (simp add: dec_skip_def)
  ultimately show ?case
    using Cons.IH [of ?d "store fv result"] Cons.prems(1,2) by (simp add: e fields_ok_def dec_skip_def)
qed

section \<open>Properties\<close>

text \<open>C15: An error that is written into an envelope is read back as it was, whatever status the response has.\<close>

theorem error_roundtrip:
  assumes "error_ok e" "beData e = [] \<or> valid (beData e)"
  shows "DecodeBinaryError valid (appendBinaryError [] e) statusCode = Inr e"
proof -
  have d: "drop 0 (appendBinaryError [] e) = concat (map field_enc (error_fields e)) @ 0 # []"
    by (simp add: appendBinaryError_fields encode_message_bytes)
  let ?r = "\<lparr>beCode = statusCode, beName = lit ''Error'', beMessage = lit ''HTTP '' @ int_text (sint statusCode),
          beTraceID = [], beData = [], beCause = []\<rparr>"
  obtain d' where "error_loop ?r (NewDecoder (appendBinaryError [] e)) = Inr (e, d')" "derr d' = None" "dfieldID d' = 0"
      "doff d' = length (appendBinaryError [] e)"
    using error_loop_enc [of "NewDecoder (appendBinaryError [] e)" "error_fields e" "[]" ?r] error_fields_ok [OF assms(1)] d
    by (auto simp: NewDecoder_def store_fields)
  then show ?thesis
    using assms(2) by (auto simp: DecodeBinaryError_def Decoder_Err_def FieldID_def Decoder_Offset_def)
qed

lemma error_roundtrip_witness:
  "DecodeBinaryError (\<lambda>_. True) (appendBinaryError [] \<lparr>beCode = 404, beName = [78], beMessage = [], beTraceID = [], beData = [123, 125], beCause = [67]\<rparr>) 500 =
   Inr \<lparr>beCode = 404, beName = [78], beMessage = [], beTraceID = [], beData = [123, 125], beCause = [67]\<rparr>"
  by (rule error_roundtrip) (simp_all add: error_ok_def len_ok_def max_len_def)

text \<open>An envelope that was cut or that has bytes after its end is rejected.\<close>

theorem error_envelope_is_exact:
  assumes "error_ok e" "x = take k (appendBinaryError [] e) \<and> k < length (appendBinaryError [] e) \<or> x = appendBinaryError [] e @ rest \<and> rest \<noteq> []"
  shows "\<exists>err. DecodeBinaryError valid x statusCode = Inl err"
  using assms(2)
proof
  let ?r = "\<lparr>beCode = statusCode, beName = lit ''Error'', beMessage = lit ''HTTP '' @ int_text (sint statusCode),
          beTraceID = [], beData = [], beCause = []\<rparr>"
  assume cut: "x = take k (appendBinaryError [] e) \<and> k < length (appendBinaryError [] e)"
  have "\<exists>fs' d'. unmarshal_loop error_kind [] (NewDecoder x) = Inr (fs', d') \<and> derr d' \<noteq> None"
    using unmarshal_loop_truncated [of "NewDecoder x" error_kind "error_fields e" k "[]"] error_fields_ok [OF assms(1)] cut
    by (simp add: NewDecoder_def appendBinaryError_fields encode_message_bytes)
  then show ?thesis
    using error_loop_unmarshal [of ?r "NewDecoder x" "[]"] by (auto simp: DecodeBinaryError_def Decoder_Err_def)
next
  let ?r = "\<lparr>beCode = statusCode, beName = lit ''Error'', beMessage = lit ''HTTP '' @ int_text (sint statusCode),
          beTraceID = [], beData = [], beCause = []\<rparr>"
  assume long: "x = appendBinaryError [] e @ rest \<and> rest \<noteq> []"
  then have d: "drop 0 x = concat (map field_enc (error_fields e)) @ 0 # rest"
    by (simp add: appendBinaryError_fields encode_message_bytes)
  obtain d' where "error_loop ?r (NewDecoder x) = Inr (fold store (error_fields e) ?r, d')" "derr d' = None" "dfieldID d' = 0"
      "doff d' + length rest = length x"
    using error_loop_enc [of "NewDecoder x" "error_fields e" rest ?r] error_fields_ok [OF assms(1)] d
    by (auto simp: NewDecoder_def)
  then show ?thesis
    using long by (auto simp: DecodeBinaryError_def Decoder_Err_def FieldID_def Decoder_Offset_def)
qed

lemma error_envelope_is_exact_witness:
  "\<exists>err. DecodeBinaryError (\<lambda>_. True) (appendBinaryError [] \<lparr>beCode = 1, beName = [], beMessage = [], beTraceID = [], beData = [], beCause = []\<rparr> @ [0]) 500 = Inl err"
  by (rule error_envelope_is_exact [where k = 0 and rest = "[0]"
        and e = "\<lparr>beCode = 1, beName = [], beMessage = [], beTraceID = [], beData = [], beCause = []\<rparr>"]) (simp_all add: error_ok_def len_ok_def max_len_def)

end
