(* ===== verification/Spec2Isabelle.thy ===== *)
theory Spec2Isabelle
  imports Message Columns Masks Federation Lexing Calls Pool Printing Locking Loader Ratelimit Envelope
begin

text \<open>
  Luxo: a language for services (.luxo files), its compiler, and the run time of the services it generates.

  \<^bold>\<open>The program.\<close> A source is split into tokens (pkg/token, pkg/lexer) and parsed into a syntax tree (pkg/parser,
  pkg/ast). The compiler gives every field, parameter and API of the tree a number that never changes and keeps
  the numbers in a lock file (pkg/lockfile). Generated services speak a binary protocol (pkg/lux/codec) in
  which these numbers stand for names: a message is a sequence of numbered fields, a list is a columnar
  message, and a client asks for fields with masks, which a textual selection
  (pkg/lux/selection) is turned into. Services call each other over framed TCP (pkg/lux/rpc) with pooled connections; a
  gateway (pkg/lux/luvia) splits a query over the services that own its fields and merges what they answer, reading
  the schema of each (pkg/lux/schema). Inside a service, data loaders (pkg/lux/dataloader) join
  concurrent lookups, limiters (pkg/lux/ratelimit) bound the rate of clients, and errors and strings
  are written into responses (pkg/lux/api, pkg/lux/str).

  \<^bold>\<open>Theories and sources.\<close> In every theory the definitions have the names of the code, with the receiver in front where a name
  is taken twice or belongs to HOL (Encoder_Reset, Type_String, parser_match). State is a record with the fields of
  the struct, returned updated; errors are the left side of a sum; what panics is an outcome of its own.

  \<^item> Prelude: bytes and Go's integers as words, the collections of rewrite rules, facts on lists.
  \<^item> Wire, Encoder, Decoder, Message: pkg/lux/codec/wire.go, encoder.go, decoder.go and the loop over fields that
    codegen/event.go generates. Locales: wire_format (a pair of an Append and a Read function), field_reader and array_reader
    (what the message level needs of a Read method), each interpreted for every type. Message states whole messages: round trip,
    truncation, totality, skipping, strings in an arena.
  \<^item> Columnar, Columns: pkg/lux/codec/columnar.go; locale column_item, interpreted for the twelve column types; whole
    columnar messages and what is left of one that was cut.
  \<^item> Masks: fieldmask.go and selectionmask.go.
  \<^item> Schema, Federation: pkg/lux/schema/schema.go as far as the gateway reads it, pkg/lux/luvia/planner.go and merger.go: keys found in
    a response that is only skipped through, merging of rows and columns, plans.
  \<^item> Token, Utf8, Lexer, Lexing: pkg/token/token.go and pkg/lexer/lexer.go; Lexing has what holds of a whole source.
  \<^item> Ast, Parser, Parsing, Complete, Walk, Printing: pkg/ast and pkg/parser. Parsing carries a measure of tokens left and errors reported
    through every function of the parser by weakest preconditions; Complete carries the completeness of trees in the same way;
    Walk is the traversal of bodies and the derived operations of crud.go and pagination.go; Printing is a printer of expressions with
    the fewest parentheses, the reference for precedence and associativity.
  \<^item> Lockfile, Numbers, Locking: pkg/lockfile/lockfile.go and compatibility.go. Locale ledger: names have numbers, and a number that
    was given once is never given to another name; interpreted for the fields of one declaration, for the parameters of an API and for
    the table of APIs. Locking has histories of updates and reloads, and the comparison with the sources.
  \<^item> Frame, Rpc, Calls, Pool: pkg/lux/rpc/frame.go, client.go, server.go and pool.go. Calls states that a remote call is the local
    call, and a subscription the stream; Pool is a state machine of threads that stand at the statements of the code.
  \<^item> Selection, Loader: pkg/lux/selection/selection.go and pkg/lux/dataloader/loader.go, the latter a state machine of callers,
    timers and dispatching goroutines.
  \<^item> Strings, Envelope, Ratelimit: pkg/lux/str/str.go and the JSON strings of pkg/lux/api/buf.go; the error envelope of
    pkg/lux/api/protocol.go; pkg/lux/ratelimit/ratelimit.go.

  \<^bold>\<open>How they meet.\<close> Numbers come from the lock file; Message and Columns are what Federation reads and
  merges, with the masks of Masks; Rpc carries Message's bytes in the frames of Frame; Envelope is a message; the
  walk of Walk is the one the lock file takes over bodies, and Complete shows that after a parse without errors it never meets a
  nil expression, so that an update returns; Loader merges the selections of Selection. The theorem about two components is in the
  theory of the later one.

  \<^bold>\<open>Bounds and fuel.\<close> Integers of the wire are 64-bit words; lengths, offsets and counts are naturals once the code has
  checked them, and a count that is negative as int is a panic of make where the code does not check it. The parser's
  knot is tied for as many entries as there are tokens, plus one, and each of its loops is allowed as many rounds; Parsing shows that neither
  runs out (Parse_returns). Skipping a nested row has five calls for each byte left, and five more; skip_row_fuel shows that they are enough. A
  selection is parsed with twice its length and two calls; Selection_Parse_returns shows that they are enough. All other loops
  terminate by a measure.

  \<^bold>\<open>Parameters.\<close> The tables of the package unicode (letters, cases), json.Valid, the router and handlers of a server, the
  batch function of a loader, the decoding of trace snapshots and the clock are arguments of the definitions that use them.

  \<^bold>\<open>Not modelled.\<close> The generators of Go text (pkg/codegen apart from the event loop), the semantic analyzer, the formatter and the language
  server: they are large traversals of the tree whose results are texts or diagnostics. The drivers of databases,
  caches, brokers, HTTP and WebSocket: they are calls of libraries that are not in the repository. JSON texts other than
  strings. The manifest lists every part with its reason.
\<close>

end
